(* ===== verification/Prelude.thy ===== *)
theory Prelude
  imports Main "HOL-Library.Word" "HOL-Library.Monad_Syntax"
begin

text \<open>
  Shared vocabulary of the development: machine integers, the memory accesses of C
  arrays, byte order, and the generic lemmas the components rely on.

  The data model is the one of the 32-bit little-endian targets of the program:
  \<open>uint8_t\<close>, \<open>uint16_t\<close>, \<open>uint32_t\<close> and \<open>unsigned long\<close> are words of 8, 16, 32 and 32
  bits. A C array is a list. An access outside of an array is undefined behaviour in C;
  it is the value \<open>None\<close> here, and \<open>Option.bind\<close> (the \<open>do\<close> notation) propagates it, so a
  theorem that an operation returns \<open>Some\<close> is a memory-safety theorem.
\<close>

unbundle bit_operations_syntax

section \<open>Machine integers and arrays\<close>

type_synonym byte = "8 word"
type_synonym u16 = "16 word"
type_synonym u32 = "32 word"
type_synonym bytes = "byte list"

text \<open>Facts on array accesses, used by the simplifier on request.\<close>

named_theorems mem_simps

definition rd :: "'a list \<Rightarrow> nat \<Rightarrow> 'a option" where
  "rd xs i = (if i < length xs then Some (xs ! i) else None)"

definition wr :: "'a list \<Rightarrow> nat \<Rightarrow> 'a \<Rightarrow> 'a list option" where
  "wr xs i v = (if i < length xs then Some (xs[i := v]) else None)"

text \<open>The source of a \<open>memcpy\<close> of \<open>n\<close> bytes, and its destination.\<close>

definition rd_range :: "'a list \<Rightarrow> nat \<Rightarrow> nat \<Rightarrow> 'a list option" where
  "rd_range xs off n = (if off + n \<le> length xs then Some (take n (drop off xs)) else None)"

definition wr_range :: "'a list \<Rightarrow> nat \<Rightarrow> 'a list \<Rightarrow> 'a list option" where
  "wr_range dst off src =
     (if off + length src \<le> length dst
      then Some (take off dst @ src @ drop (off + length src) dst) else None)"

lemma rd_eq_Some_iff: "rd xs i = Some v \<longleftrightarrow> i < length xs \<and> xs ! i = v"
  by (auto simp: rd_def)

lemma rd_in_bounds [mem_simps]: "i < length xs \<Longrightarrow> rd xs i = Some (xs ! i)"
  by (simp add: rd_def)

lemma rd_out_of_bounds [mem_simps]: "length xs \<le> i \<Longrightarrow> rd xs i = None"
  by (simp add: rd_def)

lemma rd_eq_None_iff: "rd xs i = None \<longleftrightarrow> length xs \<le> i"
  by (auto simp: rd_def)

lemma rd_append_left [simp]: "i < length xs \<Longrightarrow> rd (xs @ ys) i = rd xs i"
  by (simp add: rd_def nth_append)

lemma rd_append_right [simp]: "rd (xs @ ys) (length xs + i) = rd ys i"
  by (simp add: rd_def nth_append)

lemma rd_append_at [simp]: "rd (xs @ y # ys) (length xs) = Some y"
  by (simp add: rd_def nth_append)

lemma rd_Cons_0 [simp]: "rd (x # xs) 0 = Some x"
  by (simp add: rd_def)

lemma rd_Cons_Suc [simp]: "rd (x # xs) (Suc i) = rd xs i"
  by (simp add: rd_def)

lemma rd_range_length: "rd_range xs off n = Some ys \<Longrightarrow> length ys = n"
  by (auto simp: rd_range_def split: if_splits)

lemma rd_range_append [simp]:
  "length ys = n \<Longrightarrow> rd_range (xs @ ys @ zs) (length xs) n = Some ys"
  by (simp add: rd_range_def)

lemma wr_range_length: "wr_range dst off src = Some dst' \<Longrightarrow> length dst' = length dst"
  by (auto simp: wr_range_def split: if_splits)

lemma wr_length: "wr xs i v = Some xs' \<Longrightarrow> length xs' = length xs"
  by (auto simp: wr_def split: if_splits)

lemma wr_append [simp]: "wr (xs @ y # ys) (length xs) v = Some (xs @ v # ys)"
  by (simp add: wr_def)

lemma wr_range_append [simp]:
  "length ys = length src \<Longrightarrow> wr_range (xs @ ys @ zs) (length xs) src = Some (xs @ src @ zs)"
  by (simp add: wr_range_def)

section \<open>Byte order\<close>

text \<open>
  The image of a word in memory is little-endian. \<open>ntohl\<close> and \<open>htonl\<close> are the same byte
  swap on such a host, and likewise \<open>ntohs\<close> and \<open>htons\<close>.
\<close>

definition u16_of_le :: "byte \<Rightarrow> byte \<Rightarrow> u16" where
  "u16_of_le a b = ucast a OR push_bit 8 (ucast b)"

definition u32_of_le :: "byte \<Rightarrow> byte \<Rightarrow> byte \<Rightarrow> byte \<Rightarrow> u32" where
  "u32_of_le a b c d =
     ucast a OR push_bit 8 (ucast b) OR push_bit 16 (ucast c) OR push_bit 24 (ucast d)"

definition le16 :: "u16 \<Rightarrow> bytes" where
  "le16 w = [ucast w, ucast (drop_bit 8 w)]"

definition le32 :: "u32 \<Rightarrow> bytes" where
  "le32 w = [ucast w, ucast (drop_bit 8 w), ucast (drop_bit 16 w), ucast (drop_bit 24 w)]"

definition load16 :: "bytes \<Rightarrow> nat \<Rightarrow> u16 option" where
  "load16 m off = do { a \<leftarrow> rd m off; b \<leftarrow> rd m (off + 1); Some (u16_of_le a b) }"

definition load32 :: "bytes \<Rightarrow> nat \<Rightarrow> u32 option" where
  "load32 m off = do {
     a \<leftarrow> rd m off; b \<leftarrow> rd m (off + 1); c \<leftarrow> rd m (off + 2); d \<leftarrow> rd m (off + 3);
     Some (u32_of_le a b c d) }"

definition ntohs :: "u16 \<Rightarrow> u16" where
  "ntohs w = u16_of_le (ucast (drop_bit 8 w)) (ucast w)"

definition ntohl :: "u32 \<Rightarrow> u32" where
  "ntohl w = u32_of_le (ucast (drop_bit 24 w)) (ucast (drop_bit 16 w))
     (ucast (drop_bit 8 w)) (ucast w)"

abbreviation htons :: "u16 \<Rightarrow> u16" where "htons \<equiv> ntohs"

abbreviation htonl :: "u32 \<Rightarrow> u32" where "htonl \<equiv> ntohl"

lemma bytes_of_u32_of_le [simp]:
  "ucast (u32_of_le a b c d) = a"
  "ucast (drop_bit 8 (u32_of_le a b c d)) = b"
  "ucast (drop_bit 16 (u32_of_le a b c d)) = c"
  "ucast (drop_bit 24 (u32_of_le a b c d)) = d"
  by (simp_all add: u32_of_le_def bit_eq_iff bit_simps) (auto dest: bit_imp_le_length)

lemma bytes_of_u16_of_le [simp]:
  "ucast (u16_of_le a b) = a"
  "ucast (drop_bit 8 (u16_of_le a b)) = b"
  by (simp_all add: u16_of_le_def bit_eq_iff bit_simps) (auto dest: bit_imp_le_length)

lemma u32_of_le_bytes [simp]:
  "u32_of_le (ucast w) (ucast (drop_bit 8 w)) (ucast (drop_bit 16 w)) (ucast (drop_bit 24 w)) = w"
proof (rule bit_word_eqI)
  fix n assume "n < LENGTH(32)"
  then consider "n < 8" | "8 \<le> n" "n < 16" | "16 \<le> n" "n < 24" | "24 \<le> n" "n < 32"
    by fastforce
  then show "bit (u32_of_le (ucast w) (ucast (drop_bit 8 w)) (ucast (drop_bit 16 w))
     (ucast (drop_bit 24 w))) n = bit w n"
    by cases (auto simp: u32_of_le_def bit_simps)
qed

lemma u16_of_le_bytes [simp]: "u16_of_le (ucast w) (ucast (drop_bit 8 w)) = w"
proof (rule bit_word_eqI)
  fix n assume "n < LENGTH(16)"
  then consider "n < 8" | "8 \<le> n" "n < 16"
    by fastforce
  then show "bit (u16_of_le (ucast w) (ucast (drop_bit 8 w))) n = bit w n"
    by cases (auto simp: u16_of_le_def bit_simps)
qed

lemma ntohl_ntohl [simp]: "ntohl (ntohl w) = w"
  by (simp add: ntohl_def)

lemma ntohs_ntohs [simp]: "ntohs (ntohs w) = w"
  by (simp add: ntohs_def)

lemma ntohl_inject [simp]: "ntohl v = ntohl w \<longleftrightarrow> v = w"
  by (metis ntohl_ntohl)

lemma length_le [simp]: "length (le16 h) = 2" "length (le32 w) = 4"
  by (simp_all add: le16_def le32_def)

lemma load32_le32 [simp]: "load32 (xs @ le32 w @ ys) (length xs) = Some w"
  by (simp add: load32_def le32_def rd_def nth_append)

lemma load32_le32_start [simp]: "load32 (le32 w @ ys) 0 = Some w"
  using load32_le32 [of "[]"] by simp

lemma load16_le16 [simp]: "load16 (xs @ le16 w @ ys) (length xs) = Some w"
  by (simp add: load16_def le16_def rd_def nth_append)

lemma load32_in_bounds: "off + 4 \<le> length m \<Longrightarrow> \<exists>w. load32 m off = Some w"
  by (simp add: load32_def mem_simps)

lemma load32_None_iff: "load32 m off = None \<longleftrightarrow> length m < off + 4"
  by (auto simp: load32_def rd_def)

section \<open>Words and counters\<close>

lemma unat_of_nat_byte: "n < 256 \<Longrightarrow> unat (of_nat n :: byte) = n"
  by (simp add: unat_of_nat)

lemma of_nat_unat_byte [simp]: "of_nat (unat (b :: byte)) = b"
  by simp

lemma unat_byte_bound [simp]: "unat (b :: byte) < 256"
  using unsigned_less [of b] by simp

lemma unat_byte_le [simp]: "unat (b :: byte) \<le> 255"
  using unat_byte_bound [of b] by linarith

lemma unat_u16_le [simp]: "unat (h :: u16) \<le> 65535"
proof -
  have "unat h < 2 ^ LENGTH(16)" by (rule unsigned_less)
  then show ?thesis by simp
qed

lemma unat_not_u16: "unat (NOT (h :: u16)) = 65535 - unat h"
proof -
  have "NOT h = - 1 - h" by (simp add: not_eq_complement)
  moreover have "h \<le> - 1" by simp
  ultimately show ?thesis by (simp add: unat_sub unsigned_minus_1_eq_mask mask_eq_exp_minus_1)
qed

lemma unat_plus_1: "(w :: u32) \<noteq> - 1 \<Longrightarrow> unat (w + 1) = unat w + 1"
  using unatSuc [of w] by (simp add: add_eq_0_iff add.commute)

lemma word_le_cases_succ:
  assumes "(w :: u32) \<noteq> - 1" "w \<le> a"
  shows "a = w \<or> w + 1 \<le> a"
proof -
  have "unat a = unat w \<or> unat (w + 1) \<le> unat a"
    using assms by (auto simp: word_le_nat_alt unat_plus_1)
  then show ?thesis by (metis unsigned_word_eqI word_le_nat_alt)
qed

section \<open>Loops over a list that may fail\<close>

fun foldM :: "('s \<Rightarrow> 'a \<Rightarrow> 's option) \<Rightarrow> 's \<Rightarrow> 'a list \<Rightarrow> 's option" where
  "foldM f s [] = Some s"
| "foldM f s (x # xs) = do { s' \<leftarrow> f s x; foldM f s' xs }"

text \<open>
  A loop whose body always succeeds under an abstraction relation, and tracks an abstract
  step, succeeds and tracks the abstract loop.
\<close>

lemma foldM_refines:
  assumes "R s a" and "\<And>s a x. x \<in> set xs \<Longrightarrow> R s a \<Longrightarrow> \<exists>s'. f s x = Some s' \<and> R s' (g a x)"
  shows "\<exists>s'. foldM f s xs = Some s' \<and> R s' (foldl g a xs)"
  using assms
proof (induction xs arbitrary: s a)
  case Nil
  then show ?case by simp
next
  case (Cons x xs)
  then obtain s1 where s1: "f s x = Some s1" "R s1 (g a x)" by fastforce
  have "\<exists>s'. foldM f s1 xs = Some s' \<and> R s' (foldl g (g a x) xs)"
    using s1(2) Cons.prems(2) by (intro Cons.IH) auto
  with s1 show ?case by auto
qed

lemma foldM_total:
  "(\<And>s x. x \<in> set xs \<Longrightarrow> f s x = Some (g s x)) \<Longrightarrow> foldM f s xs = Some (foldl g s xs)"
  by (induction xs arbitrary: s) simp_all

lemma foldM_cong:
  "(\<And>s x. x \<in> set xs \<Longrightarrow> f s x = g s x) \<Longrightarrow> foldM f s xs = foldM g s xs"
  by (induction xs arbitrary: s) (auto intro: Option.bind_cong)

lemma foldM_append: "foldM f s (xs @ ys) = foldM f s xs \<bind> (\<lambda>s. foldM f s ys)"
  by (induction xs arbitrary: s) (simp_all add: Option.bind_assoc)

lemma foldM_concat: "foldM f s (concat xss) = foldM (foldM f) s xss"
  by (induction xss arbitrary: s) (simp_all add: foldM_append)

lemma foldl_concat: "foldl f s (concat xss) = foldl (foldl f) s xss"
  by (induction xss arbitrary: s) simp_all

lemma foldM_map: "foldM f s (map g xs) = foldM (\<lambda>s x. f s (g x)) s xs"
  by (induction xs arbitrary: s) simp_all

section \<open>Results with errors\<close>

text \<open>A result is \<open>Inl\<close> of an error or \<open>Inr\<close> of a value; an error ends the computation.\<close>

definition bind_res :: "'e + 'a \<Rightarrow> ('a \<Rightarrow> 'e + 'b) \<Rightarrow> 'e + 'b" where
  "bind_res m f = (case m of Inl e \<Rightarrow> Inl e | Inr x \<Rightarrow> f x)"

lemma bind_res_simps [simp]:
  "bind_res (Inl e) f = Inl e" "bind_res (Inr x) f = f x"
  by (simp_all add: bind_res_def)

lemma bind_res_assoc: "bind_res (bind_res m f) g = bind_res m (\<lambda>x. bind_res (f x) g)"
  by (simp add: bind_res_def split: sum.split)

lemma bind_res_Inr [simp]: "bind_res m Inr = m"
  by (simp add: bind_res_def split: sum.split)

lemma bind_res_cong [fundef_cong]:
  "m = m' \<Longrightarrow> (\<And>x. m' = Inr x \<Longrightarrow> f x = f' x) \<Longrightarrow> bind_res m f = bind_res m' f'"
  by (simp add: bind_res_def split: sum.split)

lemma bind_res_eq_Inr: "bind_res m f = Inr y \<longleftrightarrow> (\<exists>x. m = Inr x \<and> f x = Inr y)"
  by (simp add: bind_res_def split: sum.split)

end
