(* ===== verification/Udhcp_Options.thy ===== *)
theory Udhcp_Options
  imports Prelude
begin

text \<open>
  The DHCP message (\<open>packet.h\<close>) and the option tools of \<open>options.c\<close>: the table of
  known options, the search \<open>get_option\<close> through the option, file and sname fields, and
  the writers \<open>end_option\<close>, \<open>add_option_string\<close> and \<open>add_simple_option\<close>. The abstract
  view of an option field is the list of its (code, data) pairs (\<open>holds\<close>); the writers
  append to that list and \<open>get_option\<close> looks a code up in it.
\<close>

section \<open>Data\<close>

record dhcpMessage =
  msg_op :: byte
  htype :: byte
  hlen :: byte
  hops :: byte
  xid :: u32
  secs :: u16
  flags :: u16
  ciaddr :: u32
  yiaddr :: u32
  siaddr :: u32
  giaddr :: u32
  chaddr :: bytes
  sname :: bytes
  bfile :: bytes
  cookie :: u32
  options :: bytes

text \<open>The lengths of the arrays of the struct.\<close>

definition msg_wf :: "dhcpMessage \<Rightarrow> bool" where
  "msg_wf p \<longleftrightarrow> length (chaddr p) = 16 \<and> length (sname p) = 64 \<and>
     length (bfile p) = 128 \<and> length (options p) = 308"

definition DHCP_PADDING :: byte where "DHCP_PADDING = 0x00"
definition DHCP_SUBNET :: byte where "DHCP_SUBNET = 0x01"
definition DHCP_HOST_NAME :: byte where "DHCP_HOST_NAME = 0x0c"
definition DHCP_REQUESTED_IP :: byte where "DHCP_REQUESTED_IP = 0x32"
definition DHCP_LEASE_TIME :: byte where "DHCP_LEASE_TIME = 0x33"
definition DHCP_OPTION_OVER :: byte where "DHCP_OPTION_OVER = 0x34"
definition DHCP_MESSAGE_TYPE :: byte where "DHCP_MESSAGE_TYPE = 0x35"
definition DHCP_SERVER_ID :: byte where "DHCP_SERVER_ID = 0x36"
definition DHCP_PARAM_REQ :: byte where "DHCP_PARAM_REQ = 0x37"
definition DHCP_VENDOR :: byte where "DHCP_VENDOR = 0x3c"
definition DHCP_CLIENT_ID :: byte where "DHCP_CLIENT_ID = 0x3d"
definition DHCP_FQDN :: byte where "DHCP_FQDN = 0x51"
definition DHCP_VENDOROPTS :: byte where "DHCP_VENDOROPTS = 0x7d"
definition DHCP_END :: byte where "DHCP_END = 0xFF"

lemmas dhcp_code_defs = DHCP_PADDING_def DHCP_SUBNET_def DHCP_HOST_NAME_def
  DHCP_REQUESTED_IP_def DHCP_LEASE_TIME_def DHCP_OPTION_OVER_def DHCP_MESSAGE_TYPE_def
  DHCP_SERVER_ID_def DHCP_PARAM_REQ_def DHCP_VENDOR_def DHCP_CLIENT_ID_def DHCP_FQDN_def
  DHCP_VENDOROPTS_def DHCP_END_def

text \<open>Option types (the low four bits of the flags) and the flag bits.\<close>

definition OPTION_IP :: nat where "OPTION_IP = 1"
definition OPTION_IP_PAIR :: nat where "OPTION_IP_PAIR = 2"
definition OPTION_STRING :: nat where "OPTION_STRING = 3"
definition OPTION_BOOLEAN :: nat where "OPTION_BOOLEAN = 4"
definition OPTION_U8 :: nat where "OPTION_U8 = 5"
definition OPTION_U16 :: nat where "OPTION_U16 = 6"
definition OPTION_S16 :: nat where "OPTION_S16 = 7"
definition OPTION_U32 :: nat where "OPTION_U32 = 8"
definition OPTION_S32 :: nat where "OPTION_S32 = 9"
definition OPTION_REQ :: nat where "OPTION_REQ = 0x10"
definition OPTION_LIST :: nat where "OPTION_LIST = 0x20"
definition TYPE_MASK :: nat where "TYPE_MASK = 0x0F"

lemmas option_type_defs = OPTION_IP_def OPTION_IP_PAIR_def OPTION_STRING_def
  OPTION_BOOLEAN_def OPTION_U8_def OPTION_U16_def OPTION_S16_def OPTION_U32_def
  OPTION_S32_def OPTION_REQ_def OPTION_LIST_def TYPE_MASK_def

record dhcp_option =
  oname :: string
  oflags :: nat
  ocode :: byte

definition dhcp_options :: "dhcp_option list" where
  "dhcp_options = map (\<lambda>(n, f, c). \<lparr>oname = n, oflags = f, ocode = c\<rparr>) [
     (''subnet'',    OPTION_IP OR OPTION_REQ,                0x01),
     (''timezone'',  OPTION_S32 OR OPTION_REQ,               0x02),
     (''router'',    OPTION_IP OR OPTION_LIST OR OPTION_REQ, 0x03),
     (''timesvr'',   OPTION_IP OR OPTION_LIST,               0x04),
     (''namesvr'',   OPTION_IP OR OPTION_LIST,               0x05),
     (''dns'',       OPTION_IP OR OPTION_LIST OR OPTION_REQ, 0x06),
     (''logsvr'',    OPTION_IP OR OPTION_LIST OR OPTION_REQ, 0x07),
     (''cookiesvr'', OPTION_IP OR OPTION_LIST,               0x08),
     (''lprsvr'',    OPTION_IP OR OPTION_LIST,               0x09),
     (''hostname'',  OPTION_STRING,                          0x0c),
     (''bootsize'',  OPTION_U16,                             0x0d),
     (''domain'',    OPTION_STRING OR OPTION_REQ,            0x0f),
     (''swapsvr'',   OPTION_IP,                              0x10),
     (''rootpath'',  OPTION_STRING,                          0x11),
     (''ipttl'',     OPTION_U8,                              0x17),
     (''mtu'',       OPTION_U16,                             0x1a),
     (''broadcast'', OPTION_IP OR OPTION_REQ,                0x1c),
     (''nisdomain'', OPTION_STRING,                          0x28),
     (''nissrv'',    OPTION_IP OR OPTION_LIST,               0x29),
     (''ntpsrv'',    OPTION_IP OR OPTION_LIST OR OPTION_REQ, 0x2a),
     (''wins'',      OPTION_IP OR OPTION_LIST,               0x2c),
     (''requestip'', OPTION_IP,                              0x32),
     (''lease'',     OPTION_U32,                             0x33),
     (''dhcptype'',  OPTION_U8,                              0x35),
     (''serverid'',  OPTION_IP,                              0x36),
     (''message'',   OPTION_STRING,                          0x38),
     (''tftp'',      OPTION_STRING,                          0x42),
     (''bootfile'',  OPTION_STRING,                          0x43),
     (''vendoropts'', OPTION_STRING,                         0x7d)]"

text \<open>
  \<open>option_lengths[]\<close> is an array indexed by the option type; index 0 is the zero that C
  gives to the elements without an initialiser.
\<close>

definition option_lengths :: "nat list" where
  "option_lengths = [0, 4, 8, 1, 1, 1, 2, 2, 4, 4]"

section \<open>Reading: \<open>get_option\<close>\<close>

datatype opt_field = OPTION_FIELD | FILE_FIELD | SNAME_FIELD

fun field_buf :: "dhcpMessage \<Rightarrow> opt_field \<Rightarrow> bytes" where
  "field_buf p OPTION_FIELD = options p"
| "field_buf p FILE_FIELD = bfile p"
| "field_buf p SNAME_FIELD = sname p"

fun field_len :: "opt_field \<Rightarrow> nat" where
  "field_len OPTION_FIELD = 308"
| "field_len FILE_FIELD = 128"
| "field_len SNAME_FIELD = 64"

fun field_rank :: "opt_field \<Rightarrow> nat" where
  "field_rank OPTION_FIELD = 2"
| "field_rank FILE_FIELD = 1"
| "field_rank SNAME_FIELD = 0"

text \<open>
  A pointer into the message is a field and an offset. The inner option of the result is
  the \<open>NULL\<close> of the source, the outer one an access outside of the field. The overload
  value is read at \<open>i + 3\<close> and the length that skips the overload option at index
  \<open>OPT_LEN\<close> of the field, as the source has them.
\<close>

type_synonym opt_ptr = "opt_field \<times> nat"

function get_option_loop ::
    "dhcpMessage \<Rightarrow> byte \<Rightarrow> opt_field \<Rightarrow> nat \<Rightarrow> byte \<Rightarrow> opt_ptr option option" where
  "get_option_loop p code cur i over =
     (if field_len cur \<le> i then Some None
      else do {
        c \<leftarrow> rd (field_buf p cur) i;
        if c = code then do {
          l \<leftarrow> rd (field_buf p cur) (i + 1);
          if field_len cur \<le> i + 1 + unat l then Some None
          else Some (Some (cur, i + 2)) }
        else if c = DHCP_PADDING then get_option_loop p code cur (i + 1) over
        else if c = DHCP_OPTION_OVER then do {
          l \<leftarrow> rd (field_buf p cur) (i + 1);
          if field_len cur \<le> i + 1 + unat l then Some None
          else do {
            ov \<leftarrow> rd (field_buf p cur) (i + 3);
            l1 \<leftarrow> rd (field_buf p cur) 1;
            get_option_loop p code cur (i + unat l1 + 2) ov } }
        else if c = DHCP_END then
          (if cur = OPTION_FIELD \<and> over AND 1 \<noteq> 0 then get_option_loop p code FILE_FIELD 0 over
           else if cur = FILE_FIELD \<and> over AND 2 \<noteq> 0 then get_option_loop p code SNAME_FIELD 0 over
           else Some None)
        else do {
          l \<leftarrow> rd (field_buf p cur) (i + 1);
          get_option_loop p code cur (i + unat l + 2) over } })"
  by pat_completeness auto
termination
  by (relation "measures [\<lambda>(p, code, cur, i, over). field_rank cur,
      \<lambda>(p, code, cur, i, over). field_len cur - i]") auto

declare get_option_loop.simps [simp del]

definition get_option :: "dhcpMessage \<Rightarrow> byte \<Rightarrow> opt_ptr option option" where
  "get_option p code = get_option_loop p code OPTION_FIELD 0 0"

text \<open>
  Accesses through a pointer that \<open>get_option\<close> returned: the byte at an offset, the
  length byte in front of the data (\<open>ptr[OPT_LEN - 2]\<close>, also what \<open>get_option\<close> stores
  through \<open>option_len\<close>), and a four-byte \<open>memcpy\<close>.
\<close>

fun ptr_rd :: "dhcpMessage \<Rightarrow> opt_ptr \<Rightarrow> nat \<Rightarrow> byte option" where
  "ptr_rd p (f, off) k = rd (field_buf p f) (off + k)"

fun ptr_len :: "dhcpMessage \<Rightarrow> opt_ptr \<Rightarrow> byte option" where
  "ptr_len p (f, off) = rd (field_buf p f) (off - 1)"

fun ptr_u32 :: "dhcpMessage \<Rightarrow> opt_ptr \<Rightarrow> u32 option" where
  "ptr_u32 p (f, off) = load32 (field_buf p f) off"

fun ptr_range :: "dhcpMessage \<Rightarrow> opt_ptr \<Rightarrow> nat \<Rightarrow> bytes option" where
  "ptr_range p (f, off) n = rd_range (field_buf p f) off n"

section \<open>Writing\<close>

function end_option_loop :: "bytes \<Rightarrow> nat \<Rightarrow> nat option" where
  "end_option_loop optionptr i = do {
     c \<leftarrow> rd optionptr i;
     if c = DHCP_END then Some i
     else if c = DHCP_PADDING then end_option_loop optionptr (i + 1)
     else do {
       l \<leftarrow> rd optionptr (i + 1);
       end_option_loop optionptr (i + unat l + 2) } }"
  by pat_completeness auto
termination
  by (relation "measure (\<lambda>(optionptr, i). length optionptr - i)") (auto simp: rd_eq_Some_iff)

declare end_option_loop.simps [simp del]

definition end_option :: "bytes \<Rightarrow> nat option" where
  "end_option optionptr = end_option_loop optionptr 0"

definition add_option_string :: "bytes \<Rightarrow> bytes \<Rightarrow> (bytes \<times> nat) option" where
  "add_option_string optionptr string = do {
     end \<leftarrow> end_option optionptr;
     len \<leftarrow> rd string 1;
     if 308 \<le> end + unat len + 2 + 1 then Some (optionptr, 0)
     else do {
       src \<leftarrow> rd_range string 0 (unat len + 2);
       o1 \<leftarrow> wr_range optionptr end src;
       o2 \<leftarrow> wr o1 (end + unat len + 2) DHCP_END;
       Some (o2, unat len + 2) } }"

definition add_simple_option :: "bytes \<Rightarrow> byte \<Rightarrow> u32 \<Rightarrow> (bytes \<times> nat) option" where
  "add_simple_option optionptr code data =
     (case find (\<lambda>dh. ocode dh = code) dhcp_options of
        None \<Rightarrow> Some (optionptr, 0)
      | Some dh \<Rightarrow> do {
          len \<leftarrow> rd option_lengths (oflags dh AND TYPE_MASK);
          add_option_string optionptr (code # of_nat len # le32 data) })"


text \<open>
  Every caller of the writers ignores their result and keeps the message, so the packet
  builders are written over these two.
\<close>

definition put_string :: "dhcpMessage \<Rightarrow> bytes \<Rightarrow> dhcpMessage option" where
  "put_string p string = do {
     (opts, n) \<leftarrow> add_option_string (options p) string; Some (p\<lparr>options := opts\<rparr>) }"

definition put_simple :: "dhcpMessage \<Rightarrow> byte \<Rightarrow> u32 \<Rightarrow> dhcpMessage option" where
  "put_simple p code data = do {
     (opts, n) \<leftarrow> add_simple_option (options p) code data; Some (p\<lparr>options := opts\<rparr>) }"

text \<open>The data of an option: what a caller reads through the pointer and its length byte.\<close>

definition option_data :: "dhcpMessage \<Rightarrow> byte \<Rightarrow> bytes option option" where
  "option_data p code = do {
     r \<leftarrow> get_option p code;
     case r of
       None \<Rightarrow> Some None
     | Some ptr \<Rightarrow> do {
         l \<leftarrow> ptr_len p ptr;
         d \<leftarrow> ptr_range p ptr (unat l);
         Some (Some d) } }"

section \<open>The abstract option field\<close>

type_synonym tlv = "byte \<times> bytes"

fun enc :: "tlv list \<Rightarrow> bytes" where
  "enc [] = []"
| "enc ((c, d) # ts) = c # of_nat (length d) # d @ enc ts"

definition code_ok :: "byte \<Rightarrow> bool" where
  "code_ok c \<longleftrightarrow> c \<noteq> DHCP_PADDING \<and> c \<noteq> DHCP_END \<and> c \<noteq> DHCP_OPTION_OVER"

definition tlv_ok :: "tlv \<Rightarrow> bool" where
  "tlv_ok t \<longleftrightarrow> code_ok (fst t) \<and> length (snd t) < 256"

definition holds :: "dhcpMessage \<Rightarrow> tlv list \<Rightarrow> bool" where
  "holds p ts \<longleftrightarrow> length (options p) = 308 \<and> list_all tlv_ok ts \<and>
     (\<exists>rest. options p = enc ts @ DHCP_END # rest)"

text \<open>The abstract writer: an option that does not fit is dropped.\<close>

definition tlv_add :: "nat \<Rightarrow> tlv list \<Rightarrow> tlv \<Rightarrow> tlv list" where
  "tlv_add cap ts t =
     (if length (enc ts) + length (snd t) + 3 < cap then ts @ [t] else ts)"

lemma enc_append [simp]: "enc (xs @ ys) = enc xs @ enc ys"
  by (induction xs rule: enc.induct) auto

lemma length_enc_Cons: "length (enc (t # ts)) = length (snd t) + 2 + length (enc ts)"
  by (cases t) simp

lemma tlv_add_cases:
  obtains "tlv_add cap ts t = ts @ [t]" | "tlv_add cap ts t = ts"
  unfolding tlv_add_def by presburger

lemma tlv_add_ok: "list_all tlv_ok ts \<Longrightarrow> tlv_ok t \<Longrightarrow> list_all tlv_ok (tlv_add cap ts t)"
  by (simp add: tlv_add_def)

lemma map_of_tlv_add_present: "map_of ts c = Some d \<Longrightarrow> map_of (tlv_add cap ts t) c = Some d"
  by (simp add: tlv_add_def map_add_def)

lemma map_of_tlv_add_other: "fst t \<noteq> c \<Longrightarrow> map_of (tlv_add cap ts t) c = map_of ts c"
  by (cases t) (auto simp: tlv_add_def map_add_def split: option.splits)

lemma end_option_loop_enc:
  "list_all tlv_ok ts \<Longrightarrow>
   end_option_loop (pre @ enc ts @ DHCP_END # rest) (length pre) = Some (length pre + length (enc ts))"
proof (induction ts arbitrary: pre)
  case Nil
  then show ?case by (simp add: end_option_loop.simps)
next
  case (Cons t ts)
  obtain c d where t: "t = (c, d)" by (cases t)
  let ?m = "pre @ enc (t # ts) @ DHCP_END # rest"
  from Cons.prems t have c: "c \<noteq> DHCP_END" "c \<noteq> DHCP_PADDING" and d: "length d < 256"
    by (auto simp: tlv_ok_def code_ok_def)
  have "end_option_loop ?m (length pre) = end_option_loop ?m (length pre + length d + 2)"
    using c d by (subst end_option_loop.simps) (simp add: t rd_def nth_append unat_of_nat_byte)
  also have "?m = (pre @ c # of_nat (length d) # d) @ enc ts @ DHCP_END # rest"
    by (simp add: t)
  also have "end_option_loop \<dots> (length pre + length d + 2) =
      Some (length pre + length d + 2 + length (enc ts))"
    using Cons.IH [of "pre @ c # of_nat (length d) # d"] Cons.prems by simp
  finally show ?case by (simp add: t)
qed

lemma end_option_holds: "holds p ts \<Longrightarrow> end_option (options p) = Some (length (enc ts))"
  using end_option_loop_enc [of ts "[]"] by (auto simp: holds_def end_option_def)

text \<open>The writer appends, or leaves the field as it is when the option does not fit.\<close>

lemma put_string_refines:
  assumes "holds p ts" and "tlv_ok (c, d)"
  shows "\<exists>o'. put_string p (c # of_nat (length d) # d @ junk) = Some (p\<lparr>options := o'\<rparr>) \<and>
     holds (p\<lparr>options := o'\<rparr>) (tlv_add 308 ts (c, d))"
proof -
  let ?s = "c # of_nat (length d) # d @ junk"
  from assms(2) have len: "unat (of_nat (length d) :: byte) = length d"
    by (simp add: tlv_ok_def unat_of_nat_byte)
  from assms(1) obtain rest where rest: "options p = enc ts @ DHCP_END # rest"
    and size: "length (options p) = 308" by (auto simp: holds_def)
  show ?thesis
  proof (cases "length (enc ts) + length d + 3 < 308")
    case False
    then have "add_option_string (options p) ?s = Some (options p, 0)"
      by (simp add: add_option_string_def end_option_holds [OF assms(1)] len)
    with False assms(1) show ?thesis
      by (auto simp: put_string_def tlv_add_def intro!: exI [of _ "options p"])
  next
    case True
    let ?k = "length (enc ts) + length d + 2"
    let ?o1 = "enc ts @ (c # of_nat (length d) # d) @ drop ?k (options p)"
    let ?o = "?o1[?k := DHCP_END]"
    have "end_option (enc ts @ DHCP_END # rest) = Some (length (enc ts))"
      using end_option_holds [OF assms(1)] rest by simp
    then have "add_option_string (options p) ?s = Some (?o, length d + 2)"
      using True size
      by (simp add: add_option_string_def len rd_range_def wr_range_def
          wr_def rest ac_simps numeral_2_eq_2)
    moreover have "?o = enc (ts @ [(c, d)]) @ DHCP_END # drop (Suc ?k) (options p)"
      using True size by (simp add: list_update_append Cons_nth_drop_Suc [symmetric])
    ultimately show ?thesis
      using True assms size by (auto simp: put_string_def tlv_add_def holds_def)
  qed
qed


subsection \<open>\<open>get_option\<close> is a lookup\<close>

text \<open>Skipping the options in front of the one sought.\<close>

lemma get_option_loop_skip:
  assumes "rd (field_buf p f) i = Some c" "i < field_len f"
    and "c \<noteq> code" "code_ok c" "rd (field_buf p f) (i + 1) = Some l"
  shows "get_option_loop p code f i over = get_option_loop p code f (i + unat l + 2) over"
  using assms by (subst get_option_loop.simps) (simp add: code_ok_def)

lemma get_option_loop_enc:
  assumes "options p = pre @ enc ts @ DHCP_END # rest" "length (options p) = 308"
    and "list_all tlv_ok ts" "code \<noteq> DHCP_END"
  shows "case map_of ts code of
       None \<Rightarrow> get_option_loop p code OPTION_FIELD (length pre) 0 = Some None
     | Some d \<Rightarrow> \<exists>pre' post. options p = pre' @ code # of_nat (length d) # d @ post \<and>
         get_option_loop p code OPTION_FIELD (length pre) 0 = Some (Some (OPTION_FIELD, length pre' + 2))"
  using assms
proof (induction ts arbitrary: pre)
  case Nil
  then show ?case by (subst get_option_loop.simps) (auto simp: dhcp_code_defs)
next
  case (Cons t ts)
  obtain c d where t: "t = (c, d)" by (cases t)
  from Cons.prems(3) t have "tlv_ok (c, d)" and ok: "list_all tlv_ok ts"
    by simp_all
  then have c: "code_ok c" and d: "length d < 256"
    by (simp_all add: tlv_ok_def)
  from Cons.prems(1,2) t have m: "options p = pre @ c # of_nat (length d) # d @ enc ts @ DHCP_END # rest"
    and size: "length pre + length d + 2 < 308" by auto
  show ?case
  proof (cases "c = code")
    case True
    have "get_option_loop p code OPTION_FIELD (length pre) 0 = Some (Some (OPTION_FIELD, length pre + 2))"
      using True size d
      by (subst get_option_loop.simps) (simp add: m rd_def nth_append unat_of_nat_byte)
    with True t m show ?thesis by auto
  next
    case False
    have "get_option_loop p code OPTION_FIELD (length pre) 0 =
        get_option_loop p code OPTION_FIELD (length pre + unat (of_nat (length d) :: byte) + 2) 0"
      using False c size by (intro get_option_loop_skip) (auto simp: m rd_def nth_append)
    also have "\<dots> = get_option_loop p code OPTION_FIELD (length (pre @ c # of_nat (length d) # d)) 0"
      using d by (simp add: unat_of_nat_byte)
    finally have step: "get_option_loop p code OPTION_FIELD (length pre) 0 = \<dots>" .
    have "options p = (pre @ c # of_nat (length d) # d) @ enc ts @ DHCP_END # rest"
      by (simp add: m)
    note IH = Cons.IH [OF this Cons.prems(2) ok Cons.prems(4)]
    have "map_of (t # ts) code = map_of ts code" using False t by simp
    then show ?thesis unfolding step by (simp only: IH)
  qed
qed

lemma get_option_absent:
  assumes "holds p ts" "code \<noteq> DHCP_END" "map_of ts code = None"
  shows "get_option p code = Some None"
proof -
  from assms(1) obtain rest where "options p = [] @ enc ts @ DHCP_END # rest"
    "length (options p) = 308" "list_all tlv_ok ts" by (auto simp: holds_def)
  from get_option_loop_enc [OF this assms(2)] assms(3) show ?thesis
    by (simp add: get_option_def)
qed

lemma get_option_present:
  assumes "holds p ts" "code_ok code" "map_of ts code = Some d"
  obtains pre post where "options p = pre @ code # of_nat (length d) # d @ post"
    and "get_option p code = Some (Some (OPTION_FIELD, length pre + 2))"
proof -
  from assms(1) obtain rest where "options p = [] @ enc ts @ DHCP_END # rest"
    "length (options p) = 308" "list_all tlv_ok ts" by (auto simp: holds_def)
  from get_option_loop_enc [OF this, of code] assms(2,3) that show ?thesis
    by (auto simp: get_option_def code_ok_def)
qed

lemma holds_length: "holds p ts \<Longrightarrow> map_of ts c = Some d \<Longrightarrow> length d < 256"
  by (auto simp: holds_def tlv_ok_def list_all_iff dest!: map_of_SomeD)

lemma rd_append_offset: "rd (xs @ ys) (length xs + k) = rd ys k"
  by (rule rd_append_right)

lemma option_data_holds:
  assumes "holds p ts" "code_ok code"
  shows "option_data p code = Some (map_of ts code)"
proof (cases "map_of ts code")
  case None
  with get_option_absent [OF assms(1) _ None] assms(2) show ?thesis
    by (simp add: option_data_def code_ok_def)
next
  case (Some d)
  obtain pre post where m: "options p = pre @ code # of_nat (length d) # d @ post"
    and g: "get_option p code = Some (Some (OPTION_FIELD, length pre + 2))"
    using get_option_present [OF assms Some] .
  have "unat (of_nat (length d) :: byte) = length d"
    using holds_length [OF assms(1) Some] by (simp add: unat_of_nat_byte)
  with g Some show ?thesis
    by (simp add: option_data_def m rd_range_def rd_def nth_append)
qed

text \<open>A pointer to a one-byte and to a four-byte option gives the stored value.\<close>

lemma get_option_byte:
  assumes "holds p ts" "code_ok code" "map_of ts code = Some [b]"
  shows "\<exists>ptr. get_option p code = Some (Some ptr) \<and> ptr_rd p ptr 0 = Some b"
proof -
  obtain pre post where "options p = pre @ code # of_nat (length [b]) # [b] @ post"
    "get_option p code = Some (Some (OPTION_FIELD, length pre + 2))"
    using get_option_present [OF assms] .
  then show ?thesis by (auto simp: rd_def nth_append)
qed

lemma get_option_u32:
  assumes "holds p ts" "code_ok code" "map_of ts code = Some (le32 w)"
  shows "\<exists>ptr. get_option p code = Some (Some ptr) \<and> ptr_u32 p ptr = Some w"
proof -
  obtain pre post where m: "options p = pre @ code # of_nat (length (le32 w)) # le32 w @ post"
    and g: "get_option p code = Some (Some (OPTION_FIELD, length pre + 2))"
    using get_option_present [OF assms] .
  have "load32 (options p) (length pre + 2) = Some w"
    using load32_le32 [of "pre @ [code, of_nat (length (le32 w))]" w post] by (simp add: m)
  with g show ?thesis by auto
qed

subsection \<open>The pointers \<open>get_option\<close> returns\<close>

text \<open>
  On an arbitrary message, well-formed or hostile: what it returns points just behind the
  code and the length byte, and the data that the length announces lies inside the field.
\<close>

definition opt_ptr_ok :: "dhcpMessage \<Rightarrow> byte \<Rightarrow> opt_ptr \<Rightarrow> bool" where
  "opt_ptr_ok p code ptr \<longleftrightarrow> 2 \<le> snd ptr \<and>
     rd (field_buf p (fst ptr)) (snd ptr - 2) = Some code \<and>
     (\<exists>l. ptr_len p ptr = Some l \<and> snd ptr + unat l \<le> field_len (fst ptr))"

lemma get_option_loop_bounds:
  "get_option_loop p code cur i over = Some (Some ptr) \<Longrightarrow> opt_ptr_ok p code ptr"
proof (induction p code cur i over rule: get_option_loop.induct)
  case (1 p code cur i over)
  let ?b = "field_buf p cur"
  from "1.prems" obtain c where i: "\<not> field_len cur \<le> i" and c: "rd ?b i = Some c"
    by (subst (asm) get_option_loop.simps) (auto split: if_splits bind_splits)
  note eq = get_option_loop.simps [of p code cur i over]
  consider (found) "c = code" | (pad) "c \<noteq> code" "c = DHCP_PADDING"
    | (over) "c \<noteq> code" "c \<noteq> DHCP_PADDING" "c = DHCP_OPTION_OVER"
    | (last) "c \<noteq> code" "c \<noteq> DHCP_PADDING" "c \<noteq> DHCP_OPTION_OVER" "c = DHCP_END"
    | (skip) "c \<noteq> code" "c \<noteq> DHCP_PADDING" "c \<noteq> DHCP_OPTION_OVER" "c \<noteq> DHCP_END"
    by blast
  then show ?case
  proof cases
    case found
    with "1.prems" i c show ?thesis
      by (auto simp: eq opt_ptr_ok_def split: if_splits bind_splits)
  next
    case pad
    with "1.prems" i c show ?thesis by (auto simp: eq intro: "1.IH"(1))
  next
    case over
    with "1.prems" i c show ?thesis
      by (auto simp: eq split: if_splits bind_splits intro!: "1.IH"(2))
  next
    case last
    with "1.prems" i c "1.IH"(3) [OF i c] "1.IH"(4) [OF i c] show ?thesis
      by (simp add: eq split: if_splits)
  next
    case skip
    with "1.prems" i c show ?thesis
      by (auto simp: eq split: bind_splits intro!: "1.IH"(5))
  qed
qed


section \<open>The interface of the option field\<close>

text \<open>
  What the packet builders of the server and of the client rely on: writing an option
  appends it to the abstract list (or drops it when the field is full) and leaves the rest
  of the message alone; reading looks the code up.
\<close>

definition tlv_string :: "tlv \<Rightarrow> bytes" where
  "tlv_string t = fst t # of_nat (length (snd t)) # snd t"

locale option_field =
  fixes rep :: "'s \<Rightarrow> tlv list \<Rightarrow> bool"
    and put :: "'s \<Rightarrow> bytes \<Rightarrow> 's option"
    and lookup :: "'s \<Rightarrow> byte \<Rightarrow> bytes option option"
    and frame :: "'s \<Rightarrow> 'f"
    and cap :: nat
  assumes put_refines: "rep s ts \<Longrightarrow> tlv_ok (c, d) \<Longrightarrow>
      \<exists>s'. put s (c # of_nat (length d) # d @ junk) = Some s' \<and> frame s' = frame s \<and>
        rep s' (tlv_add cap ts (c, d))"
    and lookup_refines: "rep s ts \<Longrightarrow> code_ok c \<Longrightarrow> lookup s c = Some (map_of ts c)"
begin

lemma put_tlv:
  assumes "rep s ts" "tlv_ok t"
  shows "\<exists>s'. put s (tlv_string t) = Some s' \<and> frame s' = frame s \<and> rep s' (tlv_add cap ts t)"
  using put_refines [of s ts "fst t" "snd t" "[]"] assms by (simp add: tlv_string_def)

lemma put_all:
  assumes "rep s ts" "list_all tlv_ok l"
  shows "\<exists>s'. foldM put s (map tlv_string l) = Some s' \<and> frame s' = frame s \<and>
    rep s' (foldl (tlv_add cap) ts l)"
  using assms
proof (induction l arbitrary: s ts)
  case Nil
  then show ?case by simp
next
  case (Cons t l)
  from Cons.prems obtain s1 where s1: "put s (tlv_string t) = Some s1" "frame s1 = frame s"
    "rep s1 (tlv_add cap ts t)" using put_tlv by fastforce
  with Cons.IH [OF s1(3)] Cons.prems(2) show ?case by auto
qed

lemma lookup_fresh:
  assumes "rep s ts" "tlv_ok t" "map_of ts (fst t) = None"
    and "length (enc ts) + length (snd t) + 3 < cap"
  shows "\<exists>s'. put s (tlv_string t) = Some s' \<and> lookup s' (fst t) = Some (Some (snd t))"
proof -
  from put_tlv [OF assms(1,2)] obtain s' where s': "put s (tlv_string t) = Some s'"
    "rep s' (tlv_add cap ts t)" by blast
  have "map_of (tlv_add cap ts t) (fst t) = Some (snd t)"
    using assms(3,4) by (cases t) (simp add: tlv_add_def map_add_def)
  with s' assms(2) lookup_refines [OF s'(2), of "fst t"] show ?thesis
    by (auto simp: tlv_ok_def)
qed

lemma lookup_kept:
  assumes "rep s ts" "tlv_ok t" "code_ok c" "lookup s c = Some (Some d)"
  shows "\<exists>s'. put s (tlv_string t) = Some s' \<and> lookup s' c = Some (Some d)"
proof -
  from put_tlv [OF assms(1,2)] obtain s' where s': "put s (tlv_string t) = Some s'"
    "rep s' (tlv_add cap ts t)" by blast
  from assms(4) lookup_refines [OF assms(1,3)] have "map_of ts c = Some d" by simp
  then have "map_of (tlv_add cap ts t) c = Some d" by (rule map_of_tlv_add_present)
  with s' lookup_refines [OF s'(2) assms(3)] show ?thesis by auto
qed

end

definition msg_frame :: "dhcpMessage \<Rightarrow> dhcpMessage" where
  "msg_frame p = p\<lparr>options := []\<rparr>"

interpretation optf: option_field holds put_string option_data msg_frame 308
proof unfold_locales
  fix s ts c d junk
  assume "holds s ts" "tlv_ok (c, d)"
  then show "\<exists>s'. put_string s (c # of_nat (length d) # d @ junk) = Some s' \<and>
      msg_frame s' = msg_frame s \<and> holds s' (tlv_add 308 ts (c, d))"
    using put_string_refines [of s ts c d junk] by (auto simp: msg_frame_def)
next
  fix s ts c
  assume "holds s ts" "code_ok c"
  then show "option_data s c = Some (map_of ts c)" by (rule option_data_holds)
qed

lemma foldl_tlv_add_present:
  "map_of ts c = Some d \<Longrightarrow> map_of (foldl (tlv_add cap) ts l) c = Some d"
  by (induction l arbitrary: ts) (auto intro: map_of_tlv_add_present)

lemma foldl_tlv_add_fits:
  "length (enc ts) + length (enc l) + 1 < cap \<Longrightarrow> foldl (tlv_add cap) ts l = ts @ l"
proof (induction l arbitrary: ts)
  case (Cons t l)
  then have "tlv_add cap ts t = ts @ [t]" by (simp add: tlv_add_def length_enc_Cons)
  with Cons.IH [of "ts @ [t]"] Cons.prems show ?case
    using length_enc_Cons [of t "[]"] by (simp add: length_enc_Cons)
qed simp

text \<open>An option string as the callers hold it: code, length and that many bytes.\<close>

definition is_tlv :: "bytes \<Rightarrow> bool" where
  "is_tlv d \<longleftrightarrow> length d = unat (d ! 1) + 2 \<and> code_ok (d ! 0)"

lemma is_tlv_string:
  assumes "is_tlv d"
  shows "d = tlv_string (d ! 0, drop 2 d)" and "tlv_ok (d ! 0, drop 2 d)"
proof -
  from assms have len: "length d = unat (d ! 1) + 2" by (simp add: is_tlv_def)
  then obtain a b r where d: "d = a # b # r"
    by (metis Suc_le_length_iff add_2_eq_Suc' le_add2 numeral_2_eq_2)
  with len have "b = of_nat (length r)" by simp
  with d show "d = tlv_string (d ! 0, drop 2 d)" by (simp add: tlv_string_def)
  from len assms show "tlv_ok (d ! 0, drop 2 d)" by (simp add: tlv_ok_def is_tlv_def d)
qed

subsection \<open>Simple options\<close>

lemma option_lengths_bound: "rd option_lengths k = Some n \<Longrightarrow> n \<le> 8"
  by (auto simp: rd_eq_Some_iff option_lengths_def less_Suc_eq numeral_eq_Suc)

lemma simple_option_type [simp]:
  "put_simple p DHCP_MESSAGE_TYPE w = put_string p (DHCP_MESSAGE_TYPE # 1 # le32 w)"
  by (simp add: put_simple_def put_string_def add_simple_option_def dhcp_options_def
      dhcp_code_defs option_type_defs option_lengths_def rd_def)

lemma simple_option_u32 [simp]:
  assumes "code \<in> {DHCP_REQUESTED_IP, DHCP_LEASE_TIME, DHCP_SERVER_ID}"
  shows "put_simple p code w = put_string p (code # 4 # le32 w)"
  using assms
  by (auto simp add: put_simple_def put_string_def add_simple_option_def dhcp_options_def
      dhcp_code_defs option_type_defs option_lengths_def rd_def)

section \<open>Properties\<close>

text \<open>
  C9. The writer and the reader implement the abstract option field: writing an option string
  never faults, appends the option to the list (or leaves the list alone when it does not
  fit in the 308 bytes) and changes no other field of the message, and afterwards every code
  reads as the abstract lookup says.
\<close>

theorem option_field_refines:
  assumes "holds p ts" "tlv_ok (c, d)"
  shows "\<exists>p'. put_string p (tlv_string (c, d)) = Some p' \<and> p'\<lparr>options := []\<rparr> = p\<lparr>options := []\<rparr> \<and>
    holds p' (tlv_add 308 ts (c, d)) \<and>
    (\<forall>code. code_ok code \<longrightarrow> option_data p' code = Some (map_of (tlv_add 308 ts (c, d)) code))"
  using optf.put_tlv [OF assms] optf.lookup_refines by (fastforce simp: msg_frame_def)

text \<open>
  C30. On any message, well-formed or hostile, a pointer that \<open>get_option\<close> returns stands just
  behind the code that was asked for, and the data that the length byte announces lies
  within the field it points into.
\<close>

theorem get_option_in_bounds:
  assumes "msg_wf p" "get_option p code = Some (Some (f, off))"
  shows "2 \<le> off \<and> field_buf p f ! (off - 2) = code \<and> off - 1 < length (field_buf p f) \<and>
    off + unat (field_buf p f ! (off - 1)) \<le> length (field_buf p f)"
proof -
  have "opt_ptr_ok p code (f, off)"
    using assms(2) get_option_loop_bounds by (simp add: get_option_def)
  moreover have "field_len f = length (field_buf p f)"
    using assms(1) by (cases f) (simp_all add: msg_wf_def)
  ultimately show ?thesis by (auto simp: opt_ptr_ok_def rd_eq_Some_iff)
qed

text \<open>
  What was written is read back: an option with a new code that fits is returned with
  exactly its data, and an option that was there before keeps its data.
\<close>

lemma option_round_trip:
  assumes "holds p ts" "tlv_ok (c, d)" "option_data p c = Some None"
    and "length (enc ts) + length d + 3 < 308"
  shows "\<exists>p'. put_string p (tlv_string (c, d)) = Some p' \<and> option_data p' c = Some (Some d) \<and>
    (\<forall>c' d'. code_ok c' \<longrightarrow> option_data p c' = Some (Some d') \<longrightarrow> option_data p' c' = Some (Some d'))"
proof -
  have "map_of ts c = None"
    using optf.lookup_refines [OF assms(1), of c] assms(2,3) by (simp add: tlv_ok_def)
  then have "\<exists>p'. put_string p (tlv_string (c, d)) = Some p' \<and> option_data p' c = Some (Some d)"
    using optf.lookup_fresh [OF assms(1,2)] assms(4) by simp
  with optf.lookup_kept [OF assms(1,2)] show ?thesis by fastforce
qed

lemma get_option_loop_pad:
  assumes "options p = replicate n 0 @ xs" "n \<le> 308" "code \<noteq> 0" "i \<le> n"
  shows "get_option_loop p code OPTION_FIELD i over = get_option_loop p code OPTION_FIELD n over"
  using assms(4)
proof (induction "n - i" arbitrary: i)
  case (Suc k)
  then have "i < n" by simp
  with assms have "rd (options p) i = Some 0" by (simp add: rd_def nth_append)
  with \<open>i < n\<close> assms have "get_option_loop p code OPTION_FIELD i over =
      get_option_loop p code OPTION_FIELD (i + 1) over"
    by (subst get_option_loop.simps) (simp add: DHCP_PADDING_def)
  with Suc.hyps(1) [of "i + 1"] Suc.hyps(2) \<open>i < n\<close> show ?case by simp
qed simp

text \<open>
  The search does not check that the byte behind a code is still inside of the field: an
  options field of padding whose last byte is any code but padding and end makes
  \<open>get_option\<close> read behind the message, whatever option is asked for.
\<close>

lemma get_option_reads_past_end:
  assumes "options p = replicate 307 0 @ [c]" "c \<noteq> DHCP_PADDING" "c \<noteq> DHCP_END" "code \<noteq> DHCP_PADDING"
  shows "get_option p code = None"
proof -
  from assms(1) have last: "rd (options p) 307 = Some c" "rd (options p) 308 = None"
    by (simp_all add: rd_def nth_append)
  have "get_option p code = get_option_loop p code OPTION_FIELD 307 0"
    using get_option_loop_pad [OF assms(1), of code 0 0] assms(4)
    by (simp add: get_option_def DHCP_PADDING_def)
  also have "\<dots> = None"
    using last assms(2,3) by (subst get_option_loop.simps) simp
  finally show ?thesis .
qed

text \<open>
  The overload option is not honoured where it comes first: its value is taken from the
  byte behind it. With an overload option that announces the file field, followed by a
  server identifier, a message type in the file field is not found.
\<close>

lemma get_option_overload_ignored:
  assumes "options p = [DHCP_OPTION_OVER, 1, 1, DHCP_SERVER_ID, 4, a, b, c, d, DHCP_END] @ rest"
    and "bfile p = [DHCP_MESSAGE_TYPE, 1, t, DHCP_END] @ rest2"
  shows "get_option p DHCP_MESSAGE_TYPE = Some None"
proof -
  have rds: "rd (options p) 0 = Some DHCP_OPTION_OVER" "rd (options p) (Suc 0) = Some 1"
    "rd (options p) 3 = Some DHCP_SERVER_ID" "rd (options p) 4 = Some 4" "rd (options p) 9 = Some DHCP_END"
    by (simp_all add: assms(1) rd_def)
  have "get_option p DHCP_MESSAGE_TYPE = get_option_loop p DHCP_MESSAGE_TYPE OPTION_FIELD 3 DHCP_SERVER_ID"
    unfolding get_option_def
    by (subst get_option_loop.simps) (simp add: rds dhcp_code_defs, simp add: numeral_3_eq_3)
  also have "\<dots> = get_option_loop p DHCP_MESSAGE_TYPE OPTION_FIELD 9 DHCP_SERVER_ID"
    by (subst get_option_loop.simps) (simp add: rds dhcp_code_defs)
  also have "\<dots> = Some None"
    by (subst get_option_loop.simps) (simp add: rds dhcp_code_defs)
  finally show ?thesis .
qed

section \<open>Witnesses\<close>

text \<open>A request with a message type option.\<close>

definition sample_msg :: dhcpMessage where
  "sample_msg = \<lparr>msg_op = 1, htype = 1, hlen = 6, hops = 0, xid = 7, secs = 0, flags = 0, ciaddr = 0,
     yiaddr = 0, siaddr = 0, giaddr = 0, chaddr = [2, 0, 0, 0, 0, 1] @ replicate 10 0,
     sname = replicate 64 0, bfile = replicate 128 0, cookie = ntohl 0x63825363,
     options = [53, 1, 3, 255] @ replicate 304 0\<rparr>"

lemma sample_msg_wf: "msg_wf sample_msg"
  by (simp add: msg_wf_def sample_msg_def)

lemma sample_msg_holds: "holds sample_msg [(53, [3])]"
  by (simp add: holds_def sample_msg_def tlv_ok_def code_ok_def dhcp_code_defs)

lemma sample_tlv_ok: "tlv_ok (12, [65, 66])"
  by (simp add: tlv_ok_def code_ok_def dhcp_code_defs)

theorem option_field_refines_witness:
  "\<exists>p'. put_string sample_msg [12, 2, 65, 66] = Some p' \<and> holds p' [(53, [3]), (12, [65, 66])] \<and>
     option_data p' 53 = Some (Some [3])"
  using option_field_refines [OF sample_msg_holds sample_tlv_ok]
  by (auto simp: tlv_string_def tlv_add_def code_ok_def dhcp_code_defs)

lemma sample_get_option: "get_option sample_msg 53 = Some (Some (OPTION_FIELD, 2))"
  unfolding get_option_def by (subst get_option_loop.simps) (simp add: sample_msg_def)

theorem get_option_in_bounds_witness:
  "get_option sample_msg 53 = Some (Some (OPTION_FIELD, 2)) \<and>
   2 + unat (options sample_msg ! 1) \<le> length (options sample_msg)"
  using get_option_in_bounds [OF sample_msg_wf sample_get_option] sample_get_option by simp

lemma option_round_trip_example:
  "\<exists>p'. put_string sample_msg [12, 2, 65, 66] = Some p' \<and> option_data p' 12 = Some (Some [65, 66])"
proof -
  have "option_data sample_msg 12 = Some None"
    using optf.lookup_refines [OF sample_msg_holds, of 12] by (simp add: code_ok_def dhcp_code_defs)
  from option_round_trip [OF sample_msg_holds sample_tlv_ok this] show ?thesis
    by (auto simp: tlv_string_def)
qed

lemma get_option_reads_past_end_example:
  "get_option (sample_msg\<lparr>options := replicate 307 0 @ [12]\<rparr>) 53 = None"
  using get_option_reads_past_end [of "sample_msg\<lparr>options := replicate 307 0 @ [12]\<rparr>" 12 53]
  by (simp add: dhcp_code_defs)

lemma get_option_overload_ignored_example:
  "get_option (sample_msg\<lparr>options := [52, 1, 1, 54, 4, 10, 0, 0, 1, 255] @ replicate 298 0,
     bfile := [53, 1, 5, 255] @ replicate 124 0\<rparr>) 53 = Some None"
  using get_option_overload_ignored [of "sample_msg\<lparr>options := [52, 1, 1, 54, 4, 10, 0, 0, 1, 255] @ replicate 298 0,
     bfile := [53, 1, 5, 255] @ replicate 124 0\<rparr>" 10 0 0 1 "replicate 298 0" 5 "replicate 124 0"]
  by (simp add: dhcp_code_defs)

end
