(* ===== verification/Udhcp_Packet.thy ===== *)
theory Udhcp_Packet
  imports Udhcp_Options
begin

text \<open>
  \<open>packet.c\<close> and the receive path \<open>get_raw_packet\<close> of \<open>clientpacket.c\<close>: the layout of
  the message and of the IP and UDP headers in memory, the Internet checksum, the header
  of an outgoing message, and the packets that are sent to and read from the sockets. The
  results of the system calls are arguments of the definitions.
\<close>

section \<open>Memory layout\<close>

definition msg_bytes :: "dhcpMessage \<Rightarrow> bytes" where
  "msg_bytes p =
     [msg_op p, htype p, hlen p, hops p] @ le32 (xid p) @ le16 (secs p) @ le16 (flags p) @
     le32 (ciaddr p) @ le32 (yiaddr p) @ le32 (siaddr p) @ le32 (giaddr p) @
     chaddr p @ sname p @ bfile p @ le32 (cookie p) @ options p"

definition u32_at :: "bytes \<Rightarrow> nat \<Rightarrow> u32" where
  "u32_at b k = u32_of_le (b ! k) (b ! (k + 1)) (b ! (k + 2)) (b ! (k + 3))"

definition u16_at :: "bytes \<Rightarrow> nat \<Rightarrow> u16" where
  "u16_at b k = u16_of_le (b ! k) (b ! (k + 1))"

definition msg_of_bytes :: "bytes \<Rightarrow> dhcpMessage" where
  "msg_of_bytes b = \<lparr>
     msg_op = b ! 0, htype = b ! 1, hlen = b ! 2, hops = b ! 3,
     xid = u32_at b 4, secs = u16_at b 8, flags = u16_at b 10,
     ciaddr = u32_at b 12, yiaddr = u32_at b 16, siaddr = u32_at b 20, giaddr = u32_at b 24,
     chaddr = take 16 (drop 28 b), sname = take 64 (drop 44 b), bfile = take 128 (drop 108 b),
     cookie = u32_at b 236, options = take 308 (drop 240 b)\<rparr>"

abbreviation sizeof_dhcpMessage :: nat where "sizeof_dhcpMessage \<equiv> 548"

record iphdr =
  ip_ihl :: byte
  ip_version :: byte
  ip_tos :: byte
  ip_tot_len :: u16
  ip_id :: u16
  ip_frag_off :: u16
  ip_ttl :: byte
  ip_protocol :: byte
  ip_check :: u16
  ip_saddr :: u32
  ip_daddr :: u32

record udphdr =
  udp_source :: u16
  udp_dest :: u16
  udp_len :: u16
  udp_check :: u16

record udp_dhcp_packet =
  ip :: iphdr
  udp :: udphdr
  data :: dhcpMessage

text \<open>The two nibbles of the first byte are bit-fields, \<open>ihl\<close> the low one.\<close>

definition iphdr_bytes :: "iphdr \<Rightarrow> bytes" where
  "iphdr_bytes h =
     [(ip_ihl h AND 0x0F) OR push_bit 4 (ip_version h), ip_tos h] @ le16 (ip_tot_len h) @
     le16 (ip_id h) @ le16 (ip_frag_off h) @ [ip_ttl h, ip_protocol h] @ le16 (ip_check h) @
     le32 (ip_saddr h) @ le32 (ip_daddr h)"

definition iphdr_of_bytes :: "bytes \<Rightarrow> iphdr" where
  "iphdr_of_bytes b = \<lparr>
     ip_ihl = b ! 0 AND 0x0F, ip_version = drop_bit 4 (b ! 0), ip_tos = b ! 1,
     ip_tot_len = u16_at b 2, ip_id = u16_at b 4, ip_frag_off = u16_at b 6,
     ip_ttl = b ! 8, ip_protocol = b ! 9, ip_check = u16_at b 10,
     ip_saddr = u32_at b 12, ip_daddr = u32_at b 16\<rparr>"

definition udphdr_bytes :: "udphdr \<Rightarrow> bytes" where
  "udphdr_bytes h = le16 (udp_source h) @ le16 (udp_dest h) @ le16 (udp_len h) @ le16 (udp_check h)"

definition udphdr_of_bytes :: "bytes \<Rightarrow> udphdr" where
  "udphdr_of_bytes b = \<lparr>udp_source = u16_at b 0, udp_dest = u16_at b 2, udp_len = u16_at b 4,
     udp_check = u16_at b 6\<rparr>"

definition packet_bytes :: "udp_dhcp_packet \<Rightarrow> bytes" where
  "packet_bytes q = iphdr_bytes (ip q) @ udphdr_bytes (udp q) @ msg_bytes (data q)"

definition packet_of_bytes :: "bytes \<Rightarrow> udp_dhcp_packet" where
  "packet_of_bytes b = \<lparr>ip = iphdr_of_bytes (take 20 b), udp = udphdr_of_bytes (take 8 (drop 20 b)),
     data = msg_of_bytes (drop 28 b)\<rparr>"

abbreviation sizeof_udp_dhcp_packet :: nat where "sizeof_udp_dhcp_packet \<equiv> 576"

definition zero_iphdr :: iphdr where
  "zero_iphdr = \<lparr>ip_ihl = 0, ip_version = 0, ip_tos = 0, ip_tot_len = 0, ip_id = 0,
     ip_frag_off = 0, ip_ttl = 0, ip_protocol = 0, ip_check = 0, ip_saddr = 0, ip_daddr = 0\<rparr>"

definition zero_udphdr :: udphdr where
  "zero_udphdr = \<lparr>udp_source = 0, udp_dest = 0, udp_len = 0, udp_check = 0\<rparr>"

definition zero_msg :: dhcpMessage where
  "zero_msg = \<lparr>msg_op = 0, htype = 0, hlen = 0, hops = 0, xid = 0, secs = 0, flags = 0,
     ciaddr = 0, yiaddr = 0, siaddr = 0, giaddr = 0, chaddr = replicate 16 0,
     sname = replicate 64 0, bfile = replicate 128 0, cookie = 0, options = replicate 308 0\<rparr>"

section \<open>Constants of \<open>dhcpd.h\<close>\<close>

definition DHCP_MAGIC :: u32 where "DHCP_MAGIC = 0x63825363"
definition BOOTREQUEST :: byte where "BOOTREQUEST = 1"
definition BOOTREPLY :: byte where "BOOTREPLY = 2"
definition ETH_10MB :: byte where "ETH_10MB = 1"
definition ETH_10MB_LEN :: byte where "ETH_10MB_LEN = 6"
definition BROADCAST_FLAG :: u16 where "BROADCAST_FLAG = 0x8000"
definition SERVER_PORT :: u16 where "SERVER_PORT = 67"
definition CLIENT_PORT :: u16 where "CLIENT_PORT = 68"
definition MAC_BCAST_ADDR :: bytes where "MAC_BCAST_ADDR = replicate 6 0xFF"
definition INADDR_BROADCAST :: u32 where "INADDR_BROADCAST = 0xFFFFFFFF"
definition INADDR_ANY :: u32 where "INADDR_ANY = 0"
definition IPPROTO_UDP :: byte where "IPPROTO_UDP = 17"
definition IPVERSION :: byte where "IPVERSION = 4"
definition IPDEFTTL :: byte where "IPDEFTTL = 64"
definition DHCPDISCOVER :: byte where "DHCPDISCOVER = 1"
definition DHCPOFFER :: byte where "DHCPOFFER = 2"
definition DHCPREQUEST :: byte where "DHCPREQUEST = 3"
definition DHCPDECLINE :: byte where "DHCPDECLINE = 4"
definition DHCPACK :: byte where "DHCPACK = 5"
definition DHCPNAK :: byte where "DHCPNAK = 6"
definition DHCPRELEASE :: byte where "DHCPRELEASE = 7"
definition DHCPINFORM :: byte where "DHCPINFORM = 8"

lemmas dhcp_type_defs = DHCPDISCOVER_def DHCPOFFER_def DHCPREQUEST_def DHCPDECLINE_def
  DHCPACK_def DHCPNAK_def DHCPRELEASE_def DHCPINFORM_def

section \<open>Outgoing messages\<close>

definition header_op :: "byte \<Rightarrow> byte" where
  "header_op type =
     (if type \<in> {DHCPDISCOVER, DHCPREQUEST, DHCPRELEASE, DHCPINFORM} then BOOTREQUEST
      else if type \<in> {DHCPOFFER, DHCPACK, DHCPNAK} then BOOTREPLY else 0)"

definition udhcp_init_header :: "byte \<Rightarrow> dhcpMessage option" where
  "udhcp_init_header type =
     (let p = zero_msg\<lparr>msg_op := header_op type, htype := ETH_10MB, hlen := ETH_10MB_LEN,
                cookie := htonl DHCP_MAGIC, options := (options zero_msg)[0 := DHCP_END]\<rparr>
      in put_simple p DHCP_MESSAGE_TYPE (ucast type))"

text \<open>
  The checksum: 16-bit little-endian loads are added in an \<open>int32_t\<close>, a left-over byte is
  the low byte of a last load, and the carries are folded back until none is left.
  \<open>cksum_loop_bound\<close> shows that the sum stays within an \<open>int32_t\<close>, so that it is a
  natural number here.
\<close>

fun cksum_loop :: "nat \<Rightarrow> bytes \<Rightarrow> nat" where
  "cksum_loop s (a # b # rest) = cksum_loop (s + unat (u16_of_le a b)) rest"
| "cksum_loop s [a] = s + unat (u16_of_le a 0)"
| "cksum_loop s [] = s"

function cksum_fold :: "nat \<Rightarrow> nat" where
  "cksum_fold s = (if s div 65536 = 0 then s else cksum_fold (s mod 65536 + s div 65536))"
  by pat_completeness auto
termination
proof (relation "measure id")
  fix s :: nat
  assume "s div 65536 \<noteq> 0"
  moreover have "s = 65536 * (s div 65536) + s mod 65536" by simp
  ultimately show "(s mod 65536 + s div 65536, s) \<in> measure id"
    unfolding in_measure id_def by linarith
qed simp

declare cksum_fold.simps [simp del]

definition udhcp_checksum :: "bytes \<Rightarrow> nat \<Rightarrow> u16 option" where
  "udhcp_checksum addr count = do {
     m \<leftarrow> rd_range addr 0 count;
     Some (NOT (of_nat (cksum_fold (cksum_loop 0 m)))) }"

text \<open>The outcome of the system calls of a send: \<open>socket\<close>, \<open>bind\<close> (and for the kernel
  path \<open>setsockopt\<close> and \<open>connect\<close>), and the result of \<open>sendto\<close> or \<open>write\<close>.\<close>

record send_env =
  sock_ok :: bool
  setsockopt_ok :: bool
  bind_ok :: bool
  connect_ok :: bool
  sent :: int

text \<open>What is put on the wire: a frame for an interface and hardware address, or a datagram
  (source and destination address and port) handed to the kernel.\<close>

datatype wire =
    RawFrame (raw_ifindex: int) (raw_dest: bytes) (raw_frame: bytes)
  | KernelDatagram (kd_src: u32) (kd_sport: u16) (kd_dst: u32) (kd_dport: u16) (kd_payload: bytes)

definition raw_packet ::
    "dhcpMessage \<Rightarrow> u32 \<Rightarrow> u16 \<Rightarrow> u32 \<Rightarrow> u16 \<Rightarrow> udp_dhcp_packet option" where
  "raw_packet payload source_ip source_port dest_ip dest_port =
     (let iph = zero_iphdr\<lparr>ip_protocol := IPPROTO_UDP, ip_saddr := source_ip, ip_daddr := dest_ip\<rparr>;
          udph = zero_udphdr\<lparr>udp_source := htons source_port, udp_dest := htons dest_port,
            udp_len := htons (of_nat (8 + sizeof_dhcpMessage))\<rparr>;
          q = \<lparr>ip = iph\<lparr>ip_tot_len := udp_len udph\<rparr>, udp = udph, data = payload\<rparr>
      in do {
        uc \<leftarrow> udhcp_checksum (packet_bytes q) sizeof_udp_dhcp_packet;
        let iph2 = (ip q)\<lparr>ip_tot_len := htons (of_nat sizeof_udp_dhcp_packet), ip_ihl := 5,
              ip_version := IPVERSION, ip_ttl := IPDEFTTL\<rparr>;
        ic \<leftarrow> udhcp_checksum (iphdr_bytes iph2) 20;
        Some (q\<lparr>ip := iph2\<lparr>ip_check := ic\<rparr>, udp := udph\<lparr>udp_check := uc\<rparr>\<rparr>) })"

definition udhcp_raw_packet ::
    "send_env \<Rightarrow> dhcpMessage \<Rightarrow> u32 \<Rightarrow> u16 \<Rightarrow> u32 \<Rightarrow> u16 \<Rightarrow> bytes \<Rightarrow> int \<Rightarrow>
     (int \<times> wire option) option" where
  "udhcp_raw_packet e payload source_ip source_port dest_ip dest_port dest_arp ifindex =
     (if \<not> sock_ok e then Some (-1, None)
      else do {
        hw \<leftarrow> rd_range dest_arp 0 6;
        if \<not> bind_ok e then Some (-1, None)
        else do {
          q \<leftarrow> raw_packet payload source_ip source_port dest_ip dest_port;
          Some (sent e, Some (RawFrame ifindex hw (packet_bytes q))) } })"

definition udhcp_kernel_packet ::
    "send_env \<Rightarrow> dhcpMessage \<Rightarrow> u32 \<Rightarrow> u16 \<Rightarrow> u32 \<Rightarrow> u16 \<Rightarrow> int \<times> wire option" where
  "udhcp_kernel_packet e payload source_ip source_port dest_ip dest_port =
     (if \<not> sock_ok e then (-1, None)
      else if \<not> setsockopt_ok e then (-1, None)
      else if \<not> bind_ok e then (-1, None)
      else if \<not> connect_ok e then (-1, None)
      else (sent e,
        Some (KernelDatagram source_ip source_port dest_ip dest_port (msg_bytes payload))))"

section \<open>Incoming messages\<close>

text \<open>
  \<open>read\<close> of at most \<open>n\<close> bytes into a zeroed buffer of \<open>n\<close> bytes. The argument is what the
  socket delivers, \<open>None\<close> for a read error.
\<close>

definition read_zeroed :: "nat \<Rightarrow> bytes \<Rightarrow> bytes" where
  "read_zeroed n d = take n d @ replicate (n - length d) 0"

definition broken_vendor :: bytes where
  "broken_vendor = map (\<lambda>c. of_nat (of_char c)) ''MSFT 98''"

definition udhcp_get_packet :: "bytes option \<Rightarrow> (int \<times> dhcpMessage) option" where
  "udhcp_get_packet rx =
     (case rx of
        None \<Rightarrow> Some (-1, zero_msg)
      | Some d \<Rightarrow>
          (let packet = msg_of_bytes (read_zeroed sizeof_dhcpMessage d);
               n = int (min sizeof_dhcpMessage (length d))
           in if ntohl (cookie packet) \<noteq> DHCP_MAGIC then Some (-2, packet)
              else if msg_op packet \<noteq> BOOTREQUEST then Some (n, packet)
              else do {
                vendor \<leftarrow> get_option packet DHCP_VENDOR;
                case vendor of
                  None \<Rightarrow> Some (n, packet)
                | Some ptr \<Rightarrow> do {
                    l \<leftarrow> ptr_len packet ptr;
                    if l \<noteq> of_nat (length broken_vendor) then Some (n, packet)
                    else do {
                      v \<leftarrow> ptr_range packet ptr (unat l);
                      if v = broken_vendor
                      then Some (n, packet\<lparr>flags := flags packet OR htons BROADCAST_FLAG\<rparr>)
                      else Some (n, packet) } } }))"

text \<open>
  The copy of \<open>len\<close> bytes of the received message into the caller's message \<open>payload\<close>, and the
  test of the cookie. \<open>len\<close> is a \<open>size_t\<close>; a copy that is longer than the message is an access
  outside of it.
\<close>

definition copy_payload :: "dhcpMessage \<Rightarrow> dhcpMessage \<Rightarrow> u32 \<Rightarrow> (int \<times> dhcpMessage) option" where
  "copy_payload payload received len = do {
     let n = unat len;
     src \<leftarrow> rd_range (msg_bytes received) 0 n;
     dst \<leftarrow> wr_range (msg_bytes payload) 0 src;
     let payload' = msg_of_bytes dst;
     if ntohl (cookie payload') \<noteq> DHCP_MAGIC then Some (-2, payload')
     else Some (int n, payload') }"

text \<open>
  \<open>get_raw_packet\<close> copies \<open>bytes - 28\<close> bytes into the caller's message. The length is
  computed in \<open>size_t\<close>, and a copy that is longer than the message is an access outside of
  it. \<open>payload\<close> is the caller's message before the call.
\<close>

definition get_raw_packet :: "dhcpMessage \<Rightarrow> bytes option \<Rightarrow> (int \<times> dhcpMessage) option" where
  "get_raw_packet payload rx =
     (case rx of
        None \<Rightarrow> Some (-1, payload)
      | Some d \<Rightarrow>
          (let packet = packet_of_bytes (read_zeroed sizeof_udp_dhcp_packet d);
               bytes = min sizeof_udp_dhcp_packet (length d);
               tot = unat (ntohs (ip_tot_len (ip packet)))
           in if bytes < 20 + 8 then Some (-2, payload)
              else if bytes < tot then Some (-2, payload)
              else if ip_protocol (ip packet) \<noteq> IPPROTO_UDP \<or> ip_version (ip packet) \<noteq> IPVERSION \<or>
                ip_ihl (ip packet) \<noteq> 5 \<or> udp_dest (udp packet) \<noteq> htons CLIENT_PORT \<or>
                sizeof_udp_dhcp_packet < tot \<or>
                ntohs (udp_len (udp packet)) \<noteq> (of_nat tot - 20 :: u16)
              then Some (-2, payload)
              else do {
                ic \<leftarrow> udhcp_checksum (iphdr_bytes ((ip packet)\<lparr>ip_check := 0\<rparr>)) 20;
                if ip_check (ip packet) \<noteq> ic then Some (-1, payload)
                else (
                  let check = udp_check (udp packet);
                      pseudo = packet\<lparr>
                        ip := zero_iphdr\<lparr>ip_protocol := IPPROTO_UDP, ip_saddr := ip_saddr (ip packet),
                          ip_daddr := ip_daddr (ip packet), ip_tot_len := udp_len (udp packet)\<rparr>,
                        udp := (udp packet)\<lparr>udp_check := 0\<rparr>\<rparr>
                  in do {
                    uc \<leftarrow> udhcp_checksum (packet_bytes pseudo) tot;
                    if check \<noteq> 0 \<and> check \<noteq> uc then Some (-2, payload)
                    else copy_payload payload (data packet) (of_nat tot - 28) }) }))"


section \<open>Layout round trips\<close>

lemma length_msg_bytes: "msg_wf p \<Longrightarrow> length (msg_bytes p) = 548"
  by (simp add: msg_bytes_def msg_wf_def)

lemma u32_at_le32 [simp]: "k = length xs \<Longrightarrow> u32_at (xs @ le32 w @ ys) k = w"
  by (simp add: u32_at_def le32_def nth_append)

lemma u16_at_le16 [simp]: "k = length xs \<Longrightarrow> u16_at (xs @ le16 w @ ys) k = w"
  by (simp add: u16_at_def le16_def nth_append)

lemma msg_of_bytes_msg_bytes: "msg_wf p \<Longrightarrow> msg_of_bytes (msg_bytes p @ zs) = p"
  apply (simp add: msg_of_bytes_def msg_wf_def)
  apply (cases p)
  apply (simp add: msg_bytes_def le32_def le16_def u32_at_def u16_at_def nth_append)
  done

lemma msg_wf_of_bytes: "548 \<le> length b \<Longrightarrow> msg_wf (msg_of_bytes b)"
  by (simp add: msg_of_bytes_def msg_wf_def)


lemma length_iphdr_bytes [simp]: "length (iphdr_bytes h) = 20"
  by (simp add: iphdr_bytes_def)

lemma length_udphdr_bytes [simp]: "length (udphdr_bytes h) = 8"
  by (simp add: udphdr_bytes_def)

lemma iphdr_of_bytes_iphdr_bytes:
  assumes "ip_ihl h = 5" "ip_version h = IPVERSION"
  shows "iphdr_of_bytes (iphdr_bytes h) = h"
proof (cases h)
  case (fields ihl version tos tot_len ident frag_off ttl protocol check saddr daddr)
  with assms show ?thesis
    by (simp add: iphdr_of_bytes_def iphdr_bytes_def le32_def le16_def u32_at_def u16_at_def
        IPVERSION_def)
qed

lemma udphdr_of_bytes_udphdr_bytes: "udphdr_of_bytes (udphdr_bytes h) = h"
  by (cases h) (simp add: udphdr_of_bytes_def udphdr_bytes_def le16_def u16_at_def)

lemma packet_of_bytes_packet_bytes:
  assumes "ip_ihl (ip q) = 5" "ip_version (ip q) = IPVERSION" "msg_wf (data q)"
  shows "packet_of_bytes (packet_bytes q) = q"
  using assms msg_of_bytes_msg_bytes [of "data q" "[]"]
  by (cases q) (simp add: packet_of_bytes_def packet_bytes_def iphdr_of_bytes_iphdr_bytes
      udphdr_of_bytes_udphdr_bytes)

lemma length_packet_bytes: "msg_wf (data q) \<Longrightarrow> length (packet_bytes q) = 576"
  by (simp add: packet_bytes_def length_msg_bytes)

section \<open>The Internet checksum\<close>

lemma cksum_loop_acc: "cksum_loop s m = s + cksum_loop 0 m"
proof (induction m arbitrary: s rule: induct_list012)
  case (3 a b rest)
  from "3.IH"(1) [of "s + unat (u16_of_le a b)"] "3.IH"(1) [of "unat (u16_of_le a b)"]
  show ?case by simp
qed simp_all

lemma cksum_loop_bound: "cksum_loop s m \<le> s + 65535 * ((length m + 1) div 2)"
proof (induction s m rule: cksum_loop.induct)
  case (1 s a b rest)
  moreover have "unat (u16_of_le a b) \<le> 65535" by simp
  moreover have "(length (a # b # rest) + 1) div 2 = 1 + (length rest + 1) div 2" by simp
  ultimately show ?case unfolding cksum_loop.simps by linarith
qed simp_all

lemma cksum_loop_append:
  "even (length xs) \<Longrightarrow> cksum_loop s (xs @ ys) = cksum_loop (cksum_loop s xs) ys"
  by (induction s xs rule: cksum_loop.induct) auto

lemma cksum_fold_props:
  "cksum_fold s < 65536 \<and> cksum_fold s mod 65535 = s mod 65535 \<and> (cksum_fold s = 0 \<longleftrightarrow> s = 0)"
proof (induction s rule: cksum_fold.induct)
  case (1 s)
  show ?case
  proof (cases "s div 65536 = 0")
    case True
    then show ?thesis by (auto simp: cksum_fold.simps [of s])
  next
    case False
    let ?t = "s mod 65536 + s div 65536"
    have s: "s = ?t + 65535 * (s div 65536)" by simp
    have "s mod 65535 = ?t mod 65535" by (subst s) (rule mod_mult_self2)
    moreover from False have "s \<noteq> 0" "?t \<noteq> 0" by auto
    ultimately show ?thesis
      using "1.IH" [OF False] False by (simp add: cksum_fold.simps [of s])
  qed
qed

lemma cksum_complement:
  fixes s c :: nat
  defines "c \<equiv> 65535 - cksum_fold s"
  shows "cksum_fold (s + c) = 65535"
proof -
  note fs = cksum_fold_props [of s] and ft = cksum_fold_props [of "s + c"]
  have "(s + c) mod 65535 = (cksum_fold s + c) mod 65535"
    using fs by (metis mod_add_cong)
  also have "cksum_fold s + c = 65535" using fs by (simp add: c_def)
  finally have "65535 dvd cksum_fold (s + c)" using ft by (simp add: mod_eq_0_iff_dvd)
  then obtain k where k: "cksum_fold (s + c) = 65535 * k" by (elim dvdE)
  have "cksum_fold (s + c) \<noteq> 0" using ft fs by (auto simp: c_def)
  moreover have "cksum_fold (s + c) < 65536" using ft by simp
  ultimately have "k = 1" using k by linarith
  with k show ?thesis by simp
qed

lemma unat_checksum:
  "unat (NOT (of_nat (cksum_fold s) :: u16)) = 65535 - cksum_fold s"
  using cksum_fold_props [of s] by (simp add: unat_not_u16 unat_of_nat)

lemma checksum_whole [simp]: "udhcp_checksum m (length m) = Some (NOT (of_nat (cksum_fold (cksum_loop 0 m))))"
  by (simp add: udhcp_checksum_def rd_range_def)

text \<open>
  A packet that carries its checksum verifies: when the checksum over a buffer with a zero
  checksum field at an even offset is stored into the field, the checksum over the buffer
  is 0.
\<close>

lemma udhcp_checksum_verifies:
  assumes "even (length pre)"
    and "udhcp_checksum (pre @ [0, 0] @ post) (length pre + 2 + length post) = Some c"
  shows "udhcp_checksum (pre @ le16 c @ post) (length pre + 2 + length post) = Some 0"
proof -
  let ?s = "cksum_loop (cksum_loop 0 pre) post"
  have "cksum_loop 0 (pre @ [0, 0] @ post) = ?s"
    using assms(1) by (simp add: cksum_loop_append u16_of_le_def)
  with assms(2) checksum_whole [of "pre @ [0, 0] @ post"]
  have c: "c = NOT (of_nat (cksum_fold ?s))" by simp
  have "cksum_loop 0 (pre @ le16 c @ post) = cksum_loop (cksum_loop 0 pre + unat c) post"
    using assms(1) by (simp add: cksum_loop_append le16_def)
  also have "\<dots> = ?s + unat c"
    using cksum_loop_acc [of "cksum_loop 0 pre + unat c" post] cksum_loop_acc [of "cksum_loop 0 pre" post]
    by simp
  also have "unat c = 65535 - cksum_fold ?s" by (simp add: c unat_checksum)
  finally have "cksum_fold (cksum_loop 0 (pre @ le16 c @ post)) = 65535"
    using cksum_complement [of ?s] by simp
  with checksum_whole [of "pre @ le16 c @ post"] show ?thesis by simp
qed


section \<open>Building and receiving\<close>

lemma ucast_ucast_byte [simp]: "ucast (ucast (b :: byte) :: u32) = b"
  by (rule bit_word_eqI) (simp add: bit_simps)

lemma code_ok_known [simp]:
  "code_ok DHCP_MESSAGE_TYPE" "code_ok DHCP_SERVER_ID" "code_ok DHCP_LEASE_TIME"
  "code_ok DHCP_REQUESTED_IP" "code_ok DHCP_VENDOR" "code_ok DHCP_PARAM_REQ"
  by (simp_all add: code_ok_def dhcp_code_defs)

lemma put_simple_type:
  assumes "holds p ts"
  shows "\<exists>p'. put_simple p DHCP_MESSAGE_TYPE (ucast t) = Some p' \<and> msg_frame p' = msg_frame p \<and>
    holds p' (tlv_add 308 ts (DHCP_MESSAGE_TYPE, [t]))"
proof -
  let ?w = "ucast t :: u32"
  have "le32 ?w = [t] @ tl (le32 ?w)" by (simp add: le32_def)
  then have "put_simple p DHCP_MESSAGE_TYPE ?w =
      put_string p (DHCP_MESSAGE_TYPE # of_nat (length [t]) # [t] @ tl (le32 ?w))"
    by (metis One_nat_def length_Cons list.size(3) of_nat_1 simple_option_type)
  with optf.put_refines [OF assms, of DHCP_MESSAGE_TYPE "[t]" "tl (le32 ?w)"] show ?thesis
    by (simp add: tlv_ok_def)
qed

lemma put_simple_u32:
  assumes "holds p ts" "code \<in> {DHCP_REQUESTED_IP, DHCP_LEASE_TIME, DHCP_SERVER_ID}"
  shows "\<exists>p'. put_simple p code w = Some p' \<and> msg_frame p' = msg_frame p \<and>
    holds p' (tlv_add 308 ts (code, le32 w))"
proof -
  have "tlv_ok (code, le32 w)" using assms(2) by (auto simp: tlv_ok_def)
  from optf.put_tlv [OF assms(1) this] assms(2) show ?thesis
    by (auto simp: tlv_string_def)
qed

lemma udhcp_init_header_holds:
  "\<exists>p. udhcp_init_header type = Some p \<and> holds p [(DHCP_MESSAGE_TYPE, [type])] \<and> msg_wf p \<and>
     msg_frame p = msg_frame (zero_msg\<lparr>msg_op := header_op type, htype := ETH_10MB,
       hlen := ETH_10MB_LEN, cookie := htonl DHCP_MAGIC\<rparr>)"
proof -
  define p where "p = zero_msg\<lparr>msg_op := header_op type, htype := ETH_10MB, hlen := ETH_10MB_LEN,
                cookie := htonl DHCP_MAGIC, options := (options zero_msg)[0 := DHCP_END]\<rparr>"
  have "options p = DHCP_END # replicate 307 0"
    by (simp add: p_def zero_msg_def numeral_eq_Suc)
  then have "holds p []" by (auto simp: holds_def)
  from put_simple_type [OF this, of type] obtain p' where
    p': "put_simple p DHCP_MESSAGE_TYPE (ucast type) = Some p'" "msg_frame p' = msg_frame p"
      "holds p' [(DHCP_MESSAGE_TYPE, [type])]"
    by (auto simp: tlv_add_def)
  from p'(2,3) have "msg_wf p'"
    by (cases p') (auto simp: msg_wf_def holds_def p_def zero_msg_def msg_frame_def)
  with p' show ?thesis
    unfolding udhcp_init_header_def Let_def p_def [symmetric] by (auto simp: p_def msg_frame_def)
qed

lemma raw_packet_Some:
  assumes "msg_wf payload"
  shows "\<exists>q. raw_packet payload sip sport dip dport = Some q"
proof -
  have "length (packet_bytes \<lparr>ip = iph, udp = uh, data = payload\<rparr>) = 576" for iph uh
    using assms by (simp add: length_packet_bytes)
  then show ?thesis
    by (auto simp: raw_packet_def Let_def udhcp_checksum_def rd_range_def)
qed

lemma raw_packet_recv:
  assumes wf: "msg_wf payload" "msg_wf old" and magic: "cookie payload = htonl DHCP_MAGIC"
    and q: "raw_packet payload sip sport dip CLIENT_PORT = Some q"
  shows "get_raw_packet old (Some (packet_bytes q @ garbage)) = Some (548, payload)"
proof -
  define udph where "udph = zero_udphdr\<lparr>udp_source := htons sport, udp_dest := htons CLIENT_PORT,
            udp_len := htons (of_nat (8 + sizeof_dhcpMessage))\<rparr>"
  define iph where "iph = zero_iphdr\<lparr>ip_protocol := IPPROTO_UDP, ip_saddr := sip, ip_daddr := dip,
     ip_tot_len := udp_len udph\<rparr>"
  define iph2 where "iph2 = iph\<lparr>ip_tot_len := htons (of_nat sizeof_udp_dhcp_packet), ip_ihl := 5,
              ip_version := IPVERSION, ip_ttl := IPDEFTTL\<rparr>"
  from q obtain uc ic where
    uc: "udhcp_checksum (packet_bytes \<lparr>ip = iph, udp = udph, data = payload\<rparr>) 576 = Some uc" and
    ic: "udhcp_checksum (iphdr_bytes iph2) 20 = Some ic" and
    q': "q = \<lparr>ip = iph2\<lparr>ip_check := ic\<rparr>, udp = udph\<lparr>udp_check := uc\<rparr>, data = payload\<rparr>"
    by (auto simp: raw_packet_def Let_def iph_def udph_def iph2_def split: bind_splits)
  have len: "length (packet_bytes q) = 576" using wf by (simp add: q' length_packet_bytes)
  have "packet_of_bytes (packet_bytes q) = q"
    using wf by (intro packet_of_bytes_packet_bytes) (simp_all add: q' iph2_def)
  then have parse: "packet_of_bytes (read_zeroed 576 (packet_bytes q @ garbage)) = q"
    using len by (simp add: read_zeroed_def)
  have size: "min 576 (length (packet_bytes q @ garbage)) = 576" by (simp add: len)
  have tot: "unat (ntohs (ip_tot_len (ip q))) = 576" by (simp add: q' iph2_def)
  have hdr: "(ip q)\<lparr>ip_check := 0\<rparr> = iph2" by (simp add: q' iph2_def iph_def zero_iphdr_def)
  have pseudo: "q\<lparr>ip := zero_iphdr\<lparr>ip_protocol := IPPROTO_UDP, ip_saddr := ip_saddr (ip q),
      ip_daddr := ip_daddr (ip q), ip_tot_len := udp_len (udp q)\<rparr>,
      udp := (udp q)\<lparr>udp_check := 0\<rparr>\<rparr> = \<lparr>ip = iph, udp = udph, data = payload\<rparr>"
    by (simp add: q' iph2_def iph_def udph_def zero_udphdr_def)
  have copy: "rd_range (msg_bytes payload) 0 548 = Some (msg_bytes payload)"
    "wr_range (msg_bytes old) 0 (msg_bytes payload) = Some (msg_bytes payload)"
    using wf by (simp_all add: rd_range_def wr_range_def length_msg_bytes)
  have rebuilt: "msg_of_bytes (msg_bytes payload) = payload"
    using msg_of_bytes_msg_bytes [OF wf(1), of "[]"] by simp
  show ?thesis
    unfolding get_raw_packet_def Let_def option.case parse size tot hdr pseudo ic uc
    by (simp add: q' iph2_def iph_def udph_def copy rebuilt magic copy_payload_def)
qed


text \<open>
  C24. A message that is sent through the raw socket to the client port arrives: the receive
  path of the client accepts the frame, whatever the link layer appends to it, verifies both
  checksums and returns the message unchanged.
\<close>

theorem raw_packet_received:
  assumes "msg_wf payload" "msg_wf old" "cookie payload = htonl DHCP_MAGIC"
  shows "\<exists>q. raw_packet payload sip sport dip CLIENT_PORT = Some q \<and>
    get_raw_packet old (Some (packet_bytes q @ garbage)) = Some (548, payload)"
  using raw_packet_Some [OF assms(1)] raw_packet_recv [OF assms] by blast

text \<open>A frame whose IP total length covers no UDP header.\<close>

definition runt_iphdr :: iphdr where
  "runt_iphdr = zero_iphdr\<lparr>ip_ihl := 5, ip_version := IPVERSION, ip_protocol := IPPROTO_UDP,
     ip_tot_len := htons 20, ip_check := 0xDABA\<rparr>"

definition runt_frame :: bytes where
  "runt_frame = iphdr_bytes runt_iphdr @ udphdr_bytes (zero_udphdr\<lparr>udp_dest := htons CLIENT_PORT\<rparr>)"

lemma runt_checksum: "udhcp_checksum (iphdr_bytes (runt_iphdr\<lparr>ip_check := 0\<rparr>)) 20 = Some 0xDABA"
  by (simp add: udhcp_checksum_def rd_range_def iphdr_bytes_def runt_iphdr_def zero_iphdr_def
      IPVERSION_def IPPROTO_UDP_def le16_def le32_def ntohs_def u16_of_le_def cksum_fold.simps)

lemma runt_parsed:
  "packet_of_bytes (read_zeroed 576 runt_frame) =
     \<lparr>ip = runt_iphdr, udp = zero_udphdr\<lparr>udp_dest := htons CLIENT_PORT\<rparr>, data = zero_msg\<rparr>"
proof -
  have "length (msg_bytes zero_msg) = 548" by (simp add: length_msg_bytes msg_wf_def zero_msg_def)
  have "replicate 548 0 = msg_bytes zero_msg"
    by (simp add: msg_bytes_def zero_msg_def le32_def le16_def replicate_add [symmetric]
        replicate_app_Cons_same replicate_Suc [symmetric] del: replicate_Suc)
  moreover have "length runt_frame = 28" by (simp add: runt_frame_def)
  ultimately have "read_zeroed 576 runt_frame = packet_bytes
     \<lparr>ip = runt_iphdr, udp = zero_udphdr\<lparr>udp_dest := htons CLIENT_PORT\<rparr>, data = zero_msg\<rparr>"
    by (simp add: read_zeroed_def packet_bytes_def runt_frame_def)
  then show ?thesis
    by (simp add: packet_of_bytes_packet_bytes runt_iphdr_def msg_wf_def zero_msg_def)
qed

text \<open>
  The checks that a frame has to pass before its message is copied, as the two headers, the number of
  bytes and the total length of the IP header.
\<close>

definition frame_passes :: "udp_dhcp_packet \<Rightarrow> nat \<Rightarrow> nat \<Rightarrow> bool" where
  "frame_passes packet bytes tot \<longleftrightarrow> 28 \<le> bytes \<and> tot \<le> bytes \<and>
     ip_protocol (ip packet) = IPPROTO_UDP \<and> ip_version (ip packet) = IPVERSION \<and> ip_ihl (ip packet) = 5 \<and>
     udp_dest (udp packet) = htons CLIENT_PORT \<and> ntohs (udp_len (udp packet)) = of_nat tot - 20 \<and>
     udhcp_checksum (iphdr_bytes ((ip packet)\<lparr>ip_check := 0\<rparr>)) 20 = Some (ip_check (ip packet)) \<and>
     (udp_check (udp packet) = 0 \<or>
      udhcp_checksum (packet_bytes (packet\<lparr>
        ip := zero_iphdr\<lparr>ip_protocol := IPPROTO_UDP, ip_saddr := ip_saddr (ip packet),
          ip_daddr := ip_daddr (ip packet), ip_tot_len := udp_len (udp packet)\<rparr>,
        udp := (udp packet)\<lparr>udp_check := 0\<rparr>\<rparr>)) tot = Some (udp_check (udp packet)))"

lemma length_read_zeroed [simp]: "length (read_zeroed n d) = n"
  by (simp add: read_zeroed_def)

lemma get_raw_packet_passes:
  assumes "packet = packet_of_bytes (read_zeroed 576 d)" "tot = unat (ntohs (ip_tot_len (ip packet)))"
    "frame_passes packet (min 576 (length d)) tot"
  shows "get_raw_packet payload (Some d) = copy_payload payload (data packet) (of_nat tot - 28)"
proof -
  have "msg_wf (data packet)" using assms(1) by (simp add: packet_of_bytes_def msg_wf_of_bytes)
  then have "length (packet_bytes (packet\<lparr>ip := a, udp := b\<rparr>)) = 576" for a b
    by (simp add: packet_bytes_def length_msg_bytes)
  moreover have "tot \<le> 576" using assms(3) by (simp add: frame_passes_def)
  ultimately have uc: "udhcp_checksum (packet_bytes (packet\<lparr>ip := a, udp := b\<rparr>)) tot \<noteq> None" for a b
    by (simp add: udhcp_checksum_def rd_range_def)
  let ?pseudo = "packet\<lparr>ip := zero_iphdr\<lparr>ip_protocol := IPPROTO_UDP, ip_saddr := ip_saddr (ip packet),
      ip_daddr := ip_daddr (ip packet), ip_tot_len := udp_len (udp packet)\<rparr>, udp := (udp packet)\<lparr>udp_check := 0\<rparr>\<rparr>"
  obtain c where "udhcp_checksum (packet_bytes ?pseudo) tot = Some c" using uc by blast
  then show ?thesis
    using assms(3) unfolding get_raw_packet_def Let_def option.case assms(1,2) [symmetric] frame_passes_def
    by (auto simp: assms(2) [symmetric] split: bind_splits)
qed

text \<open>
  C32. Every frame that passes the checks and whose IP header announces a total length \<open>tot\<close> below the
  28 bytes of the two headers reaches the copy of the message, which is asked for \<open>tot - 28\<close> bytes,
  as a \<open>size_t\<close> almost four gigabytes, and runs out of the message of 548 bytes.
\<close>

theorem get_raw_packet_runt:
  assumes "packet = packet_of_bytes (read_zeroed 576 d)" "tot = unat (ntohs (ip_tot_len (ip packet)))"
    "frame_passes packet (min 576 (length d)) tot" "tot < 28"
  shows "get_raw_packet payload (Some d) = copy_payload payload (data packet) (of_nat tot - 28) \<and>
    unat (of_nat tot - 28 :: u32) = 2 ^ 32 - 28 + tot \<and> length (msg_bytes (data packet)) = 548 \<and>
    copy_payload payload (data packet) (of_nat tot - 28) = None"
proof -
  have data: "length (msg_bytes (data packet)) = 548"
    using assms(1) by (simp add: packet_of_bytes_def msg_wf_of_bytes length_msg_bytes)
  have "of_nat tot - 28 = (of_nat (2 ^ 32 - 28 + tot) :: u32)"
    by simp
  then have n: "unat (of_nat tot - 28 :: u32) = 2 ^ 32 - 28 + tot"
    using assms(4) by (simp only: unat_of_nat) simp
  then show ?thesis
    using get_raw_packet_passes [OF assms(1-3)] data by (simp add: copy_payload_def rd_range_def)
qed

theorem get_raw_packet_runt_witness: "get_raw_packet zero_msg (Some runt_frame) = None"
proof -
  have "min 576 (length runt_frame) = 28" "unat (ntohs (ip_tot_len runt_iphdr)) = 20"
    by (simp_all add: runt_frame_def runt_iphdr_def)
  then show ?thesis
    using get_raw_packet_runt [OF refl refl, of runt_frame zero_msg] runt_checksum
    by (simp add: runt_parsed frame_passes_def zero_udphdr_def ntohs_def u16_of_le_def)
      (simp add: runt_iphdr_def)
qed

section \<open>Witnesses\<close>

lemma sample_checksum: "udhcp_checksum [1, 2, 3, 4, 0, 0] 6 = Some 0xF9FB"
  by (simp add: udhcp_checksum_def rd_range_def u16_of_le_def cksum_fold.simps)

lemma udhcp_checksum_verifies_example:
  "udhcp_checksum [1, 2, 3, 4, 0, 0] 6 = Some 0xF9FB \<and> udhcp_checksum [1, 2, 3, 4, 0xFB, 0xF9] 6 = Some 0"
proof -
  have len: "length ([1, 2, 3, 4] :: bytes) + 2 + length ([] :: bytes) = 6" by simp
  have "udhcp_checksum ([1, 2, 3, 4] @ le16 0xF9FB @ []) 6 = Some 0"
    by (rule udhcp_checksum_verifies [where pre = "[1, 2, 3, 4]" and post = "[]", unfolded len])
       (simp_all add: sample_checksum)
  moreover have "le16 0xF9FB = [0xFB, 0xF9]" by (simp add: le16_def)
  ultimately show ?thesis using sample_checksum by simp
qed

theorem raw_packet_received_witness:
  "\<exists>q. raw_packet sample_msg 1 SERVER_PORT 2 CLIENT_PORT = Some q \<and>
     get_raw_packet zero_msg (Some (packet_bytes q @ [0, 0])) = Some (548, sample_msg)"
  by (rule raw_packet_received) (simp_all add: sample_msg_wf msg_wf_def zero_msg_def sample_msg_def DHCP_MAGIC_def)

end
