(* ===== verification/Udhcp_Leases.thy ===== *)
theory Udhcp_Leases
  imports Udhcp_Packet
begin

text \<open>
  The lease table (\<open>leases.c\<close>) and the static leases (\<open>static_leases.c\<close>) of the server,
  over the configuration of \<open>dhcpd.h\<close>. \<open>leases\<close> is an array of \<open>max_leases\<close> entries: a list
  here, and a \<open>struct dhcpOfferedAddr *\<close> into it is an index. The clock is read once per
  handled message (\<open>now\<close>), and the result of \<open>arpping\<close> for an address is an argument.
\<close>

section \<open>Data\<close>

record dhcpOfferedAddr =
  l_chaddr :: bytes
  l_yiaddr :: u32
  l_expires :: u32

record static_lease =
  st_mac :: bytes
  st_ip :: u32

record server_config_t =
  sc_server :: u32
  sc_start :: u32
  sc_end :: u32
  sc_options :: "bytes list"
  sc_interface :: string
  sc_ifindex :: int
  sc_arp :: bytes
  sc_lease :: u32
  sc_max_leases :: u32
  sc_remaining :: bool
  sc_auto_time :: u32
  sc_decline_time :: u32
  sc_conflict_time :: u32
  sc_offer_time :: u32
  sc_min_lease :: u32
  sc_lease_file :: string
  sc_pidfile :: string
  sc_notify_file :: "string option"
  sc_siaddr :: u32
  sc_sname :: "bytes option"
  sc_boot_file :: "bytes option"
  sc_static_leases :: "static_lease list"

text \<open>The global is zeroed when the program starts.\<close>

definition server_config_init :: server_config_t where
  "server_config_init = \<lparr>sc_server = 0, sc_start = 0, sc_end = 0, sc_options = [], sc_interface = [],
     sc_ifindex = 0, sc_arp = replicate 6 0, sc_lease = 0, sc_max_leases = 0, sc_remaining = False,
     sc_auto_time = 0, sc_decline_time = 0, sc_conflict_time = 0, sc_offer_time = 0,
     sc_min_lease = 0, sc_lease_file = [], sc_pidfile = [], sc_notify_file = None, sc_siaddr = 0,
     sc_sname = None, sc_boot_file = None, sc_static_leases = []\<rparr>"

type_synonym leases = "dhcpOfferedAddr list"

definition blank_chaddr :: bytes where
  "blank_chaddr = replicate 16 0"

definition blank_lease :: dhcpOfferedAddr where
  "blank_lease = \<lparr>l_chaddr = blank_chaddr, l_yiaddr = 0, l_expires = 0\<rparr>"

section \<open>The table\<close>

text \<open>The loop that stops at the first nonzero byte of the hardware address.\<close>

definition leading_zeros :: "bytes \<Rightarrow> nat" where
  "leading_zeros ch = length (takeWhile (\<lambda>b. b = 0) (take 16 ch))"

definition clear_lease :: "leases \<Rightarrow> bytes \<Rightarrow> u32 \<Rightarrow> leases" where
  "clear_lease ls ch yi =
     (let j = leading_zeros ch in
      map (\<lambda>l. if (j \<noteq> 16 \<and> l_chaddr l = take 16 ch) \<or> (yi \<noteq> 0 \<and> l_yiaddr l = yi)
               then blank_lease else l) ls)"

fun oldest_loop :: "nat \<Rightarrow> u32 \<Rightarrow> nat option \<Rightarrow> leases \<Rightarrow> nat option" where
  "oldest_loop i oldest_lease oldest [] = oldest"
| "oldest_loop i oldest_lease oldest (l # ls) =
     (if oldest_lease > l_expires l then oldest_loop (Suc i) (l_expires l) (Some i) ls
      else oldest_loop (Suc i) oldest_lease oldest ls)"

definition oldest_expired_lease :: "u32 \<Rightarrow> leases \<Rightarrow> nat option" where
  "oldest_expired_lease now ls = oldest_loop 0 now None ls"

definition add_lease :: "u32 \<Rightarrow> leases \<Rightarrow> bytes \<Rightarrow> u32 \<Rightarrow> u32 \<Rightarrow> leases \<times> nat option" where
  "add_lease now ls ch yi lease =
     (let ls1 = clear_lease ls ch yi in
      case oldest_expired_lease now ls1 of
        None \<Rightarrow> (ls1, None)
      | Some k \<Rightarrow>
          (ls1[k := \<lparr>l_chaddr = take 16 ch, l_yiaddr = yi, l_expires = now + lease\<rparr>], Some k))"

definition lease_expired :: "u32 \<Rightarrow> dhcpOfferedAddr \<Rightarrow> bool" where
  "lease_expired now l \<longleftrightarrow> l_expires l < now"

fun find_index_from :: "('a \<Rightarrow> bool) \<Rightarrow> nat \<Rightarrow> 'a list \<Rightarrow> nat option" where
  "find_index_from P i [] = None"
| "find_index_from P i (x # xs) = (if P x then Some i else find_index_from P (Suc i) xs)"

definition find_lease_by_chaddr :: "leases \<Rightarrow> bytes \<Rightarrow> nat option" where
  "find_lease_by_chaddr ls ch = find_index_from (\<lambda>l. l_chaddr l = take 16 ch) 0 ls"

definition find_lease_by_yiaddr :: "leases \<Rightarrow> u32 \<Rightarrow> nat option" where
  "find_lease_by_yiaddr ls yi = find_index_from (\<lambda>l. l_yiaddr l = yi) 0 ls"

section \<open>Static leases\<close>

definition addStaticLease :: "static_lease list \<Rightarrow> bytes \<Rightarrow> u32 \<Rightarrow> static_lease list" where
  "addStaticLease lease_struct mac addr = lease_struct @ [\<lparr>st_mac = mac, st_ip = addr\<rparr>]"

text \<open>Both searches walk to the end of the list: the last match decides.\<close>

fun getIpByMac_loop :: "u32 \<Rightarrow> static_lease list \<Rightarrow> bytes \<Rightarrow> u32" where
  "getIpByMac_loop return_ip [] mac = return_ip"
| "getIpByMac_loop return_ip (cur # rest) mac =
     getIpByMac_loop (if take 6 (st_mac cur) = take 6 mac then st_ip cur else return_ip) rest mac"

definition getIpByMac :: "static_lease list \<Rightarrow> bytes \<Rightarrow> u32" where
  "getIpByMac lease_struct mac = getIpByMac_loop 0 lease_struct mac"

fun reservedIp_loop :: "bool \<Rightarrow> static_lease list \<Rightarrow> u32 \<Rightarrow> bool" where
  "reservedIp_loop return_val [] addr = return_val"
| "reservedIp_loop return_val (cur # rest) addr =
     reservedIp_loop (if st_ip cur = addr then True else return_val) rest addr"

definition reservedIp :: "static_lease list \<Rightarrow> u32 \<Rightarrow> bool" where
  "reservedIp lease_struct addr = reservedIp_loop False lease_struct addr"

section \<open>Finding an address\<close>

text \<open>\<open>arp addr\<close> is what \<open>arpping\<close> returns for the address: 0 when somebody has it.\<close>

definition check_ip :: "server_config_t \<Rightarrow> (u32 \<Rightarrow> int) \<Rightarrow> u32 \<Rightarrow> leases \<Rightarrow> u32 \<Rightarrow> leases \<times> bool" where
  "check_ip cfg arp now ls addr =
     (if arp addr = 0 then (fst (add_lease now ls blank_chaddr addr (sc_conflict_time cfg)), True)
      else (ls, False))"

text \<open>
  The loop over the pool counts \<open>addr\<close> in 32 bits, so with an \<open>end\<close> of 255.255.255.255 its
  condition never fails: \<open>None\<close> is a loop that does not return.
\<close>

partial_function (option) find_address_loop ::
    "server_config_t \<Rightarrow> (u32 \<Rightarrow> int) \<Rightarrow> u32 \<Rightarrow> bool \<Rightarrow> u32 \<Rightarrow> leases \<Rightarrow> (u32 \<times> leases) option" where
  "find_address_loop cfg arp now check_expired addr ls =
     (if addr \<le> ntohl (sc_end cfg) then
        if addr AND 0xFF = 0 then find_address_loop cfg arp now check_expired (addr + 1) ls
        else if addr AND 0xFF = 0xFF then find_address_loop cfg arp now check_expired (addr + 1) ls
        else if \<not> reservedIp (sc_static_leases cfg) (htonl addr) then
          (let ret = htonl addr in
           if (case find_lease_by_yiaddr ls ret of
                 None \<Rightarrow> True
               | Some k \<Rightarrow> check_expired \<and> lease_expired now (ls ! k))
           then (case check_ip cfg arp now ls ret of
                   (ls', taken) \<Rightarrow>
                     if \<not> taken then Some (ret, ls')
                     else find_address_loop cfg arp now check_expired (addr + 1) ls')
           else find_address_loop cfg arp now check_expired (addr + 1) ls)
        else find_address_loop cfg arp now check_expired (addr + 1) ls
      else Some (0, ls))"

definition find_address ::
    "server_config_t \<Rightarrow> (u32 \<Rightarrow> int) \<Rightarrow> u32 \<Rightarrow> bool \<Rightarrow> leases \<Rightarrow> (u32 \<times> leases) option" where
  "find_address cfg arp now check_expired ls =
     find_address_loop cfg arp now check_expired (ntohl (sc_start cfg)) ls"

section \<open>Invariant of the table\<close>

text \<open>Entries with a key other than the blank one have different keys.\<close>

definition uniq :: "('a \<Rightarrow> 'k) \<Rightarrow> 'k \<Rightarrow> 'a list \<Rightarrow> bool" where
  "uniq key none xs \<longleftrightarrow>
     (\<forall>i < length xs. \<forall>j < length xs. key (xs ! i) = key (xs ! j) \<longrightarrow> key (xs ! i) \<noteq> none \<longrightarrow> i = j)"

lemma uniqI [intro?]:
  "(\<And>i j. i < length xs \<Longrightarrow> j < length xs \<Longrightarrow> key (xs ! i) = key (xs ! j) \<Longrightarrow>
     key (xs ! i) \<noteq> none \<Longrightarrow> i = j) \<Longrightarrow> uniq key none xs"
  by (simp add: uniq_def)

lemma uniqD:
  "uniq key none xs \<Longrightarrow> i < length xs \<Longrightarrow> j < length xs \<Longrightarrow> key (xs ! i) = key (xs ! j) \<Longrightarrow>
     key (xs ! i) \<noteq> none \<Longrightarrow> i = j"
  by (auto simp: uniq_def)

lemma uniq_cong:
  assumes "map key xs = map key ys"
  shows "uniq key none xs \<longleftrightarrow> uniq key none ys"
proof -
  have "length xs = length ys" using assms by (metis length_map)
  moreover from this assms have "key (xs ! i) = key (ys ! i)" if "i < length ys" for i
    using that by (metis nth_map)
  ultimately show ?thesis by (simp add: uniq_def)
qed

lemma uniq_Cons:
  "uniq key none (x # xs) \<longleftrightarrow> uniq key none xs \<and> (key x \<noteq> none \<longrightarrow> key x \<notin> key ` set xs)"
  (is "?l \<longleftrightarrow> ?r")
proof
  assume l: ?l
  have "uniq key none xs"
  proof (rule uniqI)
    fix i j assume "i < length xs" "j < length xs" "key (xs ! i) = key (xs ! j)" "key (xs ! i) \<noteq> none"
    with uniqD [OF l, of "Suc i" "Suc j"] show "i = j" by simp
  qed
  moreover have "key x \<noteq> key (xs ! i)" if "key x \<noteq> none" "i < length xs" for i
    using uniqD [OF l, of 0 "Suc i"] that by auto
  ultimately show ?r by (metis imageE in_set_conv_nth)
next
  assume r: ?r
  have first: "key (xs ! i) \<noteq> key x" if "key x \<noteq> none" "i < length xs" for i
    using r that by (metis image_eqI nth_mem)
  show ?l
  proof (rule uniqI)
    fix i j assume "i < length (x # xs)" "j < length (x # xs)" "key ((x # xs) ! i) = key ((x # xs) ! j)"
      "key ((x # xs) ! i) \<noteq> none"
    with r first show "i = j"
      by (cases i; cases j) (auto dest: uniqD)
  qed
qed

lemma uniq_filter: "uniq key none xs \<Longrightarrow> uniq key none (filter P xs)"
  by (induction xs) (auto simp: uniq_Cons)

lemma uniq_append_other:
  assumes "uniq key none (xs @ y # ys)" "x \<in> set xs" "key y \<noteq> none"
  shows "key x \<noteq> key y"
proof -
  from assms(2) obtain i where "i < length xs" "xs ! i = x" by (auto simp: in_set_conv_nth)
  with uniqD [OF assms(1), of i "length xs"] assms(3) show ?thesis by (auto simp: nth_append)
qed

definition leases_ok :: "leases \<Rightarrow> bool" where
  "leases_ok ls \<longleftrightarrow> (\<forall>l \<in> set ls. length (l_chaddr l) = 16) \<and>
     uniq l_yiaddr 0 ls \<and> uniq l_chaddr blank_chaddr ls"

locale keyed_table =
  fixes key :: "'a \<Rightarrow> 'k" and none :: 'k and blank :: 'a
  assumes key_blank: "key blank = none"
begin

lemma uniq_clear:
  assumes "uniq key none xs"
  shows "uniq key none (map (\<lambda>x. if P x then blank else x) xs)"
  using assms by (auto simp: uniq_def key_blank split: if_splits)

lemma uniq_store:
  assumes "uniq key none xs" and "key x \<noteq> none \<Longrightarrow> \<forall>y \<in> set xs. key y \<noteq> key x"
  shows "uniq key none (xs[k := x])"
proof (rule uniqI)
  fix i j
  assume ij: "i < length (xs[k := x])" "j < length (xs[k := x])"
    and eq: "key (xs[k := x] ! i) = key (xs[k := x] ! j)" and nn: "key (xs[k := x] ! i) \<noteq> none"
  have "key (xs ! n) \<noteq> key x" if "n < length xs" "key x \<noteq> none" for n
    using assms(2) that by (simp add: nth_mem)
  then show "i = j"
    using ij eq nn uniqD [OF assms(1), of i j]
    by (cases "i = k"; cases "j = k") (simp_all, metis+)
qed

lemma uniq_same_key:
  assumes "uniq key none xs" "k < length xs" "key x = key (xs ! k) \<or> key x = none"
  shows "uniq key none (xs[k := x])"
proof (rule uniqI)
  fix i j
  assume ij: "i < length (xs[k := x])" "j < length (xs[k := x])"
    and eq: "key (xs[k := x] ! i) = key (xs[k := x] ! j)" and nn: "key (xs[k := x] ! i) \<noteq> none"
  then show "i = j"
    using assms uniqD [OF assms(1), of i j]
    by (cases "i = k"; cases "j = k") auto
qed

lemma uniq_replicate: "uniq key none (replicate n blank)"
  by (simp add: uniq_def key_blank)

end

interpretation yi: keyed_table l_yiaddr "0 :: u32" blank_lease
  by unfold_locales (simp add: blank_lease_def)

interpretation ch: keyed_table l_chaddr blank_chaddr blank_lease
  by unfold_locales (simp add: blank_lease_def)


lemma leading_zeros_blank:
  assumes "length ch = 16"
  shows "leading_zeros ch = 16 \<longleftrightarrow> ch = blank_chaddr"
proof -
  let ?z = "\<lambda>b. b = (0 :: byte)"
  have "length (takeWhile ?z ch) + length (dropWhile ?z ch) = 16"
    using assms by (metis length_append takeWhile_dropWhile_id)
  then have "length (takeWhile ?z ch) = 16 \<longleftrightarrow> length (dropWhile ?z ch) = 0" by linarith
  then have "leading_zeros ch = 16 \<longleftrightarrow> dropWhile ?z ch = []"
    using assms unfolding leading_zeros_def length_0_conv by simp
  also have "\<dots> \<longleftrightarrow> ch = blank_chaddr"
    using assms by (auto simp: blank_chaddr_def dropWhile_eq_Nil_conv intro: replicate_eqI)
  finally show ?thesis .
qed

lemma clear_lease_ok: "leases_ok ls \<Longrightarrow> leases_ok (clear_lease ls c y)"
proof -
  assume ok: "leases_ok ls"
  have "length (l_chaddr blank_lease) = 16" by (simp add: blank_lease_def blank_chaddr_def)
  with ok show ?thesis
    by (simp add: leases_ok_def clear_lease_def Let_def yi.uniq_clear ch.uniq_clear) auto
qed

lemma clear_lease_yiaddr: "y \<noteq> 0 \<Longrightarrow> l \<in> set (clear_lease ls c y) \<Longrightarrow> l_yiaddr l \<noteq> y"
  by (auto simp: clear_lease_def Let_def blank_lease_def split: if_splits)

lemma clear_lease_chaddr:
  "length c = 16 \<Longrightarrow> c \<noteq> blank_chaddr \<Longrightarrow> l \<in> set (clear_lease ls c y) \<Longrightarrow> l_chaddr l \<noteq> c"
  using leading_zeros_blank [of c]
  by (auto simp: clear_lease_def Let_def blank_lease_def split: if_splits)

lemma length_clear_lease [simp]: "length (clear_lease ls c y) = length ls"
  by (simp add: clear_lease_def Let_def)

lemma length_add_lease [simp]: "length (fst (add_lease now ls c y t)) = length ls"
  by (simp add: add_lease_def Let_def split: option.splits)

lemma add_lease_ok:
  assumes "leases_ok ls" "length c = 16"
  shows "leases_ok (fst (add_lease now ls c y t))"
proof (cases "oldest_expired_lease now (clear_lease ls c y)")
  case None
  with assms(1) show ?thesis by (simp add: add_lease_def clear_lease_ok)
next
  case (Some k)
  let ?l = "\<lparr>l_chaddr = c, l_yiaddr = y, l_expires = now + t\<rparr>"
  let ?ls = "clear_lease ls c y"
  have ok: "leases_ok ?ls" using assms(1) by (rule clear_lease_ok)
  have "\<forall>l \<in> set (?ls[k := ?l]). length (l_chaddr l) = 16"
    using ok assms(2) set_update_subset_insert [of ?ls k ?l] by (auto simp: leases_ok_def)
  moreover have "uniq l_yiaddr 0 (?ls[k := ?l])"
    using ok clear_lease_yiaddr by (intro yi.uniq_store) (auto simp: leases_ok_def)
  moreover have "uniq l_chaddr blank_chaddr (?ls[k := ?l])"
    using ok clear_lease_chaddr [OF assms(2)] by (intro ch.uniq_store) (auto simp: leases_ok_def)
  ultimately show ?thesis
    using Some assms(2) by (simp add: add_lease_def leases_ok_def)
qed


subsection \<open>Which entry a new lease takes\<close>

text \<open>The candidate found so far is the first entry that is older than all before it.\<close>

fun oldest_spec :: "u32 \<Rightarrow> leases \<Rightarrow> nat option \<Rightarrow> bool" where
  "oldest_spec now ls None \<longleftrightarrow> (\<forall>l \<in> set ls. now \<le> l_expires l)"
| "oldest_spec now ls (Some k) \<longleftrightarrow> k < length ls \<and> l_expires (ls ! k) < now \<and>
     (\<forall>l \<in> set ls. l_expires (ls ! k) \<le> l_expires l)"

lemma oldest_loop_spec:
  assumes "oldest_spec now pre cand"
    and "m = (case cand of None \<Rightarrow> now | Some k \<Rightarrow> l_expires (pre ! k))"
  shows "oldest_spec now (pre @ ls) (oldest_loop (length pre) m cand ls)"
  using assms
proof (induction ls arbitrary: pre m cand)
  case Nil
  then show ?case by simp
next
  case (Cons l ls)
  show ?case
  proof (cases "m > l_expires l")
    case True
    have "oldest_spec now (pre @ [l]) (Some (length pre))"
      using True Cons.prems by (cases cand) auto
    from Cons.IH [OF this refl] True show ?thesis by simp
  next
    case False
    have "oldest_spec now (pre @ [l]) cand"
      using False Cons.prems by (cases cand) (auto simp: nth_append)
    moreover have "m = (case cand of None \<Rightarrow> now | Some k \<Rightarrow> l_expires ((pre @ [l]) ! k))"
      using Cons.prems by (cases cand) (auto simp: nth_append)
    ultimately show ?thesis using Cons.IH [of "pre @ [l]" cand m] False by simp
  qed
qed

lemma oldest_expired_spec: "oldest_spec now ls (oldest_expired_lease now ls)"
  using oldest_loop_spec [of now "[]" None now ls] by (simp add: oldest_expired_lease_def)

lemma oldest_expired_None:
  "oldest_expired_lease now ls = None \<Longrightarrow> l \<in> set ls \<Longrightarrow> \<not> lease_expired now l"
  using oldest_expired_spec [of now ls] by (auto simp: lease_expired_def)

lemma oldest_expired_Some:
  assumes "oldest_expired_lease now ls = Some k"
  shows "k < length ls" and "lease_expired now (ls ! k)"
    and "l \<in> set ls \<Longrightarrow> l_expires (ls ! k) \<le> l_expires l"
  using assms oldest_expired_spec [of now ls] by (auto simp: lease_expired_def)

lemma find_index_from_Some:
  "find_index_from P i xs = Some k \<Longrightarrow> i \<le> k \<and> k < i + length xs \<and> P (xs ! (k - i)) \<and>
     (\<forall>j < k - i. \<not> P (xs ! j))"
proof (induction xs arbitrary: i)
  case Nil
  then show ?case by simp
next
  case (Cons x xs)
  show ?case
  proof (cases "P x")
    case True
    with Cons.prems show ?thesis by simp
  next
    case False
    from Cons.IH [of "Suc i"] Cons.prems False have *: "Suc i \<le> k \<and> k < Suc i + length xs \<and> P (xs ! (k - Suc i)) \<and>
        (\<forall>j < k - Suc i. \<not> P (xs ! j))" by simp
    then have "k - i = Suc (k - Suc i)" by linarith
    with * False show ?thesis by (auto simp: less_Suc_eq_0_disj)
  qed
qed

lemma find_index_from_None: "find_index_from P i xs = None \<longleftrightarrow> (\<forall>x \<in> set xs. \<not> P x)"
  by (induction xs arbitrary: i) auto

lemma find_lease_by_yiaddr_None: "find_lease_by_yiaddr ls a = None \<longleftrightarrow> (\<forall>l \<in> set ls. l_yiaddr l \<noteq> a)"
  by (simp add: find_lease_by_yiaddr_def find_index_from_None)

lemma find_lease_by_yiaddr_Some:
  "find_lease_by_yiaddr ls a = Some k \<Longrightarrow> k < length ls \<and> l_yiaddr (ls ! k) = a"
  using find_index_from_Some [of _ 0 ls k] by (auto simp: find_lease_by_yiaddr_def)

lemma find_lease_by_chaddr_Some:
  "find_lease_by_chaddr ls c = Some k \<Longrightarrow> k < length ls \<and> l_chaddr (ls ! k) = take 16 c"
  using find_index_from_Some [of _ 0 ls k] by (auto simp: find_lease_by_chaddr_def)


subsection \<open>Finding an address\<close>

text \<open>An address of the pool that is neither a network nor a broadcast address nor static.\<close>

definition candidate :: "server_config_t \<Rightarrow> u32 \<Rightarrow> bool" where
  "candidate cfg addr \<longleftrightarrow> addr AND 0xFF \<noteq> 0 \<and> addr AND 0xFF \<noteq> 0xFF \<and>
     \<not> reservedIp (sc_static_leases cfg) (htonl addr)"

text \<open>No entry holds the address, or only an expired one when expired leases count as free.\<close>

definition available :: "u32 \<Rightarrow> bool \<Rightarrow> leases \<Rightarrow> u32 \<Rightarrow> bool" where
  "available now check_expired ls a \<longleftrightarrow>
     (\<forall>l \<in> set ls. l_yiaddr l = a \<longrightarrow> check_expired \<and> lease_expired now l)"

lemma find_lease_available:
  assumes "leases_ok ls" "a \<noteq> 0"
  shows "(case find_lease_by_yiaddr ls a of
            None \<Rightarrow> True | Some k \<Rightarrow> check_expired \<and> lease_expired now (ls ! k)) \<longleftrightarrow>
         available now check_expired ls a"
proof (cases "find_lease_by_yiaddr ls a")
  case None
  with find_lease_by_yiaddr_None [of ls a] show ?thesis by (simp add: available_def)
next
  case (Some k)
  then have k: "k < length ls" "l_yiaddr (ls ! k) = a"
    using find_lease_by_yiaddr_Some by auto
  have "l = ls ! k" if "l \<in> set ls" "l_yiaddr l = a" for l
  proof -
    from that obtain i where "i < length ls" "ls ! i = l" by (auto simp: in_set_conv_nth)
    with that k assms show ?thesis
      by (metis leases_ok_def uniqD)
  qed
  with Some k show ?thesis by (auto simp: available_def)
qed

lemma candidate_nonzero: "candidate cfg addr \<Longrightarrow> htonl addr \<noteq> 0"
proof
  assume "candidate cfg addr" "htonl addr = 0"
  then have "addr = ntohl 0" by (metis ntohl_ntohl)
  with \<open>candidate cfg addr\<close> show False
    by (simp add: candidate_def ntohl_def u32_of_le_def)
qed

lemma find_address_loop_unfold:
  assumes "leases_ok ls"
  shows "find_address_loop cfg arp now chk addr ls =
     (if addr \<le> ntohl (sc_end cfg) then
        if candidate cfg addr \<and> available now chk ls (htonl addr) then
          if arp (htonl addr) = 0
          then find_address_loop cfg arp now chk (addr + 1)
                 (fst (add_lease now ls blank_chaddr (htonl addr) (sc_conflict_time cfg)))
          else Some (htonl addr, ls)
        else find_address_loop cfg arp now chk (addr + 1) ls
      else Some (0, ls))"
proof (cases "candidate cfg addr")
  case True
  note * = find_lease_available [OF assms candidate_nonzero [OF True], of chk now]
  from True show ?thesis
    by (subst find_address_loop.simps)
       (simp only: candidate_def if_True if_False Let_def * check_ip_def split: prod.splits if_splits, auto)
next
  case False
  then show ?thesis
    by (subst find_address_loop.simps) (auto simp: candidate_def)
qed

text \<open>Reserving a conflicting address frees nothing and takes no other address.\<close>

lemma add_lease_yiaddr_subset:
  assumes "l \<in> set (fst (add_lease now ls c b t))" "l_yiaddr l \<noteq> b" "l_yiaddr l \<noteq> 0"
  shows "l \<in> set ls"
proof (cases "oldest_expired_lease now (clear_lease ls c b)")
  case None
  with assms show ?thesis
    by (auto simp: add_lease_def clear_lease_def Let_def blank_lease_def split: if_splits)
next
  case (Some k)
  with assms(1) have "l \<in> insert \<lparr>l_chaddr = take 16 c, l_yiaddr = b, l_expires = now + t\<rparr>
      (set (clear_lease ls c b))"
    using set_update_subset_insert by (fastforce simp: add_lease_def)
  with assms(2,3) show ?thesis
    by (auto simp: clear_lease_def Let_def blank_lease_def split: if_splits)
qed

text \<open>Entering a lease keeps the unexpired leases of other clients and addresses.\<close>

lemma add_lease_live:
  assumes "l \<in> set ls" "\<not> lease_expired now l" "l_yiaddr l \<noteq> b \<or> b = 0"
    and "l_chaddr l \<noteq> take 16 c \<or> leading_zeros c = 16"
  shows "l \<in> set (fst (add_lease now ls c b t))"
proof -
  let ?ls = "clear_lease ls c b"
  from assms(1) obtain i where i: "i < length ls" "ls ! i = l" by (auto simp: in_set_conv_nth)
  with assms(3,4) have cl: "?ls ! i = l" "i < length ?ls" by (auto simp: clear_lease_def Let_def)
  show ?thesis
  proof (cases "oldest_expired_lease now ?ls")
    case None
    with cl show ?thesis by (auto simp: add_lease_def in_set_conv_nth)
  next
    case (Some k)
    with oldest_expired_Some(2) [OF Some] cl assms(2) have "k \<noteq> i" by auto
    with Some cl show ?thesis by (fastforce simp: add_lease_def in_set_conv_nth)
  qed
qed


lemma leading_zeros_blank_chaddr [simp]: "leading_zeros blank_chaddr = 16"
  using leading_zeros_blank [of blank_chaddr] by (simp add: blank_chaddr_def)

lemma available_live_mono: "available now chk ls a \<Longrightarrow> available now True ls a"
  by (auto simp: available_def)

definition find_result ::
    "server_config_t \<Rightarrow> (u32 \<Rightarrow> int) \<Rightarrow> u32 \<Rightarrow> bool \<Rightarrow> u32 \<Rightarrow> leases \<Rightarrow> u32 \<Rightarrow> leases \<Rightarrow> bool" where
  "find_result cfg arp now chk addr ls ret ls' \<longleftrightarrow>
     leases_ok ls' \<and> length ls' = length ls \<and>
     (if ret = 0
      then \<forall>a. addr \<le> a \<longrightarrow> a \<le> ntohl (sc_end cfg) \<longrightarrow> candidate cfg a \<longrightarrow>
             available now chk ls (htonl a) \<longrightarrow> arp (htonl a) = 0
      else addr \<le> ntohl ret \<and> ntohl ret \<le> ntohl (sc_end cfg) \<and> candidate cfg (ntohl ret) \<and>
           available now chk ls' ret \<and> available now True ls ret \<and> arp ret \<noteq> 0)"

lemma find_address_loop_result:
  assumes "ntohl (sc_end cfg) \<noteq> - 1" "leases_ok ls"
  shows "\<exists>ret ls'. find_address_loop cfg arp now chk addr ls = Some (ret, ls') \<and>
     find_result cfg arp now chk addr ls ret ls'"
  using assms(2)
proof (induction "unat (ntohl (sc_end cfg)) + 1 - unat addr" arbitrary: addr ls rule: less_induct)
  case less
  let ?E = "ntohl (sc_end cfg)"
  note unfold = find_address_loop_unfold [OF less.prems, of cfg arp now chk addr]
  show ?case
  proof (cases "addr \<le> ?E")
    case False
    with less.prems show ?thesis by (auto simp: unfold find_result_def)
  next
    case True
    have max: "addr \<noteq> - 1" using True assms(1) by (metis word_order.extremum_unique)
    have dec: "unat ?E + 1 - unat (addr + 1) < unat ?E + 1 - unat addr"
      using True unat_plus_1 [OF max] by (simp add: word_le_nat_alt)
    have up: "addr \<le> a" if "addr + 1 \<le> a" for a
      using that unat_plus_1 [OF max] by (simp add: word_le_nat_alt)
    note succ = word_le_cases_succ [OF max]
    show ?thesis
    proof (cases "candidate cfg addr \<and> available now chk ls (htonl addr)")
      case False
      from less.hyps [OF dec less.prems] obtain ret ls' where
        r: "find_address_loop cfg arp now chk (addr + 1) ls = Some (ret, ls')"
          "find_result cfg arp now chk (addr + 1) ls ret ls'" by blast
      have "find_result cfg arp now chk addr ls ret ls'"
        using r(2) False up succ by (fastforce simp: find_result_def split: if_splits)
      with r(1) True False show ?thesis by (auto simp: unfold)
    next
      case cand: True
      show ?thesis
      proof (cases "arp (htonl addr) = 0")
        case False
        with cand True less.prems candidate_nonzero available_live_mono show ?thesis
          by (auto simp: unfold find_result_def)
      next
        case taken: True
        let ?ls = "fst (add_lease now ls blank_chaddr (htonl addr) (sc_conflict_time cfg))"
        have ok: "leases_ok ?ls"
          using less.prems by (intro add_lease_ok) (simp_all add: blank_chaddr_def)
        from less.hyps [OF dec ok] obtain ret ls' where
          r: "find_address_loop cfg arp now chk (addr + 1) ?ls = Some (ret, ls')"
            "find_result cfg arp now chk (addr + 1) ?ls ret ls'" by blast
        have keep: "available now chk ?ls (htonl a)"
          if "available now chk ls (htonl a)" "candidate cfg a" "a \<noteq> addr" for a
          using that candidate_nonzero add_lease_yiaddr_subset
          by (fastforce simp: available_def)
        have live: "available now True ls a" if "available now True ?ls a" "a \<noteq> htonl addr" for a
          using that add_lease_live [of _ ls now "htonl addr" blank_chaddr] by (auto simp: available_def)
        have "ret \<noteq> htonl addr" if "addr + 1 \<le> ntohl ret"
          using that unat_plus_1 [OF max] by (auto simp: word_le_nat_alt)
        with r(2) up succ keep taken live have "find_result cfg arp now chk addr ls ret ls'"
          by (fastforce simp: find_result_def split: if_splits)
        with r(1) True cand taken show ?thesis by (auto simp: unfold)
      qed
    qed
  qed
qed

lemma find_address_result:
  assumes "ntohl (sc_end cfg) \<noteq> - 1" "leases_ok ls"
  shows "\<exists>ret ls'. find_address cfg arp now chk ls = Some (ret, ls') \<and>
     find_result cfg arp now chk (ntohl (sc_start cfg)) ls ret ls'"
  using find_address_loop_result [OF assms] by (simp add: find_address_def)


section \<open>Properties\<close>

lemma find_index_uniq:
  assumes "uniq key none xs" "k < length xs" "key (xs ! k) = v" "v \<noteq> none"
  shows "find_index_from (\<lambda>x. key x = v) 0 xs = Some k"
proof (cases "find_index_from (\<lambda>x. key x = v) 0 xs")
  case None
  with assms show ?thesis by (auto simp: find_index_from_None)
next
  case (Some i)
  from find_index_from_Some [OF Some] have "i < length xs" "key (xs ! i) = v" by auto
  with uniqD [OF assms(1), of i k] assms Some show ?thesis by simp
qed

text \<open>
  A lease that \<open>add_lease\<close> enters is found again under its hardware address and under
  its IP address, and every entry of the table still has its own addresses.
\<close>

lemma add_lease_lookup:
  assumes "leases_ok ls" "length c = 16" "add_lease now ls c y t = (ls', Some k)"
  shows "leases_ok ls' \<and> k < length ls' \<and>
     ls' ! k = \<lparr>l_chaddr = c, l_yiaddr = y, l_expires = now + t\<rparr> \<and>
     (c \<noteq> blank_chaddr \<longrightarrow> find_lease_by_chaddr ls' c = Some k) \<and>
     (y \<noteq> 0 \<longrightarrow> find_lease_by_yiaddr ls' y = Some k)"
proof -
  from add_lease_ok [OF assms(1,2), of now y t] assms(3) have ok: "leases_ok ls'" by simp
  have "k < length ls" "oldest_expired_lease now (clear_lease ls c y) = Some k"
    using assms(3) oldest_expired_Some(1) [of now "clear_lease ls c y"]
    by (auto simp: add_lease_def Let_def split: option.splits)
  with assms(2,3) have k: "k < length ls'"
    "ls' ! k = \<lparr>l_chaddr = c, l_yiaddr = y, l_expires = now + t\<rparr>"
    by (auto simp: add_lease_def Let_def)
  with ok assms(2) find_index_uniq [of l_chaddr blank_chaddr ls' k c]
    find_index_uniq [of l_yiaddr 0 ls' k y]
  show ?thesis by (simp add: leases_ok_def find_lease_by_chaddr_def find_lease_by_yiaddr_def)
qed

text \<open>
  Entering a lease never takes an unexpired lease from another client: an entry that is
  not expired and has neither the hardware address nor the IP address of the new lease is
  the same afterwards.
\<close>

lemma add_lease_keeps_live:
  assumes "i < length ls" "\<not> lease_expired now (ls ! i)"
    and "l_chaddr (ls ! i) \<noteq> take 16 c" "l_yiaddr (ls ! i) \<noteq> y"
  shows "fst (add_lease now ls c y t) ! i = ls ! i"
proof -
  let ?ls = "clear_lease ls c y"
  have keep: "?ls ! i = ls ! i" using assms by (simp add: clear_lease_def Let_def)
  show ?thesis
  proof (cases "oldest_expired_lease now ?ls")
    case None
    with keep show ?thesis by (simp add: add_lease_def)
  next
    case (Some k)
    with oldest_expired_Some(2) [OF Some] keep assms(2) have "k \<noteq> i" by auto
    with Some keep show ?thesis by (simp add: add_lease_def)
  qed
qed

text \<open>
  C8. The search for an address ends whenever the pool does not end at 255.255.255.255. An
  address it returns lies in the pool, is neither a network nor a broadcast address, is not
  reserved as a static lease, answers to no ARP request and is held by no lease (by no
  unexpired lease in the second pass). When it returns 0, every address that was free
  belongs to a host that answers on the network. The table stays well-formed.
\<close>

theorem find_address_correct:
  assumes "ntohl (sc_end cfg) \<noteq> - 1" "leases_ok ls"
  shows "\<exists>ret ls'. find_address cfg arp now chk ls = Some (ret, ls') \<and> leases_ok ls' \<and>
     (ret \<noteq> 0 \<longrightarrow> ntohl (sc_start cfg) \<le> ntohl ret \<and> ntohl ret \<le> ntohl (sc_end cfg) \<and>
        candidate cfg (ntohl ret) \<and> available now chk ls' ret \<and> available now True ls ret \<and>
        arp ret \<noteq> 0) \<and>
     (ret = 0 \<longrightarrow> (\<forall>a. ntohl (sc_start cfg) \<le> a \<longrightarrow> a \<le> ntohl (sc_end cfg) \<longrightarrow>
        candidate cfg a \<longrightarrow> available now chk ls (htonl a) \<longrightarrow> arp (htonl a) = 0))"
  using find_address_result [OF assms, of arp now chk]
  by (auto simp: find_result_def split: if_splits)

lemma find_address_diverges:
  assumes "sc_end cfg = - 1" "\<And>a. arp a = 0"
  shows "find_address cfg arp now chk ls = None"
proof -
  have E: "ntohl (- 1) = - 1" by code_simp
  have "False" if ret: "find_address_loop cfg arp now chk addr ls = Some r" for addr r
  proof (rule find_address_loop.raw_induct
      [where P = "\<lambda>c a n e addr ls r. c = cfg \<longrightarrow> a = arp \<longrightarrow> False", OF _ ret, rule_format], goal_cases)
    case (1 f c a n e addr ls r)
    have IH: "f cfg arp n e addr ls = None" for n e addr ls
      using 1(1) [of cfg arp n e addr ls] by (cases "f cfg arp n e addr ls") auto
    with 1(2-4) show ?case
      by (simp add: E assms check_ip_def Let_def split: if_splits option.splits)
  qed simp_all
  then show ?thesis by (cases "find_address cfg arp now chk ls") (auto simp: find_address_def)
qed

lemma check_ip_ok:
  assumes "leases_ok ls" "check_ip cfg arp now ls a = (ls', taken)"
  shows "leases_ok ls' \<and> length ls' = length ls"
proof -
  have "length blank_chaddr = 16" by (simp add: blank_chaddr_def)
  from add_lease_ok [OF assms(1) this] assms(2) show ?thesis
    using assms(1) by (auto simp: check_ip_def split: if_splits)
qed

lemma find_address_loop_ok:
  assumes ret: "find_address_loop cfg arp now chk addr ls = Some r"
  shows "leases_ok ls \<longrightarrow> leases_ok (snd r) \<and> length (snd r) = length ls"
proof (rule find_address_loop.raw_induct
    [where P = "\<lambda>c a n e addr ls r. leases_ok ls \<longrightarrow> leases_ok (snd r) \<and> length (snd r) = length ls",
      OF _ ret], goal_cases)
  case (1 f c a n e addr ls r)
  show ?case
  proof
    assume ok: "leases_ok ls"
    note IH = 1(1) [rule_format]
    show "leases_ok (snd r) \<and> length (snd r) = length ls"
    proof (cases "addr \<le> ntohl (sc_end c)")
      case False
      with 1(2) ok show ?thesis by auto
    next
      case True
      obtain ls' taken where ci: "check_ip c a n ls (htonl addr) = (ls', taken)" by fastforce
      note ok' = check_ip_ok [OF ok ci]
      have "f c a n e (addr + 1) ls = Some r \<or> r = (htonl addr, ls') \<or> f c a n e (addr + 1) ls' = Some r"
        using 1(2) True by (simp add: ci Let_def split: if_splits option.splits)
      then show ?thesis
      proof (elim disjE)
        assume "f c a n e (addr + 1) ls = Some r"
        from IH [OF this ok] show ?thesis .
      next
        assume "f c a n e (addr + 1) ls' = Some r"
        from IH [OF this] ok' show ?thesis by simp
      qed (use ok' in simp)
    qed
  qed
qed

lemma find_address_ok:
  "find_address cfg arp now chk ls = Some (a, ls') \<Longrightarrow> leases_ok ls \<Longrightarrow>
   leases_ok ls' \<and> length ls' = length ls"
  using find_address_loop_ok [of cfg arp now chk _ ls "(a, ls')"] by (auto simp: find_address_def)

lemma entry_update_ok:
  assumes "leases_ok ls" "k < length ls" "l_yiaddr l = l_yiaddr (ls ! k)"
    and "l_chaddr l = l_chaddr (ls ! k) \<or> l_chaddr l = blank_chaddr"
  shows "leases_ok (ls[k := l])"
proof -
  have "length (l_chaddr l) = 16"
    using assms by (auto simp: leases_ok_def blank_chaddr_def)
  then have "\<forall>x \<in> set (ls[k := l]). length (l_chaddr x) = 16"
    using assms(1) set_update_subset_insert [of ls k l] by (auto simp: leases_ok_def)
  moreover have "uniq l_yiaddr 0 (ls[k := l])"
    using assms by (intro yi.uniq_same_key) (auto simp: leases_ok_def)
  moreover have "uniq l_chaddr blank_chaddr (ls[k := l])"
    using assms by (intro ch.uniq_same_key) (auto simp: leases_ok_def)
  ultimately show ?thesis by (simp add: leases_ok_def)
qed

lemma leases_ok_blank: "leases_ok (replicate n blank_lease)"
proof -
  have "length (l_chaddr blank_lease) = 16" by (simp add: blank_lease_def blank_chaddr_def)
  then show ?thesis by (simp add: leases_ok_def yi.uniq_replicate ch.uniq_replicate)
qed

lemma find_address_loop_live:
  assumes ret: "find_address_loop cfg arp now chk addr ls = Some r"
  shows "leases_ok ls \<longrightarrow> l \<in> set ls \<longrightarrow> \<not> lease_expired now l \<longrightarrow> l \<in> set (snd r)"
proof (rule find_address_loop.raw_induct
    [where P = "\<lambda>c a n e addr ls r. leases_ok ls \<longrightarrow> l \<in> set ls \<longrightarrow> \<not> lease_expired n l \<longrightarrow> l \<in> set (snd r)",
      OF _ ret], goal_cases)
  case (1 f c a n e addr ls r)
  show ?case
  proof (intro impI)
    assume ok: "leases_ok ls" and l: "l \<in> set ls" "\<not> lease_expired n l"
    note IH = 1(1) [rule_format]
    let ?b = "htonl addr"
    let ?ls = "fst (add_lease n ls blank_chaddr ?b (sc_conflict_time c))"
    have ok': "leases_ok ?ls" using ok by (intro add_lease_ok) (simp_all add: blank_chaddr_def)
    have "f c a n e (addr + 1) ls = Some r \<or> snd r = ls \<or>
        (candidate c addr \<and> available n e ls ?b \<and> f c a n e (addr + 1) ?ls = Some r)"
    proof (cases "candidate c addr")
      case True
      from 1(2) True show ?thesis
        by (simp only: candidate_def if_True if_False Let_def check_ip_def
            find_lease_available [OF ok candidate_nonzero [OF True], of e n]
            split: prod.splits if_splits, auto)
    next
      case False
      with 1(2) show ?thesis by (auto simp: candidate_def split: if_splits)
    qed
    then show "l \<in> set (snd r)"
    proof (elim disjE conjE)
      assume "f c a n e (addr + 1) ls = Some r"
      from IH [OF this ok l] show ?thesis .
    next
      assume "candidate c addr" "available n e ls ?b" and r: "f c a n e (addr + 1) ?ls = Some r"
      then have "l_yiaddr l \<noteq> ?b" using l by (auto simp: available_def)
      then have "l \<in> set ?ls" using l by (intro add_lease_live) simp_all
      from IH [OF r ok' this l(2)] show ?thesis .
    qed (use l in simp)
  qed
qed

lemma find_address_live:
  "find_address cfg arp now chk ls = Some (a, ls') \<Longrightarrow> leases_ok ls \<Longrightarrow> l \<in> set ls \<Longrightarrow>
   \<not> lease_expired now l \<Longrightarrow> l \<in> set ls'"
  using find_address_loop_live [of cfg arp now chk _ ls "(a, ls')"] by (auto simp: find_address_def)

text \<open>The same as what a search relates its result to, for a search that returned.\<close>

lemma find_address_free:
  assumes "find_address cfg arp now chk ls = Some (a, ls')" "leases_ok ls" "a \<noteq> 0"
    and "ntohl (sc_end cfg) \<noteq> - 1"
  shows "available now True ls a"
  using find_address_result [OF assms(4,2), of arp now chk] assms(1,3)
  by (auto simp: find_result_def split: if_splits)

section \<open>Witnesses\<close>

definition sample_mac :: "byte \<Rightarrow> bytes" where
  "sample_mac b = [2, 0, 0, 0, 0, b] @ replicate 10 0"

lemma length_sample_mac: "length (sample_mac b) = 16"
  by (simp add: sample_mac_def)

text \<open>The pool 10.0.0.1 to 10.0.0.5.\<close>

definition sample_pool :: server_config_t where
  "sample_pool = server_config_init\<lparr>sc_start := 0x0100000A, sc_end := 0x0500000A, sc_server := 0xFE00000A,
     sc_lease := 3600, sc_min_lease := 60, sc_max_leases := 2, sc_offer_time := 60\<rparr>"

definition sample_lease :: dhcpOfferedAddr where
  "sample_lease = \<lparr>l_chaddr = sample_mac 1, l_yiaddr = 0x0100000A, l_expires = 200\<rparr>"

lemma sample_table_ok: "leases_ok [sample_lease, blank_lease]"
proof -
  have "length (l_chaddr sample_lease) = 16" "length (l_chaddr blank_lease) = 16"
    by (simp_all add: sample_lease_def sample_mac_def blank_lease_def blank_chaddr_def)
  moreover have "uniq l_yiaddr 0 [sample_lease, blank_lease]" "uniq l_chaddr blank_chaddr [sample_lease, blank_lease]"
    by (auto simp: uniq_def less_Suc_eq sample_lease_def blank_lease_def)
  ultimately show ?thesis by (simp add: leases_ok_def)
qed

lemma sample_add_lease:
  "add_lease 100 [sample_lease, blank_lease] (sample_mac 2) 0x0200000A 60 =
     ([sample_lease, \<lparr>l_chaddr = sample_mac 2, l_yiaddr = 0x0200000A, l_expires = 160\<rparr>], Some 1)"
  by (simp add: add_lease_def clear_lease_def oldest_expired_lease_def sample_lease_def blank_lease_def
      sample_mac_def blank_chaddr_def)

lemma add_lease_lookup_example:
  "find_lease_by_yiaddr (fst (add_lease 100 [sample_lease, blank_lease] (sample_mac 2) 0x0200000A 60)) 0x0200000A = Some 1"
  using add_lease_lookup [OF sample_table_ok length_sample_mac sample_add_lease] sample_add_lease by simp

lemma add_lease_keeps_live_example:
  "fst (add_lease 100 [sample_lease, blank_lease] (sample_mac 2) 0x0200000A 60) ! 0 = sample_lease"
  using add_lease_keeps_live [of 0 "[sample_lease, blank_lease]" 100 "sample_mac 2" "0x0200000A" 60]
  by (simp add: sample_lease_def sample_mac_def lease_expired_def)

theorem find_address_correct_witness:
  "\<exists>ret ls'. find_address sample_pool (\<lambda>a. 1) 100 False [sample_lease, blank_lease] = Some (ret, ls') \<and> leases_ok ls'"
proof -
  have "ntohl (sc_end sample_pool) \<noteq> - 1" by code_simp
  from find_address_correct [OF this sample_table_ok, of "\<lambda>a. 1" 100 False] show ?thesis by blast
qed

end
