(* ===== verification/C_Lib.thy ===== *)
theory C_Lib
  imports Prelude
begin

text \<open>
  The functions of the C library that the modelled code calls on strings. A C string is the
  list of its characters in front of the terminating zero.
\<close>

definition byte_of_char :: "char \<Rightarrow> byte" where
  "byte_of_char c = of_nat (of_char c)"

definition str_bytes :: "string \<Rightarrow> bytes" where
  "str_bytes s = map byte_of_char s"

definition isspace :: "char \<Rightarrow> bool" where
  "isspace c \<longleftrightarrow> c \<in> {CHR '' '', CHR 0x09, CHR 0x0A, CHR 0x0B, CHR 0x0C, CHR 0x0D}"

definition isdigit :: "char \<Rightarrow> bool" where
  "isdigit c \<longleftrightarrow> 48 \<le> (of_char c :: nat) \<and> (of_char c :: nat) \<le> 57"

definition to_lower :: "char \<Rightarrow> char" where
  "to_lower c = (if 65 \<le> (of_char c :: nat) \<and> (of_char c :: nat) \<le> 90
     then char_of ((of_char c :: nat) + 32) else c)"

text \<open>\<open>!strcasecmp(a, b)\<close>\<close>

definition strcaseeq :: "string \<Rightarrow> string \<Rightarrow> bool" where
  "strcaseeq a b \<longleftrightarrow> map to_lower a = map to_lower b"

text \<open>The token, and the rest of the string that the next call continues with.\<close>

definition strtok :: "string \<Rightarrow> string \<Rightarrow> (string \<times> string) option" where
  "strtok delims s =
     (let s1 = dropWhile (\<lambda>c. c \<in> set delims) s;
          tok = takeWhile (\<lambda>c. c \<notin> set delims) s1
      in if s1 = [] then None else Some (tok, drop (length tok + 1) s1))"

definition digit_val :: "char \<Rightarrow> nat" where
  "digit_val c =
     (let n = (of_char c :: nat) in
      if 48 \<le> n \<and> n \<le> 57 then n - 48
      else if 97 \<le> n \<and> n \<le> 122 then n - 87
      else if 65 \<le> n \<and> n \<le> 90 then n - 55
      else 255)"

definition digits_val :: "nat \<Rightarrow> string \<Rightarrow> nat" where
  "digits_val b ds = foldl (\<lambda>v c. v * b + digit_val c) 0 ds"

text \<open>
  The common part of \<open>strtoul\<close> and \<open>strtol\<close>: the sign, the magnitude and the end of the
  number; \<open>None\<close> when there is no digit. Base 0 takes the base from the prefix.
\<close>

definition strip_sign :: "string \<Rightarrow> bool \<times> string" where
  "strip_sign s =
     (case s of
        c # r \<Rightarrow> if c = CHR ''-'' then (True, r) else if c = CHR ''+'' then (False, r) else (False, s)
      | [] \<Rightarrow> (False, s))"

definition strip_base :: "nat \<Rightarrow> string \<Rightarrow> nat \<times> string" where
  "strip_base b s =
     (if (b = 0 \<or> b = 16) \<and> 2 < length s \<and> s ! 0 = CHR ''0'' \<and> to_lower (s ! 1) = CHR ''x'' \<and>
        digit_val (s ! 2) < 16 then (16, drop 2 s)
      else if b = 0 then (if s \<noteq> [] \<and> hd s = CHR ''0'' then (8, s) else (10, s))
      else (b, s))"

definition scan_num :: "nat \<Rightarrow> string \<Rightarrow> (bool \<times> nat \<times> string) option" where
  "scan_num b s =
     (case strip_sign (dropWhile isspace s) of (neg, s1) \<Rightarrow>
      case strip_base b s1 of (base, s2) \<Rightarrow>
        (let ds = takeWhile (\<lambda>c. digit_val c < base) s2 in
         if ds = [] then None
         else Some (neg, digits_val base ds, drop (length ds) s2)))"

definition strtoul :: "nat \<Rightarrow> string \<Rightarrow> u32 \<times> string" where
  "strtoul b s =
     (case scan_num b s of
        None \<Rightarrow> (0, s)
      | Some (neg, v, rest) \<Rightarrow>
          (if v \<ge> 2 ^ 32 then - 1 else if neg then - of_nat v else of_nat v, rest))"

definition strtol :: "nat \<Rightarrow> string \<Rightarrow> int \<times> string" where
  "strtol b s =
     (case scan_num b s of
        None \<Rightarrow> (0, s)
      | Some (neg, v, rest) \<Rightarrow>
          (if neg then max (- (2 ^ 31)) (- int v) else min (2 ^ 31 - 1) (int v), rest))"

lemma strip_shorter: "length (snd (strip_sign s)) \<le> length s" "length (snd (strip_base b s)) \<le> length s"
  by (auto simp: strip_sign_def strip_base_def split: list.split)

lemma scan_num_shorter: "scan_num b s = Some (neg, v, rest) \<Longrightarrow> length rest \<le> length s"
  using length_dropWhile_le [of isspace s] strip_shorter(1) [of "dropWhile isspace s"]
    strip_shorter(2) [of b "snd (strip_sign (dropWhile isspace s))"]
  by (auto simp: scan_num_def Let_def split: prod.splits if_splits)

lemma strtol_shorter: "length (snd (strtol b s)) \<le> length s"
  by (auto simp: strtol_def split: option.split prod.split dest: scan_num_shorter)

text \<open>
  \<open>fgets\<close> with a buffer of \<open>n\<close> bytes on the rest of a file: the next line with its newline,
  at most \<open>n - 1\<close> characters of it.
\<close>

definition fgets :: "nat \<Rightarrow> string \<Rightarrow> (string \<times> string) option" where
  "fgets n s =
     (if s = [] then None
      else let line = takeWhile (\<lambda>c. c \<noteq> CHR 0x0A) s;
               k = min (n - 1) (length line + 1)
           in Some (take k s, drop k s))"

text \<open>\<open>strncpy\<close> of a string into a buffer: at most \<open>n\<close> bytes, padded with zeros.\<close>

definition strncpy :: "bytes \<Rightarrow> bytes \<Rightarrow> nat \<Rightarrow> bytes" where
  "strncpy dst src n = take n (src @ replicate n 0) @ drop n dst"

lemma length_strncpy: "n \<le> length dst \<Longrightarrow> length (strncpy dst src n) = length dst"
  by (simp add: strncpy_def)

lemma length_str_bytes [simp]: "length (str_bytes s) = length s"
  by (simp add: str_bytes_def)

lemma fgets_shorter: "fgets n s = Some (l, r) \<Longrightarrow> 1 < n \<Longrightarrow> length r < length s"
  by (auto simp: fgets_def Let_def split: if_splits)

lemma strtok_shorter: "strtok d s = Some (t, r) \<Longrightarrow> length r < length s"
proof -
  assume a: "strtok d s = Some (t, r)"
  let ?s1 = "dropWhile (\<lambda>c. c \<in> set d) s"
  from a have "?s1 \<noteq> []" "r = drop (length (takeWhile (\<lambda>c. c \<notin> set d) ?s1) + 1) ?s1"
    by (auto simp: strtok_def Let_def split: if_splits)
  moreover have "length ?s1 \<le> length s" by (rule length_dropWhile_le)
  ultimately show ?thesis by (cases ?s1) auto
qed

lemma strtok_nonempty:
  assumes "strtok d s = Some (t, r)"
  shows "t \<noteq> []"
proof -
  let ?s1 = "dropWhile (\<lambda>c. c \<in> set d) s"
  from assms have "?s1 \<noteq> []" "t = takeWhile (\<lambda>c. c \<notin> set d) ?s1"
    by (auto simp: strtok_def Let_def split: if_splits)
  moreover from this(1) have "hd ?s1 \<notin> set d" using hd_dropWhile [of "\<lambda>c. c \<in> set d" s] by simp
  ultimately show ?thesis by (simp add: takeWhile_eq_Nil_iff)
qed

lemma strtok_token_length:
  assumes "strtok d s = Some (t, r)"
  shows "length t \<le> length s"
proof -
  let ?s1 = "dropWhile (\<lambda>c. c \<in> set d) s"
  from assms have "t = takeWhile (\<lambda>c. c \<notin> set d) ?s1"
    by (simp add: strtok_def Let_def split: if_splits)
  then have "length t \<le> length ?s1" by (simp add: length_takeWhile_le)
  also have "\<dots> \<le> length s" by (rule length_dropWhile_le)
  finally show ?thesis .
qed

section \<open>Printing\<close>

text \<open>\<open>%u\<close> and \<open>%d\<close>\<close>

fun dec :: "nat \<Rightarrow> bytes" where
  "dec n = (if n < 10 then [48 + of_nat n] else dec (n div 10) @ [48 + of_nat (n mod 10)])"

declare dec.simps [simp del]

definition dec_int :: "int \<Rightarrow> bytes" where
  "dec_int i = (if i < 0 then 45 # dec (nat (- i)) else dec (nat i))"

lemma length_dec: "n < 10 ^ k \<Longrightarrow> 0 < k \<Longrightarrow> length (dec n) \<le> k"
proof (induction n arbitrary: k rule: dec.induct)
  case (1 n)
  show ?case
  proof (cases "n < 10")
    case False
    with "1.prems" have "k \<noteq> 1" by auto
    with "1.prems"(2) obtain j where j: "k = Suc j" "0 < j" by (cases k) auto
    have "n div 10 < 10 ^ j" using "1.prems"(1) by (simp add: j(1) less_mult_imp_div_less mult.commute)
    from "1.IH" [OF False this j(2)] False j(1) show ?thesis by (simp add: dec.simps [of n])
  qed (use "1.prems" in \<open>simp add: dec.simps [of n]\<close>)
qed

lemma length_dec_int: "- (10 ^ k) < i \<Longrightarrow> i < 10 ^ k \<Longrightarrow> 0 < k \<Longrightarrow> length (dec_int i) \<le> k + 1"
  using length_dec [of "nat (- i)" k] length_dec [of "nat i" k]
  by (auto simp: dec_int_def nat_less_iff le_SucI)

text \<open>The C string at the start of a buffer.\<close>

definition c_str :: "bytes \<Rightarrow> bytes" where
  "c_str b = takeWhile (\<lambda>c. c \<noteq> 0) b"

text \<open>
  \<open>!strcmp(a, b)\<close> on two buffers; \<open>None\<close> when the comparison runs over the end of one.
\<close>

fun strcmp_eq :: "bytes \<Rightarrow> bytes \<Rightarrow> bool option" where
  "strcmp_eq (a # as) (b # bs) =
     (if a \<noteq> b then Some False else if a = 0 then Some True else strcmp_eq as bs)"
| "strcmp_eq _ _ = None"


text \<open>The sign of the result of \<open>strcmp\<close>, which compares unsigned characters.\<close>

fun strcmp_sign :: "string \<Rightarrow> string \<Rightarrow> int" where
  "strcmp_sign [] [] = 0"
| "strcmp_sign [] (b # bs) = - 1"
| "strcmp_sign (a # as) [] = 1"
| "strcmp_sign (a # as) (b # bs) =
     (if a = b then strcmp_sign as bs
      else if (of_char a :: nat) < of_char b then - 1 else 1)"

text \<open>The order of strings that \<open>strcmp\<close> computes.\<close>

definition string_less :: "string \<Rightarrow> string \<Rightarrow> bool" where
  "string_less a b \<longleftrightarrow> (a, b) \<in> lexord {(x, y). (of_char x :: nat) < of_char y}"

lemma strcmp_sign_less: "strcmp_sign a b < 0 \<longleftrightarrow> string_less a b" "0 < strcmp_sign a b \<longleftrightarrow> string_less b a"
proof (induction a b rule: strcmp_sign.induct)
  case (4 a as b bs)
  moreover have "a \<noteq> b \<Longrightarrow> (of_char a :: nat) < of_char b \<or> (of_char b :: nat) < of_char a"
    by (metis linorder_neqE_nat of_char_eq_iff)
  ultimately show "strcmp_sign (a # as) (b # bs) < 0 \<longleftrightarrow> string_less (a # as) (b # bs)"
    "0 < strcmp_sign (a # as) (b # bs) \<longleftrightarrow> string_less (b # bs) (a # as)"
    by (auto simp: string_less_def)
qed (auto simp: string_less_def)

lemma strcmp_sign_zero: "strcmp_sign a b = 0 \<longleftrightarrow> a = b"
  by (induction a b rule: strcmp_sign.induct) auto

text \<open>The string in a buffer of characters.\<close>

definition cstring :: "string \<Rightarrow> string" where
  "cstring s = takeWhile (\<lambda>c. c \<noteq> CHR 0x00) s"

section \<open>The decimal text of a number\<close>

definition dstr :: "nat \<Rightarrow> string" where
  "dstr n = map (\<lambda>b. char_of (unat b)) (dec n)"

lemma dstr_simps:
  "n < 10 \<Longrightarrow> dstr n = [char_of (48 + n)]"
  "10 \<le> n \<Longrightarrow> dstr n = dstr (n div 10) @ [char_of (48 + n mod 10)]"
proof -
  have b: "unat (48 + word_of_nat k :: byte) = 48 + k" if "k < 10" for k
    using that by (simp add: unat_word_ariths unat_of_nat)
  show "n < 10 \<Longrightarrow> dstr n = [char_of (48 + n)]"
    "10 \<le> n \<Longrightarrow> dstr n = dstr (n div 10) @ [char_of (48 + n mod 10)]"
    by (simp_all add: dstr_def dec.simps [of n] b)
qed

lemma char_of_codes: "char_of (48 :: nat) = CHR ''0''" "char_of (45 :: nat) = CHR ''-''"
  by code_simp+

lemma digit_char:
  assumes "k < 10"
  shows "isdigit (char_of (48 + k))" "digit_val (char_of (48 + k)) = k"
  using assms by (simp_all add: isdigit_def digit_val_def)

lemma dstr_props:
  "(\<forall>c \<in> set (dstr n). isdigit c \<and> digit_val c < 10) \<and> digits_val 10 (dstr n) = n \<and> dstr n \<noteq> [] \<and>
   (0 < n \<longrightarrow> hd (dstr n) \<noteq> CHR ''0'')"
proof (induction n rule: dec.induct)
  case (1 n)
  show ?case
  proof (cases "n < 10")
    case True
    moreover have "char_of (48 + n) \<noteq> CHR ''0''" if "0 < n"
    proof
      assume "char_of (48 + n) = CHR ''0''"
      then have "digit_val (CHR ''0'') = n" using digit_char(2) [OF True] by simp
      with that show False by (simp add: digit_val_def)
    qed
    ultimately show ?thesis using digit_char [OF True] by (simp add: dstr_simps digits_val_def)
  next
    case False
    with 1 have ih: "\<forall>c \<in> set (dstr (n div 10)). isdigit c \<and> digit_val c < 10" "digits_val 10 (dstr (n div 10)) = n div 10"
      "dstr (n div 10) \<noteq> []" "hd (dstr (n div 10)) \<noteq> CHR ''0''" by auto
    moreover have "digits_val 10 (xs @ [c]) = digits_val 10 xs * 10 + digit_val c" for xs c by (simp add: digits_val_def)
    ultimately show ?thesis using False digit_char [of "n mod 10"] by (auto simp: dstr_simps(2))
  qed
qed

lemma strtol_decimal:
  assumes n: "n < 2 ^ 31" and r: "r = [] \<or> \<not> digit_val (hd r) < 10"
  shows "strtol 10 (dstr n @ r) = (int n, r)"
proof -
  note d = dstr_props [of n]
  obtain c s where s: "dstr n = c # s" using d by (cases "dstr n") auto
  have c: "isdigit c" using d s by simp
  then have "dropWhile isspace (dstr n @ r) = dstr n @ r" "strip_sign (dstr n @ r) = (False, dstr n @ r)"
    using s by (auto simp: isspace_def isdigit_def strip_sign_def)
  moreover have "takeWhile (\<lambda>c. digit_val c < 10) (dstr n @ r) = dstr n"
    using d r by (cases r) (auto simp: takeWhile_append takeWhile_eq_all_conv)
  ultimately have "scan_num 10 (dstr n @ r) = Some (False, n, r)"
    using d by (simp add: scan_num_def strip_base_def)
  then show ?thesis using n by (simp add: strtol_def)
qed

section \<open>Signals\<close>

definition SIGUSR1 :: int where "SIGUSR1 = 10"
definition SIGUSR2 :: int where "SIGUSR2 = 12"
definition SIGTERM :: int where "SIGTERM = 15"

section \<open>Lines of a file\<close>

text \<open>
  The characters in front of the end of the line, and the rest of the file. A zero ends a line
  too, and the newline is cut off.
\<close>

definition bb_get_chomped_line_from_file :: "bytes \<Rightarrow> (bytes \<times> bytes) option" where
  "bb_get_chomped_line_from_file f =
     (if f = [] then None
      else let line = takeWhile (\<lambda>c. c \<noteq> 0 \<and> c \<noteq> 10) f
           in Some (line, drop (length line + 1) f))"

lemma chomped_line_shorter:
  "bb_get_chomped_line_from_file f = Some (l, r) \<Longrightarrow> length r < length f"
  by (auto simp: bb_get_chomped_line_from_file_def Let_def split: if_splits)

lemma chomped_line [simp]:
  assumes "\<forall>c \<in> set l. c \<noteq> 0 \<and> c \<noteq> 10"
  shows "bb_get_chomped_line_from_file (l @ 10 # r) = Some (l, r)"
  using assms by (simp add: bb_get_chomped_line_from_file_def takeWhile_append)

end
