(* ===== verification/Udhcp_Files.thy ===== *)
theory Udhcp_Files
  imports Udhcp_Leases C_Lib
begin

text \<open>
  \<open>files.c\<close>: the configuration file of the server (its readers, the sorted list of options
  and the keyword table) and the lease file. The resolver functions \<open>inet_aton\<close>,
  \<open>gethostbyname\<close> and \<open>ether_aton\<close> are parameters (\<open>resolver\<close>). \<open>None\<close> is undefined
  behaviour: a null pointer that is followed, or memory that is read before it is set.
\<close>

record resolver =
  inet_aton :: "string \<Rightarrow> u32 option"
  gethostbyname :: "string \<Rightarrow> u32 option"
  ether_aton :: "string \<Rightarrow> bytes option"

section \<open>Readers\<close>

definition read_ip :: "resolver \<Rightarrow> string \<Rightarrow> u32 option" where
  "read_ip res line =
     (case inet_aton res line of
        Some a \<Rightarrow> Some a
      | None \<Rightarrow> gethostbyname res line)"

definition read_mac :: "resolver \<Rightarrow> string \<Rightarrow> bytes option" where
  "read_mac res line = map_option (take 6) (ether_aton res line)"

definition read_str :: "string \<Rightarrow> string" where
  "read_str line = line"

text \<open>The value is stored even when the line has more than the number.\<close>

definition read_u32 :: "string \<Rightarrow> u32 \<times> bool" where
  "read_u32 line = (case strtoul 0 line of (v, endptr) \<Rightarrow> (v, endptr = []))"

definition read_yn :: "string \<Rightarrow> bool option" where
  "read_yn line =
     (if strcaseeq ''yes'' line then Some True
      else if strcaseeq ''no'' line then Some False else None)"

section \<open>The list of options\<close>

text \<open>
  A node holds an option string: code, length, data. \<open>find_option\<close> compares the
  \<open>uint8_t\<close> code of the node with a \<open>char\<close>, which is unsigned (\<open>-funsigned-char\<close> in \<open>Rules.mak\<close>).
\<close>

fun find_option_from :: "nat \<Rightarrow> bytes list \<Rightarrow> byte \<Rightarrow> nat option" where
  "find_option_from i [] code = None"
| "find_option_from i (d # ds) code =
     (if d ! 0 < code then find_option_from (Suc i) ds code
      else if d ! 0 = code then Some i else None)"

definition find_option :: "bytes list \<Rightarrow> byte \<Rightarrow> nat option" where
  "find_option opt_list code = find_option_from 0 opt_list code"

fun insert_option :: "bytes list \<Rightarrow> bytes \<Rightarrow> bytes list" where
  "insert_option [] new = [new]"
| "insert_option (d # ds) new =
     (if d ! 0 < new ! 0 then d # insert_option ds new else new # d # ds)"

definition attach_option :: "bytes list \<Rightarrow> dhcp_option \<Rightarrow> bytes \<Rightarrow> nat \<Rightarrow> bytes list" where
  "attach_option opt_list option buffer n =
     (case find_option opt_list (ocode option) of
        Some k \<Rightarrow>
          (let existing = opt_list ! k; len = unat (existing ! 1) in
           if oflags option AND OPTION_LIST \<noteq> 0 then
             if len + n \<le> 255
             then opt_list[k := (take (len + 2) existing @ take n buffer)[1 := of_nat (len + n)]]
             else opt_list
           else opt_list)
      | None \<Rightarrow>
          insert_option opt_list (ocode option # of_nat n # take n buffer))"

text \<open>
  One value of an option line, for each option type: \<open>retval\<close>, the bytes of \<open>buffer\<close> (or
  of the string) with their length, and the rest of the line.
\<close>

definition read_opt_value ::
    "resolver \<Rightarrow> dhcp_option \<Rightarrow> string \<Rightarrow> string \<Rightarrow> (bytes \<times> nat) option \<times> string" where
  "read_opt_value res option val rest =
     (let ty = oflags option AND TYPE_MASK in
      if ty = OPTION_IP then (map_option (\<lambda>a. (le32 a, 4)) (read_ip res val), rest)
      else if ty = OPTION_IP_PAIR then
        (case strtok ('', /-'' @ [CHR 0x09]) rest of
           None \<Rightarrow> (None, [])
         | Some (val2, rest2) \<Rightarrow>
             (case (read_ip res val, read_ip res val2) of
                (Some a, Some b) \<Rightarrow> (Some (le32 a @ le32 b, 8), rest2)
              | _ \<Rightarrow> (None, rest2)))
      else if ty = OPTION_STRING then
        (let n = min 254 (length val) in
         (if n > 0 then Some (take n (str_bytes val), n) else None, rest))
      else if ty = OPTION_BOOLEAN then
        (map_option (\<lambda>b. ([if b then 1 else 0], 1)) (read_yn val), rest)
      else if ty = OPTION_U8 then
        (case strtoul 0 val of (v, endptr) \<Rightarrow>
           (if endptr = [] then Some ([ucast v], 1) else None, rest))
      else if ty = OPTION_U16 then
        (case strtoul 0 val of (v, endptr) \<Rightarrow>
           (if endptr = [] then Some (le16 (htons (ucast v)), 2) else None, rest))
      else if ty = OPTION_S16 then
        (case strtol 0 val of (v, endptr) \<Rightarrow>
           (if endptr = [] then Some (le16 (htons (of_int v)), 2) else None, rest))
      else if ty = OPTION_U32 then
        (case strtoul 0 val of (v, endptr) \<Rightarrow>
           (if endptr = [] then Some (le32 (htonl v), 4) else None, rest))
      else if ty = OPTION_S32 then
        (case strtol 0 val of (v, endptr) \<Rightarrow>
           (if endptr = [] then Some (le32 (htonl (of_int v)), 4) else None, rest))
      else (None, rest))"

lemma read_opt_value_rest: "read_opt_value res option val rest = (r, rest2) \<Longrightarrow> length rest2 \<le> length rest"
  by (auto simp: read_opt_value_def Let_def dest!: strtok_shorter
      split: if_splits option.splits prod.splits)

definition opt_delims :: string where "opt_delims = '', '' @ [CHR 0x09]"

function read_opt_loop ::
    "resolver \<Rightarrow> dhcp_option \<Rightarrow> bool \<Rightarrow> string \<Rightarrow> bytes list \<Rightarrow> bytes list \<times> bool" where
  "read_opt_loop res option retval rest opts =
     (case strtok opt_delims rest of
        None \<Rightarrow> (opts, retval)
      | Some (val, rest1) \<Rightarrow>
          (case read_opt_value res option val rest1 of
             (None, rest2) \<Rightarrow> (opts, False)
           | (Some (buffer, n), rest2) \<Rightarrow>
               (let opts1 = attach_option opts option buffer n in
                if oflags option AND OPTION_LIST \<noteq> 0
                then read_opt_loop res option True rest2 opts1
                else (opts1, True))))"
  by pat_completeness auto
termination
  by (relation "measure (\<lambda>(res, option, retval, rest, opts). length rest)")
     (auto dest!: strtok_shorter dest!: read_opt_value_rest [OF sym])

declare read_opt_loop.simps [simp del]

text \<open>
  The C string at \<open>option->name\<close>, an array of ten characters: a name of ten characters has no
  terminating zero and runs on into the flags and the code of its entry. The only such name,
  \<open>vendoropts\<close>, stands in front of the empty entry that ends the table, where the string ends.
\<close>

definition option_cname :: "dhcp_option \<Rightarrow> string" where
  "option_cname option =
     (if length (oname option) < 10 then oname option
      else take 10 (oname option) @ [char_of (oflags option), char_of (unat (ocode option))])"

definition read_opt :: "resolver \<Rightarrow> string \<Rightarrow> bytes list \<Rightarrow> bytes list \<times> bool" where
  "read_opt res line opts =
     (case strtok ('' ='' @ [CHR 0x09]) line of
        None \<Rightarrow> (opts, False)
      | Some (opt, rest) \<Rightarrow>
          (case find (\<lambda>option. strcaseeq (option_cname option) opt) dhcp_options of
             None \<Rightarrow> (opts, False)
           | Some option \<Rightarrow> read_opt_loop res option False rest opts))"

text \<open>
  The pointers of the two tokens are not checked, and the addresses are entered even when
  they could not be read.
\<close>

definition read_staticlease :: "resolver \<Rightarrow> string \<Rightarrow> static_lease list \<Rightarrow> static_lease list option" where
  "read_staticlease res line sl = do {
     (mac_string, rest) \<leftarrow> strtok ('' '' @ [CHR 0x09]) line;
     mac \<leftarrow> read_mac res mac_string;
     (ip_string, rest2) \<leftarrow> strtok ('' '' @ [CHR 0x09]) rest;
     a \<leftarrow> read_ip res ip_string;
     Some (addStaticLease sl mac a) }"

section \<open>The configuration file\<close>

type_synonym handler = "resolver \<Rightarrow> string \<Rightarrow> server_config_t \<Rightarrow> (server_config_t \<times> bool) option"

definition ip_handler :: "(u32 \<Rightarrow> server_config_t \<Rightarrow> server_config_t) \<Rightarrow> handler" where
  "ip_handler upd res line cfg =
     (case read_ip res line of None \<Rightarrow> Some (cfg, False) | Some a \<Rightarrow> Some (upd a cfg, True))"

definition str_handler :: "(string \<Rightarrow> server_config_t \<Rightarrow> server_config_t) \<Rightarrow> handler" where
  "str_handler upd res line cfg = Some (upd (read_str line) cfg, True)"

definition u32_handler :: "(u32 \<Rightarrow> server_config_t \<Rightarrow> server_config_t) \<Rightarrow> handler" where
  "u32_handler upd res line cfg = (case read_u32 line of (v, ok) \<Rightarrow> Some (upd v cfg, ok))"

definition yn_handler :: "(bool \<Rightarrow> server_config_t \<Rightarrow> server_config_t) \<Rightarrow> handler" where
  "yn_handler upd res line cfg =
     (case read_yn line of None \<Rightarrow> Some (cfg, False) | Some b \<Rightarrow> Some (upd b cfg, True))"

definition opt_handler :: handler where
  "opt_handler res line cfg =
     (case read_opt res line (sc_options cfg) of (opts, ok) \<Rightarrow> Some (cfg\<lparr>sc_options := opts\<rparr>, ok))"

definition staticlease_handler :: handler where
  "staticlease_handler res line cfg = do {
     sl \<leftarrow> read_staticlease res line (sc_static_leases cfg);
     Some (cfg\<lparr>sc_static_leases := sl\<rparr>, True) }"

definition config_keywords :: "(string \<times> handler \<times> string) list" where
  "config_keywords = [
     (''start'', ip_handler (\<lambda>v c. c\<lparr>sc_start := v\<rparr>), ''192.168.0.20''),
     (''end'', ip_handler (\<lambda>v c. c\<lparr>sc_end := v\<rparr>), ''192.168.0.254''),
     (''interface'', str_handler (\<lambda>v c. c\<lparr>sc_interface := v\<rparr>), ''eth0''),
     (''option'', opt_handler, ''''),
     (''opt'', opt_handler, ''''),
     (''max_leases'', u32_handler (\<lambda>v c. c\<lparr>sc_max_leases := v\<rparr>), ''254''),
     (''remaining'', yn_handler (\<lambda>v c. c\<lparr>sc_remaining := v\<rparr>), ''yes''),
     (''auto_time'', u32_handler (\<lambda>v c. c\<lparr>sc_auto_time := v\<rparr>), ''7200''),
     (''decline_time'', u32_handler (\<lambda>v c. c\<lparr>sc_decline_time := v\<rparr>), ''3600''),
     (''conflict_time'', u32_handler (\<lambda>v c. c\<lparr>sc_conflict_time := v\<rparr>), ''3600''),
     (''offer_time'', u32_handler (\<lambda>v c. c\<lparr>sc_offer_time := v\<rparr>), ''60''),
     (''min_lease'', u32_handler (\<lambda>v c. c\<lparr>sc_min_lease := v\<rparr>), ''60''),
     (''lease_file'', str_handler (\<lambda>v c. c\<lparr>sc_lease_file := v\<rparr>), ''/var/lib/misc/udhcpd.leases''),
     (''pidfile'', str_handler (\<lambda>v c. c\<lparr>sc_pidfile := v\<rparr>), ''/var/run/udhcpd.pid''),
     (''notify_file'', str_handler (\<lambda>v c. c\<lparr>sc_notify_file := Some v\<rparr>), ''''),
     (''siaddr'', ip_handler (\<lambda>v c. c\<lparr>sc_siaddr := v\<rparr>), ''0.0.0.0''),
     (''sname'', str_handler (\<lambda>v c. c\<lparr>sc_sname := Some (str_bytes v)\<rparr>), ''''),
     (''boot_file'', str_handler (\<lambda>v c. c\<lparr>sc_boot_file := Some (str_bytes v)\<rparr>), ''''),
     (''static_lease'', staticlease_handler, '''')]"

definition default_step :: "resolver \<Rightarrow> server_config_t \<Rightarrow> string \<times> handler \<times> string \<Rightarrow> server_config_t option" where
  "default_step res cfg kw =
     (case kw of (k, h, def) \<Rightarrow>
        if def \<noteq> [] then map_option fst (h res def cfg) else Some cfg)"

definition keyword_step ::
    "resolver \<Rightarrow> string \<Rightarrow> string \<Rightarrow> server_config_t \<Rightarrow> string \<times> handler \<times> string \<Rightarrow> server_config_t option" where
  "keyword_step res token line cfg kw =
     (case kw of (k, h, def) \<Rightarrow>
        if strcaseeq token k then do {
          (cfg1, ok) \<leftarrow> h res line cfg;
          if ok then Some cfg1 else map_option fst (h res def cfg1) }
        else Some cfg)"

definition config_line :: "resolver \<Rightarrow> server_config_t \<Rightarrow> string \<Rightarrow> server_config_t option" where
  "config_line res cfg buffer =
     (let b1 = takeWhile (\<lambda>c. c \<noteq> CHR 0x0A) (cstring buffer);
          b2 = takeWhile (\<lambda>c. c \<noteq> CHR ''#'') b1
      in case strtok ('' '' @ [CHR 0x09]) b2 of
           None \<Rightarrow> Some cfg
         | Some (token, rest) \<Rightarrow>
             if rest = [] then Some cfg
             else (let l1 = dropWhile (\<lambda>c. c \<in> set ('' ='' @ [CHR 0x09])) rest;
                       line = rev (dropWhile isspace (rev l1))
                   in foldM (keyword_step res token line) cfg config_keywords))"

function config_lines :: "resolver \<Rightarrow> server_config_t \<Rightarrow> string \<Rightarrow> server_config_t option" where
  "config_lines res cfg input =
     (case fgets 80 input of
        None \<Rightarrow> Some cfg
      | Some (buffer, rest) \<Rightarrow> do {
          cfg1 \<leftarrow> config_line res cfg buffer;
          config_lines res cfg1 rest })"
  by pat_completeness auto
termination
  by (relation "measure (\<lambda>(res, cfg, input). length input)") (auto dest!: fgets_shorter)

declare config_lines.simps [simp del]

text \<open>The argument is the contents of the file, \<open>None\<close> when it cannot be opened.\<close>

definition read_config :: "resolver \<Rightarrow> server_config_t \<Rightarrow> string option \<Rightarrow> (server_config_t \<times> bool) option" where
  "read_config res cfg input = do {
     cfg1 \<leftarrow> foldM (default_step res) cfg config_keywords;
     case input of
       None \<Rightarrow> Some (cfg1, False)
     | Some text \<Rightarrow> do { cfg2 \<leftarrow> config_lines res cfg1 text; Some (cfg2, True) } }"

section \<open>The lease file\<close>

text \<open>The file is a sequence of images of \<open>struct dhcpOfferedAddr\<close> of 24 bytes.\<close>

definition lease_bytes :: "dhcpOfferedAddr \<Rightarrow> bytes" where
  "lease_bytes l = l_chaddr l @ le32 (l_yiaddr l) @ le32 (l_expires l)"

definition lease_of_bytes :: "bytes \<Rightarrow> dhcpOfferedAddr" where
  "lease_of_bytes b = \<lparr>l_chaddr = take 16 b, l_yiaddr = u32_at b 16, l_expires = u32_at b 20\<rparr>"

definition write_lease :: "server_config_t \<Rightarrow> u32 \<Rightarrow> dhcpOfferedAddr \<Rightarrow> bytes" where
  "write_lease cfg now l =
     (if l_yiaddr l \<noteq> 0 then
        lease_bytes (l\<lparr>l_expires := htonl (
          if sc_remaining cfg then (if lease_expired now l then 0 else l_expires l - now)
          else l_expires l)\<rparr>)
      else [])"

definition write_leases :: "server_config_t \<Rightarrow> u32 \<Rightarrow> leases \<Rightarrow> bytes" where
  "write_leases cfg now ls = concat (map (write_lease cfg now) ls)"

text \<open>\<open>yiaddr\<close>, \<open>start\<close> and \<open>end\<close> are compared in network order, as in the source.\<close>

function read_leases_loop :: "server_config_t \<Rightarrow> u32 \<Rightarrow> nat \<Rightarrow> bytes \<Rightarrow> leases \<Rightarrow> leases" where
  "read_leases_loop cfg now i fp ls =
     (if i < unat (sc_max_leases cfg) \<and> 24 \<le> length fp then
        let l = lease_of_bytes (take 24 fp); rest = drop 24 fp in
        if sc_start cfg \<le> l_yiaddr l \<and> l_yiaddr l \<le> sc_end cfg then
          let e0 = ntohl (l_expires l);
              e = (if \<not> sc_remaining cfg then e0 - now else e0)
          in (case add_lease now ls (l_chaddr l) (l_yiaddr l) e of
                (ls1, None) \<Rightarrow> ls1
              | (ls1, Some k) \<Rightarrow> read_leases_loop cfg now (Suc i) rest ls1)
        else read_leases_loop cfg now i rest ls
      else ls)"
  by pat_completeness auto
termination
  by (relation "measure (\<lambda>(cfg, now, i, fp, ls). length fp)") auto

declare read_leases_loop.simps [simp del]

definition read_leases :: "server_config_t \<Rightarrow> u32 \<Rightarrow> bytes option \<Rightarrow> leases \<Rightarrow> leases" where
  "read_leases cfg now file_data ls =
     (case file_data of None \<Rightarrow> ls | Some fp \<Rightarrow> read_leases_loop cfg now 0 fp ls)"

section \<open>The option list is sorted and well-formed\<close>

definition opt_string_ok :: "bytes \<Rightarrow> bool" where
  "opt_string_ok d \<longleftrightarrow> length d = unat (d ! 1) + 2 \<and> d ! 0 \<in> ocode ` set dhcp_options"

definition opts_ok :: "bytes list \<Rightarrow> bool" where
  "opts_ok opts \<longleftrightarrow> list_all opt_string_ok opts \<and> sorted_wrt (\<lambda>a b. a ! 0 < b ! 0) opts"

lemma table_codes:
  assumes "c \<in> ocode ` set dhcp_options"
  shows "code_ok c"
  using assms by (auto simp: dhcp_options_def code_ok_def dhcp_code_defs)

lemma find_option_from_Some:
  "find_option_from i opts code = Some k \<Longrightarrow>
   i \<le> k \<and> k < i + length opts \<and> opts ! (k - i) ! 0 = code"
proof (induction opts arbitrary: i)
  case (Cons d ds)
  show ?case
  proof (cases "d ! 0 < code")
    case True
    with Cons.IH [of "Suc i"] Cons.prems have "Suc i \<le> k \<and> k < Suc i + length ds \<and> ds ! (k - Suc i) ! 0 = code"
      by simp
    moreover from this have "k - i = Suc (k - Suc i)" by linarith
    ultimately show ?thesis by simp
  next
    case False
    with Cons.prems show ?thesis by (auto split: if_splits)
  qed
qed simp

lemma find_option_from_None:
  "find_option_from i opts code = None \<Longrightarrow>
   sorted_wrt (\<lambda>a b. a ! 0 < b ! 0) opts \<Longrightarrow> d \<in> set opts \<Longrightarrow> d ! 0 \<noteq> code"
proof (induction opts arbitrary: i)
  case (Cons e ds)
  show ?case
  proof (cases "e ! 0 < code")
    case True
    with Cons.IH [of "Suc i"] Cons.prems show ?thesis by auto
  next
    case False
    with Cons.prems(1) have "code < e ! 0" by (auto split: if_splits)
    with Cons.prems(2,3) show ?thesis by auto
  qed
qed simp

lemma find_option_Some:
  "find_option opts code = Some k \<Longrightarrow> k < length opts \<and> opts ! k ! 0 = code"
  using find_option_from_Some [of 0] by (simp add: find_option_def)

lemma find_option_None:
  "find_option opts code = None \<Longrightarrow> opts_ok opts \<Longrightarrow> d \<in> set opts \<Longrightarrow>
   d ! 0 \<noteq> code"
  using find_option_from_None [of 0] by (simp add: find_option_def opts_ok_def)

lemma insert_option_set: "set (insert_option opts new) = insert new (set opts)"
  by (induction opts) auto

lemma insert_option_sorted:
  assumes "sorted_wrt (\<lambda>a b. a ! 0 < b ! 0) opts" "\<forall>d \<in> set opts. d ! 0 \<noteq> new ! 0"
  shows "sorted_wrt (\<lambda>a b. a ! 0 < b ! 0) (insert_option opts new)"
  using assms
proof (induction opts)
  case (Cons d ds)
  then show ?case
    by (auto simp: insert_option_set not_less order_le_less)
qed simp

lemma sorted_wrt_update_key:
  assumes "sorted_wrt (\<lambda>a b. f a < f b) xs" "k < length xs" "f x = f (xs ! k)"
  shows "sorted_wrt (\<lambda>a b. f a < f b) (xs[k := x])"
  using assms by (auto simp: sorted_wrt_iff_nth_less nth_list_update)

lemma attach_option_ok:
  assumes "opts_ok opts" "option \<in> set dhcp_options" "length buffer = n" "n \<le> 255"
  shows "opts_ok (attach_option opts option buffer n)"
proof -
  let ?c = "ocode option"
  have c: "?c \<in> ocode ` set dhcp_options" using assms(2) by simp
  show ?thesis
  proof (cases "find_option opts ?c")
    case None
    let ?new = "?c # of_nat n # buffer"
    have "opt_string_ok ?new"
      using c assms(3,4) by (simp add: opt_string_ok_def unat_of_nat_byte)
    then show ?thesis
      using None assms find_option_None [OF None assms(1)]
      by (auto simp: attach_option_def opts_ok_def list_all_iff insert_option_set
          intro!: insert_option_sorted)
  next
    case (Some k)
    note k = find_option_Some [OF Some]
    let ?e = "opts ! k" and ?len = "unat (opts ! k ! 1)"
    let ?new = "(take (?len + 2) ?e @ take n buffer)[1 := of_nat (?len + n)]"
    have e: "opt_string_ok ?e" using assms(1) k by (simp add: opts_ok_def list_all_length)
    show ?thesis
    proof (cases "oflags option AND OPTION_LIST \<noteq> 0 \<and> ?len + n \<le> 255")
      case False
      with Some assms(1) show ?thesis by (auto simp: attach_option_def Let_def)
    next
      case True
      have len: "length ?e = ?len + 2" using e by (simp add: opt_string_ok_def)
      then have key: "?new ! 0 = ?e ! 0" by (simp add: nth_append)
      have "?new ! 1 = of_nat (?len + n)" using len by simp
      then have "unat (?new ! 1) = ?len + n" using True by (simp add: unat_of_nat_byte del: of_nat_add)
      then have "opt_string_ok ?new"
        using e key len assms(3) by (simp add: opt_string_ok_def)
      then have "opts_ok (opts[k := ?new])"
        using assms(1) k key set_update_subset_insert [of opts k ?new]
        by (auto simp: opts_ok_def list_all_iff intro!: sorted_wrt_update_key)
      with Some True show ?thesis by (simp add: attach_option_def Let_def)
    qed
  qed
qed

lemma read_opt_value_length:
  "read_opt_value res option val rest = (Some (buffer, n), rest2) \<Longrightarrow> length buffer = n \<and> n \<le> 255"
  by (auto simp: read_opt_value_def Let_def split: if_splits option.splits prod.splits)

lemma read_opt_loop_ok:
  "opts_ok opts \<Longrightarrow> option \<in> set dhcp_options \<Longrightarrow> opts_ok (fst (read_opt_loop res option retval rest opts))"
proof (induction res option retval rest opts rule: read_opt_loop.induct)
  case (1 res option retval rest opts)
  show ?case
  proof (cases "strtok opt_delims rest")
    case None
    with "1.prems" show ?thesis by (simp add: read_opt_loop.simps [of res option retval])
  next
    case (Some tok)
    obtain val rest1 where tok: "tok = (val, rest1)" by (cases tok)
    obtain r rest2 where v: "read_opt_value res option val rest1 = (r, rest2)" by fastforce
    show ?thesis
    proof (cases r)
      case None
      with Some tok v "1.prems" show ?thesis by (simp add: read_opt_loop.simps [of res option retval])
    next
      case (Some b)
      obtain buffer n where b: "b = (buffer, n)" by (cases b)
      have "opts_ok (attach_option opts option buffer n)"
        using "1.prems" read_opt_value_length v Some b by (intro attach_option_ok) auto
      with "1.IH" [OF \<open>strtok opt_delims rest = Some tok\<close> tok [symmetric] v [symmetric] Some
          b [symmetric] refl]
      show ?thesis
        using "1.prems" \<open>strtok opt_delims rest = Some tok\<close> tok v Some b
        by (simp add: read_opt_loop.simps [of res option retval] Let_def)
    qed
  qed
qed

lemma read_opt_ok: "opts_ok opts \<Longrightarrow> opts_ok (fst (read_opt res line opts))"
  by (auto simp: read_opt_def find_Some_iff intro!: read_opt_loop_ok split: option.splits)

definition handler_ok :: "handler \<Rightarrow> bool" where
  "handler_ok h \<longleftrightarrow> (\<forall>res line cfg cfg' b. opts_ok (sc_options cfg) \<longrightarrow>
     h res line cfg = Some (cfg', b) \<longrightarrow> opts_ok (sc_options cfg'))"

lemmas handler_defs = ip_handler_def str_handler_def u32_handler_def yn_handler_def

lemma update_handler_ok:
  assumes "\<And>v c. sc_options (upd v c) = sc_options c"
  shows "handler_ok (ip_handler upd)" "handler_ok (u32_handler upd)"
  using assms by (auto simp: handler_ok_def handler_defs split: option.splits prod.splits)

lemma str_handler_ok:
  assumes "\<And>v c. sc_options (upd v c) = sc_options c"
  shows "handler_ok (str_handler upd)"
  using assms by (auto simp: handler_ok_def handler_defs)

lemma yn_handler_ok:
  assumes "\<And>v c. sc_options (upd v c) = sc_options c"
  shows "handler_ok (yn_handler upd)"
  using assms by (auto simp: handler_ok_def handler_defs split: option.splits)

lemma opt_handler_ok: "handler_ok opt_handler"
  unfolding handler_ok_def
proof (intro allI impI)
  fix res line cfg cfg' b
  assume ok: "opts_ok (sc_options cfg)" and h: "opt_handler res line cfg = Some (cfg', b)"
  from h have "sc_options cfg' = fst (read_opt res line (sc_options cfg))"
    by (auto simp: opt_handler_def split: prod.splits)
  with read_opt_ok [OF ok] show "opts_ok (sc_options cfg')" by simp
qed

lemma staticlease_handler_ok: "handler_ok staticlease_handler"
  by (auto simp: handler_ok_def staticlease_handler_def split: bind_splits)

lemma handlers_ok: "kw \<in> set config_keywords \<Longrightarrow> handler_ok (fst (snd kw))"
  by (auto simp: config_keywords_def update_handler_ok str_handler_ok yn_handler_ok opt_handler_ok
      staticlease_handler_ok)

text \<open>A loop whose every step keeps a property keeps it.\<close>

lemma foldM_invariant:
  assumes "foldM f s xs = Some s'" "I s" "\<And>s x s'. x \<in> set xs \<Longrightarrow> I s \<Longrightarrow> f s x = Some s' \<Longrightarrow> I s'"
  shows "I s'"
  using assms
proof (induction xs arbitrary: s)
  case (Cons x xs)
  then obtain s1 where "f s x = Some s1" "foldM f s1 xs = Some s'" by (auto split: bind_splits)
  with Cons show ?case by auto
qed simp

abbreviation cfg_ok :: "server_config_t \<Rightarrow> bool" where
  "cfg_ok cfg \<equiv> opts_ok (sc_options cfg)"

lemma handler_step_ok:
  "kw \<in> set config_keywords \<Longrightarrow> cfg_ok cfg \<Longrightarrow> fst (snd kw) res line cfg = Some (cfg', b) \<Longrightarrow> cfg_ok cfg'"
  using handlers_ok [of kw] unfolding handler_ok_def by blast

lemma default_step_ok:
  assumes "kw \<in> set config_keywords" "cfg_ok cfg" "default_step res cfg kw = Some cfg'"
  shows "cfg_ok cfg'"
  using assms handler_step_ok [OF assms(1,2)]
  by (auto simp: default_step_def split: prod.splits if_splits)

lemma keyword_step_ok:
  assumes "kw \<in> set config_keywords" "cfg_ok cfg" "keyword_step res token line cfg kw = Some cfg'"
  shows "cfg_ok cfg'"
proof (cases kw)
  case (fields k h def)
  show ?thesis
  proof (cases "strcaseeq token k")
    case True
    with assms(3) fields obtain cfg1 ok where h: "h res line cfg = Some (cfg1, ok)"
      and r: "(if ok then Some cfg1 else map_option fst (h res def cfg1)) = Some cfg'"
      by (auto simp: keyword_step_def split: bind_splits)
    from handler_step_ok [OF assms(1,2)] fields h have ok1: "cfg_ok cfg1" by simp
    from r handler_step_ok [OF assms(1) ok1] fields ok1 show ?thesis by (auto split: if_splits)
  next
    case False
    with assms fields show ?thesis by (simp add: keyword_step_def)
  qed
qed

lemma config_line_ok: "cfg_ok cfg \<Longrightarrow> config_line res cfg b = Some cfg' \<Longrightarrow> cfg_ok cfg'"
  by (auto simp: config_line_def Let_def split: option.splits if_splits
      elim!: foldM_invariant [where I = cfg_ok] intro: keyword_step_ok)

lemma config_lines_ok: "cfg_ok cfg \<Longrightarrow> config_lines res cfg input = Some cfg' \<Longrightarrow> cfg_ok cfg'"
proof (induction res cfg input rule: config_lines.induct)
  case (1 res cfg input)
  show ?case
  proof (cases "fgets 80 input")
    case None
    with "1.prems" show ?thesis by (simp add: config_lines.simps [of res])
  next
    case (Some lr)
    obtain buffer rest where lr: "lr = (buffer, rest)" by (cases lr)
    from "1.prems"(2) Some lr obtain cfg1 where
      c1: "config_line res cfg buffer = Some cfg1" "config_lines res cfg1 rest = Some cfg'"
      by (subst (asm) config_lines.simps) (auto split: bind_splits)
    with "1.IH" [OF Some lr [symmetric], of cfg1] config_line_ok [OF "1.prems"(1) c1(1)]
    show ?thesis by simp
  qed
qed

lemma read_config_opts_ok:
  assumes "cfg_ok cfg" "read_config res cfg input = Some (cfg', b)"
  shows "cfg_ok cfg'"
proof -
  from assms(2) obtain cfg1 where d: "foldM (default_step res) cfg config_keywords = Some cfg1"
    and r: "case input of None \<Rightarrow> cfg' = cfg1 | Some text \<Rightarrow> config_lines res cfg1 text = Some cfg'"
    by (auto simp: read_config_def split: option.splits bind_splits)
  from foldM_invariant [OF d, of cfg_ok] assms(1) default_step_ok have "cfg_ok cfg1" by blast
  with r config_lines_ok show ?thesis by (auto split: option.splits)
qed

section \<open>The lease file\<close>

lemma lease_of_bytes_lease_bytes:
  "length (l_chaddr l) = 16 \<Longrightarrow> lease_of_bytes (lease_bytes l) = l"
  by (cases l) (simp add: lease_of_bytes_def lease_bytes_def le32_def u32_at_def nth_append)

lemma length_lease_bytes: "length (l_chaddr l) = 16 \<Longrightarrow> length (lease_bytes l) = 24"
  by (simp add: lease_bytes_def)

text \<open>
  The entries that are written, as they come back: an expired one expires now when the
  remaining time is stored.
\<close>

definition reloaded :: "server_config_t \<Rightarrow> u32 \<Rightarrow> dhcpOfferedAddr \<Rightarrow> dhcpOfferedAddr" where
  "reloaded cfg now l =
     (if sc_remaining cfg \<and> lease_expired now l then l\<lparr>l_expires := now\<rparr> else l)"

lemma oldest_loop_zero:
  assumes "0 < m" "\<forall>l \<in> set pre. l_expires l \<noteq> 0" "l_expires x = 0"
  shows "oldest_loop i m cand (pre @ x # post) = Some (i + length pre)"
proof -
  have tail: "oldest_loop j 0 c post = c" for j c
    by (induction post arbitrary: j) auto
  show ?thesis
    using assms tail by (induction pre arbitrary: i m cand) (auto simp: word_gt_0)
qed

text \<open>Entering a lease with fresh addresses behind the entries loaded so far.\<close>

lemma add_lease_next:
  assumes "\<forall>l \<in> set pre. (c \<noteq> blank_chaddr \<longrightarrow> l_chaddr l \<noteq> c) \<and> l_yiaddr l \<noteq> y \<and> l_expires l \<noteq> 0"
    and "length c = 16" "y \<noteq> 0" "0 < now"
  shows "add_lease now (pre @ replicate (Suc m) blank_lease) c y t =
    ((pre @ [\<lparr>l_chaddr = c, l_yiaddr = y, l_expires = now + t\<rparr>]) @ replicate m blank_lease, Some (length pre))"
proof -
  let ?ls = "pre @ replicate (Suc m) blank_lease"
  have "clear_lease ?ls c y = ?ls"
    using assms leading_zeros_blank [OF assms(2)]
    by (auto simp: clear_lease_def Let_def blank_lease_def intro!: map_idI)
  moreover have "oldest_expired_lease now ?ls = Some (length pre)"
    using assms oldest_loop_zero [of now pre blank_lease 0 None "replicate m blank_lease"]
    by (simp add: oldest_expired_lease_def blank_lease_def)
  ultimately show ?thesis using assms(2) by (simp add: add_lease_def)
qed

definition reloadable :: "server_config_t \<Rightarrow> u32 \<Rightarrow> dhcpOfferedAddr \<Rightarrow> bool" where
  "reloadable cfg now l \<longleftrightarrow> length (l_chaddr l) = 16 \<and> l_yiaddr l \<noteq> 0 \<and>
     sc_start cfg \<le> l_yiaddr l \<and> l_yiaddr l \<le> sc_end cfg \<and> l_expires (reloaded cfg now l) \<noteq> 0"

lemma reloaded_keys [simp]:
  "l_chaddr (reloaded cfg now l) = l_chaddr l" "l_yiaddr (reloaded cfg now l) = l_yiaddr l"
  by (simp_all add: reloaded_def)

lemma reload_step:
  assumes "reloadable cfg now l" "0 < now" "length pre < unat (sc_max_leases cfg)"
    and "\<forall>x \<in> set pre. (l_chaddr l \<noteq> blank_chaddr \<longrightarrow> l_chaddr x \<noteq> l_chaddr l) \<and>
       l_yiaddr x \<noteq> l_yiaddr l \<and> l_expires x \<noteq> 0"
  shows "read_leases_loop cfg now (length pre) (write_lease cfg now l @ rest) (pre @ replicate (Suc m) blank_lease) =
    read_leases_loop cfg now (length (pre @ [reloaded cfg now l])) rest
      ((pre @ [reloaded cfg now l]) @ replicate m blank_lease)"
proof -
  define e where "e = (if sc_remaining cfg then (if lease_expired now l then 0 else l_expires l - now)
    else l_expires l)"
  define d where "d = (if \<not> sc_remaining cfg then e - now else e)"
  let ?w = "l\<lparr>l_expires := htonl e\<rparr>"
  from assms(1) have l: "length (l_chaddr l) = 16" "l_yiaddr l \<noteq> 0"
    and range: "sc_start cfg \<le> l_yiaddr l" "l_yiaddr l \<le> sc_end cfg"
    by (auto simp: reloadable_def)
  have w: "write_lease cfg now l = lease_bytes ?w" using l by (simp add: write_lease_def e_def)
  have len: "length (lease_bytes ?w) = 24" using l by (simp add: length_lease_bytes)
  have img: "lease_of_bytes (lease_bytes ?w) = ?w" using l by (intro lease_of_bytes_lease_bytes) simp
  have stored: "\<lparr>l_chaddr = l_chaddr l, l_yiaddr = l_yiaddr l, l_expires = now + d\<rparr> = reloaded cfg now l"
    by (cases l) (simp add: reloaded_def d_def e_def)
  note add = add_lease_next [OF assms(4) l(1,2) assms(2), of m d, unfolded stored]
  show ?thesis
    unfolding w using assms(3) len
    by (subst read_leases_loop.simps)
       (simp add: img range Let_def d_def [symmetric] add del: replicate_Suc)
qed

lemma reload_loop:
  assumes "list_all (reloadable cfg now) xs" "0 < now" "length xs \<le> m"
    and "length pre + m = unat (sc_max_leases cfg)" "\<forall>x \<in> set pre. l_expires x \<noteq> 0"
    and "uniq l_yiaddr 0 (pre @ xs)" "uniq l_chaddr blank_chaddr (pre @ xs)"
  shows "read_leases_loop cfg now (length pre) (concat (map (write_lease cfg now) xs))
      (pre @ replicate m blank_lease) =
    pre @ map (reloaded cfg now) xs @ replicate (m - length xs) blank_lease"
  using assms
proof (induction xs arbitrary: pre m)
  case Nil
  then show ?case by (subst read_leases_loop.simps) simp
next
  case (Cons l xs)
  then obtain m' where m: "m = Suc m'" by (cases m) auto
  let ?pre = "pre @ [reloaded cfg now l]"
  have keys: "uniq l_yiaddr 0 (?pre @ xs)" "uniq l_chaddr blank_chaddr (?pre @ xs)"
    using Cons.prems(6,7) uniq_cong [of l_yiaddr "pre @ l # xs" "?pre @ xs"]
      uniq_cong [of l_chaddr "pre @ l # xs" "?pre @ xs"] by simp_all
  note other = uniq_append_other [OF Cons.prems(6)] uniq_append_other [OF Cons.prems(7)]
  have "read_leases_loop cfg now (length pre) (concat (map (write_lease cfg now) (l # xs)))
      (pre @ replicate m blank_lease) =
    read_leases_loop cfg now (length ?pre) (concat (map (write_lease cfg now) xs))
      (?pre @ replicate m' blank_lease)"
    using Cons.prems m other
    unfolding list.map concat.simps m
    by (intro reload_step) (auto simp: reloadable_def)
  also have "\<dots> = ?pre @ map (reloaded cfg now) xs @ replicate (m' - length xs) blank_lease"
    using Cons.prems m keys by (intro Cons.IH) (simp_all add: reloadable_def [of cfg now l])
  finally show ?case by (simp add: m)
qed

section \<open>Properties\<close>

text \<open>
  C29. The options that \<open>read_config\<close> loads, whatever the file contains, form a list that is
  strictly sorted by option code, in which every string has the length its length byte
  announces and a code of the option table.
\<close>

theorem read_config_options:
  assumes "opts_ok (sc_options cfg)" "read_config res cfg input = Some (cfg', b)"
  shows "opts_ok (sc_options cfg')"
  using assms by (rule read_config_opts_ok)


lemma read_leases_loop_ok:
  "leases_ok ls \<Longrightarrow> leases_ok (read_leases_loop cfg now i fp ls) \<and>
     length (read_leases_loop cfg now i fp ls) = length ls"
proof (induction cfg now i fp ls rule: read_leases_loop.induct)
  case (1 cfg now i fp ls)
  let ?l = "lease_of_bytes (take 24 fp)" and ?rest = "drop 24 fp"
  let ?e = "if \<not> sc_remaining cfg then ntohl (l_expires ?l) - now else ntohl (l_expires ?l)"
  note unf = read_leases_loop.simps [of cfg now i fp ls]
  show ?case
  proof (cases "i < unat (sc_max_leases cfg) \<and> 24 \<le> length fp")
    case False
    with "1.prems" show ?thesis by (auto simp: unf)
  next
    case True
    have len: "length (l_chaddr ?l) = 16" using True by (simp add: lease_of_bytes_def)
    obtain ls1 r where a: "add_lease now ls (l_chaddr ?l) (l_yiaddr ?l) ?e = (ls1, r)" by fastforce
    have ok: "leases_ok ls1" "length ls1 = length ls"
      using add_lease_ok [OF "1.prems" len, of now "l_yiaddr ?l" ?e]
        length_add_lease [of now ls "l_chaddr ?l" "l_yiaddr ?l" ?e] a by simp_all
    show ?thesis
    proof (cases "sc_start cfg \<le> l_yiaddr ?l \<and> l_yiaddr ?l \<le> sc_end cfg")
      case False
      have "read_leases_loop cfg now i fp ls = read_leases_loop cfg now i ?rest ls"
        by (simp only: unf Let_def if_P [OF True] if_not_P [OF False])
      with "1.IH"(2) [OF True refl refl False "1.prems"] show ?thesis by simp
    next
      case range: True
      note IH = "1.IH"(1) [OF True refl refl range refl refl a [symmetric]]
      have "read_leases_loop cfg now i fp ls =
          (case r of None \<Rightarrow> ls1 | Some k \<Rightarrow> read_leases_loop cfg now (Suc i) ?rest ls1)"
        by (simp only: unf Let_def if_P [OF True] if_P [OF range] a prod.case)
      with IH ok show ?thesis by (cases r) simp_all
    qed
  qed
qed

lemma read_leases_ok:
  "leases_ok ls \<Longrightarrow> leases_ok (read_leases cfg now f ls) \<and> length (read_leases cfg now f ls) = length ls"
  using read_leases_loop_ok by (simp add: read_leases_def split: option.splits)

definition wide_pool :: server_config_t where
  "wide_pool = server_config_init\<lparr>sc_start := htonl 0xC0A800C8, sc_end := htonl 0xC0A80132, sc_max_leases := 2\<rparr>"

definition wide_lease :: dhcpOfferedAddr where
  "wide_lease = \<lparr>l_chaddr = sample_mac 1, l_yiaddr = htonl 0xC0A8010A, l_expires = 200\<rparr>"

text \<open>
  The reader of the lease file compares addresses in network order, on a little-endian
  host not the order of the pool: in the pool from 192.168.0.200 to 192.168.1.50 an unexpired
  lease of the pool address 192.168.1.10 is not restored.
\<close>

lemma read_leases_drops_pool_address:
  "ntohl (sc_start wide_pool) \<le> ntohl (l_yiaddr wide_lease) \<and>
   ntohl (l_yiaddr wide_lease) \<le> ntohl (sc_end wide_pool) \<and> \<not> lease_expired 100 wide_lease \<and>
   read_leases wide_pool 100 (Some (write_leases wide_pool 100 [wide_lease, blank_lease]))
     (replicate 2 blank_lease) = replicate 2 blank_lease"
  by code_simp

text \<open>
  The vendor options cannot be configured, although the table has an entry for them: its
  name fills the array of ten characters, and the comparison with the name of the option runs
  on into the flags. A line for the option is ignored, whatever value it gives.
\<close>

lemma vendoropts_not_configurable:
  "\<lparr>oname = ''vendoropts'', oflags = OPTION_STRING, ocode = DHCP_VENDOROPTS\<rparr> \<in> set dhcp_options \<and>
   read_opt res (''vendoropts '' @ val) opts = (opts, False)"
proof -
  have "strtok ('' ='' @ [CHR 0x09]) (''vendoropts '' @ val) = Some (''vendoropts'', val)"
    by (simp add: strtok_def Let_def)
  moreover have "find (\<lambda>option. strcaseeq (option_cname option) ''vendoropts'') dhcp_options = None"
    by (simp add: dhcp_options_def option_cname_def strcaseeq_def to_lower_def option_type_defs)
  moreover have "\<lparr>oname = ''vendoropts'', oflags = OPTION_STRING, ocode = DHCP_VENDOROPTS\<rparr> \<in> set dhcp_options"
    by (simp add: dhcp_options_def dhcp_code_defs)
  ultimately show ?thesis by (simp add: read_opt_def)
qed

section \<open>Witnesses\<close>

definition sample_resolver :: resolver where
  "sample_resolver = \<lparr>inet_aton = (\<lambda>s. Some 0x0100000A), gethostbyname = (\<lambda>s. None),
     ether_aton = (\<lambda>s. Some [2, 0, 0, 0, 0, 1])\<rparr>"

lemma sample_defaults:
  "\<exists>cfg. foldM (default_step sample_resolver) server_config_init config_keywords = Some cfg \<and> sc_options cfg = []"
  by (simp add: config_keywords_def default_step_def ip_handler_def str_handler_def u32_handler_def
      yn_handler_def read_ip_def sample_resolver_def read_str_def read_u32_def read_yn_def strtoul_def
      scan_num_def strip_sign_def isspace_def strip_base_def to_lower_def digit_val_def digits_val_def
      strcaseeq_def server_config_init_def Let_def)

lemma sample_read_opt: "read_opt sample_resolver ''subnet 10.0.0.1'' [] = ([[1, 4, 10, 0, 0, 1]], True)"
  by (simp add: read_opt_def strtok_def strcaseeq_def to_lower_def dhcp_options_def read_opt_loop.simps
      option_cname_def opt_delims_def read_opt_value_def option_type_defs read_ip_def sample_resolver_def attach_option_def
      find_option_def option_lengths_def le32_def Let_def)

lemma sample_config_lines:
  assumes "sc_options cfg = []"
  shows "config_lines sample_resolver cfg ''opt subnet 10.0.0.1'' = Some (cfg\<lparr>sc_options := [[1, 4, 10, 0, 0, 1]]\<rparr>)"
proof -
  have "config_line sample_resolver cfg ''opt subnet 10.0.0.1'' = Some (cfg\<lparr>sc_options := [[1, 4, 10, 0, 0, 1]]\<rparr>)"
    using assms
    by (simp add: config_line_def cstring_def strtok_def isspace_def keyword_step_def config_keywords_def strcaseeq_def
        to_lower_def opt_handler_def sample_read_opt Let_def)
  then show ?thesis
    by (subst config_lines.simps, simp add: fgets_def, subst config_lines.simps, simp add: fgets_def)
qed

theorem read_config_options_witness:
  "\<exists>cfg. read_config sample_resolver server_config_init (Some ''opt subnet 10.0.0.1'') = Some (cfg, True) \<and>
     sc_options cfg = [[1, 4, 10, 0, 0, 1]] \<and> opts_ok (sc_options cfg)"
proof -
  obtain cfg where d: "foldM (default_step sample_resolver) server_config_init config_keywords = Some cfg"
    "sc_options cfg = []" using sample_defaults by blast
  let ?cfg = "cfg\<lparr>sc_options := [[1, 4, 10, 0, 0, 1]]\<rparr>"
  have r: "read_config sample_resolver server_config_init (Some ''opt subnet 10.0.0.1'') = Some (?cfg, True)"
    by (simp add: read_config_def d(1) sample_config_lines [OF d(2)])
  have "opts_ok (sc_options server_config_init)" by (simp add: opts_ok_def server_config_init_def)
  from read_config_options [OF this r] r show ?thesis by auto
qed


end
