(* ===== verification/Udhcp_Server.thy ===== *)
theory Udhcp_Server
  imports Udhcp_Files
begin

text \<open>
  \<open>serverpacket.c\<close> and the main loop of \<open>dhcpd.c\<close>: the replies of the server, the handling
  of each message type and the event loop around it. A handler takes the lease table and
  returns the new table with what is put on the wire; \<open>None\<close> is an access outside of an
  array or a search of the pool that does not return.
\<close>

section \<open>Sending\<close>

record srv_env =
  now :: u32
  arp_result :: "u32 \<Rightarrow> int"
  net :: send_env

definition send_packet_to_relay :: "send_env \<Rightarrow> server_config_t \<Rightarrow> dhcpMessage \<Rightarrow> int \<times> wire option" where
  "send_packet_to_relay e cfg payload =
     udhcp_kernel_packet e payload (sc_server cfg) SERVER_PORT (giaddr payload) SERVER_PORT"

definition send_packet_to_client ::
    "send_env \<Rightarrow> server_config_t \<Rightarrow> dhcpMessage \<Rightarrow> bool \<Rightarrow> (int \<times> wire option) option" where
  "send_packet_to_client e cfg payload force_broadcast =
     (let (ci, ch) =
        (if force_broadcast then (INADDR_BROADCAST, MAC_BCAST_ADDR)
         else if ciaddr payload \<noteq> 0 then (ciaddr payload, chaddr payload)
         else if ntohs (flags payload) AND BROADCAST_FLAG \<noteq> 0 then (INADDR_BROADCAST, MAC_BCAST_ADDR)
         else (yiaddr payload, chaddr payload))
      in udhcp_raw_packet e payload (sc_server cfg) SERVER_PORT ci CLIENT_PORT ch (sc_ifindex cfg))"

definition send_packet ::
    "send_env \<Rightarrow> server_config_t \<Rightarrow> dhcpMessage \<Rightarrow> bool \<Rightarrow> (int \<times> wire option) option" where
  "send_packet e cfg payload force_broadcast =
     (if giaddr payload \<noteq> 0 then Some (send_packet_to_relay e cfg payload)
      else send_packet_to_client e cfg payload force_broadcast)"

section \<open>Replies\<close>

definition server_init_packet :: "server_config_t \<Rightarrow> dhcpMessage \<Rightarrow> byte \<Rightarrow> dhcpMessage option" where
  "server_init_packet cfg oldpacket type = do {
     p \<leftarrow> udhcp_init_header type;
     ch \<leftarrow> rd_range (chaddr oldpacket) 0 16;
     put_simple (p\<lparr>xid := xid oldpacket, chaddr := ch, flags := flags oldpacket,
         giaddr := giaddr oldpacket, ciaddr := ciaddr oldpacket\<rparr>)
       DHCP_SERVER_ID (sc_server cfg) }"

definition add_bootp_options :: "server_config_t \<Rightarrow> dhcpMessage \<Rightarrow> dhcpMessage" where
  "add_bootp_options cfg packet =
     (let p1 = packet\<lparr>siaddr := sc_siaddr cfg\<rparr>;
          p2 = (case sc_sname cfg of None \<Rightarrow> p1 | Some s \<Rightarrow> p1\<lparr>sname := strncpy (sname p1) s (64 - 1)\<rparr>)
      in case sc_boot_file cfg of None \<Rightarrow> p2 | Some s \<Rightarrow> p2\<lparr>bfile := strncpy (bfile p2) s (128 - 1)\<rparr>)"

text \<open>The loop over the configured options, which leaves out the lease time.\<close>

definition add_config_option :: "dhcpMessage \<Rightarrow> bytes \<Rightarrow> dhcpMessage option" where
  "add_config_option packet d = do {
     c \<leftarrow> rd d 0;
     if c \<noteq> DHCP_LEASE_TIME then put_string packet d else Some packet }"

definition add_config_options :: "server_config_t \<Rightarrow> dhcpMessage \<Rightarrow> dhcpMessage option" where
  "add_config_options cfg packet = foldM add_config_option packet (sc_options cfg)"

text \<open>The lease time that the client asks for, if any.\<close>

definition requested_lease :: "dhcpMessage \<Rightarrow> u32 option option" where
  "requested_lease oldpacket = do {
     lease_time \<leftarrow> get_option oldpacket DHCP_LEASE_TIME;
     case lease_time of
       None \<Rightarrow> Some None
     | Some ptr \<Rightarrow> do { w \<leftarrow> ptr_u32 oldpacket ptr; Some (Some (ntohl w)) } }"

definition offer_lease_time :: "server_config_t \<Rightarrow> dhcpMessage \<Rightarrow> u32 \<Rightarrow> u32 option" where
  "offer_lease_time cfg oldpacket lease_time_align = do {
     r \<leftarrow> requested_lease oldpacket;
     let t = (case r of None \<Rightarrow> lease_time_align | Some w \<Rightarrow> if w > sc_lease cfg then sc_lease cfg else w);
     Some (if t < sc_min_lease cfg then sc_lease cfg else t) }"

text \<open>The address a client without a static lease is offered, and the lease time so far.\<close>

definition offer_requested ::
    "u32 \<Rightarrow> server_config_t \<Rightarrow> leases \<Rightarrow> dhcpMessage \<Rightarrow> u32 option option" where
  "offer_requested t cfg ls oldpacket = do {
     req \<leftarrow> get_option oldpacket DHCP_REQUESTED_IP;
     case req of
       None \<Rightarrow> Some None
     | Some ptr \<Rightarrow> do {
         req_align \<leftarrow> ptr_u32 oldpacket ptr;
         if ntohl req_align \<ge> ntohl (sc_start cfg) \<and> ntohl req_align \<le> ntohl (sc_end cfg) \<and>
           (case find_lease_by_yiaddr ls req_align of None \<Rightarrow> True | Some k \<Rightarrow> lease_expired t (ls ! k))
         then Some (Some req_align) else Some None } }"

definition offer_address ::
    "srv_env \<Rightarrow> server_config_t \<Rightarrow> leases \<Rightarrow> dhcpMessage \<Rightarrow> (u32 \<times> u32 \<times> leases) option" where
  "offer_address e cfg ls oldpacket =
     (case find_lease_by_chaddr ls (chaddr oldpacket) of
        Some k \<Rightarrow>
          Some (l_yiaddr (ls ! k),
            if \<not> lease_expired (now e) (ls ! k) then l_expires (ls ! k) - now e else sc_lease cfg, ls)
      | None \<Rightarrow> do {
          r \<leftarrow> offer_requested (now e) cfg ls oldpacket;
          case r of
            Some a \<Rightarrow> Some (a, sc_lease cfg, ls)
          | None \<Rightarrow> do {
              (a, ls1) \<leftarrow> find_address cfg (arp_result e) (now e) False ls;
              if a \<noteq> 0 then Some (a, sc_lease cfg, ls1)
              else do {
                (b, ls2) \<leftarrow> find_address cfg (arp_result e) (now e) True ls1;
                Some (b, sc_lease cfg, ls2) } } })"

text \<open>The common end of the replies: lease time, configured options, BOOTP fields.\<close>

definition finish_reply :: "server_config_t \<Rightarrow> dhcpMessage \<Rightarrow> u32 \<Rightarrow> dhcpMessage option" where
  "finish_reply cfg packet lease_time_align = do {
     p1 \<leftarrow> put_simple packet DHCP_LEASE_TIME (htonl lease_time_align);
     p2 \<leftarrow> add_config_options cfg p1;
     Some (add_bootp_options cfg p2) }"

type_synonym srv_result = "int \<times> leases \<times> wire option"

definition sendOffer :: "srv_env \<Rightarrow> server_config_t \<Rightarrow> leases \<Rightarrow> dhcpMessage \<Rightarrow> srv_result option" where
  "sendOffer e cfg ls oldpacket = do {
     packet \<leftarrow> server_init_packet cfg oldpacket DHCPOFFER;
     let static_lease_ip = getIpByMac (sc_static_leases cfg) (chaddr oldpacket);
     if static_lease_ip = 0 then do {
       (yi, t0, ls1) \<leftarrow> offer_address e cfg ls oldpacket;
       if yi = 0 then Some (-1, ls1, None)
       else (case add_lease (now e) ls1 (chaddr packet) yi (sc_offer_time cfg) of
          (ls2, None) \<Rightarrow> Some (-1, ls2, None)
        | (ls2, Some k) \<Rightarrow> do {
            t \<leftarrow> offer_lease_time cfg oldpacket t0;
            p \<leftarrow> finish_reply cfg (packet\<lparr>yiaddr := yi\<rparr>) t;
            (ret, w) \<leftarrow> send_packet (net e) cfg p False;
            Some (ret, ls2, w) }) }
     else do {
       p \<leftarrow> finish_reply cfg (packet\<lparr>yiaddr := static_lease_ip\<rparr>) (sc_lease cfg);
       (ret, w) \<leftarrow> send_packet (net e) cfg p False;
       Some (ret, ls, w) } }"

definition sendNAK :: "srv_env \<Rightarrow> server_config_t \<Rightarrow> leases \<Rightarrow> dhcpMessage \<Rightarrow> srv_result option" where
  "sendNAK e cfg ls oldpacket = do {
     packet \<leftarrow> server_init_packet cfg oldpacket DHCPNAK;
     (ret, w) \<leftarrow> send_packet (net e) cfg packet True;
     Some (ret, ls, w) }"

definition ack_lease_time :: "server_config_t \<Rightarrow> dhcpMessage \<Rightarrow> u32 option" where
  "ack_lease_time cfg oldpacket = do {
     r \<leftarrow> requested_lease oldpacket;
     Some (case r of
        None \<Rightarrow> sc_lease cfg
      | Some w \<Rightarrow> if w > sc_lease cfg then sc_lease cfg
                  else if w < sc_min_lease cfg then sc_lease cfg else w) }"

definition sendACK ::
    "srv_env \<Rightarrow> server_config_t \<Rightarrow> leases \<Rightarrow> dhcpMessage \<Rightarrow> u32 \<Rightarrow> srv_result option" where
  "sendACK e cfg ls oldpacket yi = do {
     packet \<leftarrow> server_init_packet cfg oldpacket DHCPACK;
     t \<leftarrow> ack_lease_time cfg oldpacket;
     p \<leftarrow> finish_reply cfg (packet\<lparr>yiaddr := yi\<rparr>) t;
     (ret, w) \<leftarrow> send_packet (net e) cfg p False;
     if ret < 0 then Some (-1, ls, w)
     else Some (0, fst (add_lease (now e) ls (chaddr p) (yiaddr p) t), w) }"

definition send_inform :: "srv_env \<Rightarrow> server_config_t \<Rightarrow> leases \<Rightarrow> dhcpMessage \<Rightarrow> srv_result option" where
  "send_inform e cfg ls oldpacket = do {
     packet \<leftarrow> server_init_packet cfg oldpacket DHCPACK;
     p \<leftarrow> add_config_options cfg packet;
     (ret, w) \<leftarrow> send_packet (net e) cfg (add_bootp_options cfg p) False;
     Some (ret, ls, w) }"

section \<open>The main loop\<close>

text \<open>The lease of the sender: a local copy for a static lease, an entry of the table, or none.\<close>

datatype lease_ref = StaticLease u32 | TableLease nat | NoLease

fun ref_yiaddr :: "leases \<Rightarrow> lease_ref \<Rightarrow> u32" where
  "ref_yiaddr ls (StaticLease a) = a"
| "ref_yiaddr ls (TableLease k) = l_yiaddr (ls ! k)"
| "ref_yiaddr ls NoLease = 0"

definition sender_lease :: "server_config_t \<Rightarrow> leases \<Rightarrow> dhcpMessage \<Rightarrow> lease_ref" where
  "sender_lease cfg ls packet =
     (let static_lease_ip = getIpByMac (sc_static_leases cfg) (chaddr packet) in
      if static_lease_ip \<noteq> 0 then StaticLease static_lease_ip
      else case find_lease_by_chaddr ls (chaddr packet) of
             None \<Rightarrow> NoLease | Some k \<Rightarrow> TableLease k)"

text \<open>A write through the \<open>lease\<close> pointer: a static lease is a local variable.\<close>

fun update_ref :: "leases \<Rightarrow> lease_ref \<Rightarrow> (dhcpOfferedAddr \<Rightarrow> dhcpOfferedAddr) \<Rightarrow> leases" where
  "update_ref ls (TableLease k) f = ls[k := f (ls ! k)]"
| "update_ref ls _ f = ls"

definition get_ip_option :: "dhcpMessage \<Rightarrow> byte \<Rightarrow> u32 option option" where
  "get_ip_option packet code = do {
     r \<leftarrow> get_option packet code;
     case r of None \<Rightarrow> Some None | Some ptr \<Rightarrow> do { w \<leftarrow> ptr_u32 packet ptr; Some (Some w) } }"

abbreviation silent :: "leases \<Rightarrow> srv_result" where
  "silent ls \<equiv> (0, ls, None)"

text \<open>
  A request of a client without a record: the range check compares addresses in network
  order, as the source does.
\<close>

definition unknown_request ::
    "srv_env \<Rightarrow> server_config_t \<Rightarrow> leases \<Rightarrow> dhcpMessage \<Rightarrow> u32 \<Rightarrow> srv_result option" where
  "unknown_request e cfg ls packet requested_align =
     (case find_lease_by_yiaddr ls requested_align of
        Some k \<Rightarrow>
          if lease_expired (now e) (ls ! k)
          then Some (silent (ls[k := (ls ! k)\<lparr>l_chaddr := blank_chaddr\<rparr>]))
          else sendNAK e cfg ls packet
      | None \<Rightarrow>
          if requested_align < sc_start cfg \<or> requested_align > sc_end cfg
          then sendNAK e cfg ls packet
          else Some (silent ls))"

definition handle_request ::
    "srv_env \<Rightarrow> server_config_t \<Rightarrow> leases \<Rightarrow> dhcpMessage \<Rightarrow> srv_result option" where
  "handle_request e cfg ls packet = do {
     requested \<leftarrow> get_ip_option packet DHCP_REQUESTED_IP;
     server_id \<leftarrow> get_ip_option packet DHCP_SERVER_ID;
     let lease = sender_lease cfg ls packet;
     let yi = ref_yiaddr ls lease;
     if lease \<noteq> NoLease then
       (case server_id of
          Some server_id_align \<Rightarrow>
            if server_id_align = sc_server cfg \<and> requested = Some yi
            then sendACK e cfg ls packet yi else Some (silent ls)
        | None \<Rightarrow>
            (case requested of
               Some requested_align \<Rightarrow>
                 if yi = requested_align then sendACK e cfg ls packet yi
                 else sendNAK e cfg ls packet
             | None \<Rightarrow>
                 if yi = ciaddr packet then sendACK e cfg ls packet yi
                 else sendNAK e cfg ls packet))
     else if server_id \<noteq> None then Some (silent ls)
     else (case requested of
             Some requested_align \<Rightarrow> unknown_request e cfg ls packet requested_align
           | None \<Rightarrow> Some (silent ls)) }"

definition handle_packet ::
    "srv_env \<Rightarrow> server_config_t \<Rightarrow> leases \<Rightarrow> dhcpMessage \<Rightarrow> srv_result option" where
  "handle_packet e cfg ls packet = do {
     state \<leftarrow> get_option packet DHCP_MESSAGE_TYPE;
     case state of
       None \<Rightarrow> Some (silent ls)
     | Some ptr \<Rightarrow> do {
         st \<leftarrow> ptr_rd packet ptr 0;
         let lease = sender_lease cfg ls packet;
         if st = DHCPDISCOVER then sendOffer e cfg ls packet
         else if st = DHCPREQUEST then handle_request e cfg ls packet
         else if st = DHCPDECLINE then
           Some (silent (update_ref ls lease
             (\<lambda>l. l\<lparr>l_chaddr := blank_chaddr, l_expires := now e + sc_decline_time cfg\<rparr>)))
         else if st = DHCPRELEASE then
           Some (silent (update_ref ls lease (\<lambda>l. l\<lparr>l_expires := now e\<rparr>)))
         else if st = DHCPINFORM then send_inform e cfg ls packet
         else Some (silent ls) } }"

text \<open>
  Start-up after \<open>read_config\<close>: the lease time, the sanity check of \<open>max_leases\<close>, the
  zeroed table and the lease file.
\<close>

definition LEASE_TIME :: u32 where "LEASE_TIME = 60 * 60 * 24 * 10"

definition setup_config :: "server_config_t \<Rightarrow> server_config_t option" where
  "setup_config cfg = do {
     lease \<leftarrow> (case find_option (sc_options cfg) DHCP_LEASE_TIME of
       Some k \<Rightarrow> do { w \<leftarrow> load32 (sc_options cfg ! k) 2; Some (ntohl w) }
     | None \<Rightarrow> Some LEASE_TIME);
     let num_ips = ntohl (sc_end cfg) - ntohl (sc_start cfg) + 1;
     Some (cfg\<lparr>sc_lease := lease,
       sc_max_leases := (if sc_max_leases cfg > num_ips then num_ips else sc_max_leases cfg)\<rparr>) }"

definition setup_leases :: "server_config_t \<Rightarrow> u32 \<Rightarrow> bytes option \<Rightarrow> leases" where
  "setup_leases cfg t lease_file =
     read_leases cfg t lease_file (replicate (unat (sc_max_leases cfg)) blank_lease)"

record dhcpd_state =
  ds_leases :: leases
  ds_timeout_end :: u32
  ds_socket :: bool

datatype select_result =
    SelTimeout
  | SelError
  | SelReady (sel_signal: int) (sel_rx: "bytes option") (sel_eintr: bool)

record dhcpd_input =
  in_env :: srv_env
  in_listen_ok :: bool
  in_lease_file_ok :: bool
  in_select :: select_result

datatype srv_out = OutWire wire | OutLeaseFile bytes | OutNotify string

datatype srv_step = SrvExit int | SrvContinue dhcpd_state "srv_out list"

definition run_write_leases :: "server_config_t \<Rightarrow> dhcpd_input \<Rightarrow> dhcpd_state \<Rightarrow> srv_out list" where
  "run_write_leases cfg i s =
     (if in_lease_file_ok i then
        OutLeaseFile (write_leases cfg (now (in_env i)) (ds_leases s)) #
        (case sc_notify_file cfg of None \<Rightarrow> [] | Some f \<Rightarrow> [OutNotify (f @ '' '' @ sc_lease_file cfg)])
      else [])"

text \<open>One turn of the loop of \<open>udhcpd_main\<close>.\<close>

definition udhcpd_step :: "server_config_t \<Rightarrow> dhcpd_input \<Rightarrow> dhcpd_state \<Rightarrow> srv_step option" where
  "udhcpd_step cfg i s =
     (if \<not> ds_socket s \<and> \<not> in_listen_ok i then Some (SrvExit 2)
      else
        let t = now (in_env i);
            s1 = s\<lparr>ds_socket := True\<rparr>;
            s2 = s1\<lparr>ds_timeout_end := t + sc_auto_time cfg\<rparr>;
            sel = (if sc_auto_time cfg \<noteq> 0 \<and> \<not> 0 < sint (ds_timeout_end s - t) then SelTimeout
                   else in_select i)
        in case sel of
             SelTimeout \<Rightarrow> Some (SrvContinue s2 (run_write_leases cfg i s))
           | SelError \<Rightarrow> Some (SrvContinue s1 [])
           | SelReady sig rx eintr \<Rightarrow>
               if sig = SIGUSR1 then Some (SrvContinue s2 (run_write_leases cfg i s))
               else if sig = SIGTERM then Some (SrvExit 0)
               else if sig \<noteq> 0 then Some (SrvContinue s1 [])
               else do {
                 (bytes, packet) \<leftarrow> udhcp_get_packet rx;
                 if bytes < 0
                 then Some (SrvContinue (if bytes = -1 \<and> \<not> eintr then s1\<lparr>ds_socket := False\<rparr> else s1) [])
                 else do {
                   (ret, ls, w) \<leftarrow> handle_packet (in_env i) cfg (ds_leases s) packet;
                   Some (SrvContinue (s1\<lparr>ds_leases := ls\<rparr>)
                     (case w of None \<Rightarrow> [] | Some x \<Rightarrow> [OutWire x])) } })"

section \<open>Lemmas\<close>

subsection \<open>Frames\<close>

lemma put_string_frame: "put_string p s = Some p' \<Longrightarrow> msg_frame p' = msg_frame p"
  by (auto simp: put_string_def msg_frame_def split: bind_splits)

lemma put_simple_frame: "put_simple p c w = Some p' \<Longrightarrow> msg_frame p' = msg_frame p"
  by (auto simp: put_simple_def msg_frame_def split: bind_splits)

lemma msg_frame_fields:
  assumes "msg_frame p = msg_frame q"
  shows "chaddr p = chaddr q" "yiaddr p = yiaddr q" "xid p = xid q" "ciaddr p = ciaddr q"
    "giaddr p = giaddr q" "cookie p = cookie q" "flags p = flags q" "siaddr p = siaddr q"
    "msg_op p = msg_op q" "sname p = sname q" "bfile p = bfile q"
  using assms by (cases p, cases q, simp add: msg_frame_def)+

lemma server_init_packet_chaddr:
  assumes "server_init_packet cfg old type = Some p"
  shows "length (chaddr p) = 16"
proof -
  from assms obtain q ch where q: "rd_range (chaddr old) 0 16 = Some ch"
    "put_simple (q\<lparr>xid := xid old, chaddr := ch, flags := flags old, giaddr := giaddr old,
        ciaddr := ciaddr old\<rparr>) DHCP_SERVER_ID (sc_server cfg) = Some p"
    by (auto simp: server_init_packet_def simp del: simple_option_u32 split: bind_splits)
  from put_simple_frame [OF q(2)] have "chaddr p = ch" by (auto dest: msg_frame_fields)
  with rd_range_length [OF q(1)] show ?thesis by simp
qed

lemma server_init_packet_copies:
  assumes "server_init_packet cfg old type = Some p" "length (chaddr old) = 16"
  shows "chaddr p = chaddr old"
proof -
  from assms(1) obtain q ch where q: "rd_range (chaddr old) 0 16 = Some ch"
    "put_simple (q\<lparr>xid := xid old, chaddr := ch, flags := flags old, giaddr := giaddr old,
        ciaddr := ciaddr old\<rparr>) DHCP_SERVER_ID (sc_server cfg) = Some p"
    by (auto simp: server_init_packet_def simp del: simple_option_u32 split: bind_splits)
  from put_simple_frame [OF q(2)] have "chaddr p = ch" by (auto dest: msg_frame_fields)
  with q(1) assms(2) show ?thesis by (simp add: rd_range_def)
qed

lemma add_config_options_frame:
  assumes "add_config_options cfg p = Some p'"
  shows "msg_frame p' = msg_frame p"
proof (rule foldM_invariant [where I = "\<lambda>q. msg_frame q = msg_frame p"])
  show "foldM add_config_option p (sc_options cfg) = Some p'"
    using assms by (simp add: add_config_options_def)
  fix q d q'
  assume "msg_frame q = msg_frame p" "add_config_option q d = Some q'"
  then show "msg_frame q' = msg_frame p"
    by (auto simp: add_config_option_def dest: put_string_frame split: bind_splits if_splits)
qed simp

lemma add_bootp_options_fields [simp]:
  "chaddr (add_bootp_options cfg p) = chaddr p" "yiaddr (add_bootp_options cfg p) = yiaddr p"
  "xid (add_bootp_options cfg p) = xid p" "ciaddr (add_bootp_options cfg p) = ciaddr p"
  "giaddr (add_bootp_options cfg p) = giaddr p" "cookie (add_bootp_options cfg p) = cookie p"
  "flags (add_bootp_options cfg p) = flags p" "options (add_bootp_options cfg p) = options p"
  by (simp_all add: add_bootp_options_def Let_def split: option.splits)

lemma finish_reply_frame:
  assumes "finish_reply cfg p t = Some p'"
  shows "chaddr p' = chaddr p" "yiaddr p' = yiaddr p" "xid p' = xid p" "ciaddr p' = ciaddr p"
    "giaddr p' = giaddr p" "cookie p' = cookie p" "flags p' = flags p"
proof -
  from assms obtain p1 p2 where "put_simple p DHCP_LEASE_TIME (htonl t) = Some p1"
    "add_config_options cfg p1 = Some p2" and p': "p' = add_bootp_options cfg p2"
    by (auto simp: finish_reply_def simp del: simple_option_u32 split: bind_splits)
  then have "msg_frame p2 = msg_frame p"
    using put_simple_frame add_config_options_frame by metis
  note msg_frame_fields [OF this]
  then show "chaddr p' = chaddr p" "yiaddr p' = yiaddr p" "xid p' = xid p" "ciaddr p' = ciaddr p"
    "giaddr p' = giaddr p" "cookie p' = cookie p" "flags p' = flags p"
    by (simp_all add: p')
qed

subsection \<open>The lease table stays well-formed\<close>

text \<open>What every handler keeps of the table.\<close>

definition keeps :: "leases \<Rightarrow> leases \<Rightarrow> bool" where
  "keeps ls ls' \<longleftrightarrow> (leases_ok ls \<longrightarrow> leases_ok ls' \<and> length ls' = length ls)"

lemma keeps_refl [simp]: "keeps ls ls"
  by (simp add: keeps_def)

lemma keeps_trans: "keeps a b \<Longrightarrow> keeps b c \<Longrightarrow> keeps a c"
  by (simp add: keeps_def)

lemma keeps_add_lease: "length c = 16 \<Longrightarrow> keeps ls (fst (add_lease t ls c y d))"
  by (simp add: keeps_def add_lease_ok)

lemma keeps_entry:
  assumes "k < length ls" "l_yiaddr l = l_yiaddr (ls ! k)"
    and "l_chaddr l = l_chaddr (ls ! k) \<or> l_chaddr l = blank_chaddr"
  shows "keeps ls (ls[k := l])"
  using assms entry_update_ok by (simp add: keeps_def)

lemma keeps_find_address: "find_address cfg arp t chk ls = Some (a, ls') \<Longrightarrow> keeps ls ls'"
  using find_address_ok by (simp add: keeps_def)

text \<open>
  The contract that the handlers of the message types share, and what follows for a
  sequence of messages, each with its own time and network.
\<close>

type_synonym srv_handler = "srv_env \<Rightarrow> server_config_t \<Rightarrow> leases \<Rightarrow> dhcpMessage \<Rightarrow> srv_result option"

definition run_handler ::
    "srv_handler \<Rightarrow> server_config_t \<Rightarrow> leases \<Rightarrow> (srv_env \<times> dhcpMessage) list \<Rightarrow> leases option" where
  "run_handler h cfg = foldM (\<lambda>ls (e, p). map_option (\<lambda>(ret, ls', w). ls') (h e cfg ls p))"

locale lease_handler =
  fixes handle :: srv_handler
  assumes handle_keeps: "handle e cfg ls p = Some (ret, ls', w) \<Longrightarrow> keeps ls ls'"
begin

lemma run_keeps: "run_handler handle cfg ls ms = Some ls' \<Longrightarrow> keeps ls ls'"
proof (induction ms arbitrary: ls)
  case Nil
  then show ?case by (simp add: run_handler_def)
next
  case (Cons m ms)
  obtain e p where m: "m = (e, p)" by (cases m)
  with Cons.prems obtain ret ls1 w where
    h: "handle e cfg ls p = Some (ret, ls1, w)" "run_handler handle cfg ls1 ms = Some ls'"
    by (auto simp: run_handler_def split: bind_splits)
  from handle_keeps [OF h(1)] Cons.IH [OF h(2)] show ?case by (rule keeps_trans)
qed

end

lemma offer_address_keeps:
  "offer_address e cfg ls old = Some (yi, t, ls') \<Longrightarrow> keeps ls ls'"
  by (auto simp: offer_address_def split: option.splits bind_splits if_splits
      dest!: keeps_find_address intro: keeps_trans)

interpretation offer: lease_handler sendOffer
proof
  fix e cfg ls p ret ls' w
  assume "sendOffer e cfg ls p = Some (ret, ls', w)"
  then obtain packet where packet: "server_init_packet cfg p DHCPOFFER = Some packet"
    and r: "ls' = ls \<or> (\<exists>yi t ls1. offer_address e cfg ls p = Some (yi, t, ls1) \<and>
      (ls' = ls1 \<or> ls' = fst (add_lease (now e) ls1 (chaddr packet) yi (sc_offer_time cfg))))"
    by (auto simp: sendOffer_def Let_def split: bind_splits if_splits prod.splits option.splits)
  from r show "keeps ls ls'"
    using offer_address_keeps keeps_add_lease [OF server_init_packet_chaddr [OF packet]]
    by (metis keeps_refl keeps_trans)
qed

interpretation nak: lease_handler sendNAK
  by unfold_locales (auto simp: sendNAK_def split: bind_splits)

interpretation inform: lease_handler send_inform
  by unfold_locales (auto simp: send_inform_def split: bind_splits)

interpretation ack: lease_handler "\<lambda>e cfg ls p. sendACK e cfg ls p yi" for yi
proof
  fix e cfg ls p ret ls' w
  assume a: "sendACK e cfg ls p yi = Some (ret, ls', w)"
  then obtain packet q t where packet: "server_init_packet cfg p DHCPACK = Some packet"
    and q: "finish_reply cfg (packet\<lparr>yiaddr := yi\<rparr>) t = Some q"
    and r: "ls' = ls \<or> ls' = fst (add_lease (now e) ls (chaddr q) (yiaddr q) t)"
    by (auto simp: sendACK_def split: bind_splits if_splits)
  from finish_reply_frame(1) [OF q] server_init_packet_chaddr [OF packet]
  have "length (chaddr q) = 16" by simp
  with r show "keeps ls ls'" using keeps_add_lease by auto
qed

lemma unknown_request_keeps:
  assumes "unknown_request e cfg ls p a = Some (ret, ls', w)"
  shows "keeps ls ls'"
proof (cases "find_lease_by_yiaddr ls a")
  case None
  with assms nak.handle_keeps show ?thesis
    by (auto simp: unknown_request_def split: if_splits)
next
  case (Some k)
  note k = find_lease_by_yiaddr_Some [OF Some]
  show ?thesis
  proof (cases "lease_expired (now e) (ls ! k)")
    case True
    with assms Some have "ls' = ls[k := (ls ! k)\<lparr>l_chaddr := blank_chaddr\<rparr>]"
      by (simp add: unknown_request_def)
    with k show ?thesis by (simp add: keeps_entry)
  next
    case False
    with assms Some nak.handle_keeps show ?thesis by (auto simp: unknown_request_def)
  qed
qed

interpretation request: lease_handler handle_request
proof
  fix e cfg ls p ret ls' w
  assume "handle_request e cfg ls p = Some (ret, ls', w)"
  then have "sendACK e cfg ls p (ref_yiaddr ls (sender_lease cfg ls p)) = Some (ret, ls', w) \<or>
      sendNAK e cfg ls p = Some (ret, ls', w) \<or> ls' = ls \<or>
      (\<exists>a. unknown_request e cfg ls p a = Some (ret, ls', w))"
    by (auto simp: handle_request_def Let_def split: bind_splits if_splits option.splits)
  then show "keeps ls ls'"
    using ack.handle_keeps nak.handle_keeps unknown_request_keeps by auto
qed

lemma update_ref_keeps:
  assumes "\<And>l. l_yiaddr (f l) = l_yiaddr l" "\<And>l. l_chaddr (f l) = l_chaddr l \<or> l_chaddr (f l) = blank_chaddr"
  shows "keeps ls (update_ref ls (sender_lease cfg ls p) f)"
proof (cases "sender_lease cfg ls p")
  case (TableLease k)
  then have "k < length ls"
    by (auto simp: sender_lease_def Let_def dest: find_lease_by_chaddr_Some
        split: if_splits option.splits)
  with TableLease assms show ?thesis by (simp add: keeps_entry)
qed simp_all

interpretation packet: lease_handler handle_packet
proof
  fix e cfg ls p ret ls' w
  assume "handle_packet e cfg ls p = Some (ret, ls', w)"
  then have "sendOffer e cfg ls p = Some (ret, ls', w) \<or> handle_request e cfg ls p = Some (ret, ls', w) \<or>
      send_inform e cfg ls p = Some (ret, ls', w) \<or> ls' = ls \<or>
      ls' = update_ref ls (sender_lease cfg ls p)
        (\<lambda>l. l\<lparr>l_chaddr := blank_chaddr, l_expires := now e + sc_decline_time cfg\<rparr>) \<or>
      ls' = update_ref ls (sender_lease cfg ls p) (\<lambda>l. l\<lparr>l_expires := now e\<rparr>)"
    by (auto simp: handle_packet_def Let_def split: bind_splits if_splits option.splits)
  then show "keeps ls ls'"
    using offer.handle_keeps request.handle_keeps inform.handle_keeps
    by (elim disjE) (auto intro: update_ref_keeps)
qed

subsection \<open>What a reply contains\<close>

definition config_tlvs :: "server_config_t \<Rightarrow> tlv list" where
  "config_tlvs cfg =
     map (\<lambda>d. (d ! 0, drop 2 d)) (filter (\<lambda>d. d ! 0 \<noteq> DHCP_LEASE_TIME) (sc_options cfg))"

text \<open>The header every reply has.\<close>

definition reply_header :: "server_config_t \<Rightarrow> dhcpMessage \<Rightarrow> byte \<Rightarrow> dhcpMessage \<Rightarrow> bool" where
  "reply_header cfg old type p \<longleftrightarrow> msg_wf p \<and> msg_op p = header_op type \<and>
     cookie p = htonl DHCP_MAGIC \<and> xid p = xid old \<and> chaddr p = chaddr old \<and>
     flags p = flags old \<and> giaddr p = giaddr old \<and> ciaddr p = ciaddr old"

lemma msg_wf_frame:
  "msg_frame p = msg_frame q \<Longrightarrow> length (options p) = length (options q) \<Longrightarrow> msg_wf p = msg_wf q"
  using msg_frame_fields [of p q] by (simp add: msg_wf_def)

lemma reply_header_frame:
  assumes "reply_header cfg old type p" "msg_frame p' = msg_frame p" "length (options p') = 308"
  shows "reply_header cfg old type p'"
proof -
  have "msg_wf p" using assms(1) by (simp add: reply_header_def)
  then have "msg_wf p'" using assms(3) msg_wf_frame [OF assms(2)] by (simp add: msg_wf_def [of p])
  with assms(1) msg_frame_fields [OF assms(2)] show ?thesis by (simp add: reply_header_def)
qed

lemma server_init_packet_holds:
  assumes "msg_wf old"
  shows "\<exists>p. server_init_packet cfg old type = Some p \<and> reply_header cfg old type p \<and>
    holds p [(DHCP_MESSAGE_TYPE, [type]), (DHCP_SERVER_ID, le32 (sc_server cfg))]"
proof -
  obtain p0 where p0: "udhcp_init_header type = Some p0" "holds p0 [(DHCP_MESSAGE_TYPE, [type])]"
    "msg_wf p0" and fr: "msg_frame p0 = msg_frame (zero_msg\<lparr>msg_op := header_op type, htype := ETH_10MB,
       hlen := ETH_10MB_LEN, cookie := htonl DHCP_MAGIC\<rparr>)"
    using udhcp_init_header_holds by blast
  let ?p = "p0\<lparr>xid := xid old, chaddr := chaddr old, flags := flags old,
         giaddr := giaddr old, ciaddr := ciaddr old\<rparr>"
  from assms have ch: "rd_range (chaddr old) 0 16 = Some (chaddr old)"
    by (simp add: rd_range_def msg_wf_def)
  have "holds ?p [(DHCP_MESSAGE_TYPE, [type])]" using p0(2) by (simp add: holds_def)
  from put_simple_u32 [OF this, of DHCP_SERVER_ID "sc_server cfg"]
  obtain p where p: "put_simple ?p DHCP_SERVER_ID (sc_server cfg) = Some p" "msg_frame p = msg_frame ?p"
    "holds p [(DHCP_MESSAGE_TYPE, [type]), (DHCP_SERVER_ID, le32 (sc_server cfg))]"
    by (auto simp: tlv_add_def)
  have "reply_header cfg old type ?p"
    using p0(3) assms msg_frame_fields [OF fr] by (simp add: reply_header_def msg_wf_def)
  with p have "reply_header cfg old type p" by (auto intro: reply_header_frame simp: holds_def)
  with p p0(1) ch show ?thesis by (simp add: server_init_packet_def del: simple_option_u32)
qed

lemma opt_string_tlv:
  assumes "opt_string_ok d"
  shows "d = tlv_string (d ! 0, drop 2 d)" and "tlv_ok (d ! 0, drop 2 d)"
  using assms is_tlv_string [of d] table_codes by (auto simp: opt_string_ok_def is_tlv_def)

lemma add_config_options_tlvs:
  assumes "list_all opt_string_ok (sc_options cfg)"
  shows "add_config_options cfg p = foldM put_string p (map tlv_string (config_tlvs cfg))"
proof -
  have "foldM add_config_option p ds =
      foldM put_string p (map tlv_string (map (\<lambda>d. (d ! 0, drop 2 d)) (filter (\<lambda>d. d ! 0 \<noteq> DHCP_LEASE_TIME) ds)))"
    if "list_all opt_string_ok ds" for ds
    using that
  proof (induction ds arbitrary: p)
    case (Cons d ds)
    then have ok: "opt_string_ok d" by simp
    then have "rd d 0 = Some (d ! 0)" by (simp add: opt_string_ok_def rd_def)
    with Cons opt_string_tlv(1) [OF ok] show ?case
      by (cases "d ! 0 = DHCP_LEASE_TIME") (simp_all add: add_config_option_def)
  qed simp
  from this [OF assms] show ?thesis by (simp add: add_config_options_def config_tlvs_def)
qed

lemma config_tlvs_ok: "list_all opt_string_ok (sc_options cfg) \<Longrightarrow> list_all tlv_ok (config_tlvs cfg)"
  by (auto simp: config_tlvs_def list_all_iff intro: opt_string_tlv(2))

lemma add_config_options_holds:
  assumes "holds p ts" "opts_ok (sc_options cfg)"
  shows "\<exists>p'. add_config_options cfg p = Some p' \<and> msg_frame p' = msg_frame p \<and>
    holds p' (foldl (tlv_add 308) ts (config_tlvs cfg))"
  using assms add_config_options_tlvs optf.put_all [OF assms(1) config_tlvs_ok]
  by (simp add: opts_ok_def)

lemma add_bootp_options_header:
  "reply_header cfg old type p \<Longrightarrow> reply_header cfg old type (add_bootp_options cfg p)"
  by (auto simp: reply_header_def msg_wf_def add_bootp_options_def Let_def length_strncpy
      split: option.splits)

lemma holds_add_bootp [simp]: "holds (add_bootp_options cfg p) ts = holds p ts"
  by (simp add: holds_def)

definition reply_tlvs :: "server_config_t \<Rightarrow> byte \<Rightarrow> u32 \<Rightarrow> tlv list" where
  "reply_tlvs cfg type t = foldl (tlv_add 308)
     [(DHCP_MESSAGE_TYPE, [type]), (DHCP_SERVER_ID, le32 (sc_server cfg)),
      (DHCP_LEASE_TIME, le32 (htonl t))] (config_tlvs cfg)"

lemma reply_tlvs_fields [simp]:
  "map_of (reply_tlvs cfg type t) DHCP_MESSAGE_TYPE = Some [type]"
  "map_of (reply_tlvs cfg type t) DHCP_SERVER_ID = Some (le32 (sc_server cfg))"
  "map_of (reply_tlvs cfg type t) DHCP_LEASE_TIME = Some (le32 (htonl t))"
  by (auto simp: reply_tlvs_def dhcp_code_defs intro!: foldl_tlv_add_present)

text \<open>The reply to a message: its header, its address and its options.\<close>

definition reply_ok ::
    "server_config_t \<Rightarrow> dhcpMessage \<Rightarrow> byte \<Rightarrow> u32 \<Rightarrow> u32 \<Rightarrow> dhcpMessage \<Rightarrow> bool" where
  "reply_ok cfg old type yi t p \<longleftrightarrow> reply_header cfg old type p \<and> yiaddr p = yi \<and>
     holds p (reply_tlvs cfg type t)"

lemma finish_reply_ok:
  assumes "msg_wf old" "opts_ok (sc_options cfg)"
  shows "\<exists>packet p. server_init_packet cfg old type = Some packet \<and> chaddr packet = chaddr old \<and>
    finish_reply cfg (packet\<lparr>yiaddr := yi\<rparr>) t = Some p \<and> reply_ok cfg old type yi t p"
proof -
  let ?base = "[(DHCP_MESSAGE_TYPE, [type]), (DHCP_SERVER_ID, le32 (sc_server cfg))]"
  obtain q where q: "server_init_packet cfg old type = Some q" "reply_header cfg old type q"
    "holds q ?base" using server_init_packet_holds [OF assms(1)] by blast
  let ?q = "q\<lparr>yiaddr := yi\<rparr>"
  from q(3) have "holds ?q ?base" by (simp add: holds_def)
  from q(2) have hq: "reply_header cfg old type ?q" by (auto simp: reply_header_def msg_wf_def)
  from put_simple_u32 [OF \<open>holds ?q ?base\<close>, of DHCP_LEASE_TIME "htonl t"]
  obtain p1 where p1: "put_simple ?q DHCP_LEASE_TIME (htonl t) = Some p1" "msg_frame p1 = msg_frame ?q"
    "holds p1 (?base @ [(DHCP_LEASE_TIME, le32 (htonl t))])" by (auto simp: tlv_add_def)
  from add_config_options_holds [OF p1(3) assms(2)] obtain p2 where
    p2: "add_config_options cfg p1 = Some p2" "msg_frame p2 = msg_frame p1"
      "holds p2 (reply_tlvs cfg type t)" by (auto simp: reply_tlvs_def)
  from p2 p1 hq have "reply_header cfg old type p2"
    using reply_header_frame [of cfg old type ?q p2] by (simp add: holds_def)
  moreover have "yiaddr p2 = yi"
    using msg_frame_fields(2) [OF p2(2)] msg_frame_fields(2) [OF p1(2)] by simp
  ultimately have "reply_ok cfg old type yi t (add_bootp_options cfg p2)"
    using p2(3) add_bootp_options_header by (simp add: reply_ok_def)
  moreover have "chaddr q = chaddr old" using q(2) by (simp add: reply_header_def)
  ultimately show ?thesis
    using q(1) p1(1) p2(1) by (auto simp: finish_reply_def simp del: simple_option_u32)
qed

lemma send_packet_Some:
  assumes "msg_wf p"
  shows "\<exists>ret w. send_packet e cfg p b = Some (ret, w)"
proof -
  have raw: "\<exists>ret w. udhcp_raw_packet e p s sp ci cp ch i = Some (ret, w)"
    if "6 \<le> length ch" for s sp ci cp ch i
  proof -
    obtain q where "raw_packet p s sp ci cp = Some q" using raw_packet_Some [OF assms] by blast
    with that show ?thesis by (simp add: udhcp_raw_packet_def rd_range_def)
  qed
  have "6 \<le> length (chaddr p)" "6 \<le> length MAC_BCAST_ADDR"
    using assms by (simp_all add: msg_wf_def MAC_BCAST_ADDR_def)
  with raw show ?thesis
    by (simp add: send_packet_def send_packet_to_client_def send_packet_to_relay_def
        udhcp_kernel_packet_def Let_def)
qed

subsection \<open>The address of an offer\<close>

lemma requested_free:
  assumes "leases_ok ls" "a \<noteq> 0"
    and "case find_lease_by_yiaddr ls a of None \<Rightarrow> True | Some k \<Rightarrow> lease_expired t (ls ! k)"
  shows "available t True ls a"
  using find_lease_available [OF assms(1,2), of True t] assms(3) by (simp split: option.splits)

text \<open>
  The address that is offered: the one of the client's own entry, or one that no unexpired
  lease holds.
\<close>

definition offerable :: "u32 \<Rightarrow> leases \<Rightarrow> bytes \<Rightarrow> u32 \<Rightarrow> bool" where
  "offerable t ls ch a \<longleftrightarrow>
     (\<forall>l \<in> set ls. l_yiaddr l = a \<longrightarrow> \<not> lease_expired t l \<longrightarrow> l_chaddr l = ch)"

lemma available_offerable: "available t True ls a \<Longrightarrow> offerable t ls ch a"
  by (auto simp: available_def offerable_def)

lemma own_offerable:
  assumes "leases_ok ls" "find_lease_by_chaddr ls ch = Some k" "l_yiaddr (ls ! k) \<noteq> 0" "length ch = 16"
  shows "offerable t ls ch (l_yiaddr (ls ! k))"
  unfolding offerable_def
proof (intro ballI impI)
  fix l
  assume "l \<in> set ls" and a: "l_yiaddr l = l_yiaddr (ls ! k)"
  then obtain i where i: "i < length ls" "ls ! i = l" by (auto simp: in_set_conv_nth)
  note k = find_lease_by_chaddr_Some [OF assms(2)]
  have "uniq l_yiaddr 0 ls" using assms(1) by (simp add: leases_ok_def)
  from uniqD [OF this, of i k] i k a assms(3) have "i = k" by simp
  with k i assms(4) show "l_chaddr l = ch" by simp
qed

subsection \<open>No unexpired lease is taken from another client\<close>

definition keeps_live :: "u32 \<Rightarrow> bytes \<Rightarrow> leases \<Rightarrow> leases \<Rightarrow> bool" where
  "keeps_live t ch ls ls' \<longleftrightarrow>
     (\<forall>l \<in> set ls. \<not> lease_expired t l \<longrightarrow> l_chaddr l \<noteq> ch \<longrightarrow> l \<in> set ls')"

lemma keeps_live_refl [simp]: "keeps_live t ch ls ls"
  by (simp add: keeps_live_def)

lemma keeps_live_add_lease:
  assumes "offerable t ls ch a \<or> a = 0" "length ch = 16"
  shows "keeps_live t ch ls (fst (add_lease t ls ch a d))"
  unfolding keeps_live_def
proof (intro ballI impI)
  fix l
  assume "l \<in> set ls" "\<not> lease_expired t l" "l_chaddr l \<noteq> ch"
  with assms show "l \<in> set (fst (add_lease t ls ch a d))"
    by (intro add_lease_live) (auto simp: offerable_def)
qed

lemma keeps_live_trans:
  "keeps_live t ch a b \<Longrightarrow> keeps_live t ch b c \<Longrightarrow> keeps_live t ch a c"
  by (auto simp: keeps_live_def)

lemma keeps_live_entry:
  assumes "lease_expired t (ls ! k) \<or> l_chaddr (ls ! k) = ch"
  shows "keeps_live t ch ls (ls[k := l])"
  unfolding keeps_live_def
proof (intro ballI impI)
  fix x
  assume x: "x \<in> set ls" "\<not> lease_expired t x" "l_chaddr x \<noteq> ch"
  then obtain i where i: "i < length ls" "ls ! i = x" by (auto simp: in_set_conv_nth)
  with x assms have "i \<noteq> k" by auto
  then have "ls[k := l] ! i = x" "i < length (ls[k := l])" using i by simp_all
  then show "x \<in> set (ls[k := l])" by (metis nth_mem)
qed

text \<open>
  Handlers that also respect the leases of other clients. The pool ends below
  255.255.255.255, so that the search for an address returns, and there are no static
  leases, whose addresses the server hands out whatever the table says.
\<close>

definition dynamic_pool :: "server_config_t \<Rightarrow> bool" where
  "dynamic_pool cfg \<longleftrightarrow> sc_static_leases cfg = [] \<and> ntohl (sc_end cfg) \<noteq> - 1"

locale live_handler = lease_handler +
  assumes handle_live: "handle e cfg ls p = Some (ret, ls', w) \<Longrightarrow> leases_ok ls \<Longrightarrow>
    length (chaddr p) = 16 \<Longrightarrow> dynamic_pool cfg \<Longrightarrow> keeps_live (now e) (chaddr p) ls ls'"
begin

lemma run_live:
  assumes "run_handler handle cfg ls ms = Some ls'" "leases_ok ls" "dynamic_pool cfg" "l \<in> set ls"
    and "\<forall>(e, p) \<in> set ms. length (chaddr p) = 16 \<and> chaddr p \<noteq> l_chaddr l \<and> \<not> lease_expired (now e) l"
  shows "l \<in> set ls'"
  using assms
proof (induction ms arbitrary: ls)
  case Nil
  then show ?case by (simp add: run_handler_def)
next
  case (Cons m ms)
  obtain e p where m: "m = (e, p)" by (cases m)
  with Cons.prems(1) obtain ret ls1 w where
    h: "handle e cfg ls p = Some (ret, ls1, w)" "run_handler handle cfg ls1 ms = Some ls'"
    by (auto simp: run_handler_def split: bind_splits)
  have "l \<in> set ls1"
    using handle_live [OF h(1) Cons.prems(2)] Cons.prems(3,4,5) m by (auto simp: keeps_live_def)
  moreover have "leases_ok ls1"
    using handle_keeps [OF h(1)] Cons.prems(2) by (simp add: keeps_def)
  ultimately show ?case using Cons.IH [OF h(2)] Cons.prems by simp
qed

end

lemma getIpByMac_Nil [simp]: "getIpByMac [] mac = 0"
  by (simp add: getIpByMac_def)

lemma offer_address_live:
  assumes "offer_address e cfg ls old = Some (a, t, ls')" "leases_ok ls" "length (chaddr old) = 16"
    and "dynamic_pool cfg"
  shows "keeps_live (now e) (chaddr old) ls ls' \<and> (a = 0 \<or> offerable (now e) ls' (chaddr old) a)"
proof (cases "find_lease_by_chaddr ls (chaddr old)")
  case (Some k)
  with assms own_offerable [OF assms(2) Some _ assms(3)] show ?thesis
    by (auto simp: offer_address_def)
next
  case None
  from assms(1) None obtain r where r: "offer_requested (now e) cfg ls old = Some r"
    by (auto simp: offer_address_def split: bind_splits)
  from assms(4) have fin: "ntohl (sc_end cfg) \<noteq> - 1" by (simp add: dynamic_pool_def)
  have search: "keeps_live (now e) ch l1 l2 \<and> leases_ok l2 \<and> (b = 0 \<or> offerable (now e) l2 ch b)"
    if "find_address cfg (arp_result e) (now e) chk l1 = Some (b, l2)" "leases_ok l1" for chk l1 b l2 ch
  proof -
    from find_address_result [OF fin that(2), of "arp_result e" "now e" chk] that(1)
    have "b = 0 \<or> available (now e) chk l2 b" by (auto simp: find_result_def split: if_splits)
    then have "b = 0 \<or> offerable (now e) l2 ch b"
      using available_live_mono available_offerable by blast
    with find_address_live [OF that] find_address_ok [OF that] show ?thesis
      by (auto simp: keeps_live_def)
  qed
  show ?thesis
  proof (cases r)
    case (Some b)
    with r have "case find_lease_by_yiaddr ls b of None \<Rightarrow> True | Some k \<Rightarrow> lease_expired (now e) (ls ! k)"
      by (auto simp: offer_requested_def split: option.splits bind_splits if_splits)
    with requested_free [OF assms(2), of b "now e"] available_offerable None r Some assms(1) show ?thesis
      by (auto simp: offer_address_def)
  next
    case none: None
    with assms(1) None r obtain b ls1 where f1: "find_address cfg (arp_result e) (now e) False ls = Some (b, ls1)"
      and f2: "(b \<noteq> 0 \<and> a = b \<and> ls' = ls1) \<or> find_address cfg (arp_result e) (now e) True ls1 = Some (a, ls')"
      by (auto simp: offer_address_def split: bind_splits if_splits)
    from search [OF f1 assms(2)] search [of True ls1 a ls'] f2 show ?thesis
      by (blast intro: keeps_live_trans)
  qed
qed

interpretation offer_live: live_handler sendOffer
proof
  fix e cfg ls p ret ls' w
  assume s: "sendOffer e cfg ls p = Some (ret, ls', w)" and ok: "leases_ok ls"
    and ch: "length (chaddr p) = 16" and d: "dynamic_pool cfg"
  from d s obtain packet yi t ls1 where packet: "server_init_packet cfg p DHCPOFFER = Some packet"
    and o: "offer_address e cfg ls p = Some (yi, t, ls1)"
    and r: "ls' = ls1 \<or> (yi \<noteq> 0 \<and> ls' = fst (add_lease (now e) ls1 (chaddr packet) yi (sc_offer_time cfg)))"
    by (auto simp: sendOffer_def dynamic_pool_def Let_def split: bind_splits if_splits prod.splits option.splits)
  have "chaddr packet = chaddr p"
    using packet ch by (rule server_init_packet_copies)
  with r offer_address_live [OF o ok ch d] keeps_live_add_lease [of "now e" ls1 "chaddr p" yi] ch
  show "keeps_live (now e) (chaddr p) ls ls'"
    by (auto intro: keeps_live_trans)
qed

lemma sendNAK_table: "sendNAK e cfg ls p = Some (ret, ls', w) \<Longrightarrow> ls' = ls"
  by (auto simp: sendNAK_def split: bind_splits)

lemma send_inform_table: "send_inform e cfg ls p = Some (ret, ls', w) \<Longrightarrow> ls' = ls"
  by (auto simp: send_inform_def split: bind_splits)

lemma sendACK_table:
  assumes "sendACK e cfg ls p yi = Some (ret, ls', w)" "length (chaddr p) = 16"
  shows "ls' = ls \<or> (\<exists>t. ls' = fst (add_lease (now e) ls (chaddr p) yi t))"
proof -
  from assms(1) obtain packet q t where packet: "server_init_packet cfg p DHCPACK = Some packet"
    and q: "finish_reply cfg (packet\<lparr>yiaddr := yi\<rparr>) t = Some q"
    and r: "ls' = ls \<or> ls' = fst (add_lease (now e) ls (chaddr q) (yiaddr q) t)"
    by (auto simp: sendACK_def split: bind_splits if_splits)
  from finish_reply_frame(1,2) [OF q] server_init_packet_copies [OF packet assms(2)] r
  show ?thesis by auto
qed

lemma sender_offerable:
  assumes "leases_ok ls" "length (chaddr p) = 16" "dynamic_pool cfg"
  shows "offerable t ls (chaddr p) (ref_yiaddr ls (sender_lease cfg ls p)) \<or>
    ref_yiaddr ls (sender_lease cfg ls p) = 0"
proof (cases "find_lease_by_chaddr ls (chaddr p)")
  case None
  with assms(3) show ?thesis by (simp add: sender_lease_def dynamic_pool_def)
next
  case (Some k)
  with assms(3) own_offerable [OF assms(1) Some _ assms(2)] show ?thesis
    by (auto simp: sender_lease_def dynamic_pool_def)
qed

lemma unknown_request_live:
  assumes "unknown_request e cfg ls p a = Some (ret, ls', w)"
  shows "keeps_live (now e) (chaddr p) ls ls'"
  using assms keeps_live_entry [of "now e" ls]
  by (auto simp: unknown_request_def dest: sendNAK_table split: option.splits if_splits)

interpretation request_live: live_handler handle_request
proof
  fix e cfg ls p ret ls' w
  assume h: "handle_request e cfg ls p = Some (ret, ls', w)" and ok: "leases_ok ls"
    and ch: "length (chaddr p) = 16" and d: "dynamic_pool cfg"
  let ?yi = "ref_yiaddr ls (sender_lease cfg ls p)"
  from h consider "sendACK e cfg ls p ?yi = Some (ret, ls', w)" | "sendNAK e cfg ls p = Some (ret, ls', w)"
    | "ls' = ls" | a where "unknown_request e cfg ls p a = Some (ret, ls', w)"
    by (auto simp: handle_request_def Let_def split: bind_splits if_splits option.splits)
  then show "keeps_live (now e) (chaddr p) ls ls'"
  proof cases
    case 1
    from sendACK_table [OF 1 ch] keeps_live_add_lease [OF sender_offerable [OF ok ch d] ch] show ?thesis
      by auto
  qed (auto dest: sendNAK_table unknown_request_live)
qed

lemma update_ref_live:
  assumes "length (chaddr p) = 16"
  shows "keeps_live t (chaddr p) ls (update_ref ls (sender_lease cfg ls p) f)"
proof (cases "sender_lease cfg ls p")
  case (TableLease k)
  then have "find_lease_by_chaddr ls (chaddr p) = Some k"
    by (auto simp: sender_lease_def Let_def split: if_splits option.splits)
  from find_lease_by_chaddr_Some [OF this] assms TableLease show ?thesis
    by (simp add: keeps_live_entry)
qed simp_all

interpretation packet_live: live_handler handle_packet
proof
  fix e cfg ls p ret ls' w
  assume h: "handle_packet e cfg ls p = Some (ret, ls', w)" and ok: "leases_ok ls"
    and ch: "length (chaddr p) = 16" and d: "dynamic_pool cfg"
  from h consider "sendOffer e cfg ls p = Some (ret, ls', w)" | "handle_request e cfg ls p = Some (ret, ls', w)"
    | "send_inform e cfg ls p = Some (ret, ls', w)" | "ls' = ls"
    | f where "ls' = update_ref ls (sender_lease cfg ls p) f"
    by (auto simp: handle_packet_def Let_def split: bind_splits if_splits option.splits)
  then show "keeps_live (now e) (chaddr p) ls ls'"
  proof cases
    case 1
    then show ?thesis using ok ch d by (rule offer_live.handle_live)
  next
    case 2
    then show ?thesis using ok ch d by (rule request_live.handle_live)
  next
    case 5
    then show ?thesis using update_ref_live [OF ch] by simp
  qed (auto dest: send_inform_table)
qed

section \<open>The server as a transition system\<close>

definition dhcpd_start :: "server_config_t \<Rightarrow> u32 \<Rightarrow> bytes option \<Rightarrow> dhcpd_state" where
  "dhcpd_start cfg t lease_file = \<lparr>ds_leases = setup_leases cfg t lease_file,
     ds_timeout_end = t + sc_auto_time cfg, ds_socket = False\<rparr>"

inductive srv_reach :: "server_config_t \<Rightarrow> dhcpd_state \<Rightarrow> dhcpd_state \<Rightarrow> bool"
  for cfg :: server_config_t and s0 :: dhcpd_state where
  start: "srv_reach cfg s0 s0"
| turn: "srv_reach cfg s0 s \<Longrightarrow> udhcpd_step cfg i s = Some (SrvContinue s' outs) \<Longrightarrow> srv_reach cfg s0 s'"

inductive_simps srv_reach_iff: "srv_reach cfg s0 s"

lemma udhcpd_step_table:
  assumes "udhcpd_step cfg i s = Some (SrvContinue s' outs)"
  shows "ds_leases s' = ds_leases s \<or>
    (\<exists>packet ret w. handle_packet (in_env i) cfg (ds_leases s) packet = Some (ret, ds_leases s', w))"
  using assms
  by (auto simp: udhcpd_step_def Let_def split: if_splits select_result.splits bind_splits)

lemma srv_reach_keeps: "srv_reach cfg s0 s \<Longrightarrow> keeps (ds_leases s0) (ds_leases s)"
proof (induction rule: srv_reach.induct)
  case (turn s i s' outs)
  from udhcpd_step_table [OF turn.hyps(2)] have "keeps (ds_leases s) (ds_leases s')"
    using packet.handle_keeps by fastforce
  with turn.IH show ?case by (rule keeps_trans)
qed simp

text \<open>
  C2. In every state that the server reaches, whatever the lease file held and whatever
  packets, timeouts and signals arrived, no IP address and no hardware address stands in
  two entries of the lease table, and the table has the size it was allocated with.
\<close>

theorem server_leases_unique:
  assumes "srv_reach cfg (dhcpd_start cfg t lease_file) s"
  shows "leases_ok (ds_leases s) \<and> length (ds_leases s) = unat (sc_max_leases cfg)"
proof -
  have "leases_ok (setup_leases cfg t lease_file) \<and>
      length (setup_leases cfg t lease_file) = unat (sc_max_leases cfg)"
    using read_leases_ok [OF leases_ok_blank] by (simp add: setup_leases_def)
  with srv_reach_keeps [OF assms] show ?thesis by (simp add: keeps_def dhcpd_start_def)
qed

text \<open>
  C1. With a dynamic pool, a lease stays in the table as it is while only other clients
  talk to the server and it is not expired.
\<close>

theorem lease_survives_other_clients:
  assumes "run_handler handle_packet cfg ls ms = Some ls'" "leases_ok ls" "dynamic_pool cfg"
    and "l \<in> set ls"
    and "\<forall>(e, p) \<in> set ms. length (chaddr p) = 16 \<and> chaddr p \<noteq> l_chaddr l \<and> \<not> lease_expired (now e) l"
  shows "l \<in> set ls'"
  using assms by (rule packet_live.run_live)

section \<open>Replies\<close>

text \<open>The configured options fit behind message type, server identifier and lease time.\<close>

definition options_fit :: "server_config_t \<Rightarrow> bool" where
  "options_fit cfg \<longleftrightarrow> length (enc (config_tlvs cfg)) < 292"

lemma config_option_present:
  assumes "opts_ok (sc_options cfg)" "options_fit cfg" "d \<in> set (sc_options cfg)"
    and "d ! 0 \<notin> {DHCP_MESSAGE_TYPE, DHCP_SERVER_ID, DHCP_LEASE_TIME}"
  shows "map_of (reply_tlvs cfg type t) (d ! 0) = Some (drop 2 d)"
proof -
  let ?l = "filter (\<lambda>d. d ! 0 \<noteq> DHCP_LEASE_TIME) (sc_options cfg)"
  have "reply_tlvs cfg type t = [(DHCP_MESSAGE_TYPE, [type]), (DHCP_SERVER_ID, le32 (sc_server cfg)),
      (DHCP_LEASE_TIME, le32 (htonl t))] @ config_tlvs cfg"
    using assms(2) unfolding reply_tlvs_def options_fit_def by (intro foldl_tlv_add_fits) simp
  moreover have "sorted_wrt (\<lambda>a b. a ! 0 < b ! 0) ?l"
    using assms(1) sorted_wrt_filter by (auto simp: opts_ok_def)
  then have "sorted_wrt (<) (map (\<lambda>d. d ! 0) ?l)" by (simp add: sorted_wrt_map)
  then have "distinct (map fst (config_tlvs cfg))"
    by (simp add: config_tlvs_def comp_def strict_sorted_iff)
  moreover have "(d ! 0, drop 2 d) \<in> set (config_tlvs cfg)"
    using assms(3,4) by (auto simp: config_tlvs_def)
  ultimately show ?thesis using assms(4) by simp
qed

text \<open>
  C7. An acknowledgement always goes out well-formed and carries what it should: the
  transaction and hardware address of the request, the address, the message type, the
  server identifier, the granted time, and every configured option when they fit; the lease
  is entered for that time exactly when the send succeeded.
\<close>

theorem sendACK_reply:
  assumes "msg_wf old" "opts_ok (sc_options cfg)" "ack_lease_time cfg old = Some t"
  shows "\<exists>p ret w. send_packet (net e) cfg p False = Some (ret, w) \<and>
    sendACK e cfg ls old yi = Some (if ret < 0 then (-1, ls, w)
       else (0, fst (add_lease (now e) ls (chaddr old) yi t), w)) \<and>
    msg_wf p \<and> msg_op p = BOOTREPLY \<and> cookie p = htonl DHCP_MAGIC \<and>
    xid p = xid old \<and> chaddr p = chaddr old \<and> yiaddr p = yi \<and>
    option_data p DHCP_MESSAGE_TYPE = Some (Some [DHCPACK]) \<and>
    option_data p DHCP_SERVER_ID = Some (Some (le32 (sc_server cfg))) \<and>
    option_data p DHCP_LEASE_TIME = Some (Some (le32 (htonl t))) \<and>
    (options_fit cfg \<longrightarrow> (\<forall>d \<in> set (sc_options cfg).
       d ! 0 \<notin> {DHCP_MESSAGE_TYPE, DHCP_SERVER_ID, DHCP_LEASE_TIME} \<longrightarrow>
       option_data p (d ! 0) = Some (Some (drop 2 d))))"
proof -
  obtain packet p where packet: "server_init_packet cfg old DHCPACK = Some packet"
    and p: "finish_reply cfg (packet\<lparr>yiaddr := yi\<rparr>) t = Some p" and ok: "reply_ok cfg old DHCPACK yi t p"
    using finish_reply_ok [OF assms(1,2)] by blast
  from ok have hold: "holds p (reply_tlvs cfg DHCPACK t)" and fields: "msg_wf p" "msg_op p = BOOTREPLY"
    "cookie p = htonl DHCP_MAGIC" "xid p = xid old" "chaddr p = chaddr old" "yiaddr p = yi"
    by (simp_all add: reply_ok_def reply_header_def header_op_def dhcp_type_defs)
  obtain ret w where s: "send_packet (net e) cfg p False = Some (ret, w)"
    using send_packet_Some [OF fields(1)] by blast
  have conf: "option_data p (d ! 0) = Some (Some (drop 2 d))"
    if "options_fit cfg" "d \<in> set (sc_options cfg)"
      "d ! 0 \<notin> {DHCP_MESSAGE_TYPE, DHCP_SERVER_ID, DHCP_LEASE_TIME}" for d
  proof -
    have "code_ok (d ! 0)"
      using assms(2) that(2) by (auto simp: opts_ok_def list_all_iff opt_string_ok_def dest!: bspec intro: table_codes)
    from optf.lookup_refines [OF hold this] config_option_present [OF assms(2) that] show ?thesis by simp
  qed
  have "sendACK e cfg ls old yi = Some (if ret < 0 then (-1, ls, w)
       else (0, fst (add_lease (now e) ls (chaddr old) yi t), w))"
    by (simp add: sendACK_def packet assms(3) p s fields)
  with s fields conf optf.lookup_refines [OF hold] show ?thesis
    by (intro exI [of _ p] exI [of _ ret] exI [of _ w] conjI) auto
qed

text \<open>
  The time of an acknowledgement lies between the configured minimum and maximum, and
  an offer never announces less than the minimum.
\<close>

lemma lease_time_bounds:
  assumes "sc_min_lease cfg \<le> sc_lease cfg"
  shows "(ack_lease_time cfg old = Some t \<longrightarrow> sc_min_lease cfg \<le> t \<and> t \<le> sc_lease cfg) \<and>
    (offer_lease_time cfg old t0 = Some t \<longrightarrow> sc_min_lease cfg \<le> t) \<and>
    (offer_lease_time cfg old t0 = Some t \<longrightarrow> t0 \<le> sc_lease cfg \<longrightarrow> t \<le> sc_lease cfg)"
  using assms
  by (auto simp: ack_lease_time_def offer_lease_time_def Let_def not_le not_less
      split: bind_splits option.splits if_splits)

text \<open>
  The address that a client asks for is offered even when it is reserved for another
  client: the check that should exclude static leases looks at the lease of the client
  itself, and \<open>reservedIp\<close> is not consulted.
\<close>

lemma offer_of_reserved_address:
  assumes "reservedIp (sc_static_leases cfg) a" "getIpByMac (sc_static_leases cfg) (chaddr old) = 0"
    and "get_ip_option old DHCP_REQUESTED_IP = Some (Some a)"
    and "ntohl (sc_start cfg) \<le> ntohl a" "ntohl a \<le> ntohl (sc_end cfg)"
    and "find_lease_by_chaddr ls (chaddr old) = None" "find_lease_by_yiaddr ls a = None"
  shows "offer_address e cfg ls old = Some (a, sc_lease cfg, ls)"
proof -
  from assms(3) obtain ptr where "get_option old DHCP_REQUESTED_IP = Some (Some ptr)" "ptr_u32 old ptr = Some a"
    by (auto simp: get_ip_option_def split: bind_splits option.splits)
  with assms(4-7) show ?thesis by (simp add: offer_address_def offer_requested_def)
qed

section \<open>Witnesses\<close>

definition sample_send :: send_env where
  "sample_send = \<lparr>sock_ok = True, setsockopt_ok = True, bind_ok = True, connect_ok = True, sent = 576\<rparr>"

definition sample_env :: srv_env where
  "sample_env = \<lparr>now = 100, arp_result = (\<lambda>a. 1), net = sample_send\<rparr>"

definition sample_idle :: dhcpd_input where
  "sample_idle = \<lparr>in_env = sample_env, in_listen_ok = True, in_lease_file_ok = True, in_select = SelError\<rparr>"

theorem server_leases_unique_witness:
  "\<exists>s. srv_reach sample_pool (dhcpd_start sample_pool 100 None) s \<and> ds_socket s \<and> leases_ok (ds_leases s)"
proof -
  let ?s = "dhcpd_start sample_pool 100 None"
  have "udhcpd_step sample_pool sample_idle ?s = Some (SrvContinue (?s\<lparr>ds_socket := True\<rparr>) [])"
    by (simp add: udhcpd_step_def sample_idle_def sample_pool_def server_config_init_def)
  from srv_reach.turn [OF srv_reach.start this]
  have r: "srv_reach sample_pool ?s (?s\<lparr>ds_socket := True\<rparr>)" .
  from server_leases_unique [OF r] r show ?thesis by (intro exI [of _ "?s\<lparr>ds_socket := True\<rparr>"]) simp
qed

definition sample_other :: leases where
  "sample_other = [\<lparr>l_chaddr = sample_mac 2, l_yiaddr = 0x0200000A, l_expires = 200\<rparr>, blank_lease]"

lemma sample_other_ok: "leases_ok sample_other"
proof -
  have "\<forall>l \<in> set sample_other. length (l_chaddr l) = 16"
    by (simp add: sample_other_def sample_mac_def blank_lease_def blank_chaddr_def)
  moreover have "uniq l_yiaddr 0 sample_other" "uniq l_chaddr blank_chaddr sample_other"
    by (auto simp: uniq_def less_Suc_eq sample_other_def blank_lease_def)
  ultimately show ?thesis by (simp add: leases_ok_def)
qed

lemma sample_absent: "code \<notin> {DHCP_MESSAGE_TYPE, DHCP_END} \<Longrightarrow> get_option sample_msg code = Some None"
  by (rule get_option_absent [OF sample_msg_holds]) (auto simp: dhcp_code_defs)

lemma sample_type: "get_option sample_msg DHCP_MESSAGE_TYPE = Some (Some (OPTION_FIELD, 2))"
  using sample_get_option by (simp add: dhcp_code_defs)

lemma sample_handled:
  "run_handler handle_packet sample_pool sample_other [(sample_env, sample_msg)] = Some sample_other"
proof -
  have "find_lease_by_chaddr sample_other (chaddr sample_msg) = None"
    by code_simp
  moreover have "options sample_msg ! 2 = 3" by (simp add: sample_msg_def)
  moreover have "2 < length (options sample_msg)" by (simp add: sample_msg_def)
  moreover have "sc_static_leases sample_pool = []" by (simp add: sample_pool_def server_config_init_def)
  moreover have "get_option sample_msg DHCP_REQUESTED_IP = Some None" "get_option sample_msg DHCP_SERVER_ID = Some None"
    by (rule sample_absent; simp add: dhcp_code_defs)+
  ultimately show ?thesis
    by (simp add: run_handler_def handle_packet_def handle_request_def sample_type sender_lease_def
        get_ip_option_def rd_def dhcp_type_defs)
qed

theorem lease_survives_other_clients_witness:
  "run_handler handle_packet sample_pool sample_other [(sample_env, sample_msg)] = Some sample_other \<and>
   \<lparr>l_chaddr = sample_mac 2, l_yiaddr = 0x0200000A, l_expires = 200\<rparr> \<in> set sample_other"
proof -
  have "dynamic_pool sample_pool"
  proof -
    have "ntohl (sc_end sample_pool) \<noteq> - 1" by code_simp
    then show ?thesis by (simp add: dynamic_pool_def sample_pool_def server_config_init_def)
  qed
  from lease_survives_other_clients [OF sample_handled sample_other_ok this,
      of "\<lparr>l_chaddr = sample_mac 2, l_yiaddr = 0x0200000A, l_expires = 200\<rparr>"] sample_handled
  show ?thesis
    by (simp add: sample_other_def sample_msg_def sample_mac_def sample_env_def lease_expired_def)
qed

lemma sample_ack_time: "ack_lease_time sample_pool sample_msg = Some 3600"
proof -
  have "get_option sample_msg DHCP_LEASE_TIME = Some None" by (rule sample_absent) (simp add: dhcp_code_defs)
  then show ?thesis by (simp add: ack_lease_time_def requested_lease_def sample_pool_def)
qed

theorem sendACK_reply_witness:
  "\<exists>ret ls' w. sendACK sample_env sample_pool sample_other sample_msg 0x0100000A = Some (ret, ls', w)"
proof -
  have "opts_ok (sc_options sample_pool)" by (simp add: opts_ok_def sample_pool_def server_config_init_def)
  from sendACK_reply [OF sample_msg_wf this sample_ack_time, of sample_env sample_other "0x0100000A"]
  show ?thesis by (auto split: if_splits)
qed

lemma lease_time_bounds_example:
  "ack_lease_time sample_pool sample_msg = Some 3600 \<and> sc_min_lease sample_pool \<le> 3600"
  using lease_time_bounds [of sample_pool sample_msg 3600 0] sample_ack_time
  by (simp add: sample_pool_def)

definition reserved_pool :: server_config_t where
  "reserved_pool = sample_pool\<lparr>sc_static_leases := [\<lparr>st_mac = sample_mac 9, st_ip = 0x0300000A\<rparr>]\<rparr>"

definition asking_msg :: dhcpMessage where
  "asking_msg = sample_msg\<lparr>options := [53, 1, 1, 50, 4, 10, 0, 0, 3, 255] @ replicate 298 0\<rparr>"

lemma offer_of_reserved_address_example:
  "reservedIp (sc_static_leases reserved_pool) 0x0300000A \<and>
   offer_address sample_env reserved_pool sample_other asking_msg = Some (0x0300000A, 3600, sample_other)"
proof -
  have "get_ip_option asking_msg DHCP_REQUESTED_IP = Some (Some 0x0300000A)" by code_simp
  moreover have "reservedIp (sc_static_leases reserved_pool) 0x0300000A"
    "getIpByMac (sc_static_leases reserved_pool) (chaddr asking_msg) = 0"
    "find_lease_by_chaddr sample_other (chaddr asking_msg) = None"
    "find_lease_by_yiaddr sample_other 0x0300000A = None"
    "ntohl (sc_start reserved_pool) \<le> ntohl 0x0300000A" "ntohl 0x0300000A \<le> ntohl (sc_end reserved_pool)"
    "sc_lease reserved_pool = 3600"
    by code_simp+
  ultimately show ?thesis
    using offer_of_reserved_address [of reserved_pool "0x0300000A" asking_msg sample_other sample_env] by simp
qed

end
