(* ===== verification/Udhcp_Script.thy ===== *)
theory Udhcp_Script
  imports Udhcp_Packet C_Lib
begin

text \<open>
  \<open>script.c\<close>: the environment that the client hands to its script. The texts are written
  into buffers whose sizes \<open>upper_length\<close> estimates; a write over the end of a buffer, like
  a read over the end of the packet, is \<open>None\<close>.
\<close>

section \<open>The text of an option\<close>

definition max_option_length :: "nat list" where
  "max_option_length = [0, 17, 34, 1, 5, 5, 7, 8, 12, 13]"

definition upper_length :: "nat \<Rightarrow> nat \<Rightarrow> nat option" where
  "upper_length len opt_index = do {
     m \<leftarrow> rd max_option_length opt_index;
     l \<leftarrow> rd option_lengths opt_index;
     if l = 0 then None else Some (m * (len div l)) }"

abbreviation DOT :: byte where "DOT \<equiv> 46"
abbreviation SLASH :: byte where "SLASH \<equiv> 47"
abbreviation SPACE :: byte where "SPACE \<equiv> 32"

definition sprintip :: "bytes \<Rightarrow> bytes \<Rightarrow> bytes option" where
  "sprintip pre addr = do {
     a \<leftarrow> rd addr 0; b \<leftarrow> rd addr 1; c \<leftarrow> rd addr 2; d \<leftarrow> rd addr 3;
     Some (pre @ dec (unat a) @ [DOT] @ dec (unat b) @ [DOT] @ dec (unat c) @ [DOT] @ dec (unat d)) }"

definition mton :: "u32 \<Rightarrow> nat" where
  "mton mask_addr = 32 - length (takeWhile (\<lambda>i. \<not> bit (ntohl mask_addr) i) [0..<32])"

fun ptr_add :: "opt_ptr \<Rightarrow> nat \<Rightarrow> opt_ptr" where
  "ptr_add (f, off) k = (f, off + k)"

text \<open>
  One round of the \<open>switch\<close>: the text, the pointer behind a first address of a pair, and the
  element length from then on.
\<close>

definition fill_value :: "dhcpMessage \<Rightarrow> nat \<Rightarrow> opt_ptr \<Rightarrow> nat \<Rightarrow> (bytes \<times> opt_ptr \<times> nat) option" where
  "fill_value p ty option optlen =
     (if ty = OPTION_IP_PAIR then do {
        m \<leftarrow> ptr_range p option 4; a \<leftarrow> sprintip [] m;
        m2 \<leftarrow> ptr_range p (ptr_add option 4) 4; b \<leftarrow> sprintip [] m2;
        Some (a @ [SLASH] @ b, ptr_add option 4, 4) }
      else if ty = OPTION_IP then do {
        m \<leftarrow> ptr_range p option 4; a \<leftarrow> sprintip [] m; Some (a, option, optlen) }
      else if ty = OPTION_BOOLEAN then do {
        b \<leftarrow> ptr_rd p option 0; Some (str_bytes (if b \<noteq> 0 then ''yes'' else ''no''), option, optlen) }
      else if ty = OPTION_U8 then do {
        b \<leftarrow> ptr_rd p option 0; Some (dec (unat b), option, optlen) }
      else if ty = OPTION_U16 \<or> ty = OPTION_S16 then do {
        m \<leftarrow> ptr_range p option 2; w \<leftarrow> load16 m 0; Some (dec (unat (ntohs w)), option, optlen) }
      else if ty = OPTION_U32 then do {
        w \<leftarrow> ptr_u32 p option; Some (dec (unat (ntohl w)), option, optlen) }
      else if ty = OPTION_S32 then do {
        w \<leftarrow> ptr_u32 p option; Some (dec_int (sint (ntohl w)), option, optlen) }
      else Some ([], option, optlen))"

text \<open>The loop; with an element length of 0 it would not end.\<close>

function fill_options_loop :: "dhcpMessage \<Rightarrow> nat \<Rightarrow> int \<Rightarrow> opt_ptr \<Rightarrow> nat \<Rightarrow> bytes option" where
  "fill_options_loop p ty len option optlen =
     (if ty = OPTION_STRING then ptr_range p option (nat len)
      else case fill_value p ty option optlen of
        None \<Rightarrow> None
      | Some (txt, option1, optlen1) \<Rightarrow>
          if len - int optlen1 \<le> 0 then Some txt
          else if optlen1 = 0 then None
          else do {
            rest \<leftarrow> fill_options_loop p ty (len - int optlen1) (ptr_add option1 optlen1) optlen1;
            Some (txt @ [SPACE] @ rest) })"
  by pat_completeness auto
termination
  by (relation "measure (\<lambda>(p, ty, len, option, optlen). nat len)") auto

declare fill_options_loop.simps [simp del]

text \<open>\<open>cap\<close> is the size of the buffer at \<open>dest\<close>.\<close>

definition fill_options :: "nat \<Rightarrow> dhcpMessage \<Rightarrow> opt_ptr \<Rightarrow> dhcp_option \<Rightarrow> bytes option" where
  "fill_options cap p option type_p = do {
     l \<leftarrow> ptr_len p option;
     optlen \<leftarrow> rd option_lengths (oflags type_p AND TYPE_MASK);
     t \<leftarrow> fill_options_loop p (oflags type_p AND TYPE_MASK) (int (unat l)) option optlen;
     let text = str_bytes (oname type_p) @ str_bytes ''='' @ t;
     if length text + 1 \<le> cap then Some text else None }"

section \<open>The environment\<close>

record script_env =
  se_interface :: string
  se_path :: "string option"
  se_home :: "string option"
  se_vendor_options :: "string option"

text \<open>The number of variables that the first loop counts.\<close>

definition count_option :: "dhcpMessage \<Rightarrow> nat \<Rightarrow> dhcp_option \<Rightarrow> nat option" where
  "count_option p n opt = do {
     r \<leftarrow> get_option p (ocode opt);
     Some (case r of None \<Rightarrow> n | Some _ \<Rightarrow> if ocode opt = DHCP_SUBNET then n + 2 else n + 1) }"

definition over_value :: "dhcpMessage \<Rightarrow> byte option" where
  "over_value p = do {
     r \<leftarrow> get_option p DHCP_OPTION_OVER;
     case r of None \<Rightarrow> Some 0 | Some ptr \<Rightarrow> ptr_rd p ptr 0 }"

definition has_file :: "dhcpMessage \<Rightarrow> byte \<Rightarrow> bool option" where
  "has_file p over = do { c \<leftarrow> rd (bfile p) 0; Some (over AND 1 = 0 \<and> c \<noteq> 0) }"

definition has_sname :: "dhcpMessage \<Rightarrow> byte \<Rightarrow> bool option" where
  "has_sname p over = do { c \<leftarrow> rd (sname p) 0; Some (over AND 2 = 0 \<and> c \<noteq> 0) }"

definition count_options :: "dhcpMessage \<Rightarrow> nat option" where
  "count_options p = do {
     n \<leftarrow> foldM (count_option p) 0 dhcp_options;
     over \<leftarrow> over_value p;
     f \<leftarrow> has_file p over;
     s \<leftarrow> has_sname p over;
     Some (n + (if siaddr p \<noteq> 0 then 1 else 0) + (if f then 1 else 0) + (if s then 1 else 0)) }"

text \<open>A store into \<open>envp[j++]\<close> of an array of \<open>cap\<close> pointers.\<close>

definition push_env :: "nat \<Rightarrow> bytes list \<Rightarrow> bytes \<Rightarrow> bytes list option" where
  "push_env cap envp s = (if length envp < cap then Some (envp @ [s]) else None)"

definition sprintip_buf :: "nat \<Rightarrow> bytes \<Rightarrow> bytes \<Rightarrow> bytes option" where
  "sprintip_buf cap pre addr = do {
     t \<leftarrow> sprintip pre addr; if length t + 1 \<le> cap then Some t else None }"

text \<open>The second loop; what is written to the file of the vendor options comes with it.\<close>

definition env_option ::
    "script_env \<Rightarrow> nat \<Rightarrow> dhcpMessage \<Rightarrow> bytes list \<times> bytes list \<Rightarrow> dhcp_option \<Rightarrow>
     (bytes list \<times> bytes list) option" where
  "env_option e cap p st opt = do {
     r \<leftarrow> get_option p (ocode opt);
     case r of
       None \<Rightarrow> Some st
     | Some temp \<Rightarrow> do {
         l \<leftarrow> ptr_len p temp;
         if ocode opt = DHCP_VENDOROPTS then
           (case se_vendor_options e of
              None \<Rightarrow> Some st
            | Some f \<Rightarrow> do {
                d \<leftarrow> ptr_range p temp (unat l);
                envp \<leftarrow> push_env cap (fst st) (str_bytes (''vendoropts='' @ f));
                Some (envp, snd st @ [d]) })
         else do {
           u \<leftarrow> upper_length (unat l) (oflags opt AND TYPE_MASK);
           t \<leftarrow> fill_options (u + length (oname opt) + 2) p temp opt;
           envp \<leftarrow> push_env cap (fst st) t;
           if ocode opt = DHCP_SUBNET then do {
             subnet \<leftarrow> ptr_u32 p temp;
             envp2 \<leftarrow> push_env cap envp (str_bytes ''mask='' @ dec (mton subnet));
             Some (envp2, snd st) }
           else Some (envp, snd st) } } }"

definition env_head :: "script_env \<Rightarrow> bytes list" where
  "env_head e = map str_bytes
     [''interface='' @ se_interface e,
      ''PATH='' @ (case se_path e of Some s \<Rightarrow> s | None \<Rightarrow> ''/bin:/usr/bin:/sbin:/usr/sbin''),
      ''HOME='' @ (case se_home e of Some s \<Rightarrow> s | None \<Rightarrow> ''/'')]"

text \<open>
  \<open>fill_envp\<close> on a packet: the variables, the writes to the vendor file, and the packet with
  the last bytes of \<open>file\<close> and \<open>sname\<close> cleared.
\<close>

definition env_file :: "nat \<Rightarrow> bool \<Rightarrow> bytes list \<times> dhcpMessage \<Rightarrow> (bytes list \<times> dhcpMessage) option" where
  "env_file cap f st =
     (if f then do {
        b \<leftarrow> wr (bfile (snd st)) (128 - 1) 0;
        envp \<leftarrow> push_env cap (fst st) (str_bytes ''boot_file='' @ c_str b);
        Some (envp, (snd st)\<lparr>bfile := b\<rparr>) }
      else Some st)"

definition env_sname :: "nat \<Rightarrow> bool \<Rightarrow> bytes list \<times> dhcpMessage \<Rightarrow> (bytes list \<times> dhcpMessage) option" where
  "env_sname cap f st =
     (if f then do {
        b \<leftarrow> wr (sname (snd st)) (64 - 1) 0;
        envp \<leftarrow> push_env cap (fst st) (str_bytes ''sname='' @ c_str b);
        Some (envp, (snd st)\<lparr>sname := b\<rparr>) }
      else Some st)"

definition fill_envp ::
    "script_env \<Rightarrow> dhcpMessage \<Rightarrow> (bytes list \<times> bytes list \<times> dhcpMessage) option" where
  "fill_envp e p = do {
     n \<leftarrow> count_options p;
     let cap = n + 5;
     i \<leftarrow> sprintip_buf 19 (str_bytes ''ip='') (le32 (yiaddr p));
     envp0 \<leftarrow> push_env cap (env_head e) i;
     (envp1, files) \<leftarrow> foldM (env_option e cap p) (envp0, []) dhcp_options;
     envp2 \<leftarrow> (if siaddr p \<noteq> 0 then do {
         s \<leftarrow> sprintip_buf 23 (str_bytes ''siaddr='') (le32 (siaddr p)); push_env cap envp1 s }
       else Some envp1);
     over \<leftarrow> over_value p;
     f \<leftarrow> has_file p over;
     s \<leftarrow> has_sname p over;
     (envp3, p3) \<leftarrow> env_file cap f (envp2, p);
     (envp4, p4) \<leftarrow> env_sname cap s (envp3, p3);
     Some (envp4, files, p4) }"

text \<open>
  \<open>udhcp_run_script\<close>: without a script nothing happens; the call of the script is the event,
  with its argument, its environment and what was written to the vendor file.
\<close>

datatype script_event =
  ScriptRun (script_name: string) (script_environment: "bytes list") (script_files: "bytes list")

definition run_script ::
    "script_env \<Rightarrow> string option \<Rightarrow> dhcpMessage option \<Rightarrow> string \<Rightarrow>
     (script_event list \<times> dhcpMessage option) option" where
  "run_script e script packet name =
     (case script of
        None \<Rightarrow> Some ([], packet)
      | Some _ \<Rightarrow>
          (case packet of
             None \<Rightarrow> Some ([ScriptRun name (env_head e) []], None)
           | Some p \<Rightarrow> do {
               (envp, files, p') \<leftarrow> fill_envp e p;
               Some ([ScriptRun name envp files], Some p') }))"

section \<open>Lemmas\<close>

subsection \<open>Lengths of the texts\<close>

lemma length_dec_byte: "length (dec (unat (b :: byte))) \<le> 3"
proof -
  have "unat b < 1000" using unat_byte_bound [of b] by linarith
  then show ?thesis by (intro length_dec) simp_all
qed

lemma length_dec_u16: "length (dec (unat (w :: u16))) \<le> 5"
proof -
  have "unat w < 2 ^ LENGTH(16)" by (rule unsigned_less)
  then show ?thesis by (intro length_dec) simp_all
qed

lemma length_dec_u32: "length (dec (unat (w :: u32))) \<le> 10"
proof -
  have "unat w < 2 ^ LENGTH(32)" by (rule unsigned_less)
  then show ?thesis by (intro length_dec) simp_all
qed

lemma length_dec_s32: "length (dec_int (sint (w :: u32))) \<le> 11"
proof -
  have "sint w < 2 ^ (LENGTH(32) - 1)" "- (2 ^ (LENGTH(32) - 1)) \<le> sint w"
    by (rule sint_lt, rule sint_ge)
  then show ?thesis using length_dec_int [of 10 "sint w"] by simp
qed

lemma sprintip_Some:
  assumes "length m = 4"
  shows "\<exists>t. sprintip pre m = Some t \<and> length t \<le> length pre + 15"
proof -
  have "length (dec (unat (m ! i))) \<le> 3" for i by (rule length_dec_byte)
  from this [of 0] this [of 1] this [of 2] this [of 3] assms show ?thesis
    by (auto simp: sprintip_def rd_def)
qed

text \<open>The types of the options that the table holds, other than strings.\<close>

definition scalar_type :: "nat \<Rightarrow> bool" where
  "scalar_type ty \<longleftrightarrow> ty \<in> {OPTION_IP, OPTION_BOOLEAN, OPTION_U8, OPTION_U16, OPTION_S16, OPTION_U32, OPTION_S32}"

lemma fill_value_scalar:
  assumes "scalar_type ty" "off + option_lengths ! ty \<le> length (field_buf p f)"
  shows "\<exists>t. fill_value p ty (f, off) k = Some (t, (f, off), k) \<and> length t + 2 \<le> max_option_length ! ty"
proof -
  let ?b = "field_buf p f"
  consider "ty = OPTION_IP" | "ty = OPTION_BOOLEAN" | "ty = OPTION_U8" | "ty = OPTION_U16 \<or> ty = OPTION_S16"
    | "ty = OPTION_U32" | "ty = OPTION_S32" using assms(1) by (auto simp: scalar_type_def)
  then show ?thesis
  proof cases
    case 1
    with assms(2) have "off + 4 \<le> length ?b" by (simp add: option_type_defs option_lengths_def)
    then have "rd_range ?b off 4 = Some (take 4 (drop off ?b))" "length (take 4 (drop off ?b)) = 4"
      by (simp_all add: rd_range_def)
    with 1 sprintip_Some [of "take 4 (drop off ?b)" "[]"] show ?thesis
      by (auto simp: fill_value_def option_type_defs max_option_length_def)
  next
    case 2
    with assms(2) show ?thesis
      by (auto simp: fill_value_def option_type_defs max_option_length_def option_lengths_def rd_def)
  next
    case 3
    with assms(2) length_dec_byte [of "?b ! off"] show ?thesis
      by (simp add: fill_value_def option_type_defs max_option_length_def option_lengths_def rd_def)
  next
    case 4
    with assms(2) have "off + 2 \<le> length ?b" by (auto simp: option_type_defs option_lengths_def)
    then obtain m w where "rd_range ?b off 2 = Some m" "load16 m 0 = Some w"
      by (simp add: rd_range_def load16_def rd_def)
    with 4 length_dec_u16 [of "ntohs w"] show ?thesis
      by (auto simp: fill_value_def option_type_defs max_option_length_def)
  next
    case 5
    with assms(2) obtain w where "load32 ?b off = Some w"
      using load32_in_bounds [of off ?b] by (auto simp: option_type_defs option_lengths_def)
    with 5 length_dec_u32 show ?thesis
      by (simp add: fill_value_def option_type_defs max_option_length_def)
  next
    case 6
    with assms(2) obtain w where "load32 ?b off = Some w"
      using load32_in_bounds [of off ?b] by (auto simp: option_type_defs option_lengths_def)
    with 6 length_dec_s32 show ?thesis
      by (simp add: fill_value_def option_type_defs max_option_length_def)
  qed
qed

lemma fill_options_loop_scalar:
  assumes "scalar_type ty" "k = option_lengths ! ty" "0 < n" "off + n * k \<le> length (field_buf p f)"
  shows "\<exists>t. fill_options_loop p ty (int (n * k)) (f, off) k = Some t \<and>
    length t + 1 \<le> n * (max_option_length ! ty - 1)"
  using assms(3,4)
proof (induction n arbitrary: off)
  case (Suc n)
  have k: "0 < k" "ty \<noteq> OPTION_STRING" "2 \<le> max_option_length ! ty"
    using assms(1,2) by (auto simp: scalar_type_def option_type_defs option_lengths_def max_option_length_def)
  from Suc.prems have "off + option_lengths ! ty \<le> length (field_buf p f)" by (simp add: assms(2))
  from fill_value_scalar [OF assms(1) this, of k] obtain t where
    t: "fill_value p ty (f, off) k = Some (t, (f, off), k)" "length t + 2 \<le> max_option_length ! ty" by blast
  show ?case
  proof (cases "n = 0")
    case True
    with t k show ?thesis by (subst fill_options_loop.simps) auto
  next
    case False
    then have "0 < n" by simp
    from Suc.IH [OF this, of "off + k"] Suc.prems(2) obtain r where
      r: "fill_options_loop p ty (int (n * k)) (f, off + k) k = Some r"
        "length r + 1 \<le> n * (max_option_length ! ty - 1)" by auto
    have "int (Suc n * k) - int k = int (n * k)" by simp
    with t k r False show ?thesis
      by (subst fill_options_loop.simps) auto
  qed
qed simp

subsection \<open>A well-formed packet\<close>

lemma table_types:
  assumes "opt \<in> set dhcp_options"
  shows "(oflags opt AND TYPE_MASK) = OPTION_STRING \<or> scalar_type (oflags opt AND TYPE_MASK)"
    and "rd option_lengths (oflags opt AND TYPE_MASK) = Some (option_lengths ! (oflags opt AND TYPE_MASK))"
    and "0 < option_lengths ! (oflags opt AND TYPE_MASK)"
    and "rd max_option_length (oflags opt AND TYPE_MASK) = Some (max_option_length ! (oflags opt AND TYPE_MASK))"
    and "ocode opt \<noteq> DHCP_END"
  using assms
  by (auto simp: dhcp_options_def scalar_type_def option_type_defs option_lengths_def max_option_length_def
      rd_def dhcp_code_defs)

text \<open>An option whose length is a multiple of the length of its elements.\<close>

definition sized :: "dhcp_option \<Rightarrow> nat \<Rightarrow> bool" where
  "sized opt n \<longleftrightarrow> (oflags opt AND TYPE_MASK) = OPTION_STRING \<or>
     (0 < n \<and> option_lengths ! (oflags opt AND TYPE_MASK) dvd n)"

lemma fill_options_fits:
  assumes "opt \<in> set dhcp_options" "ptr_len p (f, off) = Some l" "sized opt (unat l)"
    and "off + unat l \<le> length (field_buf p f)"
    and "upper_length (unat l) (oflags opt AND TYPE_MASK) = Some u"
  shows "\<exists>t. fill_options (u + length (oname opt) + 2) p (f, off) opt = Some t"
proof -
  let ?ty = "oflags opt AND TYPE_MASK"
  let ?k = "option_lengths ! ?ty"
  note tab = table_types [OF assms(1)]
  have u: "u = max_option_length ! ?ty * (unat l div ?k)"
    using assms(5) tab by (auto simp: upper_length_def)
  have "\<exists>t. fill_options_loop p ?ty (int (unat l)) (f, off) ?k = Some t \<and> length t \<le> u"
  proof (cases "?ty = OPTION_STRING")
    case True
    then show ?thesis using assms(4)
      by (subst fill_options_loop.simps)
         (simp add: u rd_range_def max_option_length_def option_lengths_def option_type_defs)
  next
    case False
    with tab(1) have s: "scalar_type ?ty" by simp
    define n where "n = unat l div ?k"
    from False assms(3) have n: "0 < n" "unat l = n * ?k"
      by (auto simp: sized_def n_def dvd_div_eq_0_iff)
    from fill_options_loop_scalar [OF s refl n(1), of off p f] assms(4) n(2) obtain t where
      t: "fill_options_loop p ?ty (int (unat l)) (f, off) ?k = Some t"
        "length t + 1 \<le> n * (max_option_length ! ?ty - 1)" by auto
    have "n * (max_option_length ! ?ty - 1) \<le> u" by (simp add: u n_def mult.commute)
    with t show ?thesis by auto
  qed
  with assms(2) tab show ?thesis by (auto simp: fill_options_def Let_def)
qed

text \<open>What the packet has to satisfy: every option of the table that is present is \<open>sized\<close>.\<close>

definition option_sized :: "dhcpMessage \<Rightarrow> dhcp_option \<Rightarrow> bool" where
  "option_sized p opt \<longleftrightarrow>
     (case get_option p (ocode opt) of
        None \<Rightarrow> False
      | Some None \<Rightarrow> True
      | Some (Some ptr) \<Rightarrow>
          (case ptr_len p ptr of
             None \<Rightarrow> False
           | Some l \<Rightarrow> ocode opt = DHCP_VENDOROPTS \<or> sized opt (unat l)))"

definition options_sized :: "dhcpMessage \<Rightarrow> bool" where
  "options_sized p \<longleftrightarrow> list_all (option_sized p) dhcp_options \<and> over_value p \<noteq> None"

text \<open>The number of variables of an option.\<close>

definition num_vars :: "dhcpMessage \<Rightarrow> dhcp_option \<Rightarrow> nat" where
  "num_vars p opt = (case get_option p (ocode opt) of
     Some (Some ptr) \<Rightarrow> if ocode opt = DHCP_SUBNET then 2 else 1 | _ \<Rightarrow> 0)"

lemma count_option_sized: "option_sized p opt \<Longrightarrow> count_option p n opt = Some (n + num_vars p opt)"
  by (auto simp: option_sized_def count_option_def num_vars_def split: option.splits)

lemma count_loop:
  "list_all (option_sized p) xs \<Longrightarrow> foldM (count_option p) n xs = Some (n + sum_list (map (num_vars p) xs))"
  by (induction xs arbitrary: n) (simp_all add: count_option_sized)

lemma subnet_type: "opt \<in> set dhcp_options \<Longrightarrow> ocode opt = DHCP_SUBNET \<Longrightarrow> (oflags opt AND TYPE_MASK) = OPTION_IP"
  by (auto simp: dhcp_options_def dhcp_code_defs option_type_defs)

lemma field_len_wf: "msg_wf p \<Longrightarrow> field_len f = length (field_buf p f)"
  by (cases f) (simp_all add: msg_wf_def)

lemma env_option_sized:
  assumes wf: "msg_wf p" and opt: "opt \<in> set dhcp_options" and sz: "option_sized p opt"
    and cap: "length envp + num_vars p opt \<le> cap"
  shows "\<exists>envp' files'. env_option e cap p (envp, files) opt = Some (envp', files') \<and>
    length envp' \<le> length envp + num_vars p opt"
proof -
  from sz consider "get_option p (ocode opt) = Some None"
    | ptr l where "get_option p (ocode opt) = Some (Some ptr)" "ptr_len p ptr = Some l"
        "ocode opt = DHCP_VENDOROPTS \<or> sized opt (unat l)"
    by (auto simp: option_sized_def split: option.splits)
  then show ?thesis
  proof cases
    case 1
    then show ?thesis by (simp add: env_option_def)
  next
    case (2 ptr l)
    obtain f off where ptr: "ptr = (f, off)" by (cases ptr)
    have "opt_ptr_ok p (ocode opt) ptr"
      using 2(1) get_option_loop_bounds by (simp add: get_option_def)
    with 2(2) ptr have room: "off + unat l \<le> length (field_buf p f)"
      by (auto simp: opt_ptr_ok_def field_len_wf [OF wf])
    show ?thesis
    proof (cases "ocode opt = DHCP_VENDOROPTS")
      case True
      then have "num_vars p opt = 1" using 2(1) by (simp add: num_vars_def dhcp_code_defs)
      with True 2(1,2) room cap ptr show ?thesis
        by (auto simp: env_option_def push_env_def rd_range_def split: option.splits)
    next
      case False
      with 2(3) have sized: "sized opt (unat l)" by simp
      let ?ty = "oflags opt AND TYPE_MASK"
      obtain u where u: "upper_length (unat l) ?ty = Some u"
        using table_types [OF opt] by (auto simp: upper_length_def)
      from fill_options_fits [OF opt _ sized room u] 2(2) ptr obtain t where
        t: "fill_options (u + length (oname opt) + 2) p ptr opt = Some t" by auto
      have sub: "\<exists>w. ptr_u32 p ptr = Some w" if "ocode opt = DHCP_SUBNET"
      proof -
        from subnet_type [OF opt that] sized have "0 < unat l" "4 dvd unat l"
          by (auto simp: sized_def option_type_defs option_lengths_def)
        then have "4 \<le> unat l" by (rule dvd_imp_le [rotated])
        with room load32_in_bounds [of off "field_buf p f"] show ?thesis by (simp add: ptr)
      qed
      have "num_vars p opt = (if ocode opt = DHCP_SUBNET then 2 else 1)"
        using 2(1) by (simp add: num_vars_def)
      with False 2(1,2) u t cap sub show ?thesis
        by (cases "ocode opt = DHCP_SUBNET") (auto simp: env_option_def push_env_def)
    qed
  qed
qed

lemma env_loop:
  assumes "msg_wf p" "set xs \<subseteq> set dhcp_options" "list_all (option_sized p) xs"
    and "length envp + sum_list (map (num_vars p) xs) \<le> cap"
  shows "\<exists>envp' files'. foldM (env_option e cap p) (envp, files) xs = Some (envp', files') \<and>
    length envp' \<le> length envp + sum_list (map (num_vars p) xs)"
  using assms(2-4)
proof (induction xs arbitrary: envp files)
  case (Cons opt xs)
  then obtain envp1 files1 where s: "env_option e cap p (envp, files) opt = Some (envp1, files1)"
    "length envp1 \<le> length envp + num_vars p opt"
    using env_option_sized [OF assms(1), of opt envp cap e files] by auto
  with Cons.IH [of envp1 files1] Cons.prems show ?case by auto
qed simp

section \<open>Properties\<close>

lemma fill_envp_Some:
  assumes "msg_wf p" "options_sized p"
  shows "\<exists>envp files p' n. fill_envp e p = Some (envp, files, p') \<and> count_options p = Some n \<and>
    length envp < n + 5"
proof -
  let ?m = "sum_list (map (num_vars p) dhcp_options)"
  from assms(2) have sz: "list_all (option_sized p) dhcp_options" by (simp add: options_sized_def)
  from assms(2) obtain over where over: "over_value p = Some over" by (auto simp: options_sized_def)
  from assms(1) obtain f s where fs: "has_file p over = Some f" "has_sname p over = Some s"
    by (simp add: has_file_def has_sname_def rd_in_bounds msg_wf_def)
  define n where "n = ?m + (if siaddr p \<noteq> 0 then 1 else 0) + (if f then 1 else 0) + (if s then 1 else 0)"
  have n: "count_options p = Some n"
    using over fs count_loop [OF sz, of 0] by (simp add: count_options_def n_def)
  have ip: "\<exists>t. sprintip_buf cap pre (le32 w) = Some t" if "length pre + 16 \<le> cap" for cap pre w
    using sprintip_Some [of "le32 w" pre] that by (auto simp: sprintip_buf_def)
  obtain i where i: "sprintip_buf 19 (str_bytes ''ip='') (le32 (yiaddr p)) = Some i" using ip by force
  obtain si where si: "sprintip_buf 23 (str_bytes ''siaddr='') (le32 (siaddr p)) = Some si" using ip by force
  have "length (env_head e) = 3" by (simp add: env_head_def)
  then obtain envp0 where e0: "push_env (n + 5) (env_head e) i = Some envp0" "length envp0 = 4"
    by (simp add: push_env_def)
  from env_loop [OF assms(1) _ sz, of envp0 "n + 5" e "[]"] e0(2) obtain envp1 files where
    e1: "foldM (env_option e (n + 5) p) (envp0, []) dhcp_options = Some (envp1, files)" "length envp1 \<le> 4 + ?m"
    by (auto simp: n_def)
  have room: "length envp1 + (if siaddr p \<noteq> 0 then 1 else 0) + (if f then 1 else 0) + (if s then 1 else 0) < n + 5"
    using e1(2) by (simp add: n_def)
  have arr: "wr (bfile p) 127 0 = Some ((bfile p)[127 := 0])" "wr (sname p) 63 0 = Some ((sname p)[63 := 0])"
    using assms(1) by (simp_all add: wr_def msg_wf_def)
  show ?thesis
    using n i e0 e1 over fs si room arr
    by (cases "siaddr p = 0"; cases f; cases s)
       (simp_all add: fill_envp_def Let_def push_env_def env_file_def env_sname_def)
qed

text \<open>A message with a known option list is sized when each of its options is.\<close>

lemma options_sized_holds:
  assumes "holds p ts" and sz: "\<And>opt d. opt \<in> set dhcp_options \<Longrightarrow> map_of ts (ocode opt) = Some d \<Longrightarrow>
      ocode opt = DHCP_VENDOROPTS \<or> sized opt (length d)"
  shows "options_sized p"
proof -
  have "option_sized p opt" if opt: "opt \<in> set dhcp_options" for opt
  proof (cases "map_of ts (ocode opt)")
    case None
    from get_option_absent [OF assms(1) table_types(5) [OF opt] None] show ?thesis by (simp add: option_sized_def)
  next
    case (Some d)
    have "code_ok (ocode opt)" using opt by (auto simp: dhcp_options_def code_ok_def dhcp_code_defs)
    from get_option_present [OF assms(1) this Some] obtain pre post where
      m: "options p = pre @ ocode opt # of_nat (length d) # d @ post"
        "get_option p (ocode opt) = Some (Some (OPTION_FIELD, length pre + 2))" .
    have "unat (of_nat (length d) :: byte) = length d"
      using holds_length [OF assms(1) Some] by (simp add: unat_of_nat_byte)
    with sz [OF opt Some] m show ?thesis by (simp add: option_sized_def rd_def nth_append)
  qed
  moreover have "map_of ts DHCP_OPTION_OVER = None"
    using assms(1) by (auto simp: holds_def list_all_iff tlv_ok_def code_ok_def map_of_eq_None_iff)
  then have "over_value p = Some 0"
    using get_option_absent [OF assms(1), of DHCP_OPTION_OVER] by (simp add: over_value_def dhcp_code_defs)
  ultimately show ?thesis by (simp add: options_sized_def list_all_iff)
qed


text \<open>
  \<open>mton\<close> counts the prefix length of a netmask: for the mask of a prefix of \<open>n\<close> bits, in
  network order, it returns \<open>n\<close>.
\<close>

lemma mton_prefix:
  assumes "n \<le> 32"
  shows "mton (htonl (push_bit (32 - n) (mask n))) = n"
proof -
  have b: "bit (push_bit (32 - n) (mask n) :: u32) i \<longleftrightarrow> 32 - n \<le> i" if "i < 32" for i
    using that assms by (auto simp: bit_simps)
  have "[0..<32] = [0..<32 - n] @ [32 - n..<32]"
    using upt_add_eq_append [of 0 "32 - n" n] assms by simp
  moreover have "takeWhile (\<lambda>i. \<not> bit (push_bit (32 - n) (mask n) :: u32) i) [0..<32 - n] = [0..<32 - n]"
    using b by (auto simp: takeWhile_eq_all_conv)
  moreover have "takeWhile (\<lambda>i. \<not> bit (push_bit (32 - n) (mask n) :: u32) i) [32 - n..<32] = []"
    using b [of "32 - n"] by (cases "n = 0") (auto simp: takeWhile_eq_Nil_iff upt_rec [of "32 - n"])
  ultimately have "takeWhile (\<lambda>i. \<not> bit (push_bit (32 - n) (mask n) :: u32) i) [0..<32] = [0..<32 - n]"
    by (simp add: takeWhile_append)
  with assms show ?thesis by (simp add: mton_def)
qed

lemma dec_nonempty: "dec n \<noteq> []"
  by (simp add: dec.simps [of n])

lemma sprintip_length: "sprintip pre m = Some t \<Longrightarrow> length pre + 7 \<le> length t"
proof -
  have "1 \<le> length (dec n)" for n using dec_nonempty [of n] by (simp add: Suc_le_eq)
  note this [of "unat (m ! 0)"] this [of "unat (m ! 1)"] this [of "unat (m ! 2)"] this [of "unat (m ! 3)"]
  then show "sprintip pre m = Some t \<Longrightarrow> length pre + 7 \<le> length t"
    by (auto simp: sprintip_def rd_def numeral_eq_Suc split: bind_splits if_splits)
qed

text \<open>
  An address option of fewer than four bytes, which \<open>get_option\<close> accepts, overruns the
  buffer of its variable: \<open>upper_length\<close> rounds the number of addresses down to none, and
  \<open>fill_options\<close> writes one.
\<close>

lemma fill_options_short_address_overflow:
  assumes "(oflags opt AND TYPE_MASK) = OPTION_IP" "ptr_len p ptr = Some l" "unat l < 4"
    and "upper_length (unat l) OPTION_IP = Some u"
  shows "fill_options (u + length (oname opt) + 2) p ptr opt = None"
proof -
  have u: "u = 0" and ol: "rd option_lengths OPTION_IP = Some 4"
    using assms(3,4) by (auto simp: upper_length_def option_type_defs option_lengths_def
        max_option_length_def rd_def)
  have "7 \<le> length t" if "fill_options_loop p OPTION_IP (int (unat l)) ptr 4 = Some t" for t
  proof -
    from that obtain m a where "sprintip [] m = Some a" "length a \<le> length t"
      by (subst (asm) fill_options_loop.simps)
         (auto simp: fill_value_def option_type_defs split: option.splits bind_splits if_splits)
    with sprintip_length [of "[]" m a] show ?thesis by simp
  qed
  with assms(1,2) ol u show ?thesis by (fastforce simp: fill_options_def Let_def split: bind_splits)
qed

section \<open>Witnesses\<close>

definition sample_script :: script_env where
  "sample_script = \<lparr>se_interface = ''eth0'', se_path = None, se_home = None, se_vendor_options = None\<rparr>"

lemma sample_msg_sized: "options_sized sample_msg"
  by code_simp


lemma mton_prefix_example: "mton (htonl (push_bit 8 (mask 24))) = 24"
  using mton_prefix [of 24] by simp

definition short_router :: dhcpMessage where
  "short_router = sample_msg\<lparr>options := [3, 1, 10, 255] @ replicate 304 0\<rparr>"

lemma fill_options_short_address_overflow_example:
  "get_option short_router 3 = Some (Some (OPTION_FIELD, 2)) \<and>
   fill_options (0 + length ''router'' + 2) short_router (OPTION_FIELD, 2)
     \<lparr>oname = ''router'', oflags = OPTION_IP OR OPTION_LIST OR OPTION_REQ, ocode = 3\<rparr> = None"
proof -
  have g: "get_option short_router 3 = Some (Some (OPTION_FIELD, 2))"
    "ptr_len short_router (OPTION_FIELD, 2) = Some 1" by code_simp+
  have "upper_length (unat (1 :: byte)) OPTION_IP = Some 0" by code_simp
  moreover have "(OPTION_IP OR OPTION_LIST OR OPTION_REQ) AND TYPE_MASK = OPTION_IP" by code_simp
  ultimately show ?thesis
    using fill_options_short_address_overflow [of "\<lparr>oname = ''router'',
        oflags = OPTION_IP OR OPTION_LIST OR OPTION_REQ, ocode = 3\<rparr>" short_router "(OPTION_FIELD, 2)" 1 0] g
    by simp
qed

end
