(* ===== verification/Udhcp_Client.thy ===== *)
theory Udhcp_Client
  imports Udhcp_Script
begin

text \<open>
  \<open>clientpacket.c\<close>, \<open>dhcpc.c\<close> and \<open>arpping.c\<close>: the messages of the client, its option
  handling and the state machine of its main loop. One turn of the loop takes what the
  system delivers (the clock, the sockets, \<open>select\<close>, a packet, a signal, random numbers) as
  its input and returns the new state with the packets sent and the scripts run.
\<close>

section \<open>Messages\<close>

record client_config_t =
  foreground :: bool
  quit_after_lease :: bool
  abort_if_no_lease :: bool
  background_if_no_lease :: bool
  cc_interface :: string
  cc_script :: "string option"
  cc_vendor_options :: "string option"
  clientid :: "bytes option"
  vendorclass :: "bytes option"
  hostname :: "bytes option"
  fqdn :: "bytes option"
  servername :: bytes
  cc_ifindex :: int
  retries :: int
  cc_timeout :: int
  cc_arp :: bytes

text \<open>\<open>add_option_string\<close> for a pointer that may be null.\<close>

definition put_opt :: "dhcpMessage \<Rightarrow> bytes option \<Rightarrow> dhcpMessage option" where
  "put_opt p s = (case s of None \<Rightarrow> Some p | Some d \<Rightarrow> put_string p d)"

definition client_init_packet :: "client_config_t \<Rightarrow> byte \<Rightarrow> dhcpMessage option" where
  "client_init_packet cfg type = do {
     p \<leftarrow> udhcp_init_header type;
     mac \<leftarrow> rd_range (cc_arp cfg) 0 6;
     ch \<leftarrow> wr_range (chaddr p) 0 mac;
     p1 \<leftarrow> put_opt (p\<lparr>chaddr := ch\<rparr>) (clientid cfg);
     p2 \<leftarrow> put_opt p1 (hostname cfg);
     p3 \<leftarrow> put_opt p2 (fqdn cfg);
     case vendorclass cfg of None \<Rightarrow> None | Some v \<Rightarrow> put_string p3 v }"

text \<open>The codes that \<open>add_requests\<close> writes without a check of the bounds.\<close>

definition req_codes :: bytes where
  "req_codes = map ocode (filter (\<lambda>o'. oflags o' AND OPTION_REQ \<noteq> 0) dhcp_options)"

definition add_requests :: "dhcpMessage \<Rightarrow> dhcpMessage option" where
  "add_requests packet = do {
     end \<leftarrow> end_option (options packet);
     o1 \<leftarrow> wr (options packet) (end + 0) DHCP_PARAM_REQ;
     o2 \<leftarrow> wr_range o1 (end + 2) req_codes;
     o3 \<leftarrow> wr o2 (end + 1) (of_nat (length req_codes));
     o4 \<leftarrow> wr o3 (end + 2 + length req_codes) DHCP_END;
     Some (packet\<lparr>options := o4\<rparr>) }"

definition send_broadcast :: "send_env \<Rightarrow> client_config_t \<Rightarrow> dhcpMessage \<Rightarrow> (int \<times> wire option) option" where
  "send_broadcast e cfg p =
     udhcp_raw_packet e p INADDR_ANY CLIENT_PORT INADDR_BROADCAST SERVER_PORT MAC_BCAST_ADDR (cc_ifindex cfg)"

definition discover_packet :: "client_config_t \<Rightarrow> u32 \<Rightarrow> u32 \<Rightarrow> dhcpMessage option" where
  "discover_packet cfg xid0 requested = do {
     p \<leftarrow> client_init_packet cfg DHCPDISCOVER;
     let p1 = p\<lparr>xid := xid0\<rparr>;
     p2 \<leftarrow> (if requested \<noteq> 0 then put_simple p1 DHCP_REQUESTED_IP requested else Some p1);
     add_requests p2 }"

definition send_discover :: "send_env \<Rightarrow> client_config_t \<Rightarrow> u32 \<Rightarrow> u32 \<Rightarrow> (int \<times> wire option) option" where
  "send_discover e cfg xid0 requested = do {
     p \<leftarrow> discover_packet cfg xid0 requested; send_broadcast e cfg p }"

definition selecting_packet :: "client_config_t \<Rightarrow> u32 \<Rightarrow> u32 \<Rightarrow> u32 \<Rightarrow> dhcpMessage option" where
  "selecting_packet cfg xid0 server requested = do {
     p \<leftarrow> client_init_packet cfg DHCPREQUEST;
     p1 \<leftarrow> put_simple (p\<lparr>xid := xid0\<rparr>) DHCP_REQUESTED_IP requested;
     p2 \<leftarrow> put_simple p1 DHCP_SERVER_ID server;
     add_requests p2 }"

definition send_selecting ::
    "send_env \<Rightarrow> client_config_t \<Rightarrow> u32 \<Rightarrow> u32 \<Rightarrow> u32 \<Rightarrow> (int \<times> wire option) option" where
  "send_selecting e cfg xid0 server requested = do {
     p \<leftarrow> selecting_packet cfg xid0 server requested; send_broadcast e cfg p }"

definition renew_packet :: "client_config_t \<Rightarrow> u32 \<Rightarrow> u32 \<Rightarrow> dhcpMessage option" where
  "renew_packet cfg xid0 ci = do {
     p \<leftarrow> client_init_packet cfg DHCPREQUEST;
     add_requests (p\<lparr>xid := xid0, ciaddr := ci\<rparr>) }"

definition send_renew ::
    "send_env \<Rightarrow> client_config_t \<Rightarrow> u32 \<Rightarrow> u32 \<Rightarrow> u32 \<Rightarrow> (int \<times> wire option) option" where
  "send_renew e cfg xid0 server ci = do {
     p \<leftarrow> renew_packet cfg xid0 ci;
     if server \<noteq> 0 then Some (udhcp_kernel_packet e p ci CLIENT_PORT server SERVER_PORT)
     else send_broadcast e cfg p }"

definition release_packet :: "client_config_t \<Rightarrow> u32 \<Rightarrow> u32 \<Rightarrow> u32 \<Rightarrow> dhcpMessage option" where
  "release_packet cfg rnd server ci = do {
     p \<leftarrow> client_init_packet cfg DHCPRELEASE;
     let p1 = p\<lparr>xid := rnd, ciaddr := ci\<rparr>;
     p2 \<leftarrow> put_simple p1 DHCP_REQUESTED_IP ci;
     put_simple p2 DHCP_SERVER_ID server }"

definition send_release ::
    "send_env \<Rightarrow> client_config_t \<Rightarrow> u32 \<Rightarrow> u32 \<Rightarrow> u32 \<Rightarrow> (int \<times> wire option) option" where
  "send_release e cfg rnd server ci = do {
     p \<leftarrow> release_packet cfg rnd server ci;
     Some (udhcp_kernel_packet e p ci CLIENT_PORT server SERVER_PORT) }"

section \<open>Command line\<close>

text \<open>
  The results of \<open>getopt_long\<close>: the option character with its argument. \<open>bb_show_usage\<close> does
  not return (\<open>Usage\<close>), nor does the version option (\<open>Version\<close>). \<open>inet_addr\<close> is a function of
  the C library and a parameter here.
\<close>

datatype cli_args = Usage | Version | Args client_config_t bool u32

definition client_config_init :: client_config_t where
  "client_config_init = \<lparr>foreground = False, quit_after_lease = False, abort_if_no_lease = False,
     background_if_no_lease = False, cc_interface = ''eth0'',
     cc_script = Some ''/usr/share/udhcpc/default.script'', cc_vendor_options = None,
     clientid = None, vendorclass = None, hostname = None, fqdn = None,
     servername = replicate 65 0, cc_ifindex = 0, retries = 3, cc_timeout = 3,
     cc_arp = replicate 6 0\<rparr>"

definition opt_arg :: "byte \<Rightarrow> string \<Rightarrow> bytes" where
  "opt_arg code arg =
     (let len = (if length arg > 255 then 255 else length arg)
      in code # of_nat len # str_bytes (take len arg))"

text \<open>A client identifier of length 0 is stored into two bytes, and its first data byte is set.\<close>

definition clientid_arg :: "string \<Rightarrow> bytes option" where
  "clientid_arg arg = (if arg = [] then None else Some (opt_arg DHCP_CLIENT_ID arg))"

definition fqdn_arg :: "string \<Rightarrow> bytes" where
  "fqdn_arg arg =
     (let len = (if length arg > 255 then 255 else length arg)
      in DHCP_FQDN # of_nat (len + 3) # 1 # 0 # 0 # str_bytes (take len arg))"

definition client_option ::
    "(string \<Rightarrow> u32) \<Rightarrow> client_config_t \<Rightarrow> bool \<Rightarrow> u32 \<Rightarrow> char \<Rightarrow> string \<Rightarrow> cli_args option" where
  "client_option inet_addr cfg no_clientid req c arg =
     (if c = CHR ''c'' then
        (if no_clientid then Some Usage
         else do { d \<leftarrow> clientid_arg arg; Some (Args (cfg\<lparr>clientid := Some d\<rparr>) no_clientid req) })
      else if c = CHR ''C'' then
        (if clientid cfg \<noteq> None then Some Usage else Some (Args cfg True req))
      else Some (
        if c = CHR ''V'' then Args (cfg\<lparr>vendorclass := Some (opt_arg DHCP_VENDOR arg)\<rparr>) no_clientid req
        else if c = CHR ''f'' then Args (cfg\<lparr>foreground := True\<rparr>) no_clientid req
        else if c = CHR ''b'' then Args (cfg\<lparr>background_if_no_lease := True\<rparr>) no_clientid req
        else if c = CHR ''h'' \<or> c = CHR ''H'' then
          Args (cfg\<lparr>hostname := Some (opt_arg DHCP_HOST_NAME arg)\<rparr>) no_clientid req
        else if c = CHR ''F'' then Args (cfg\<lparr>fqdn := Some (fqdn_arg arg)\<rparr>) no_clientid req
        else if c = CHR ''i'' then Args (cfg\<lparr>cc_interface := arg\<rparr>) no_clientid req
        else if c = CHR ''n'' then Args (cfg\<lparr>abort_if_no_lease := True\<rparr>) no_clientid req
        else if c = CHR ''o'' then Args (cfg\<lparr>cc_vendor_options := Some arg\<rparr>) no_clientid req
        else if c = CHR ''p'' then Args cfg no_clientid req
        else if c = CHR ''q'' then Args (cfg\<lparr>quit_after_lease := True\<rparr>) no_clientid req
        else if c = CHR ''r'' then Args cfg no_clientid (inet_addr arg)
        else if c = CHR ''s'' then Args (cfg\<lparr>cc_script := Some arg\<rparr>) no_clientid req
        else if c = CHR ''S'' then
          Args (cfg\<lparr>servername := strncpy (servername cfg) (str_bytes arg) 64\<rparr>) no_clientid req
        else if c = CHR ''T'' then Args (cfg\<lparr>cc_timeout := fst (strtol 10 arg)\<rparr>) no_clientid req
        else if c = CHR ''t'' then Args (cfg\<lparr>retries := fst (strtol 10 arg)\<rparr>) no_clientid req
        else if c = CHR ''v'' then Version
        else Usage))"

fun client_options ::
    "(string \<Rightarrow> u32) \<Rightarrow> cli_args \<Rightarrow> (char \<times> string) list \<Rightarrow> cli_args option" where
  "client_options inet_addr (Args cfg no_clientid req) ((c, arg) # rest) = do {
     a \<leftarrow> client_option inet_addr cfg no_clientid req c arg; client_options inet_addr a rest }"
| "client_options inet_addr a _ = Some a"

text \<open>
  The defaults after the command line; \<open>ver\<close> is the version string of the build, and
  \<open>arp\<close> the hardware address that \<open>read_interface\<close> found.
\<close>

definition client_defaults :: "string \<Rightarrow> bytes \<Rightarrow> client_config_t \<Rightarrow> bool \<Rightarrow> client_config_t" where
  "client_defaults ver arp cfg no_clientid =
     (let cfg1 = cfg\<lparr>cc_arp := arp\<rparr>;
          cfg2 = (if clientid cfg1 = None \<and> \<not> no_clientid
                  then cfg1\<lparr>clientid := Some (DHCP_CLIENT_ID # 7 # 1 # take 6 arp)\<rparr> else cfg1)
      in if vendorclass cfg2 = None
         then cfg2\<lparr>vendorclass := Some (DHCP_VENDOR # of_nat (length (''udhcp '' @ ver)) #
                str_bytes (''udhcp '' @ ver))\<rparr>
         else cfg2)"

section \<open>The state machine\<close>

datatype cstate = INIT_SELECTING | REQUESTING | BOUND | RENEWING | REBINDING | INIT_REBOOT
  | RENEW_REQUESTED | RELEASED

datatype listen = LISTEN_NONE | LISTEN_KERNEL | LISTEN_RAW

record client_state =
  cs_config :: client_config_t
  cs_state :: cstate
  requested_ip :: u32
  server_addr :: u32
  timeout :: u32
  packet_num :: int
  sock_open :: bool
  listen_mode :: listen
  t1 :: u32
  t2 :: u32
  cs_xid :: u32
  start :: u32
  lease :: u32
  cs_packet :: dhcpMessage

datatype cli_select = CTimeout | CError | CReady (ready_packet: "bytes option option") (ready_eintr: bool) (ready_signal: int)

record cli_input =
  ci_uptime :: u32
  ci_now :: u32
  ci_socket_ok :: bool
  ci_daemon_ok :: bool
  ci_select :: cli_select
  ci_random :: u32
  ci_net :: send_env
  ci_path :: "string option"
  ci_home :: "string option"

datatype cli_out = CWire wire | CScript script_event | CBackground | CSleep nat

datatype cli_step = CliExit int "cli_out list" | CliContinue client_state "cli_out list"

definition change_mode :: "listen \<Rightarrow> client_state \<Rightarrow> client_state" where
  "change_mode new_mode s = s\<lparr>sock_open := False, listen_mode := new_mode\<rparr>"

definition penv :: "cli_input \<Rightarrow> client_state \<Rightarrow> script_env" where
  "penv i s = \<lparr>se_interface = cc_interface (cs_config s), se_path = ci_path i, se_home = ci_home i,
     se_vendor_options = cc_vendor_options (cs_config s)\<rparr>"

text \<open>The script without a packet, and with the packet that was received.\<close>

definition script0 :: "cli_input \<Rightarrow> client_state \<Rightarrow> string \<Rightarrow> cli_out list option" where
  "script0 i s name = do {
     (ev, p) \<leftarrow> run_script (penv i s) (cc_script (cs_config s)) None name; Some (map CScript ev) }"

definition script1 :: "cli_input \<Rightarrow> client_state \<Rightarrow> string \<Rightarrow> (cli_out list \<times> client_state) option" where
  "script1 i s name = do {
     (ev, p) \<leftarrow> run_script (penv i s) (cc_script (cs_config s)) (Some (cs_packet s)) name;
     Some (map CScript ev, case p of None \<Rightarrow> s | Some q \<Rightarrow> s\<lparr>cs_packet := q\<rparr>) }"

definition wires :: "int \<times> wire option \<Rightarrow> cli_out list" where
  "wires r = (case snd r of None \<Rightarrow> [] | Some w \<Rightarrow> [CWire w])"

definition perform_renew :: "cli_input \<Rightarrow> client_state \<Rightarrow> (client_state \<times> cli_out list) option" where
  "perform_renew i s = do {
     dec0 \<leftarrow> script0 i s ''deconfig'';
     let (s1, outs) = (case cs_state s of
         BOUND \<Rightarrow> ((change_mode LISTEN_KERNEL s)\<lparr>cs_state := RENEW_REQUESTED\<rparr>, [])
       | RENEWING \<Rightarrow> (s\<lparr>cs_state := RENEW_REQUESTED\<rparr>, [])
       | REBINDING \<Rightarrow> (s\<lparr>cs_state := RENEW_REQUESTED\<rparr>, [])
       | RENEW_REQUESTED \<Rightarrow> ((change_mode LISTEN_RAW s)\<lparr>cs_state := INIT_SELECTING\<rparr>, dec0)
       | REQUESTING \<Rightarrow> ((change_mode LISTEN_RAW s)\<lparr>cs_state := INIT_SELECTING\<rparr>, [])
       | RELEASED \<Rightarrow> ((change_mode LISTEN_RAW s)\<lparr>cs_state := INIT_SELECTING\<rparr>, [])
       | INIT_SELECTING \<Rightarrow> (s, [])
       | INIT_REBOOT \<Rightarrow> (s, []));
     Some (s1\<lparr>packet_num := 0, timeout := 0\<rparr>, outs) }"

definition perform_release :: "cli_input \<Rightarrow> client_state \<Rightarrow> (client_state \<times> cli_out list) option" where
  "perform_release i s = do {
     outs \<leftarrow> (if cs_state s \<in> {BOUND, RENEWING, REBINDING} then do {
         r \<leftarrow> send_release (ci_net i) (cs_config s) (ci_random i) (server_addr s) (requested_ip s);
         d \<leftarrow> script0 i s ''deconfig'';
         Some (wires r @ d) }
       else Some []);
     Some ((change_mode LISTEN_NONE s)\<lparr>cs_state := RELEASED, timeout := 0x7fffffff\<rparr>, outs) }"

text \<open>\<open>udhcp_background\<close> exits when \<open>daemon\<close> fails.\<close>

definition client_background :: "cli_input \<Rightarrow> client_state \<Rightarrow> cli_out list \<Rightarrow> cli_step" where
  "client_background i s outs =
     (if ci_daemon_ok i
      then CliContinue (s\<lparr>cs_config := (cs_config s)\<lparr>foreground := True, background_if_no_lease := False\<rparr>\<rparr>)
             (outs @ [CBackground])
      else CliExit 1 outs)"

subsection \<open>Timeouts\<close>

definition init_timeout :: "cli_input \<Rightarrow> client_state \<Rightarrow> cli_step option" where
  "init_timeout i s =
     (if packet_num s < retries (cs_config s) then do {
        let s1 = (if packet_num s = 0 then s\<lparr>cs_xid := ci_random i\<rparr> else s);
        r \<leftarrow> send_discover (ci_net i) (cs_config s) (cs_xid s1) (requested_ip s);
        Some (CliContinue (s1\<lparr>timeout := ci_now i + of_int (cc_timeout (cs_config s)),
          packet_num := packet_num s + 1\<rparr>) (wires r)) }
      else do {
        l \<leftarrow> script0 i s ''leasefail'';
        let s1 = s\<lparr>packet_num := 0, timeout := ci_now i + 60\<rparr>;
        Some (if background_if_no_lease (cs_config s) then client_background i s1 l
              else if abort_if_no_lease (cs_config s) then CliExit 1 l
              else CliContinue s1 l) })"

definition request_timeout :: "cli_input \<Rightarrow> client_state \<Rightarrow> cli_step option" where
  "request_timeout i s =
     (if packet_num s < retries (cs_config s) then do {
        r \<leftarrow> (if cs_state s = RENEW_REQUESTED
              then send_renew (ci_net i) (cs_config s) (cs_xid s) (server_addr s) (requested_ip s)
              else send_selecting (ci_net i) (cs_config s) (cs_xid s) (server_addr s) (requested_ip s));
        Some (CliContinue (s\<lparr>timeout := ci_now i + (if packet_num s = 2 then 10 else 2),
          packet_num := packet_num s + 1\<rparr>) (wires r)) }
      else do {
        d \<leftarrow> (if cs_state s = RENEW_REQUESTED then script0 i s ''deconfig'' else Some []);
        Some (CliContinue (change_mode LISTEN_RAW (s\<lparr>cs_state := INIT_SELECTING, timeout := ci_now i,
          packet_num := 0\<rparr>)) d) })"

definition renewing_timeout :: "cli_input \<Rightarrow> client_state \<Rightarrow> cli_step option" where
  "renewing_timeout i s =
     (if t2 s - t1 s \<le> lease s div 14400 + 1 then
        Some (CliContinue (s\<lparr>cs_state := REBINDING, timeout := ci_now i + (t2 s - t1 s)\<rparr>) [])
      else do {
        r \<leftarrow> send_renew (ci_net i) (cs_config s) (cs_xid s) (server_addr s) (requested_ip s);
        let s1 = s\<lparr>t1 := (t2 s - t1 s) div 2 + t1 s\<rparr>;
        Some (CliContinue (s1\<lparr>timeout := t1 s1 + start s\<rparr>) (wires r)) })"

definition rebinding_timeout :: "cli_input \<Rightarrow> client_state \<Rightarrow> cli_step option" where
  "rebinding_timeout i s =
     (if lease s - t2 s \<le> lease s div 14400 + 1 then do {
        d \<leftarrow> script0 i s ''deconfig'';
        Some (CliContinue (change_mode LISTEN_RAW (s\<lparr>cs_state := INIT_SELECTING, timeout := ci_now i,
          packet_num := 0\<rparr>)) d) }
      else do {
        r \<leftarrow> send_renew (ci_net i) (cs_config s) (cs_xid s) 0 (requested_ip s);
        let s1 = s\<lparr>t2 := (lease s - t2 s) div 2 + t2 s\<rparr>;
        Some (CliContinue (s1\<lparr>timeout := t2 s1 + start s\<rparr>) (wires r)) })"

definition on_timeout :: "cli_input \<Rightarrow> client_state \<Rightarrow> cli_step option" where
  "on_timeout i s =
     (case cs_state s of
        INIT_SELECTING \<Rightarrow> init_timeout i s
      | RENEW_REQUESTED \<Rightarrow> request_timeout i s
      | REQUESTING \<Rightarrow> request_timeout i s
      | BOUND \<Rightarrow> renewing_timeout i (change_mode LISTEN_KERNEL (s\<lparr>cs_state := RENEWING\<rparr>))
      | RENEWING \<Rightarrow> renewing_timeout i s
      | REBINDING \<Rightarrow> rebinding_timeout i s
      | RELEASED \<Rightarrow> Some (CliContinue (s\<lparr>timeout := 0x7fffffff\<rparr>) [])
      | INIT_REBOOT \<Rightarrow> Some (CliContinue s []))"

subsection \<open>Packets\<close>

definition on_offer :: "cli_input \<Rightarrow> client_state \<Rightarrow> cli_step option" where
  "on_offer i s = do {
     r \<leftarrow> get_option (cs_packet s) DHCP_SERVER_ID;
     case r of
       None \<Rightarrow> Some (CliContinue s [])
     | Some temp \<Rightarrow> do {
         a \<leftarrow> ptr_u32 (cs_packet s) temp;
         Some (CliContinue (s\<lparr>server_addr := a, cs_xid := xid (cs_packet s),
           requested_ip := yiaddr (cs_packet s), cs_state := REQUESTING, timeout := ci_now i,
           packet_num := 0\<rparr>) []) } }"

definition ack_lease :: "dhcpMessage \<Rightarrow> u32 option" where
  "ack_lease packet = do {
     r \<leftarrow> get_option packet DHCP_LEASE_TIME;
     case r of
       None \<Rightarrow> Some (60 * 60)
     | Some temp \<Rightarrow> do { w \<leftarrow> ptr_u32 packet temp; Some (ntohl w) } }"

definition on_ack :: "cli_input \<Rightarrow> client_state \<Rightarrow> cli_step option" where
  "on_ack i s = do {
     l \<leftarrow> ack_lease (cs_packet s);
     let s1 = s\<lparr>lease := l, t1 := l div 2, t2 := drop_bit 3 (l * 0x7), start := ci_now i,
       timeout := l div 2 + ci_now i, requested_ip := yiaddr (cs_packet s)\<rparr>;
     (outs, s2) \<leftarrow> script1 i s1 (if cs_state s \<in> {RENEWING, REBINDING} then ''renew'' else ''bound'');
     let s3 = change_mode LISTEN_NONE (s2\<lparr>cs_state := BOUND\<rparr>);
     Some (if quit_after_lease (cs_config s) then CliExit 0 outs
           else if \<not> foreground (cs_config s) then client_background i s3 outs
           else CliContinue s3 outs) }"

definition on_nak :: "cli_input \<Rightarrow> client_state \<Rightarrow> cli_step option" where
  "on_nak i s = do {
     (outs, s1) \<leftarrow> script1 i s ''nak'';
     d \<leftarrow> (if cs_state s \<noteq> REQUESTING then script0 i s1 ''deconfig'' else Some []);
     Some (CliContinue (change_mode LISTEN_RAW (s1\<lparr>cs_state := INIT_SELECTING, timeout := ci_now i,
       requested_ip := 0, packet_num := 0\<rparr>)) (outs @ d @ [CSleep 3])) }"

text \<open>The \<open>switch\<close> on the state for a packet of ours with a message type.\<close>

definition on_message :: "cli_input \<Rightarrow> client_state \<Rightarrow> byte \<Rightarrow> cli_step option" where
  "on_message i s message =
     (case cs_state s of
        INIT_SELECTING \<Rightarrow> if message = DHCPOFFER then on_offer i s else Some (CliContinue s [])
      | BOUND \<Rightarrow> Some (CliContinue s [])
      | RELEASED \<Rightarrow> Some (CliContinue s [])
      | INIT_REBOOT \<Rightarrow> Some (CliContinue s [])
      | _ \<Rightarrow> if message = DHCPACK then on_ack i s
             else if message = DHCPNAK then on_nak i s
             else Some (CliContinue s []))"

definition our_server :: "client_config_t \<Rightarrow> dhcpMessage \<Rightarrow> bool option" where
  "our_server cfg packet = do {
     c \<leftarrow> rd (servername cfg) 0;
     if c = 0 then Some True else strcmp_eq (sname packet) (servername cfg) }"

definition on_packet :: "cli_input \<Rightarrow> client_state \<Rightarrow> bytes option \<Rightarrow> bool \<Rightarrow> cli_step option" where
  "on_packet i s rx eintr = do {
     (len, packet) \<leftarrow> (if listen_mode s = LISTEN_KERNEL then udhcp_get_packet rx
                       else get_raw_packet (cs_packet s) rx);
     let s0 = s\<lparr>cs_packet := packet\<rparr>;
     let s1 = (if len = -1 \<and> \<not> eintr then change_mode (listen_mode s0) s0 else s0);
     if len < 0 then Some (CliContinue s1 [])
     else if xid packet \<noteq> cs_xid s then Some (CliContinue s1 [])
     else if take 6 (chaddr packet) \<noteq> take 6 (cc_arp (cs_config s)) then Some (CliContinue s1 [])
     else do {
       ours \<leftarrow> our_server (cs_config s) packet;
       if \<not> ours then Some (CliContinue s1 [])
       else do {
         m \<leftarrow> get_option packet DHCP_MESSAGE_TYPE;
         case m of
           None \<Rightarrow> Some (CliContinue s1 [])
         | Some ptr \<Rightarrow> do { message \<leftarrow> ptr_rd packet ptr 0; on_message i s1 message } } } }"

subsection \<open>One turn of the loop\<close>

definition udhcpc_step :: "cli_input \<Rightarrow> client_state \<Rightarrow> cli_step option" where
  "udhcpc_step i s =
     (if listen_mode s \<noteq> LISTEN_NONE \<and> \<not> sock_open s \<and> \<not> ci_socket_ok i then Some (CliExit 0 [])
      else
        let s1 = (if listen_mode s \<noteq> LISTEN_NONE then s\<lparr>sock_open := True\<rparr> else s);
            sel = (if 0 < sint (timeout s - ci_uptime i) then ci_select i else CTimeout)
        in case sel of
             CTimeout \<Rightarrow> on_timeout i s1
           | CError \<Rightarrow> Some (CliContinue s1 [])
           | CReady rx eintr sig \<Rightarrow>
               (case (listen_mode s1, rx) of
                  (LISTEN_KERNEL, Some d) \<Rightarrow> on_packet i s1 d eintr
                | (LISTEN_RAW, Some d) \<Rightarrow> on_packet i s1 d eintr
                | _ \<Rightarrow>
                    if sig = SIGUSR1 then do { (s2, outs) \<leftarrow> perform_renew i s1; Some (CliContinue s2 outs) }
                    else if sig = SIGUSR2 then do { (s2, outs) \<leftarrow> perform_release i s1; Some (CliContinue s2 outs) }
                    else if sig = SIGTERM then Some (CliExit 0 [])
                    else Some (CliContinue s1 [])))"

definition client_start :: "cli_input \<Rightarrow> client_config_t \<Rightarrow> u32 \<Rightarrow> (client_state \<times> cli_out list) option" where
  "client_start i cfg req = do {
     let s = \<lparr>cs_config = cfg, cs_state = INIT_SELECTING, requested_ip = req, server_addr = 0,
       timeout = 0, packet_num = 0, sock_open = False, listen_mode = LISTEN_NONE, t1 = 0, t2 = 0,
       cs_xid = 0, start = 0, lease = 0, cs_packet = zero_msg\<rparr>;
     d \<leftarrow> script0 i s ''deconfig'';
     Some (change_mode LISTEN_RAW s, d) }"

section \<open>Invariant of the client\<close>

text \<open>The socket that each state listens on.\<close>

fun mode_of :: "cstate \<Rightarrow> listen" where
  "mode_of INIT_SELECTING = LISTEN_RAW"
| "mode_of REQUESTING = LISTEN_RAW"
| "mode_of RENEWING = LISTEN_KERNEL"
| "mode_of REBINDING = LISTEN_KERNEL"
| "mode_of RENEW_REQUESTED = LISTEN_KERNEL"
| "mode_of _ = LISTEN_NONE"

text \<open>
  The timers are in order whenever the product in the computation of \<open>t2\<close> does not overflow:
  up to 613566756 seconds, 19 years.
\<close>

definition timers_ok :: "client_state \<Rightarrow> bool" where
  "timers_ok s \<longleftrightarrow> (lease s \<le> 613566756 \<longrightarrow> t1 s \<le> t2 s \<and> t2 s \<le> lease s)"

definition client_inv :: "client_state \<Rightarrow> bool" where
  "client_inv s \<longleftrightarrow> cs_state s \<noteq> INIT_REBOOT \<and> listen_mode s = mode_of (cs_state s) \<and> timers_ok s"

locale client_handler =
  fixes handle :: "cli_input \<Rightarrow> client_state \<Rightarrow> cli_step option" and states :: "cstate set"
  assumes handle_inv: "handle i s = Some (CliContinue s' outs) \<Longrightarrow> client_inv s \<Longrightarrow>
    cs_state s \<in> states \<Longrightarrow> client_inv s'"
begin

lemma handle_mode:
  "handle i s = Some (CliContinue s' outs) \<Longrightarrow> client_inv s \<Longrightarrow> cs_state s \<in> states \<Longrightarrow>
   listen_mode s' = mode_of (cs_state s')"
  using handle_inv by (auto simp: client_inv_def)

end

lemma timers_ok_cong:
  "lease s' = lease s \<Longrightarrow> t1 s' = t1 s \<Longrightarrow> t2 s' = t2 s \<Longrightarrow> timers_ok s' = timers_ok s"
  by (simp add: timers_ok_def)

lemma change_mode_simps [simp]:
  "cs_state (change_mode m s) = cs_state s" "listen_mode (change_mode m s) = m"
  "lease (change_mode m s) = lease s" "t1 (change_mode m s) = t1 s" "t2 (change_mode m s) = t2 s"
  "cs_config (change_mode m s) = cs_config s" "requested_ip (change_mode m s) = requested_ip s"
  "cs_packet (change_mode m s) = cs_packet s" "timeout (change_mode m s) = timeout s"
  "cs_xid (change_mode m s) = cs_xid s" "server_addr (change_mode m s) = server_addr s"
  "start (change_mode m s) = start s" "packet_num (change_mode m s) = packet_num s"
  by (simp_all add: change_mode_def)

lemma client_background_continue:
  "client_background i s outs = CliContinue s' outs' \<Longrightarrow>
   s' = s\<lparr>cs_config := (cs_config s)\<lparr>foreground := True, background_if_no_lease := False\<rparr>\<rparr> \<and>
   outs' = outs @ [CBackground]"
  by (auto simp: client_background_def split: if_splits)

text \<open>The halving of a timer stays between its bounds.\<close>

lemma timer_half:
  assumes "(a :: u32) \<le> b"
  shows "a \<le> (b - a) div 2 + a" "(b - a) div 2 + a \<le> b"
proof -
  have "unat ((b - a) div 2 + a) = (unat b - unat a) div 2 + unat a"
  proof -
    have "unat ((b - a) div 2) = (unat b - unat a) div 2"
      using assms by (simp add: unat_div unat_sub)
    moreover have "(unat b - unat a) div 2 + unat a \<le> unat b"
      using assms by (simp add: word_le_nat_alt)
    moreover have "unat b < 2 ^ LENGTH(32)" by (rule unsigned_less)
    ultimately show ?thesis by (subst unat_add_lem [THEN iffD1]) simp_all
  qed
  with assms show "a \<le> (b - a) div 2 + a" "(b - a) div 2 + a \<le> b"
    by (simp_all add: word_le_nat_alt)
qed

text \<open>The timers of a new lease.\<close>

lemma unat_t2:
  assumes "(l :: u32) \<le> 613566756"
  shows "unat (drop_bit 3 (l * 7)) = unat l * 7 div 8"
proof -
  have "unat l \<le> 613566756" using assms by (simp add: word_le_nat_alt)
  then have "unat (l * 7) = unat l * 7" by (subst unat_mult_lem [THEN iffD1]) simp_all
  then show ?thesis by (simp add: drop_bit_eq_div unat_div)
qed

lemma new_timers:
  assumes "(l :: u32) \<le> 613566756"
  shows "l div 2 \<le> drop_bit 3 (l * 7)" "drop_bit 3 (l * 7) \<le> l"
  using unat_t2 [OF assms] by (simp_all add: word_le_nat_alt unat_div)

interpretation init_h: client_handler init_timeout "{INIT_SELECTING}"
proof
  fix i s s' outs
  assume h: "init_timeout i s = Some (CliContinue s' outs)" and inv: "client_inv s"
  then have "cs_state s' = cs_state s \<and> listen_mode s' = listen_mode s \<and> lease s' = lease s \<and>
      t1 s' = t1 s \<and> t2 s' = t2 s"
    by (auto simp: init_timeout_def Let_def dest!: client_background_continue
        split: if_splits bind_splits)
  with inv show "client_inv s'" by (simp add: client_inv_def timers_ok_def)
qed

interpretation request_h: client_handler request_timeout "{REQUESTING, RENEW_REQUESTED}"
proof
  fix i s s' outs
  assume h: "request_timeout i s = Some (CliContinue s' outs)" and inv: "client_inv s"
  then have "(cs_state s' = cs_state s \<and> listen_mode s' = listen_mode s \<or>
       cs_state s' = INIT_SELECTING \<and> listen_mode s' = LISTEN_RAW) \<and> lease s' = lease s \<and>
      t1 s' = t1 s \<and> t2 s' = t2 s"
    by (auto simp: request_timeout_def Let_def split: if_splits bind_splits)
  with inv show "client_inv s'" by (auto simp: client_inv_def timers_ok_def)
qed

interpretation renewing_h: client_handler renewing_timeout "{RENEWING}"
proof
  fix i s s' outs
  assume h: "renewing_timeout i s = Some (CliContinue s' outs)" and inv: "client_inv s"
    and st: "cs_state s \<in> {RENEWING}"
  then have "(cs_state s' = REBINDING \<and> t1 s' = t1 s \<or>
        cs_state s' = RENEWING \<and> t1 s' = (t2 s - t1 s) div 2 + t1 s) \<and>
      listen_mode s' = listen_mode s \<and> lease s' = lease s \<and> t2 s' = t2 s"
    by (auto simp: renewing_timeout_def Let_def split: if_splits bind_splits)
  with inv st timer_half(2) show "client_inv s'" by (auto simp: client_inv_def timers_ok_def)
qed

interpretation rebinding_h: client_handler rebinding_timeout "{REBINDING}"
proof
  fix i s s' outs
  assume h: "rebinding_timeout i s = Some (CliContinue s' outs)" and inv: "client_inv s"
    and st: "cs_state s \<in> {REBINDING}"
  then have "(cs_state s' = INIT_SELECTING \<and> listen_mode s' = LISTEN_RAW \<and> t2 s' = t2 s \<or>
        cs_state s' = REBINDING \<and> listen_mode s' = listen_mode s \<and> t2 s' = (lease s - t2 s) div 2 + t2 s) \<and>
      lease s' = lease s \<and> t1 s' = t1 s"
    by (auto simp: rebinding_timeout_def Let_def split: if_splits bind_splits)
  with inv st timer_half [of "t2 s" "lease s"] show "client_inv s'"
    by (auto simp: client_inv_def timers_ok_def)
qed

interpretation timeout_h: client_handler on_timeout UNIV
proof
  fix i s s' outs
  assume h: "on_timeout i s = Some (CliContinue s' outs)" and inv: "client_inv s"
  show "client_inv s'"
  proof (cases "cs_state s")
    case BOUND
    let ?s = "change_mode LISTEN_KERNEL (s\<lparr>cs_state := RENEWING\<rparr>)"
    have "client_inv ?s" using inv BOUND by (simp add: client_inv_def timers_ok_def)
    with h BOUND renewing_h.handle_inv [of i ?s] show ?thesis by (simp add: on_timeout_def)
  qed (use h inv init_h.handle_inv request_h.handle_inv renewing_h.handle_inv rebinding_h.handle_inv
      in \<open>auto simp: on_timeout_def client_inv_def timers_ok_def\<close>)
qed

text \<open>Running the script changes nothing of the state but the packet buffer.\<close>

lemma script1_state:
  "script1 i s name = Some (outs, s') \<Longrightarrow> \<exists>p. s' = s\<lparr>cs_packet := p\<rparr>"
  by (cases s) (auto simp: script1_def split: bind_splits option.splits)

interpretation offer_h: client_handler on_offer "{INIT_SELECTING}"
proof
  fix i s s' outs
  assume "on_offer i s = Some (CliContinue s' outs)" "client_inv s" "cs_state s \<in> {INIT_SELECTING}"
  then show "client_inv s'"
    by (auto simp: on_offer_def client_inv_def timers_ok_def split: bind_splits option.splits)
qed

lemma on_ack_bound:
  assumes "on_ack i s = Some (CliContinue s' outs)"
  shows "\<exists>l p. ack_lease (cs_packet s) = Some l \<and> cs_state s' = BOUND \<and> listen_mode s' = LISTEN_NONE \<and>
    lease s' = l \<and> t1 s' = l div 2 \<and> t2 s' = drop_bit 3 (l * 7) \<and> start s' = ci_now i \<and>
    timeout s' = l div 2 + ci_now i \<and> requested_ip s' = yiaddr (cs_packet s) \<and> server_addr s' = server_addr s"
  using assms
  by (auto simp: on_ack_def Let_def dest!: client_background_continue script1_state
      split: bind_splits if_splits)

lemma on_ack_Some:
  assumes "ack_lease (cs_packet s) = Some l" "\<And>e scr name. run_script e scr (Some (cs_packet s)) name \<noteq> None"
    and "foreground (cs_config s)" "\<not> quit_after_lease (cs_config s)"
  shows "\<exists>s' outs. on_ack i s = Some (CliContinue s' outs)"
proof -
  let ?name = "if cs_state s \<in> {RENEWING, REBINDING} then ''renew'' else ''bound''"
  have "\<exists>outs s2. script1 i s1 name = Some (outs, s2)" if "cs_packet s1 = cs_packet s" for s1 name
    using assms(2) [of "penv i s1" "cc_script (cs_config s1)" name] that
    by (auto simp: script1_def split: bind_splits)
  from this [of "s\<lparr>lease := l, t1 := l div 2, t2 := drop_bit 3 (l * 0x7), start := ci_now i,
       timeout := l div 2 + ci_now i, requested_ip := yiaddr (cs_packet s)\<rparr>" ?name]
  show ?thesis using assms(1,3,4) unfolding on_ack_def Let_def by auto
qed

interpretation ack_h: client_handler on_ack UNIV
proof
  fix i s s' outs
  assume "on_ack i s = Some (CliContinue s' outs)"
  from on_ack_bound [OF this] new_timers show "client_inv s'"
    by (auto simp: client_inv_def timers_ok_def)
qed

interpretation nak_h: client_handler on_nak UNIV
proof
  fix i s s' outs
  assume "on_nak i s = Some (CliContinue s' outs)" and inv: "client_inv s"
  then have "cs_state s' = INIT_SELECTING \<and> listen_mode s' = LISTEN_RAW \<and> lease s' = lease s \<and>
      t1 s' = t1 s \<and> t2 s' = t2 s"
    by (auto simp: on_nak_def dest!: script1_state split: bind_splits if_splits)
  with inv show "client_inv s'" by (simp add: client_inv_def timers_ok_def)
qed

interpretation message_h: client_handler "\<lambda>i s. on_message i s m" UNIV for m
proof
  fix i s s' outs
  assume "on_message i s m = Some (CliContinue s' outs)" and inv: "client_inv s"
  then have "on_offer i s = Some (CliContinue s' outs) \<and> cs_state s = INIT_SELECTING \<or> s' = s \<or>
      on_ack i s = Some (CliContinue s' outs) \<or> on_nak i s = Some (CliContinue s' outs)"
    by (auto simp: on_message_def split: cstate.splits if_splits)
  with inv offer_h.handle_inv ack_h.handle_inv nak_h.handle_inv show "client_inv s'" by auto
qed

lemma on_packet_cases:
  assumes "on_packet i s rx eintr = Some (CliContinue s' outs)"
  obtains (dropped) p where "s' = s\<lparr>cs_packet := p\<rparr> \<or> s' = change_mode (listen_mode s) (s\<lparr>cs_packet := p\<rparr>)"
      "outs = []"
  | (accepted) p m ptr len where "on_message i (s\<lparr>cs_packet := p\<rparr>) m = Some (CliContinue s' outs)"
      "xid p = cs_xid s" "take 6 (chaddr p) = take 6 (cc_arp (cs_config s))"
      "get_option p DHCP_MESSAGE_TYPE = Some (Some ptr)" "ptr_rd p ptr 0 = Some m"
      "our_server (cs_config s) p = Some True"
      "(if listen_mode s = LISTEN_KERNEL then udhcp_get_packet rx else get_raw_packet (cs_packet s) rx)
        = Some (len, p)"
proof -
  from assms obtain len p where
    r: "(if listen_mode s = LISTEN_KERNEL then udhcp_get_packet rx else get_raw_packet (cs_packet s) rx)
        = Some (len, p)" by (auto simp: on_packet_def split: bind_splits)
  define s1 where "s1 = (if len = -1 \<and> \<not> eintr then change_mode (listen_mode s) (s\<lparr>cs_packet := p\<rparr>)
      else s\<lparr>cs_packet := p\<rparr>)"
  have dr: ?thesis if "s' = s1" "outs = []"
    using dropped [of p] that by (auto simp: s1_def split: if_splits)
  note step = assms [unfolded on_packet_def r Let_def, simplified, folded s1_def]
  show ?thesis
  proof (cases "len < 0 \<or> xid p \<noteq> cs_xid s \<or> take 6 (chaddr p) \<noteq> take 6 (cc_arp (cs_config s))")
    case True
    with step dr show ?thesis
      by (cases "len = -1 \<and> \<not> eintr") (auto simp: s1_def split: if_splits)
  next
    case False
    then have s1: "s1 = s\<lparr>cs_packet := p\<rparr>" by (simp add: s1_def)
    from False step obtain ours where o: "our_server (cs_config s) p = Some ours"
      by (auto split: bind_splits)
    show ?thesis
    proof (cases ours)
      case False
      with \<open>\<not> (len < 0 \<or> _)\<close> step o dr s1 show ?thesis by auto
    next
      case ours: True
      with False step o obtain m where m: "get_option p DHCP_MESSAGE_TYPE = Some m"
        by (auto split: bind_splits)
      show ?thesis
      proof (cases m)
        case None
        with False step o ours m dr s1 show ?thesis by auto
      next
        case (Some ptr)
        with False step o ours m s1 obtain b where "ptr_rd p ptr 0 = Some b"
          "on_message i s1 b = Some (CliContinue s' outs)" by (auto split: bind_splits)
        with accepted [of p b ptr len] False o ours m Some s1 r show ?thesis by auto
      qed
    qed
  qed
qed

interpretation packet_h: client_handler "\<lambda>i s. on_packet i s rx eintr" UNIV for rx eintr
proof
  fix i s s' outs
  assume h: "on_packet i s rx eintr = Some (CliContinue s' outs)" and inv: "client_inv s"
  have keep: "client_inv (s\<lparr>cs_packet := p\<rparr>)" for p
    using inv by (simp add: client_inv_def timers_ok_def)
  from h show "client_inv s'"
  proof (cases rule: on_packet_cases)
    case (dropped p)
    with inv show ?thesis by (auto simp: client_inv_def timers_ok_def)
  next
    case (accepted p m ptr len)
    with message_h.handle_inv [OF accepted(1) keep] show ?thesis by simp
  qed
qed

definition signal_step ::
    "(cli_input \<Rightarrow> client_state \<Rightarrow> (client_state \<times> cli_out list) option) \<Rightarrow>
     cli_input \<Rightarrow> client_state \<Rightarrow> cli_step option" where
  "signal_step f i s = do { (s2, outs) \<leftarrow> f i s; Some (CliContinue s2 outs) }"

interpretation renew_h: client_handler "signal_step perform_renew" UNIV
proof
  fix i s s' outs
  assume "signal_step perform_renew i s = Some (CliContinue s' outs)" "client_inv s"
  then show "client_inv s'"
    by (cases "cs_state s") (auto simp: signal_step_def perform_renew_def client_inv_def timers_ok_def
        split: bind_splits)
qed

interpretation release_h: client_handler "signal_step perform_release" UNIV
proof
  fix i s s' outs
  assume "signal_step perform_release i s = Some (CliContinue s' outs)" "client_inv s"
  then show "client_inv s'"
    by (auto simp: signal_step_def perform_release_def client_inv_def timers_ok_def
        split: bind_splits if_splits)
qed

lemma udhcpc_step_cases:
  assumes "udhcpc_step i s = Some (CliContinue s' outs)"
  obtains (time) s1 where "s1 = s \<or> s1 = s\<lparr>sock_open := True\<rparr>" "on_timeout i s1 = Some (CliContinue s' outs)"
  | (idle) "s' = s \<or> s' = s\<lparr>sock_open := True\<rparr>" "outs = []"
  | (rx) s1 d eintr sig where "s1 = s\<lparr>sock_open := True\<rparr>" "on_packet i s1 d eintr = Some (CliContinue s' outs)"
      "listen_mode s \<noteq> LISTEN_NONE" "ci_select i = CReady (Some d) eintr sig"
  | (renew) s1 where "s1 = s \<or> s1 = s\<lparr>sock_open := True\<rparr>" "signal_step perform_renew i s1 = Some (CliContinue s' outs)"
  | (release) s1 where "s1 = s \<or> s1 = s\<lparr>sock_open := True\<rparr>" "signal_step perform_release i s1 = Some (CliContinue s' outs)"
proof -
  define s1 where "s1 = (if listen_mode s \<noteq> LISTEN_NONE then s\<lparr>sock_open := True\<rparr> else s)"
  have s1: "s1 = s \<or> s1 = s\<lparr>sock_open := True\<rparr>" by (simp add: s1_def)
  have lm: "listen_mode s1 = listen_mode s" by (simp add: s1_def)
  define sel where "sel = (if 0 < sint (timeout s - ci_uptime i) then ci_select i else CTimeout)"
  note step = assms [unfolded udhcpc_step_def Let_def, folded s1_def sel_def]
  from step have ok: "\<not> (listen_mode s \<noteq> LISTEN_NONE \<and> \<not> sock_open s \<and> \<not> ci_socket_ok i)"
    by (auto split: if_splits)
  note step = step [unfolded if_not_P [OF ok] lm]
  show ?thesis
  proof (cases sel)
    case CTimeout
    with time [OF s1] step show ?thesis by simp
  next
    case CError
    with idle s1 step show ?thesis by auto
  next
    case (CReady d eintr sig)
    have sig: ?thesis if "(if sig = SIGUSR1 then signal_step perform_renew i s1
        else if sig = SIGUSR2 then signal_step perform_release i s1
        else if sig = SIGTERM then Some (CliExit 0 []) else Some (CliContinue s1 [])) = Some (CliContinue s' outs)"
      using that renew [OF s1] release [OF s1] idle s1 by (auto split: if_splits)
    show ?thesis
    proof (cases "listen_mode s = LISTEN_NONE \<or> d = None")
      case True
      with step CReady sig [unfolded signal_step_def] show ?thesis
        by (cases d; cases "listen_mode s") simp_all
    next
      case False
      then obtain r where d: "d = Some r" by auto
      from False have "s1 = s\<lparr>sock_open := True\<rparr>" by (simp add: s1_def)
      moreover have "on_packet i s1 r eintr = Some (CliContinue s' outs)"
        using step CReady False d by (cases "listen_mode s") simp_all
      moreover have "ci_select i = CReady (Some r) eintr sig"
        using CReady d by (simp add: sel_def split: if_splits)
      ultimately show ?thesis using rx False by blast
    qed
  qed
qed

interpretation step_h: client_handler udhcpc_step UNIV
proof
  fix i s s' outs
  assume h: "udhcpc_step i s = Some (CliContinue s' outs)" and inv: "client_inv s"
  have keep: "client_inv s1" if "s1 = s \<or> s1 = s\<lparr>sock_open := True\<rparr>" for s1
    using that inv by (auto simp: client_inv_def timers_ok_def)
  from h show "client_inv s'"
  proof (cases rule: udhcpc_step_cases)
    case (time s1)
    with timeout_h.handle_inv [OF time(2) keep] show ?thesis by simp
  next
    case idle
    with keep show ?thesis by simp
  next
    case (rx s1 d eintr sig)
    with packet_h.handle_inv [OF rx(2) keep] show ?thesis by simp
  next
    case (renew s1)
    with renew_h.handle_inv [OF renew(2) keep] show ?thesis by simp
  next
    case (release s1)
    with release_h.handle_inv [OF release(2) keep] show ?thesis by simp
  qed
qed

section \<open>Properties\<close>

inductive cli_reach :: "client_state \<Rightarrow> client_state \<Rightarrow> bool" for s0 :: client_state where
  start: "cli_reach s0 s0"
| turn: "cli_reach s0 s \<Longrightarrow> udhcpc_step i s = Some (CliContinue s' outs) \<Longrightarrow> cli_reach s0 s'"

lemma client_start_inv: "client_start i cfg req = Some (s, outs) \<Longrightarrow> client_inv s"
  by (auto simp: client_start_def Let_def client_inv_def timers_ok_def split: bind_splits)

text \<open>
  C6. In every state the client reaches it listens on the socket that its state needs (raw
  while it looks for a lease, the kernel's while it renews, none while it is bound or
  released), and for a lease of up to 19 years the timers are ordered: \<open>t1 \<le> t2 \<le> lease\<close>.
\<close>

theorem client_reach_inv:
  assumes "client_start i cfg req = Some (s0, outs)" "cli_reach s0 s"
  shows "cs_state s \<noteq> INIT_REBOOT \<and> listen_mode s = mode_of (cs_state s) \<and>
    (lease s \<le> 613566756 \<longrightarrow> t1 s \<le> t2 s \<and> t2 s \<le> lease s)"
proof -
  from assms(2) have "client_inv s"
  proof (induction rule: cli_reach.induct)
    case start
    from client_start_inv [OF assms(1)] show ?case .
  next
    case (turn s i s' outs)
    with step_h.handle_inv show ?case by simp
  qed
  then show ?thesis by (simp add: client_inv_def timers_ok_def)
qed

section \<open>The messages of the client\<close>

definition cfg_strings :: "client_config_t \<Rightarrow> bytes list" where
  "cfg_strings cfg = concat (map (\<lambda>x. case x of None \<Rightarrow> [] | Some d \<Rightarrow> [d])
     [clientid cfg, hostname cfg, fqdn cfg, vendorclass cfg])"

definition cfg_tlvs :: "client_config_t \<Rightarrow> tlv list" where
  "cfg_tlvs cfg = map (\<lambda>d. (d ! 0, drop 2 d)) (cfg_strings cfg)"

text \<open>
  The identifiers and names of the configuration are option strings and leave room for the
  message type, two addresses, the parameter request list and the end mark.
\<close>

definition client_cfg_ok :: "client_config_t \<Rightarrow> bool" where
  "client_cfg_ok cfg \<longleftrightarrow> length (cc_arp cfg) = 6 \<and> vendorclass cfg \<noteq> None \<and>
     list_all is_tlv (cfg_strings cfg) \<and> length (enc (cfg_tlvs cfg)) \<le> 282"

lemma length_req_codes [simp]: "length req_codes = 8"
  by (simp add: req_codes_def dhcp_options_def option_type_defs)

lemma cfg_strings_tlvs: "list_all is_tlv (cfg_strings cfg) \<Longrightarrow> map tlv_string (cfg_tlvs cfg) = cfg_strings cfg"
proof -
  assume a: "list_all is_tlv (cfg_strings cfg)"
  have "map tlv_string (map (\<lambda>d. (d ! 0, drop 2 d)) ds) = ds" if "list_all is_tlv ds" for ds
    using that by (induction ds) (auto simp: is_tlv_string(1) [symmetric])
  from this [OF a] show ?thesis by (simp add: cfg_tlvs_def)
qed

lemma cfg_tlvs_ok: "list_all is_tlv (cfg_strings cfg) \<Longrightarrow> list_all tlv_ok (cfg_tlvs cfg)"
  by (auto simp: cfg_tlvs_def list_all_iff intro: is_tlv_string(2))

lemma client_init_packet_holds:
  assumes "client_cfg_ok cfg"
  shows "\<exists>p. client_init_packet cfg type = Some p \<and> msg_wf p \<and>
    holds p ((DHCP_MESSAGE_TYPE, [type]) # cfg_tlvs cfg) \<and> msg_op p = header_op type \<and>
    cookie p = htonl DHCP_MAGIC \<and> chaddr p = cc_arp cfg @ replicate 10 0"
proof -
  obtain p0 where p0: "udhcp_init_header type = Some p0" "holds p0 [(DHCP_MESSAGE_TYPE, [type])]" "msg_wf p0"
    and fr: "msg_frame p0 = msg_frame (zero_msg\<lparr>msg_op := header_op type, htype := ETH_10MB,
       hlen := ETH_10MB_LEN, cookie := htonl DHCP_MAGIC\<rparr>)"
    using udhcp_init_header_holds by blast
  from fr have f0: "chaddr p0 = replicate 16 0" "msg_op p0 = header_op type" "cookie p0 = htonl DHCP_MAGIC"
    by (cases p0, simp add: msg_frame_def zero_msg_def)+
  let ?ch = "cc_arp cfg @ replicate 10 0"
  let ?p1 = "p0\<lparr>chaddr := ?ch\<rparr>"
  from assms have arp: "rd_range (cc_arp cfg) 0 6 = Some (cc_arp cfg)"
    "wr_range (chaddr p0) 0 (cc_arp cfg) = Some ?ch" and v: "vendorclass cfg \<noteq> None"
    by (simp_all add: client_cfg_ok_def rd_range_def wr_range_def f0)
  from p0(2) have h1: "holds ?p1 [(DHCP_MESSAGE_TYPE, [type])]" by (simp add: holds_def)
  have eq: "client_init_packet cfg type = foldM put_string ?p1 (cfg_strings cfg)"
    using p0(1) arp v
    by (auto simp: client_init_packet_def cfg_strings_def put_opt_def split: option.splits)
  have ok: "list_all is_tlv (cfg_strings cfg)" and sz: "length (enc (cfg_tlvs cfg)) \<le> 282"
    using assms by (simp_all add: client_cfg_ok_def)
  from optf.put_all [OF h1 cfg_tlvs_ok [OF ok]] obtain p where
    p: "foldM put_string ?p1 (map tlv_string (cfg_tlvs cfg)) = Some p" "msg_frame p = msg_frame ?p1"
      "holds p (foldl (tlv_add 308) [(DHCP_MESSAGE_TYPE, [type])] (cfg_tlvs cfg))" by blast
  have "foldl (tlv_add 308) [(DHCP_MESSAGE_TYPE, [type])] (cfg_tlvs cfg) =
      [(DHCP_MESSAGE_TYPE, [type])] @ cfg_tlvs cfg"
    using sz by (intro foldl_tlv_add_fits) simp
  moreover from p(2) have "chaddr p = ?ch" "msg_op p = header_op type" "cookie p = htonl DHCP_MAGIC"
    "length (sname p) = 64" "length (bfile p) = 128"
    using p0(3) f0 by (cases p, cases p0, simp add: msg_frame_def msg_wf_def)+
  ultimately show ?thesis
    using p eq assms by (auto simp: cfg_strings_tlvs [OF ok] msg_wf_def holds_def client_cfg_ok_def)
qed

lemma add_requests_holds:
  assumes "holds p ts" "length (enc ts) + 10 < 308"
  shows "\<exists>p'. add_requests p = Some p' \<and> msg_frame p' = msg_frame p \<and>
    holds p' (ts @ [(DHCP_PARAM_REQ, req_codes)])"
proof -
  let ?k = "length (enc ts)"
  from assms(1) obtain rest where rest: "options p = enc ts @ DHCP_END # rest" "length (options p) = 308"
    and ok: "list_all tlv_ok ts" by (auto simp: holds_def)
  with assms(2) have "9 < length rest" by simp
  then have r: "rest = rest ! 0 # take 9 (drop 1 rest) @ drop 10 rest" "length (take 9 (drop 1 rest)) = 9"
    by (cases rest, simp_all add: append_take_drop_id [of 9, symmetric])
  define a r where "a = rest ! 0" and "r = drop 10 rest"
  obtain b' z where b: "take 9 (drop 1 rest) = b' @ [z]" "length b' = 8"
  proof -
    define c where "c = take 9 (drop 1 rest)"
    have "length c = 9" using r(2) by (simp only: c_def)
    then obtain x y where xy: "c = x @ [y]" "length x = 8" by (cases c rule: rev_cases) auto
    from that [OF xy [unfolded c_def]] show ?thesis .
  qed
  have rs: "rest = a # b' @ z # r" using r(1) unfolding b(1) a_def r_def by simp
  let ?o = "enc ts @ DHCP_PARAM_REQ # of_nat (length req_codes) # req_codes @ DHCP_END # r"
  have e: "end_option (enc ts @ DHCP_END # rest) = Some ?k"
    using end_option_holds [OF assms(1)] rest by simp
  have w2: "wr_range (enc ts @ DHCP_PARAM_REQ # a # b' @ z # r) (?k + 2) req_codes =
      Some (enc ts @ DHCP_PARAM_REQ # a # req_codes @ z # r)"
    using wr_range_append [of b' req_codes "enc ts @ [DHCP_PARAM_REQ, a]" "z # r"] b by simp
  have w3: "wr (enc ts @ DHCP_PARAM_REQ # a # req_codes @ z # r) (?k + 1) (of_nat (length req_codes)) =
      Some (enc ts @ DHCP_PARAM_REQ # of_nat (length req_codes) # req_codes @ z # r)"
    using wr_append [of "enc ts @ [DHCP_PARAM_REQ]" a "req_codes @ z # r"] by simp
  have w4: "wr (enc ts @ DHCP_PARAM_REQ # of_nat (length req_codes) # req_codes @ z # r)
      (?k + 2 + length req_codes) DHCP_END = Some ?o"
    using wr_append [of "enc ts @ [DHCP_PARAM_REQ, of_nat (length req_codes)] @ req_codes" z r]
    by (simp add: add.commute)
  have "options p = enc ts @ DHCP_END # a # b' @ z # r" using rest rs by simp
  moreover from this have "end_option (enc ts @ DHCP_END # a # b' @ z # r) = Some ?k" using e rest by simp
  ultimately have "add_requests p = Some (p\<lparr>options := ?o\<rparr>)"
    unfolding add_requests_def by (simp only: add_0_right wr_append bind.simps w2 w3 w4)
  moreover have "length ?o = 308" using rest rs b by simp
  moreover have "tlv_ok (DHCP_PARAM_REQ, req_codes)" by (simp add: tlv_ok_def)
  ultimately show ?thesis using ok by (auto simp: holds_def msg_frame_def)
qed

lemma add_requests_overflow:
  assumes "holds p ts" "308 \<le> length (enc ts) + 10"
  shows "add_requests p = None"
  using assms end_option_holds [OF assms(1)]
  by (auto simp: add_requests_def wr_def wr_range_def holds_def split: bind_splits if_splits)

lemma cfg_tlvs_length: "client_cfg_ok cfg \<Longrightarrow> length (enc (cfg_tlvs cfg)) \<le> 282"
  by (simp add: client_cfg_ok_def)

lemma holds_header_update [simp]:
  "holds (p\<lparr>xid := x\<rparr>) ts = holds p ts" "holds (p\<lparr>ciaddr := c\<rparr>) ts = holds p ts"
  by (simp_all add: holds_def)

lemma msg_frame_eqD:
  assumes "msg_frame p' = msg_frame p" "holds p' ts" "msg_wf p"
  shows "msg_wf p'" "xid p' = xid p" "ciaddr p' = ciaddr p" "chaddr p' = chaddr p" "cookie p' = cookie p"
    "msg_op p' = msg_op p"
  using assms by (cases p, cases p', simp add: msg_frame_def msg_wf_def holds_def)+

text \<open>
  When the configuration fits, the request of a selecting client is well-formed and
  carries the transaction, the client's hardware address, the address it asks for, the
  server it selected and the parameter request list.
\<close>

lemma selecting_packet_content:
  assumes "client_cfg_ok cfg" "DHCP_REQUESTED_IP \<notin> fst ` set (cfg_tlvs cfg)"
    "DHCP_SERVER_ID \<notin> fst ` set (cfg_tlvs cfg)" "DHCP_PARAM_REQ \<notin> fst ` set (cfg_tlvs cfg)"
  shows "\<exists>p. selecting_packet cfg x server req = Some p \<and> msg_wf p \<and> msg_op p = BOOTREQUEST \<and>
    xid p = x \<and> chaddr p = cc_arp cfg @ replicate 10 0 \<and>
    option_data p DHCP_MESSAGE_TYPE = Some (Some [DHCPREQUEST]) \<and>
    option_data p DHCP_REQUESTED_IP = Some (Some (le32 req)) \<and>
    option_data p DHCP_SERVER_ID = Some (Some (le32 server)) \<and>
    option_data p DHCP_PARAM_REQ = Some (Some req_codes)"
proof -
  let ?base = "(DHCP_MESSAGE_TYPE, [DHCPREQUEST]) # cfg_tlvs cfg"
  let ?t1 = "?base @ [(DHCP_REQUESTED_IP, le32 req)]"
  let ?t2 = "?t1 @ [(DHCP_SERVER_ID, le32 server)]"
  let ?t3 = "?t2 @ [(DHCP_PARAM_REQ, req_codes)]"
  note sz = cfg_tlvs_length [OF assms(1)]
  obtain p0 where p0: "client_init_packet cfg DHCPREQUEST = Some p0" "msg_wf p0" "holds p0 ?base"
    "msg_op p0 = header_op DHCPREQUEST" "chaddr p0 = cc_arp cfg @ replicate 10 0"
    using client_init_packet_holds [OF assms(1)] by blast
  from put_simple_u32 [of "p0\<lparr>xid := x\<rparr>" ?base DHCP_REQUESTED_IP req] p0(3) sz obtain p1 where
    p1: "put_simple (p0\<lparr>xid := x\<rparr>) DHCP_REQUESTED_IP req = Some p1" "holds p1 ?t1"
      "msg_frame p1 = msg_frame (p0\<lparr>xid := x\<rparr>)" by (auto simp: tlv_add_def)
  from put_simple_u32 [OF p1(2), of DHCP_SERVER_ID server] sz obtain p2 where
    p2: "put_simple p1 DHCP_SERVER_ID server = Some p2" "holds p2 ?t2" "msg_frame p2 = msg_frame p1"
    by (auto simp: tlv_add_def)
  from add_requests_holds [OF p2(2)] sz obtain p3 where
    p3: "add_requests p2 = Some p3" "holds p3 ?t3" "msg_frame p3 = msg_frame p2" by auto
  have "msg_frame p3 = msg_frame (p0\<lparr>xid := x\<rparr>)" using p1 p2 p3 by simp
  from msg_frame_eqD [OF this p3(2)] p0 have
    f: "msg_wf p3" "xid p3 = x" "chaddr p3 = cc_arp cfg @ replicate 10 0" "msg_op p3 = header_op DHCPREQUEST"
    by (simp_all add: msg_wf_def)
  have "map_of (cfg_tlvs cfg) c = None" if "c \<in> {DHCP_REQUESTED_IP, DHCP_SERVER_ID, DHCP_PARAM_REQ}" for c
    unfolding map_of_eq_None_iff using that assms(2-4) by (elim insertE emptyE) simp_all
  then have "map_of ?t3 DHCP_MESSAGE_TYPE = Some [DHCPREQUEST]" "map_of ?t3 DHCP_REQUESTED_IP = Some (le32 req)"
    "map_of ?t3 DHCP_SERVER_ID = Some (le32 server)" "map_of ?t3 DHCP_PARAM_REQ = Some req_codes"
    by (simp_all add: map_add_def dhcp_code_defs)
  with optf.lookup_refines [OF p3(2)] p0(1) p1(1) p2(1) p3(1) f show ?thesis
    by (auto simp: selecting_packet_def header_op_def dhcp_type_defs simp del: simple_option_u32)
qed

lemma renew_packet_Some:
  assumes "client_cfg_ok cfg"
  shows "\<exists>p. renew_packet cfg x ci = Some p \<and> msg_wf p"
proof -
  let ?base = "(DHCP_MESSAGE_TYPE, [DHCPREQUEST]) # cfg_tlvs cfg"
  obtain p0 where p0: "client_init_packet cfg DHCPREQUEST = Some p0" "msg_wf p0" "holds p0 ?base"
    using client_init_packet_holds [OF assms] by blast
  let ?p = "p0\<lparr>xid := x, ciaddr := ci\<rparr>"
  from p0(3) have "holds ?p ?base" by simp
  from add_requests_holds [OF this] cfg_tlvs_length [OF assms] obtain p where
    p: "add_requests ?p = Some p" "msg_frame p = msg_frame ?p" "holds p (?base @ [(DHCP_PARAM_REQ, req_codes)])"
    by auto
  have "msg_wf ?p" using p0(2) by (simp add: msg_wf_def)
  from msg_frame_eqD(1) [OF p(2,3) this] p p0(1) show ?thesis by (simp add: renew_packet_def)
qed

lemma send_renew_Some:
  assumes "client_cfg_ok cfg"
  obtains r where "send_renew e cfg x server ci = Some r"
proof -
  obtain p where p: "renew_packet cfg x ci = Some p" "msg_wf p" using renew_packet_Some [OF assms] by blast
  obtain q where q: "raw_packet p INADDR_ANY CLIENT_PORT INADDR_BROADCAST SERVER_PORT = Some q"
    using raw_packet_Some [OF p(2)] by blast
  have "\<exists>r. send_renew e cfg x server ci = Some r"
    using p(1) q by (simp add: send_renew_def send_broadcast_def udhcp_raw_packet_def rd_range_def
        MAC_BCAST_ADDR_def)
  with that show ?thesis by blast
qed

section \<open>Losing a lease\<close>

text \<open>A client that hears nothing: a sequence of timeouts, each with its own clock.\<close>

fun run_timeouts :: "cli_input list \<Rightarrow> client_state \<Rightarrow> (client_state \<times> cli_out list) option" where
  "run_timeouts [] s = Some (s, [])"
| "run_timeouts (i # is) s =
     (case on_timeout i s of
        Some (CliContinue s1 o1) \<Rightarrow> do { (s2, o2) \<leftarrow> run_timeouts is s1; Some (s2, o1 @ o2) }
      | _ \<Rightarrow> None)"

text \<open>What is lost after \<open>n\<close> timeouts, whatever the inputs are.\<close>

definition deconfigured :: "cli_out list \<Rightarrow> bool" where
  "deconfigured outs \<longleftrightarrow> (\<exists>e f. CScript (ScriptRun ''deconfig'' e f) \<in> set outs)"

definition lost_after :: "nat \<Rightarrow> client_state \<Rightarrow> bool" where
  "lost_after n s \<longleftrightarrow> (\<forall>is. length is = n \<longrightarrow> (\<exists>s' outs. run_timeouts is s = Some (s', outs) \<and>
     cs_state s' = INIT_SELECTING \<and> listen_mode s' = LISTEN_RAW \<and> deconfigured outs))"

lemma lost_after_Suc:
  assumes "\<And>i. \<exists>s1 o1. on_timeout i s = Some (CliContinue s1 o1) \<and> lost_after n s1"
  shows "lost_after (Suc n) s"
  unfolding lost_after_def
proof (intro allI impI)
  fix "is" :: "cli_input list"
  assume "length is = Suc n"
  then obtain i js where is_eq: "is = i # js" "length js = n" by (cases "is") auto
  from assms obtain s1 o1 where s1: "on_timeout i s = Some (CliContinue s1 o1)" "lost_after n s1" by blast
  with is_eq(2) obtain s' outs where "run_timeouts js s1 = Some (s', outs)" "cs_state s' = INIT_SELECTING"
    "listen_mode s' = LISTEN_RAW" "deconfigured outs" by (auto simp: lost_after_def)
  with s1(1) is_eq(1) show "\<exists>s' outs. run_timeouts is s = Some (s', outs) \<and>
     cs_state s' = INIT_SELECTING \<and> listen_mode s' = LISTEN_RAW \<and> deconfigured outs"
    by (auto simp: deconfigured_def)
qed

lemma script0_Some:
  assumes "cc_script (cs_config s) = Some scr"
  shows "script0 i s name = Some [CScript (ScriptRun name (env_head (penv i s)) [])]"
  by (simp add: script0_def run_script_def assms)

text \<open>Each halving makes the interval shorter, as long as it is longer than the limit.\<close>

lemma half_shorter:
  assumes "(a :: u32) \<le> b" "\<not> b - a \<le> d + 1" "d + 1 \<noteq> 0"
  shows "unat (b - ((b - a) div 2 + a)) < unat (b - a)"
proof -
  have "0 < unat (d + 1)" using assms(3) by (simp add: unat_gt_0)
  moreover have "unat (d + 1) < unat (b - a)" using assms(2) by (simp add: word_le_nat_alt)
  moreover have "unat (b - ((b - a) div 2 + a)) = unat (b - a) - unat ((b - a) div 2)"
    by (simp add: diff_diff_eq [symmetric] diff_right_commute unat_sub word_le_nat_alt unat_div)
  moreover have "unat ((b - a) div 2) = unat (b - a) div 2" by (simp add: unat_div)
  ultimately show ?thesis by simp
qed

definition can_renew :: "client_state \<Rightarrow> bool" where
  "can_renew s \<longleftrightarrow> client_cfg_ok (cs_config s) \<and> cc_script (cs_config s) \<noteq> None"

lemma limit_positive: "(l :: u32) div 14400 + 1 \<noteq> 0"
proof
  assume "l div 14400 + 1 = 0"
  then have "l div 14400 = - 1" by (simp add: eq_neg_iff_add_eq_0)
  then have "unat (l div 14400) = 4294967295" by (simp add: unsigned_minus_1_eq_mask mask_eq_exp_minus_1)
  moreover have "unat (l div 14400) = unat l div 14400" by (simp add: unat_div)
  moreover have "unat l < 2 ^ LENGTH(32)" by (rule unsigned_less)
  ultimately show False by simp
qed

lemma rebinding_lost:
  assumes "a \<le> l"
  shows "\<exists>n. \<forall>s. cs_state s = REBINDING \<and> t2 s = a \<and> lease s = l \<and> can_renew s \<longrightarrow> lost_after n s"
  using assms
proof (induction "unat (l - a)" arbitrary: a rule: less_induct)
  case less
  show ?case
  proof (cases "l - a \<le> l div 14400 + 1")
    case True
    have "lost_after 1 s" if s: "cs_state s = REBINDING" "t2 s = a" "lease s = l" "can_renew s" for s
      unfolding lost_after_def
    proof (intro allI impI)
      fix "is" :: "cli_input list"
      assume "length is = 1"
      then obtain i where "is = [i]" by (cases "is") auto
      with s True show "\<exists>s' outs. run_timeouts is s = Some (s', outs) \<and>
          cs_state s' = INIT_SELECTING \<and> listen_mode s' = LISTEN_RAW \<and> deconfigured outs"
        by (auto simp: on_timeout_def rebinding_timeout_def script0_Some can_renew_def deconfigured_def)
    qed
    then show ?thesis by blast
  next
    case False
    let ?b = "(l - a) div 2 + a"
    have "unat (l - ?b) < unat (l - a)" using half_shorter [OF less.prems False limit_positive] .
    moreover have "?b \<le> l" using timer_half(2) [OF less.prems] .
    ultimately obtain n where n: "\<forall>s. cs_state s = REBINDING \<and> t2 s = ?b \<and> lease s = l \<and> can_renew s \<longrightarrow> lost_after n s"
      using less.hyps by blast
    have "lost_after (Suc n) s" if s: "cs_state s = REBINDING" "t2 s = a" "lease s = l" "can_renew s" for s
    proof (rule lost_after_Suc)
      fix i :: cli_input
      obtain r where "send_renew (ci_net i) (cs_config s) (cs_xid s) 0 (requested_ip s) = Some r"
        using s(4) unfolding can_renew_def by (elim conjE) (rule send_renew_Some)
      with s False n show "\<exists>s1 o1. on_timeout i s = Some (CliContinue s1 o1) \<and> lost_after n s1"
        by (simp add: on_timeout_def rebinding_timeout_def can_renew_def)
    qed
    then show ?thesis by blast
  qed
qed

lemma renewing_lost:
  assumes "a \<le> b" "b \<le> l"
  shows "\<exists>n. \<forall>s. cs_state s = RENEWING \<and> t1 s = a \<and> t2 s = b \<and> lease s = l \<and> can_renew s \<longrightarrow> lost_after n s"
  using assms(1)
proof (induction "unat (b - a)" arbitrary: a rule: less_induct)
  case less
  show ?case
  proof (cases "b - a \<le> l div 14400 + 1")
    case True
    from rebinding_lost [OF assms(2)] obtain n where
      n: "\<forall>s. cs_state s = REBINDING \<and> t2 s = b \<and> lease s = l \<and> can_renew s \<longrightarrow> lost_after n s" by blast
    have "lost_after (Suc n) s" if "cs_state s = RENEWING" "t1 s = a" "t2 s = b" "lease s = l" "can_renew s" for s
      using that True n
      by (intro lost_after_Suc) (simp add: on_timeout_def renewing_timeout_def can_renew_def)
    then show ?thesis by blast
  next
    case False
    let ?c = "(b - a) div 2 + a"
    have "unat (b - ?c) < unat (b - a)" using half_shorter [OF less.prems False limit_positive] .
    moreover have "?c \<le> b" using timer_half(2) [OF less.prems] .
    ultimately obtain n where
      n: "\<forall>s. cs_state s = RENEWING \<and> t1 s = ?c \<and> t2 s = b \<and> lease s = l \<and> can_renew s \<longrightarrow> lost_after n s"
      using less.hyps by blast
    have "lost_after (Suc n) s" if s: "cs_state s = RENEWING" "t1 s = a" "t2 s = b" "lease s = l" "can_renew s" for s
    proof (rule lost_after_Suc)
      fix i :: cli_input
      obtain r where "send_renew (ci_net i) (cs_config s) (cs_xid s) (server_addr s) (requested_ip s) = Some r"
        using s(5) unfolding can_renew_def by (elim conjE) (rule send_renew_Some)
      with s False n show "\<exists>s1 o1. on_timeout i s = Some (CliContinue s1 o1) \<and> lost_after n s1"
        by (simp add: on_timeout_def renewing_timeout_def can_renew_def)
    qed
    then show ?thesis by blast
  qed
qed

lemma bound_lost:
  assumes "cs_state s = BOUND" "lost_after n (change_mode LISTEN_KERNEL (s\<lparr>cs_state := RENEWING\<rparr>))"
  shows "lost_after n s"
proof -
  let ?s = "change_mode LISTEN_KERNEL (s\<lparr>cs_state := RENEWING\<rparr>)"
  have "on_timeout i s = on_timeout i ?s" for i using assms(1) by (simp add: on_timeout_def)
  then have "run_timeouts is s = run_timeouts is ?s" if "is \<noteq> []" for "is"
    using that by (cases "is") simp_all
  moreover have "n \<noteq> 0"
  proof
    assume "n = 0"
    with assms(2) show False by (simp add: lost_after_def deconfigured_def)
  qed
  ultimately show ?thesis using assms(2) by (fastforce simp: lost_after_def)
qed

text \<open>
  C4. A client with a lease that hears nothing from any server gives the lease up: there is a
  number of timeouts after which, whatever the clock showed and whatever became of the
  packets, it has run the script to deconfigure the interface and is back in the initial
  state, on the raw socket. The halving of the renewal intervals ends.
\<close>

theorem silent_server_lease_lost:
  assumes "cs_state s \<in> {BOUND, RENEWING, REBINDING}" "t1 s \<le> t2 s" "t2 s \<le> lease s"
    and "client_cfg_ok (cs_config s)" "cc_script (cs_config s) \<noteq> None"
  shows "\<exists>n. \<forall>is. length is = n \<longrightarrow> (\<exists>s' outs. run_timeouts is s = Some (s', outs) \<and>
     cs_state s' = INIT_SELECTING \<and> listen_mode s' = LISTEN_RAW \<and>
     (\<exists>e f. CScript (ScriptRun ''deconfig'' e f) \<in> set outs))"
proof -
  have can: "can_renew s" using assms(4,5) by (simp add: can_renew_def)
  let ?s = "change_mode LISTEN_KERNEL (s\<lparr>cs_state := RENEWING\<rparr>)"
  have "\<exists>n. lost_after n s"
  proof (cases "cs_state s = BOUND")
    case True
    have "can_renew ?s" using can by (simp add: can_renew_def)
    moreover obtain n where "\<forall>s'. cs_state s' = RENEWING \<and> t1 s' = t1 s \<and> t2 s' = t2 s \<and>
        lease s' = lease s \<and> can_renew s' \<longrightarrow> lost_after n s'"
      using renewing_lost [OF assms(2,3)] by blast
    ultimately have "lost_after n ?s" by simp
    with bound_lost [OF True] show ?thesis by blast
  next
    case False
    with assms(1) can renewing_lost [OF assms(2,3)] rebinding_lost [OF assms(3)] show ?thesis by blast
  qed
  then show ?thesis by (simp add: lost_after_def deconfigured_def)
qed

section \<open>Getting a lease\<close>

lemma on_timeout_not_bound: "on_timeout i s = Some (CliContinue s' outs) \<Longrightarrow> cs_state s' \<noteq> BOUND"
  by (cases "cs_state s")
     (auto simp: on_timeout_def init_timeout_def request_timeout_def renewing_timeout_def
       rebinding_timeout_def Let_def dest!: client_background_continue split: if_splits bind_splits)

lemma signals_not_bound:
  "signal_step perform_renew i s = Some (CliContinue s' outs) \<Longrightarrow> cs_state s' \<noteq> BOUND"
  "signal_step perform_release i s = Some (CliContinue s' outs) \<Longrightarrow> cs_state s' \<noteq> BOUND"
  by (cases "cs_state s";
      auto simp: signal_step_def perform_renew_def perform_release_def split: bind_splits if_splits)+

lemma on_message_bound:
  assumes "on_message i s m = Some (CliContinue s' outs)" "cs_state s \<noteq> BOUND" "cs_state s' = BOUND"
  shows "on_ack i s = Some (CliContinue s' outs)" "m = DHCPACK"
    "cs_state s \<in> {REQUESTING, RENEW_REQUESTED, RENEWING, REBINDING}"
  using assms
  by (auto simp: on_message_def on_offer_def on_nak_def dest!: script1_state
      split: cstate.splits if_splits bind_splits option.splits)

text \<open>
  C5. The client becomes bound only by an acknowledgement: a packet that was received in this
  turn, that carries its transaction number and its hardware address and the message type
  DHCPACK, in a state in which it asked for a lease. The address and the times of its state
  are then those of that packet.
\<close>

theorem bound_only_by_ack:
  assumes "udhcpc_step i s = Some (CliContinue s' outs)" "cs_state s \<noteq> BOUND" "cs_state s' = BOUND"
  shows "cs_state s \<in> {REQUESTING, RENEW_REQUESTED, RENEWING, REBINDING} \<and>
    (\<exists>rx eintr sig len p ptr l. ci_select i = CReady (Some rx) eintr sig \<and>
      (if listen_mode s = LISTEN_KERNEL then udhcp_get_packet rx else get_raw_packet (cs_packet s) rx)
        = Some (len, p) \<and>
      xid p = cs_xid s \<and> take 6 (chaddr p) = take 6 (cc_arp (cs_config s)) \<and>
      get_option p DHCP_MESSAGE_TYPE = Some (Some ptr) \<and> ptr_rd p ptr 0 = Some DHCPACK \<and>
      ack_lease p = Some l \<and> requested_ip s' = yiaddr p \<and> lease s' = l \<and> t1 s' = l div 2 \<and>
      timeout s' = l div 2 + ci_now i)"
  using assms(1)
proof (cases rule: udhcpc_step_cases)
  case (rx s1 d eintr sig)
  from rx(2) show ?thesis
  proof (cases rule: on_packet_cases)
    case (dropped p)
    with rx(1) assms(2,3) show ?thesis by auto
  next
    case (accepted p m ptr len)
    let ?s = "s1\<lparr>cs_packet := p\<rparr>"
    have nb: "cs_state ?s \<noteq> BOUND" using assms(2) rx(1) by simp
    note m = on_message_bound [OF accepted(1) nb assms(3)]
    from on_ack_bound [OF m(1)] obtain l where "ack_lease p = Some l" "requested_ip s' = yiaddr p"
      "lease s' = l" "t1 s' = l div 2" "timeout s' = l div 2 + ci_now i" by auto
    moreover have "cs_state s \<in> {REQUESTING, RENEW_REQUESTED, RENEWING, REBINDING}"
      using m(3) rx(1) by simp
    moreover have "(if listen_mode s = LISTEN_KERNEL then udhcp_get_packet d else get_raw_packet (cs_packet s) d)
        = Some (len, p)" using accepted(7) unfolding rx(1) by (simp split: if_splits)
    ultimately show ?thesis
      using accepted(2-5) m(2) rx(1,4)
      by (intro conjI exI [of _ d] exI [of _ eintr] exI [of _ sig] exI [of _ len] exI [of _ p] exI [of _ ptr]
          exI [of _ l]) simp_all
  qed
qed (use assms(2,3) on_timeout_not_bound signals_not_bound in \<open>auto\<close>)

text \<open>
  An infinite lease (0xFFFFFFFF) overflows the computation of the rebinding time: the client
  that accepts it has its rebinding time before its renewal time.
\<close>

lemma infinite_lease_timers:
  assumes "on_ack i s = Some (CliContinue s' outs)" "ack_lease (cs_packet s) = Some 0xFFFFFFFF"
  shows "t1 s' = 0x7FFFFFFF \<and> t2 s' = 0x1FFFFFFF \<and> t2 s' < t1 s'"
  using on_ack_bound [OF assms(1)] assms(2) by (auto simp: drop_bit_eq_div)

text \<open>
  The parameter request list is written without a check of the bounds: when the options in
  front of it leave fewer than eleven bytes, the write runs over the end of the message.
\<close>

lemma add_requests_overruns:
  assumes "holds p ts" "298 \<le> length (enc ts)"
  shows "add_requests p = None"
  using add_requests_overflow [OF assms(1)] assms(2) by simp

section \<open>Witnesses\<close>

definition sample_client :: client_config_t where
  "sample_client = client_config_init\<lparr>vendorclass := Some [60, 5, 117, 100, 104, 99, 112],
     cc_arp := [2, 0, 0, 0, 0, 1], foreground := True\<rparr>"

definition sample_cenv :: send_env where
  "sample_cenv = \<lparr>sock_ok = True, setsockopt_ok = True, bind_ok = True, connect_ok = True, sent = 576\<rparr>"

definition sample_input :: cli_input where
  "sample_input = \<lparr>ci_uptime = 100, ci_now = 100, ci_socket_ok = True, ci_daemon_ok = True,
     ci_select = CTimeout, ci_random = 7, ci_net = sample_cenv, ci_path = None, ci_home = None\<rparr>"

theorem client_reach_inv_witness:
  "\<exists>s0 outs. client_start sample_input sample_client 0 = Some (s0, outs) \<and> listen_mode s0 = LISTEN_RAW"
proof -
  have "\<exists>s0 outs. client_start sample_input sample_client 0 = Some (s0, outs) \<and> cs_state s0 = INIT_SELECTING"
    by (simp add: client_start_def script0_def run_script_def sample_client_def client_config_init_def Let_def)
  then obtain s0 outs where s: "client_start sample_input sample_client 0 = Some (s0, outs)"
    "cs_state s0 = INIT_SELECTING" by blast
  from client_reach_inv [OF s(1) cli_reach.start] s show ?thesis by auto
qed

lemma sample_cfg_tlvs: "cfg_tlvs sample_client = [(60, [117, 100, 104, 99, 112])]"
  by (simp add: cfg_tlvs_def cfg_strings_def sample_client_def client_config_init_def)

lemma sample_client_ok: "client_cfg_ok sample_client"
proof -
  have "list_all is_tlv (cfg_strings sample_client)"
    by (simp add: cfg_strings_def sample_client_def client_config_init_def is_tlv_def code_ok_def dhcp_code_defs)
  then show ?thesis
    unfolding client_cfg_ok_def sample_cfg_tlvs by (simp add: sample_client_def)
qed

lemma selecting_packet_content_example:
  "\<exists>p. selecting_packet sample_client 7 0xFE00000A 0x0100000A = Some p \<and>
     option_data p DHCP_SERVER_ID = Some (Some [10, 0, 0, 254])"
  using selecting_packet_content [OF sample_client_ok, of 7 "0xFE00000A" "0x0100000A"]
  by (auto simp: sample_cfg_tlvs dhcp_code_defs le32_def)

definition sample_bound :: client_state where
  "sample_bound = \<lparr>cs_config = sample_client, cs_state = BOUND, requested_ip = 0x0100000A,
     server_addr = 0xFE00000A, timeout = 1900, packet_num = 0, sock_open = False, listen_mode = LISTEN_NONE,
     t1 = 1800, t2 = 3150, cs_xid = 7, start = 100, lease = 3600, cs_packet = zero_msg\<rparr>"

theorem silent_server_lease_lost_witness:
  "\<exists>n. \<forall>is. length is = n \<longrightarrow> (\<exists>s' outs. run_timeouts is sample_bound = Some (s', outs) \<and>
     cs_state s' = INIT_SELECTING)"
proof -
  have "cs_state sample_bound \<in> {BOUND, RENEWING, REBINDING}" "t1 sample_bound \<le> t2 sample_bound"
    "t2 sample_bound \<le> lease sample_bound" "client_cfg_ok (cs_config sample_bound)"
    "cc_script (cs_config sample_bound) \<noteq> None"
    using sample_client_ok
    by (simp_all add: sample_bound_def) (simp add: sample_client_def client_config_init_def)
  from silent_server_lease_lost [OF this] show ?thesis by blast
qed

text \<open>A renewing client without a script, and the acknowledgement it receives.\<close>

definition sample_ack :: dhcpMessage where
  "sample_ack = sample_msg\<lparr>msg_op := 2, yiaddr := 0x0100000A,
     options := [53, 1, 5, 51, 4, 0, 0, 14, 16, 255] @ replicate 298 0\<rparr>"

definition sample_renewing :: client_state where
  "sample_renewing = sample_bound\<lparr>cs_config := sample_client\<lparr>cc_script := None\<rparr>, cs_state := RENEWING,
     listen_mode := LISTEN_KERNEL\<rparr>"

definition sample_acked :: cli_input where
  "sample_acked = sample_input\<lparr>ci_select := CReady (Some (Some (msg_bytes sample_ack))) False 0\<rparr>"

lemma sample_ack_received: "udhcp_get_packet (Some (msg_bytes sample_ack)) = Some (548, sample_ack)"
proof -
  have wf: "msg_wf sample_ack" by (simp add: msg_wf_def sample_ack_def sample_msg_def)
  have len: "length (msg_bytes sample_ack) = 548" by (rule length_msg_bytes [OF wf])
  then have "msg_of_bytes (read_zeroed 548 (msg_bytes sample_ack)) = sample_ack"
    using msg_of_bytes_msg_bytes [OF wf, of "[]"] by (simp add: read_zeroed_def)
  moreover have "ntohl (cookie sample_ack) = DHCP_MAGIC" "msg_op sample_ack \<noteq> BOOTREQUEST"
    by (simp_all add: sample_ack_def sample_msg_def DHCP_MAGIC_def BOOTREQUEST_def)
  ultimately show ?thesis by (simp add: udhcp_get_packet_def len)
qed

lemma sample_ack_options:
  "get_option sample_ack DHCP_MESSAGE_TYPE = Some (Some (OPTION_FIELD, 2))"
  "ptr_rd sample_ack (OPTION_FIELD, 2) 0 = Some DHCPACK" "ack_lease sample_ack = Some 3600"
  by code_simp+

theorem bound_only_by_ack_witness:
  "\<exists>s' outs. udhcpc_step sample_acked sample_renewing = Some (CliContinue s' outs) \<and> cs_state s' = BOUND \<and>
     requested_ip s' = 0x0100000A \<and> lease s' = 3600"
proof -
  let ?s = "sample_renewing\<lparr>sock_open := True, cs_packet := sample_ack\<rparr>"
  have ack: "\<exists>s' outs. on_ack sample_acked ?s = Some (CliContinue s' outs) \<and> cs_state s' = BOUND"
    by (simp add: on_ack_def sample_ack_options script1_def run_script_def sample_renewing_def sample_bound_def
        sample_client_def client_config_init_def)
  have f: "xid sample_ack = 7" "take 6 (chaddr sample_ack) = [2, 0, 0, 0, 0, 1]"
    by (simp_all add: sample_ack_def sample_msg_def)
  have pk: "on_packet sample_acked (sample_renewing\<lparr>sock_open := True\<rparr>) (Some (msg_bytes sample_ack)) False =
      on_ack sample_acked ?s"
    using sample_ack_options(2)
    by (simp add: on_packet_def sample_ack_received sample_ack_options(1) on_message_def our_server_def rd_def
        sample_renewing_def sample_bound_def sample_client_def client_config_init_def f)
  have "udhcpc_step sample_acked sample_renewing = on_ack sample_acked ?s"
    unfolding pk [symmetric]
    by (simp add: udhcpc_step_def sample_acked_def sample_input_def sample_renewing_def sample_bound_def)
  with ack obtain s' outs where s': "udhcpc_step sample_acked sample_renewing = Some (CliContinue s' outs)"
    "cs_state s' = BOUND" by auto
  have "cs_state sample_renewing \<noteq> BOUND" "listen_mode sample_renewing = LISTEN_KERNEL"
    by (simp_all add: sample_renewing_def)
  with bound_only_by_ack [OF s'(1) _ s'(2)] s' sample_ack_received sample_ack_options(3)
  show ?thesis by (auto simp: sample_acked_def sample_ack_def)
qed

lemma infinite_lease_timers_example:
  "\<exists>s' outs. on_ack sample_input (sample_renewing\<lparr>cs_packet := sample_ack\<lparr>options :=
      [53, 1, 5, 51, 4, 255, 255, 255, 255, 255] @ replicate 298 0\<rparr>\<rparr>) = Some (CliContinue s' outs) \<and> t2 s' < t1 s'"
proof -
  let ?p = "sample_ack\<lparr>options := [53, 1, 5, 51, 4, 255, 255, 255, 255, 255] @ replicate 298 0\<rparr>"
  let ?s = "sample_renewing\<lparr>cs_packet := ?p\<rparr>"
  have l: "ack_lease ?p = Some 0xFFFFFFFF" by code_simp
  then have "\<exists>s' outs. on_ack sample_input ?s = Some (CliContinue s' outs)"
    by (simp add: on_ack_def script1_def run_script_def sample_renewing_def sample_bound_def
        sample_client_def client_config_init_def)
  then obtain s' outs where s': "on_ack sample_input ?s = Some (CliContinue s' outs)" by blast
  from infinite_lease_timers [OF s'] l s' show ?thesis by auto
qed

definition full_msg :: dhcpMessage where
  "full_msg = sample_msg\<lparr>options := enc [(61, replicate 250 1), (12, replicate 44 65)] @ [255] @ replicate 9 0\<rparr>"

lemma add_requests_overruns_example:
  "holds full_msg [(61, replicate 250 1), (12, replicate 44 65)] \<and> add_requests full_msg = None"
proof -
  have h: "holds full_msg [(61, replicate 250 1), (12, replicate 44 65)]"
    by (simp add: holds_def full_msg_def tlv_ok_def code_ok_def dhcp_code_defs)
  from add_requests_overruns [OF h] h show ?thesis by simp
qed

end
