(* ===== verification/Udhcp_Arp.thy ===== *)
theory Udhcp_Arp
  imports Udhcp_Packet
begin

text \<open>
  \<open>arpping.c\<close>: the probe that the server sends before it hands out an address. What the
  socket and \<open>select\<close> deliver in each round of the waiting loop is a list of events, each with
  the seconds that passed; \<open>None\<close> is a list that ends before the loop does.
\<close>

record arpMsg =
  h_dest :: bytes
  h_source :: bytes
  h_proto :: u16
  arp_htype :: u16
  arp_ptype :: u16
  arp_hlen :: byte
  arp_plen :: byte
  operation :: u16
  sHaddr :: bytes
  sInaddr :: bytes
  tHaddr :: bytes
  tInaddr :: bytes
  arp_pad :: bytes

definition arp_bytes :: "arpMsg \<Rightarrow> bytes" where
  "arp_bytes m = h_dest m @ h_source m @ le16 (h_proto m) @ le16 (arp_htype m) @ le16 (arp_ptype m) @
     [arp_hlen m, arp_plen m] @ le16 (operation m) @ sHaddr m @ sInaddr m @ tHaddr m @ tInaddr m @ arp_pad m"

definition arp_of_bytes :: "bytes \<Rightarrow> arpMsg" where
  "arp_of_bytes b = \<lparr>h_dest = take 6 b, h_source = take 6 (drop 6 b), h_proto = u16_at b 12,
     arp_htype = u16_at b 14, arp_ptype = u16_at b 16, arp_hlen = b ! 18, arp_plen = b ! 19,
     operation = u16_at b 20, sHaddr = take 6 (drop 22 b), sInaddr = take 4 (drop 28 b),
     tHaddr = take 6 (drop 32 b), tInaddr = take 4 (drop 38 b), arp_pad = take 18 (drop 42 b)\<rparr>"

definition arp_wf :: "arpMsg \<Rightarrow> bool" where
  "arp_wf m \<longleftrightarrow> length (h_dest m) = 6 \<and> length (h_source m) = 6 \<and> length (sHaddr m) = 6 \<and>
     length (sInaddr m) = 4 \<and> length (tHaddr m) = 6 \<and> length (tInaddr m) = 4 \<and> length (arp_pad m) = 18"

definition ETH_P_ARP :: u16 where "ETH_P_ARP = 0x0806"
definition ETH_P_IP :: u16 where "ETH_P_IP = 0x0800"
definition ARPHRD_ETHER :: u16 where "ARPHRD_ETHER = 1"
definition ARPOP_REQUEST :: u16 where "ARPOP_REQUEST = 1"
definition ARPOP_REPLY :: u16 where "ARPOP_REPLY = 2"

definition arp_request :: "u32 \<Rightarrow> u32 \<Rightarrow> bytes \<Rightarrow> arpMsg" where
  "arp_request yi src mac = \<lparr>h_dest = MAC_BCAST_ADDR, h_source = take 6 mac, h_proto = htons ETH_P_ARP,
     arp_htype = htons ARPHRD_ETHER, arp_ptype = htons ETH_P_IP, arp_hlen = 6, arp_plen = 4,
     operation = htons ARPOP_REQUEST, sHaddr = take 6 mac, sInaddr = le32 src,
     tHaddr = replicate 6 0, tInaddr = le32 yi, arp_pad = replicate 18 0\<rparr>"

datatype arp_event =
    ArpSelectError (ev_eintr: bool) (ev_time: int)
  | ArpNothing (ev_time: int)
  | ArpRecv (ev_data: "bytes option") (ev_time: int)

text \<open>\<open>recv\<close> writes into the structure that held the request, or what was received before.\<close>

definition arp_recv :: "arpMsg \<Rightarrow> bytes \<Rightarrow> arpMsg" where
  "arp_recv m d = arp_of_bytes (take 60 d @ drop (length d) (arp_bytes m))"

definition arp_matches :: "u32 \<Rightarrow> bytes \<Rightarrow> arpMsg \<Rightarrow> bool" where
  "arp_matches yi mac m \<longleftrightarrow> operation m = htons ARPOP_REPLY \<and> tHaddr m = take 6 mac \<and> sInaddr m = le32 yi"

fun arp_wait :: "u32 \<Rightarrow> bytes \<Rightarrow> int \<Rightarrow> int \<Rightarrow> arpMsg \<Rightarrow> arp_event list \<Rightarrow> int option" where
  "arp_wait yi mac tmo rv m es =
     (if tmo \<le> 0 then Some rv
      else case es of
        [] \<Rightarrow> None
      | ArpSelectError eintr t # rest \<Rightarrow> arp_wait yi mac (tmo - t) (if eintr then rv else 0) m rest
      | ArpNothing t # rest \<Rightarrow> arp_wait yi mac (tmo - t) rv m rest
      | ArpRecv d t # rest \<Rightarrow>
          (let rv1 = (case d of None \<Rightarrow> 0 | Some _ \<Rightarrow> rv);
               m1 = (case d of None \<Rightarrow> m | Some x \<Rightarrow> arp_recv m x)
           in if arp_matches yi mac m1 then Some 0 else arp_wait yi mac (tmo - t) rv1 m1 rest))"

declare arp_wait.simps [simp del]

record arp_env =
  arp_sock_ok :: bool
  arp_setsockopt_ok :: bool
  arp_send_ok :: bool

definition arpping :: "arp_env \<Rightarrow> arp_event list \<Rightarrow> u32 \<Rightarrow> u32 \<Rightarrow> bytes \<Rightarrow> int option" where
  "arpping e es yi src mac =
     (if \<not> arp_sock_ok e then Some (-1)
      else if \<not> arp_setsockopt_ok e then Some (-1)
      else arp_wait yi mac 2 (if arp_send_ok e then 1 else 0) (arp_request yi src mac) es)"

section \<open>Lemmas\<close>

lemma length_arp_bytes: "arp_wf m \<Longrightarrow> length (arp_bytes m) = 60"
  by (simp add: arp_bytes_def arp_wf_def)

lemma arp_of_bytes_arp_bytes: "arp_wf m \<Longrightarrow> arp_of_bytes (arp_bytes m) = m"
  by (cases m) (simp add: arp_of_bytes_def arp_bytes_def arp_wf_def le16_def u16_at_def nth_append)

lemma arp_recv_frame: "arp_wf r \<Longrightarrow> arp_wf m \<Longrightarrow> arp_recv m (arp_bytes r @ pad) = r"
  using length_arp_bytes [of r] length_arp_bytes [of m] by (simp add: arp_recv_def arp_of_bytes_arp_bytes)

lemma arp_wf_of_bytes: "60 \<le> length b \<Longrightarrow> arp_wf (arp_of_bytes b)"
  by (simp add: arp_of_bytes_def arp_wf_def)

lemma arp_recv_wf: "arp_wf m \<Longrightarrow> arp_wf (arp_recv m d)"
  unfolding arp_recv_def by (rule arp_wf_of_bytes) (simp add: length_arp_bytes)

lemma arp_request_wf: "6 \<le> length mac \<Longrightarrow> arp_wf (arp_request yi src mac)"
  by (simp add: arp_request_def arp_wf_def MAC_BCAST_ADDR_def)

definition ev_elapsed :: "arp_event list \<Rightarrow> int" where
  "ev_elapsed es = sum_list (map ev_time es)"

lemma ev_elapsed_nonneg: "list_all (\<lambda>e. 0 \<le> ev_time e) es \<Longrightarrow> 0 \<le> ev_elapsed es"
  by (induction es) (auto simp: ev_elapsed_def)

lemma arp_wait_reply:
  assumes "arp_wf m" "arp_wf r" "arp_matches yi mac r" "list_all (\<lambda>e. 0 \<le> ev_time e) pre"
    and "ev_elapsed pre < tmo"
  shows "arp_wait yi mac tmo rv m (pre @ ArpRecv (Some (arp_bytes r @ pad)) t # post) = Some 0"
  using assms(1,4,5)
proof (induction pre arbitrary: tmo rv m)
  case Nil
  with arp_recv_frame [OF assms(2)] assms(3) show ?case
    by (subst arp_wait.simps) (simp add: ev_elapsed_def)
next
  case (Cons e pre)
  have pos: "0 \<le> ev_elapsed pre" using ev_elapsed_nonneg Cons.prems(2) by simp
  with Cons.prems have "\<not> tmo \<le> 0" "ev_elapsed pre < tmo - ev_time e"
    by (simp_all add: ev_elapsed_def)
  with Cons show ?case
    by (subst arp_wait.simps) (cases e; auto simp: Let_def arp_recv_wf split: option.splits)
qed

section \<open>Properties\<close>

text \<open>
  A host that has the address and answers before two seconds have passed is noticed: the
  probe returns 0, whatever other packets, timeouts and errors come before the answer.
\<close>

lemma arpping_detects_reply:
  assumes "arp_sock_ok e" "arp_setsockopt_ok e" "6 \<le> length mac"
    and "arp_wf r" "operation r = htons ARPOP_REPLY" "tHaddr r = take 6 mac" "sInaddr r = le32 yi"
    and "list_all (\<lambda>ev. 0 \<le> ev_time ev) pre" "ev_elapsed pre < 2"
  shows "arpping e (pre @ ArpRecv (Some (arp_bytes r @ pad)) t # post) yi src mac = Some 0"
  using assms arp_wait_reply [OF arp_request_wf]
  by (simp add: arpping_def arp_matches_def)

section \<open>Witnesses\<close>

definition sample_reply :: arpMsg where
  "sample_reply = (arp_request 0x0100000A 0xFE00000A [2, 0, 0, 0, 0, 9])\<lparr>operation := htons ARPOP_REPLY,
     sInaddr := le32 0x0100000A, tHaddr := [2, 0, 0, 0, 0, 9]\<rparr>"

lemma arpping_detects_reply_example:
  "arpping \<lparr>arp_sock_ok = True, arp_setsockopt_ok = True, arp_send_ok = True\<rparr>
     ([ArpNothing 1, ArpSelectError True 0] @ ArpRecv (Some (arp_bytes sample_reply @ [0])) 0 # [])
     0x0100000A 0xFE00000A [2, 0, 0, 0, 0, 9] = Some 0"
  by (rule arpping_detects_reply)
     (simp_all add: sample_reply_def arp_request_def arp_wf_def MAC_BCAST_ADDR_def ev_elapsed_def)

end
