(* ===== verification/Expr.thy ===== *)
theory Expr
  imports C_Lib
begin

text \<open>
  The applet \<open>expr\<close> (\<open>coreutils/expr.c\<close>), in its default configuration, where \<open>arith_t\<close> is
  \<open>long\<close>. The parser of the source evaluates while it reads: every function takes the rest
  of the argument vector \<open>args\<close> and returns a value with what is left of it. A call of
  \<open>bb_error_msg_and_die\<close> is a value of \<open>expr_error\<close>, and so is undefined behaviour of C, such as
  a signed overflow. The functions \<open>regcomp\<close> and \<open>regexec\<close> of the C library are a parameter.
  Strings are shorter than \<open>2 ^ 31\<close> characters.

  The specification is a syntax tree with a semantics of its own; the theorem says that the
  applet computes the semantics of every tree from the usual way to write it down.
\<close>

section \<open>Values\<close>

datatype valinfo = VInteger int | VString string

datatype expr_error = Too_few_arguments | Syntax_error | Non_numeric | Division_by_zero
  | Invalid_regex | Undefined

type_synonym 'a expr_result = "expr_error + 'a"

text \<open>A result of type \<open>long\<close>.\<close>

definition long_ok :: "int \<Rightarrow> bool" where
  "long_ok i \<longleftrightarrow> - (2 ^ 31) \<le> i \<and> i < 2 ^ 31"

definition to_long :: "int \<Rightarrow> int expr_result" where
  "to_long i = (if long_ok i then Inr i else Inl Undefined)"

definition null_value :: "valinfo \<Rightarrow> bool" where
  "null_value v =
     (case v of VInteger i \<Rightarrow> i = 0 | VString s \<Rightarrow> s = '''' \<or> s = ''0'')"

definition fmt_ld :: "int \<Rightarrow> string" where
  "fmt_ld i = map (\<lambda>b. char_of (unat b)) (dec_int i)"

definition tostring :: "valinfo \<Rightarrow> string" where
  "tostring v = (case v of VInteger i \<Rightarrow> fmt_ld i | VString s \<Rightarrow> s)"

text \<open>The value after the coercion; \<open>None\<close> when the function returns 0 and leaves it unchanged.\<close>

definition toarith :: "valinfo \<Rightarrow> int option" where
  "toarith v =
     (case v of
        VInteger i \<Rightarrow> Some i
      | VString s \<Rightarrow> (case strtol 10 s of (i, e) \<Rightarrow> if e = s \<or> e \<noteq> '''' then None else Some i))"

definition coerced :: "valinfo \<Rightarrow> valinfo" where
  "coerced v = (case toarith v of None \<Rightarrow> v | Some i \<Rightarrow> VInteger i)"

definition nextarg :: "string list \<Rightarrow> string \<Rightarrow> bool" where
  "nextarg args str = (case args of [] \<Rightarrow> False | a # _ \<Rightarrow> a = str)"

lemma nextarg_simps [simp]: "nextarg [] s = False" "nextarg (a # as) s \<longleftrightarrow> a = s"
  by (simp_all add: nextarg_def)

section \<open>Operators\<close>

datatype cmp_op = Op_lt | Op_le | Op_eq | Op_ne | Op_gt | Op_ge

datatype arith_op = Op_add | Op_sub | Op_mul | Op_div | Op_mod

definition cmp_test :: "cmp_op \<Rightarrow> int \<Rightarrow> bool" where
  "cmp_test op cmpval =
     (case op of
        Op_lt \<Rightarrow> cmpval < 0 | Op_le \<Rightarrow> cmpval \<le> 0 | Op_eq \<Rightarrow> cmpval = 0
      | Op_ne \<Rightarrow> cmpval \<noteq> 0 | Op_gt \<Rightarrow> cmpval > 0 | Op_ge \<Rightarrow> cmpval \<ge> 0)"

definition cmp_common :: "valinfo \<Rightarrow> valinfo \<Rightarrow> cmp_op \<Rightarrow> int expr_result" where
  "cmp_common l r op =
     bind_res
       (case (l, r) of
          (VInteger i, VInteger j) \<Rightarrow> to_long (i - j)
        | _ \<Rightarrow> Inr (strcmp_sign (tostring l) (tostring r)))
       (\<lambda>cmpval. Inr (of_bool (cmp_test op cmpval)))"

text \<open>Division of C truncates towards zero; the remainder has the sign of the dividend.\<close>

definition quot :: "int \<Rightarrow> int \<Rightarrow> int" where
  "quot i j = sgn i * sgn j * (\<bar>i\<bar> div \<bar>j\<bar>)"

definition remainder :: "int \<Rightarrow> int \<Rightarrow> int" where
  "remainder i j = i - j * quot i j"

definition arithmetic_common :: "valinfo \<Rightarrow> valinfo \<Rightarrow> arith_op \<Rightarrow> int expr_result" where
  "arithmetic_common l r op =
     (case (toarith l, toarith r) of
        (Some li, Some ri) \<Rightarrow>
          if op \<in> {Op_div, Op_mod} \<and> ri = 0 then Inl Division_by_zero
          else (case op of
                  Op_add \<Rightarrow> to_long (li + ri)
                | Op_sub \<Rightarrow> to_long (li - ri)
                | Op_mul \<Rightarrow> to_long (li * ri)
                | Op_div \<Rightarrow> to_long (quot li ri)
                | Op_mod \<Rightarrow> bind_res (to_long (quot li ri)) (\<lambda>_. to_long (remainder li ri)))
      | _ \<Rightarrow> Inl Non_numeric)"

text \<open>
  \<open>regcomp\<close> gives \<open>re_nsub\<close>, or \<open>None\<close> for an invalid pattern; \<open>regexec\<close> gives the offsets of the
  match and of the first group, or \<open>None\<close> for \<open>REG_NOMATCH\<close>. The offsets of a group that took
  no part in the match are \<open>-1\<close>.
\<close>

record regex_lib =
  regcomp :: "string \<Rightarrow> nat option"
  regexec :: "string \<Rightarrow> string \<Rightarrow> ((int \<times> int) \<times> (int \<times> int)) option"

text \<open>
  The string at offset \<open>so\<close> after a zero was written at offset \<open>eo\<close>; the zero at the end of the
  string is at offset \<open>length s\<close>.
\<close>

definition cut_string :: "string \<Rightarrow> int \<Rightarrow> int \<Rightarrow> string expr_result" where
  "cut_string s so eo =
     (if 0 \<le> eo \<and> eo \<le> int (length s) \<and> 0 \<le> so \<and> so \<le> int (length s)
      then Inr (if so \<le> eo then drop (nat so) (take (nat eo) s) else drop (nat so) s)
      else Inl Undefined)"

definition docolon :: "regex_lib \<Rightarrow> valinfo \<Rightarrow> valinfo \<Rightarrow> valinfo expr_result" where
  "docolon rx sv pv =
     (let s = tostring sv; p = tostring pv in
      case regcomp rx p of
        None \<Rightarrow> Inl Invalid_regex
      | Some re_nsub \<Rightarrow>
          (case regexec rx p s of
             Some ((so0, eo0), (so1, eo1)) \<Rightarrow>
               if so0 = 0 then
                 if re_nsub > 0 then bind_res (cut_string s so1 eo1) (\<lambda>t. Inr (VString t))
                 else Inr (VInteger eo0)
               else if re_nsub > 0 then Inr (VString '''') else Inr (VInteger 0)
           | None \<Rightarrow> if re_nsub > 0 then Inr (VString '''') else Inr (VInteger 0)))"

definition index_value :: "valinfo \<Rightarrow> valinfo \<Rightarrow> valinfo" where
  "index_value l r =
     (let s = tostring l;
          i = length (takeWhile (\<lambda>c. c \<notin> set (tostring r)) s) + 1
      in VInteger (if i = length s + 1 then 0 else int i))"

definition substr_value :: "valinfo \<Rightarrow> valinfo \<Rightarrow> valinfo \<Rightarrow> valinfo" where
  "substr_value l i1 i2 =
     (let s = tostring l in
      case (toarith i1, toarith i2) of
        (Some i, Some n) \<Rightarrow>
          if i > int (length s) \<or> i \<le> 0 \<or> n \<le> 0 then VString ''''
          else VString (take (nat n) (drop (nat (i - 1)) s))
      | _ \<Rightarrow> VString '''')"

section \<open>The parser\<close>

definition op4 :: "string list \<Rightarrow> arith_op option" where
  "op4 args =
     (if nextarg args ''*'' then Some Op_mul
      else if nextarg args ''/'' then Some Op_div
      else if nextarg args ''%'' then Some Op_mod
      else None)"

definition op3 :: "string list \<Rightarrow> arith_op option" where
  "op3 args =
     (if nextarg args ''+'' then Some Op_add
      else if nextarg args ''-'' then Some Op_sub
      else None)"

definition op2 :: "string list \<Rightarrow> cmp_op option" where
  "op2 args =
     (if nextarg args ''<'' then Some Op_lt
      else if nextarg args ''<='' then Some Op_le
      else if nextarg args ''='' \<or> nextarg args ''=='' then Some Op_eq
      else if nextarg args ''!='' then Some Op_ne
      else if nextarg args ''>='' then Some Op_ge
      else if nextarg args ''>'' then Some Op_gt
      else None)"

lemma op_Nil [simp]: "op4 [] = None" "op3 [] = None" "op2 [] = None"
  by (simp_all add: op4_def op3_def op2_def)

function (sequential) eval :: "regex_lib \<Rightarrow> string list \<Rightarrow> (valinfo \<times> string list) expr_result" and
  eval_loop :: "regex_lib \<Rightarrow> valinfo \<Rightarrow> string list \<Rightarrow> (valinfo \<times> string list) expr_result" and
  eval1 :: "regex_lib \<Rightarrow> string list \<Rightarrow> (valinfo \<times> string list) expr_result" and
  eval1_loop :: "regex_lib \<Rightarrow> valinfo \<Rightarrow> string list \<Rightarrow> (valinfo \<times> string list) expr_result" and
  eval2 :: "regex_lib \<Rightarrow> string list \<Rightarrow> (valinfo \<times> string list) expr_result" and
  eval2_loop :: "regex_lib \<Rightarrow> valinfo \<Rightarrow> string list \<Rightarrow> (valinfo \<times> string list) expr_result" and
  eval3 :: "regex_lib \<Rightarrow> string list \<Rightarrow> (valinfo \<times> string list) expr_result" and
  eval3_loop :: "regex_lib \<Rightarrow> valinfo \<Rightarrow> string list \<Rightarrow> (valinfo \<times> string list) expr_result" and
  eval4 :: "regex_lib \<Rightarrow> string list \<Rightarrow> (valinfo \<times> string list) expr_result" and
  eval4_loop :: "regex_lib \<Rightarrow> valinfo \<Rightarrow> string list \<Rightarrow> (valinfo \<times> string list) expr_result" and
  eval5 :: "regex_lib \<Rightarrow> string list \<Rightarrow> (valinfo \<times> string list) expr_result" and
  eval5_loop :: "regex_lib \<Rightarrow> valinfo \<Rightarrow> string list \<Rightarrow> (valinfo \<times> string list) expr_result" and
  eval6 :: "regex_lib \<Rightarrow> string list \<Rightarrow> (valinfo \<times> string list) expr_result" and
  eval7 :: "regex_lib \<Rightarrow> string list \<Rightarrow> (valinfo \<times> string list) expr_result"
where
  "eval rx args = bind_res (eval1 rx args) (\<lambda>(l, args). eval_loop rx l args)"
| "eval_loop rx l args =
     (if nextarg args ''|'' then
        bind_res (eval1 rx (tl args)) (\<lambda>(r, args).
          eval_loop rx (if null_value l then r else l) args)
      else Inr (l, args))"
| "eval1 rx args = bind_res (eval2 rx args) (\<lambda>(l, args). eval1_loop rx l args)"
| "eval1_loop rx l args =
     (if nextarg args ''&'' then
        bind_res (eval2 rx (tl args)) (\<lambda>(r, args).
          eval1_loop rx (if null_value l \<or> null_value r then VInteger 0 else l) args)
      else Inr (l, args))"
| "eval2 rx args = bind_res (eval3 rx args) (\<lambda>(l, args). eval2_loop rx l args)"
| "eval2_loop rx l args =
     (case op2 args of
        None \<Rightarrow> Inr (l, args)
      | Some op \<Rightarrow>
          bind_res (eval3 rx (tl args)) (\<lambda>(r, args).
          bind_res (cmp_common (coerced l) (coerced r) op) (\<lambda>val.
            eval2_loop rx (VInteger val) args)))"
| "eval3 rx args = bind_res (eval4 rx args) (\<lambda>(l, args). eval3_loop rx l args)"
| "eval3_loop rx l args =
     (case op3 args of
        None \<Rightarrow> Inr (l, args)
      | Some op \<Rightarrow>
          bind_res (eval4 rx (tl args)) (\<lambda>(r, args).
          bind_res (arithmetic_common l r op) (\<lambda>val.
            eval3_loop rx (VInteger val) args)))"
| "eval4 rx args = bind_res (eval5 rx args) (\<lambda>(l, args). eval4_loop rx l args)"
| "eval4_loop rx l args =
     (case op4 args of
        None \<Rightarrow> Inr (l, args)
      | Some op \<Rightarrow>
          bind_res (eval5 rx (tl args)) (\<lambda>(r, args).
          bind_res (arithmetic_common l r op) (\<lambda>val.
            eval4_loop rx (VInteger val) args)))"
| "eval5 rx args = bind_res (eval6 rx args) (\<lambda>(l, args). eval5_loop rx l args)"
| "eval5_loop rx l args =
     (if nextarg args '':'' then
        bind_res (eval6 rx (tl args)) (\<lambda>(r, args).
        bind_res (docolon rx l r) (\<lambda>v. eval5_loop rx v args))
      else Inr (l, args))"
| "eval6 rx args =
     (if nextarg args ''quote'' then
        (case tl args of [] \<Rightarrow> Inl Syntax_error | a # args \<Rightarrow> Inr (VString a, args))
      else if nextarg args ''length'' then
        bind_res (eval6 rx (tl args)) (\<lambda>(r, args).
          Inr (VInteger (int (length (tostring r))), args))
      else if nextarg args ''match'' then
        bind_res (eval6 rx (tl args)) (\<lambda>(l, args).
        bind_res (eval6 rx args) (\<lambda>(r, args).
        bind_res (docolon rx l r) (\<lambda>v. Inr (v, args))))
      else if nextarg args ''index'' then
        bind_res (eval6 rx (tl args)) (\<lambda>(l, args).
        bind_res (eval6 rx args) (\<lambda>(r, args). Inr (index_value l r, args)))
      else if nextarg args ''substr'' then
        bind_res (eval6 rx (tl args)) (\<lambda>(l, args).
        bind_res (eval6 rx args) (\<lambda>(i1, args).
        bind_res (eval6 rx args) (\<lambda>(i2, args). Inr (substr_value l i1 i2, args))))
      else eval7 rx args)"
| "eval7 rx args =
     (case args of
        [] \<Rightarrow> Inl Syntax_error
      | a # args' \<Rightarrow>
          if a = ''('' then
            bind_res (eval rx args') (\<lambda>(v, args).
              if nextarg args '')'' then Inr (v, tl args) else Inl Syntax_error)
          else if a = '')'' then Inl Syntax_error
          else Inr (VString a, args'))"
  by pat_completeness auto

lemma nextarg_length: "nextarg args s \<Longrightarrow> length (tl args) < length args"
  by (cases args) simp_all

lemma op_length:
  "op4 args = Some op4v \<Longrightarrow> length (tl args) < length args"
  "op3 args = Some op3v \<Longrightarrow> length (tl args) < length args"
  "op2 args = Some op2v \<Longrightarrow> length (tl args) < length args"
  by (cases args; simp)+

abbreviation eval_terminates where
  "eval_terminates \<equiv> eval_eval_loop_eval1_eval1_loop_eval2_eval2_loop_eval3_eval3_loop_eval4_eval4_loop_eval5_eval5_loop_eval6_eval7_dom"

lemmas eval_pinduct = eval_eval_loop_eval1_eval1_loop_eval2_eval2_loop_eval3_eval3_loop_eval4_eval4_loop_eval5_eval5_loop_eval6_eval7.pinduct

lemmas eval_psimps = eval.psimps eval_loop.psimps eval1.psimps eval1_loop.psimps eval2.psimps eval2_loop.psimps eval3.psimps eval3_loop.psimps eval4.psimps eval4_loop.psimps eval5.psimps eval5_loop.psimps eval6.psimps eval7.psimps

text \<open>Every function consumes an argument, except the loops, which may stop at once.\<close>

lemma eval_consumes_terminating:
  fixes rx :: regex_lib and l :: valinfo and v :: valinfo
  shows
  "eval_terminates (Inl (Inl (Inl (rx, a)))) \<Longrightarrow>
     eval rx a = Inr (v, b) \<Longrightarrow> length b < length a" and
  "eval_terminates (Inl (Inl (Inr (Inl (rx, l, a))))) \<Longrightarrow>
     eval_loop rx l a = Inr (v, b) \<Longrightarrow> length b \<le> length a" and
  "eval_terminates (Inl (Inl (Inr (Inr (rx, a))))) \<Longrightarrow>
     eval1 rx a = Inr (v, b) \<Longrightarrow> length b < length a" and
  "eval_terminates (Inl (Inr (Inl (Inl (rx, l, a))))) \<Longrightarrow>
     eval1_loop rx l a = Inr (v, b) \<Longrightarrow> length b \<le> length a" and
  "eval_terminates (Inl (Inr (Inl (Inr (rx, a))))) \<Longrightarrow>
     eval2 rx a = Inr (v, b) \<Longrightarrow> length b < length a" and
  "eval_terminates (Inl (Inr (Inr (Inl (rx, l, a))))) \<Longrightarrow>
     eval2_loop rx l a = Inr (v, b) \<Longrightarrow> length b \<le> length a" and
  "eval_terminates (Inl (Inr (Inr (Inr (rx, a))))) \<Longrightarrow>
     eval3 rx a = Inr (v, b) \<Longrightarrow> length b < length a" and
  "eval_terminates (Inr (Inl (Inl (rx, l, a)))) \<Longrightarrow>
     eval3_loop rx l a = Inr (v, b) \<Longrightarrow> length b \<le> length a" and
  "eval_terminates (Inr (Inl (Inr (Inl (rx, a))))) \<Longrightarrow>
     eval4 rx a = Inr (v, b) \<Longrightarrow> length b < length a" and
  "eval_terminates (Inr (Inl (Inr (Inr (rx, l, a))))) \<Longrightarrow>
     eval4_loop rx l a = Inr (v, b) \<Longrightarrow> length b \<le> length a" and
  "eval_terminates (Inr (Inr (Inl (Inl (rx, a))))) \<Longrightarrow>
     eval5 rx a = Inr (v, b) \<Longrightarrow> length b < length a" and
  "eval_terminates (Inr (Inr (Inl (Inr (rx, l, a))))) \<Longrightarrow>
     eval5_loop rx l a = Inr (v, b) \<Longrightarrow> length b \<le> length a" and
  "eval_terminates (Inr (Inr (Inr (Inl (rx, a))))) \<Longrightarrow>
     eval6 rx a = Inr (v, b) \<Longrightarrow> length b < length a" and
  "eval_terminates (Inr (Inr (Inr (Inr (rx, a))))) \<Longrightarrow>
     eval7 rx a = Inr (v, b) \<Longrightarrow> length b < length a"

proof (induction rx a and rx l a and rx a and rx l a and rx a and rx l a and rx a and rx l a and
    rx a and rx l a and rx a and rx l a and rx a and rx a
    arbitrary: v b and v b and v b and v b and v b and v b and v b and v b and v b and v b and
      v b and v b and v b and v b
    rule: eval_pinduct)
  case (1 rx a)
  then show ?case by (fastforce simp: eval_psimps bind_res_eq_Inr)
next
  case (2 rx l a)
  then show ?case by (fastforce simp: eval_psimps bind_res_eq_Inr dest: nextarg_length split: if_splits)
next
  case (3 rx a)
  then show ?case by (fastforce simp: eval_psimps bind_res_eq_Inr)
next
  case (4 rx l a)
  then show ?case by (fastforce simp: eval_psimps bind_res_eq_Inr dest: nextarg_length split: if_splits)
next
  case (5 rx a)
  then show ?case by (fastforce simp: eval_psimps bind_res_eq_Inr)
next
  case (6 rx l a)
  then show ?case
    by (fastforce simp: eval_psimps bind_res_eq_Inr dest: op_length split: option.splits)
next
  case (7 rx a)
  then show ?case by (fastforce simp: eval_psimps bind_res_eq_Inr)
next
  case (8 rx l a)
  then show ?case
    by (fastforce simp: eval_psimps bind_res_eq_Inr dest: op_length split: option.splits)
next
  case (9 rx a)
  then show ?case by (fastforce simp: eval_psimps bind_res_eq_Inr)
next
  case (10 rx l a)
  then show ?case
    by (fastforce simp: eval_psimps bind_res_eq_Inr dest: op_length split: option.splits)
next
  case (11 rx a)
  then show ?case by (fastforce simp: eval_psimps bind_res_eq_Inr)
next
  case (12 rx l a)
  then show ?case
    by (fastforce simp: eval_psimps bind_res_eq_Inr dest: nextarg_length split: if_splits)
next
  case (13 rx a)
  show ?case using 13(1,10,11)
    apply (cases a)
    apply (simp_all add: eval_psimps)
    using 13(2-9)
    apply (auto simp: bind_res_eq_Inr split: if_splits list.splits)
    by fastforce+
next
  case (14 rx a)
  then show ?case by (fastforce simp: eval_psimps bind_res_eq_Inr split: if_splits list.splits)
qed

definition eval_measure where
  "eval_measure =
     case_sum
       (case_sum
         (case_sum (\<lambda>(_ :: regex_lib, a). 8 * length a + 7)
           (case_sum (\<lambda>(_ :: regex_lib, _ :: valinfo, a). 8 * length a)
             (\<lambda>(_ :: regex_lib, a). 8 * length a + 6)))
         (case_sum
           (case_sum (\<lambda>(_ :: regex_lib, _ :: valinfo, a). 8 * length a)
             (\<lambda>(_ :: regex_lib, a). 8 * length a + 5))
           (case_sum (\<lambda>(_ :: regex_lib, _ :: valinfo, a). 8 * length a)
             (\<lambda>(_ :: regex_lib, a). 8 * length a + 4))))
       (case_sum
         (case_sum (\<lambda>(_ :: regex_lib, _ :: valinfo, a). 8 * length a)
           (case_sum (\<lambda>(_ :: regex_lib, a). 8 * length a + 3)
             (\<lambda>(_ :: regex_lib, _ :: valinfo, a). 8 * length a)))
         (case_sum
           (case_sum (\<lambda>(_ :: regex_lib, a). 8 * length a + 2)
             (\<lambda>(_ :: regex_lib, _ :: valinfo, a). 8 * length a))
           (case_sum (\<lambda>(_ :: regex_lib, a :: string list). 8 * length a + 1)
             (\<lambda>(_ :: regex_lib, a). 8 * length a))))"

lemma eval_all_terminate: "All eval_terminates"
  by (relation "measure eval_measure", simp_all add: eval_measure_def)
    (auto dest!: eval_consumes_terminating nextarg_length op_length)

termination eval
  by (rule eval_all_terminate)

lemmas eval_simps = eval.simps eval_loop.simps eval1.simps eval1_loop.simps eval2.simps
  eval2_loop.simps eval3.simps eval3_loop.simps eval4.simps eval4_loop.simps eval5.simps
  eval5_loop.simps eval6.simps eval7.simps

declare eval_simps [simp del]

definition expr_main :: "regex_lib \<Rightarrow> string list \<Rightarrow> (string \<times> bool) expr_result" where
  "expr_main rx args =
     (if args = [] then Inl Too_few_arguments
      else bind_res (eval rx args) (\<lambda>(v, args).
        if args \<noteq> [] then Inl Syntax_error
        else Inr (tostring v @ [CHR 0x0A], null_value v)))"

section \<open>The specification\<close>

text \<open>
  The syntax tree. The operators have the levels of the functions that read them: 0 for \<open>|\<close>,
  1 for \<open>&\<close>, 2 for comparisons, 3 and 4 for arithmetic, 5 for \<open>:\<close>, 6 for the keywords.
\<close>

datatype expr_tree =
    Operand string
  | Length expr_tree
  | Match expr_tree expr_tree
  | Index expr_tree expr_tree
  | Substr expr_tree expr_tree expr_tree
  | Colon expr_tree expr_tree
  | Arith arith_op expr_tree expr_tree
  | Compare cmp_op expr_tree expr_tree
  | And expr_tree expr_tree
  | Or expr_tree expr_tree

definition arith_level :: "arith_op \<Rightarrow> nat" where
  "arith_level op = (if op \<in> {Op_add, Op_sub} then 3 else 4)"

definition arith_name :: "arith_op \<Rightarrow> string" where
  "arith_name op =
     (case op of Op_add \<Rightarrow> ''+'' | Op_sub \<Rightarrow> ''-'' | Op_mul \<Rightarrow> ''*'' | Op_div \<Rightarrow> ''/'' | Op_mod \<Rightarrow> ''%'')"

definition cmp_name :: "cmp_op \<Rightarrow> string" where
  "cmp_name op =
     (case op of Op_lt \<Rightarrow> ''<'' | Op_le \<Rightarrow> ''<='' | Op_eq \<Rightarrow> ''='' | Op_ne \<Rightarrow> ''!='' | Op_gt \<Rightarrow> ''>''
      | Op_ge \<Rightarrow> ''>='')"

definition keywords_of_expr :: "string list" where
  "keywords_of_expr = [''quote'', ''length'', ''match'', ''index'', ''substr'', ''('', '')'']"

definition parens :: "bool \<Rightarrow> string list \<Rightarrow> string list" where
  "parens p ts = (if p then [''(''] @ ts @ ['')''] else ts)"

text \<open>The arguments for a tree: parentheses only where an operator binds weaker than required.\<close>

fun unparse :: "nat \<Rightarrow> expr_tree \<Rightarrow> string list" where
  "unparse k (Operand s) = (if s \<in> set keywords_of_expr then [''quote'', s] else [s])"
| "unparse k (Length e) = ''length'' # unparse 6 e"
| "unparse k (Match e f) = ''match'' # unparse 6 e @ unparse 6 f"
| "unparse k (Index e f) = ''index'' # unparse 6 e @ unparse 6 f"
| "unparse k (Substr e f g) = ''substr'' # unparse 6 e @ unparse 6 f @ unparse 6 g"
| "unparse k (Colon e f) = parens (5 < k) (unparse 5 e @ '':'' # unparse 6 f)"
| "unparse k (Arith op e f) = parens (arith_level op < k)
     (unparse (arith_level op) e @ arith_name op # unparse (Suc (arith_level op)) f)"
| "unparse k (Compare op e f) = parens (2 < k) (unparse 2 e @ cmp_name op # unparse 3 f)"
| "unparse k (And e f) = parens (1 < k) (unparse 1 e @ ''&'' # unparse 2 f)"
| "unparse k (Or e f) = parens (0 < k) (unparse 0 e @ ''|'' # unparse 1 f)"

text \<open>
  The meaning of a tree. Integers are compared as integers and strings in the order of their
  characters; arithmetic is exact, with truncating division, as long as the result is a \<open>long\<close>.
\<close>

definition compare_spec :: "cmp_op \<Rightarrow> bool \<Rightarrow> bool \<Rightarrow> bool" where
  "compare_spec op lt eq =
     (case op of Op_lt \<Rightarrow> lt | Op_le \<Rightarrow> lt \<or> eq | Op_eq \<Rightarrow> eq | Op_ne \<Rightarrow> \<not> eq
      | Op_gt \<Rightarrow> \<not> lt \<and> \<not> eq | Op_ge \<Rightarrow> \<not> lt)"

definition compare_values :: "cmp_op \<Rightarrow> valinfo \<Rightarrow> valinfo \<Rightarrow> valinfo expr_result" where
  "compare_values op v w =
     (case (toarith v, toarith w) of
        (Some i, Some j) \<Rightarrow>
          if long_ok (i - j) then Inr (VInteger (of_bool (compare_spec op (i < j) (i = j))))
          else Inl Undefined
      | _ \<Rightarrow>
          let s = map (of_char :: char \<Rightarrow> nat) (tostring (coerced v));
              t = map (of_char :: char \<Rightarrow> nat) (tostring (coerced w))
          in Inr (VInteger (of_bool (compare_spec op (ord_class.lexordp s t) (s = t)))))"

fun sem :: "regex_lib \<Rightarrow> expr_tree \<Rightarrow> valinfo expr_result" where
  "sem rx (Operand s) = Inr (VString s)"
| "sem rx (Length e) = bind_res (sem rx e) (\<lambda>v. Inr (VInteger (int (length (tostring v)))))"
| "sem rx (Match e f) = bind_res (sem rx e) (\<lambda>v. bind_res (sem rx f) (\<lambda>w. docolon rx v w))"
| "sem rx (Index e f) =
     bind_res (sem rx e) (\<lambda>v. bind_res (sem rx f) (\<lambda>w. Inr (index_value v w)))"
| "sem rx (Substr e f g) =
     bind_res (sem rx e) (\<lambda>v. bind_res (sem rx f) (\<lambda>i. bind_res (sem rx g) (\<lambda>n.
       Inr (substr_value v i n))))"
| "sem rx (Colon e f) = bind_res (sem rx e) (\<lambda>v. bind_res (sem rx f) (\<lambda>w. docolon rx v w))"
| "sem rx (Arith op e f) =
     bind_res (sem rx e) (\<lambda>v. bind_res (sem rx f) (\<lambda>w.
       bind_res (arithmetic_common v w op) (\<lambda>i. Inr (VInteger i))))"
| "sem rx (Compare op e f) =
     bind_res (sem rx e) (\<lambda>v. bind_res (sem rx f) (\<lambda>w. compare_values op v w))"
| "sem rx (And e f) =
     bind_res (sem rx e) (\<lambda>v. bind_res (sem rx f) (\<lambda>w.
       Inr (if null_value v \<or> null_value w then VInteger 0 else v)))"
| "sem rx (Or e f) =
     bind_res (sem rx e) (\<lambda>v. bind_res (sem rx f) (\<lambda>w. Inr (if null_value v then w else v)))"

lemma strcmp_sign_lexordp:
  "strcmp_sign s t < 0 \<longleftrightarrow> ord_class.lexordp (map (of_char :: char \<Rightarrow> nat) s) (map of_char t)"
  "strcmp_sign s t = 0 \<longleftrightarrow> s = t"
  by (induction s t rule: strcmp_sign.induct) auto

lemma map_of_char_inject [simp]:
  "map (of_char :: char \<Rightarrow> nat) s = map of_char t \<longleftrightarrow> s = t"
  by (simp add: inj_map_eq_map inj_on_def)

lemma cmp_test_spec: "cmp_test op d = compare_spec op (d < 0) (d = 0)"
  by (cases op) (auto simp: cmp_test_def compare_spec_def)

lemma coerced_cases:
  "toarith v = Some i \<Longrightarrow> coerced v = VInteger i"
  "toarith v = None \<Longrightarrow> \<exists>s. coerced v = VString s"
  by (auto simp: coerced_def toarith_def split: valinfo.splits)

lemma cmp_common_compare_values:
  "bind_res (cmp_common (coerced v) (coerced w) op) (\<lambda>i. Inr (VInteger i)) = compare_values op v w"
proof (cases "toarith v")
  case None
  then obtain s where "coerced v = VString s" using coerced_cases(2) by blast
  with None show ?thesis
    by (simp add: cmp_common_def compare_values_def cmp_test_spec strcmp_sign_lexordp Let_def
        split: valinfo.split)
next
  case v: (Some i)
  show ?thesis
  proof (cases "toarith w")
    case None
    then obtain s where "coerced w = VString s" using coerced_cases(2) by blast
    with None v show ?thesis
      by (simp add: cmp_common_def compare_values_def cmp_test_spec strcmp_sign_lexordp Let_def
          coerced_cases split: valinfo.split)
  next
    case (Some j)
    with v show ?thesis
      by (simp add: cmp_common_def compare_values_def cmp_test_spec coerced_cases to_long_def)
  qed
qed

definition ev :: "nat \<Rightarrow> regex_lib \<Rightarrow> string list \<Rightarrow> (valinfo \<times> string list) expr_result" where
  "ev k = [eval, eval1, eval2, eval3, eval4, eval5, eval6] ! k"

definition lp :: "nat \<Rightarrow> regex_lib \<Rightarrow> valinfo \<Rightarrow> string list \<Rightarrow> (valinfo \<times> string list) expr_result" where
  "lp k = [eval_loop, eval1_loop, eval2_loop, eval3_loop, eval4_loop, eval5_loop,
     \<lambda>rx v args. Inr (v, args)] ! k"

lemmas level_cases = le_Suc_eq less_Suc_eq numeral_eq_Suc

lemma ev_step:
  assumes "k < 6"
  shows "ev k rx args = bind_res (ev (Suc k) rx args) (\<lambda>(v, args). lp k rx v args)"
proof -
  from assms consider "k = 0" | "k = 1" | "k = 2" | "k = 3" | "k = 4" | "k = 5" by linarith
  then show ?thesis
    by cases (simp_all add: ev_def lp_def eval.simps eval1.simps eval2.simps eval3.simps
        eval4.simps eval5.simps)
qed

definition operators :: "nat \<Rightarrow> string list" where
  "operators k = [[''|''], [''&''], [''<'', ''<='', ''='', ''=='', ''!='', ''>='', ''>''],
     [''+'', ''-''], [''*'', ''/'', ''%''], ['':''], []] ! k"

text \<open>The arguments do not begin with an operator of a level above \<open>k\<close>.\<close>

definition stops :: "nat \<Rightarrow> string list \<Rightarrow> bool" where
  "stops k args \<longleftrightarrow> args = [] \<or> (\<forall>j \<in> {Suc k..<6}. hd args \<notin> set (operators j))"

lemma lp_stop:
  assumes "k \<le> 6" "args = [] \<or> hd args \<notin> set (operators k)"
  shows "lp k rx v args = Inr (v, args)"
proof -
  from assms(1) consider "k = 0" | "k = 1" | "k = 2" | "k = 3" | "k = 4" | "k = 5" | "k = 6"
    by linarith
  then show ?thesis using assms(2)
    by cases (cases args; simp add: lp_def operators_def op2_def op3_def op4_def eval_loop.simps
        eval1_loop.simps eval2_loop.simps eval3_loop.simps eval4_loop.simps eval5_loop.simps)+
qed

text \<open>
  \<open>parses rx k ts s\<close>: the function of level \<open>k\<close> reads exactly \<open>ts\<close>, with the result \<open>s\<close>, and goes
  on with its loop, when no operator that binds stronger follows.
\<close>

definition parses :: "regex_lib \<Rightarrow> nat \<Rightarrow> string list \<Rightarrow> valinfo expr_result \<Rightarrow> bool" where
  "parses rx k ts s \<longleftrightarrow> (\<forall>rest. stops k rest \<longrightarrow>
     ev k rx (ts @ rest) = bind_res s (\<lambda>v. lp k rx v rest))"

lemma stops_Suc: "stops k rest \<Longrightarrow> stops (Suc k) rest"
  by (auto simp: stops_def)

lemma lp_stops:
  assumes "stops k rest" "k < j" "j \<le> 6"
  shows "lp j rx v rest = Inr (v, rest)"
proof (rule lp_stop)
  show "rest = [] \<or> hd rest \<notin> set (operators j)"
    using assms by (cases "j = 6") (auto simp: stops_def operators_def)
qed (use assms in simp)

lemma parses_Suc: "parses rx (Suc k) ts s \<Longrightarrow> k < 6 \<Longrightarrow> parses rx k ts s"
  by (auto simp: parses_def ev_step bind_res_assoc stops_Suc lp_stops)

lemma parses_le: "k \<le> j \<Longrightarrow> parses rx j ts s \<Longrightarrow> j \<le> 6 \<Longrightarrow> parses rx k ts s"
  by (induction rule: inc_induct) (auto intro: parses_Suc)

lemma parses_binary:
  assumes l: "parses rx k ts s" and r: "parses rx (Suc k) us t" and k: "k < 6" "a \<in> set (operators k)"
    and law: "\<And>v as. lp k rx v (a # as) =
      bind_res (ev (Suc k) rx as) (\<lambda>(w, as). bind_res (f v w) (\<lambda>x. lp k rx x as))"
  shows "parses rx k (ts @ a # us) (bind_res s (\<lambda>v. bind_res t (\<lambda>w. f v w)))"
  unfolding parses_def
proof (intro allI impI)
  fix rest assume rest: "stops k rest"
  have "stops k (a # us @ rest)"
    using k by (auto simp: stops_def operators_def level_cases)
  with l have "ev k rx ((ts @ a # us) @ rest) = bind_res s (\<lambda>v. lp k rx v (a # us @ rest))"
    by (simp add: parses_def)
  moreover have "ev (Suc k) rx (us @ rest) = bind_res t (\<lambda>w. Inr (w, rest))"
    using r rest k by (simp add: parses_def stops_Suc lp_stops)
  ultimately show "ev k rx ((ts @ a # us) @ rest) =
     bind_res (bind_res s (\<lambda>v. bind_res t (\<lambda>w. f v w))) (\<lambda>v. lp k rx v rest)"
    by (simp add: law bind_res_assoc)
qed

lemma lp_operators:
  "lp 0 rx v (''|'' # as) = bind_res (ev 1 rx as) (\<lambda>(w, as).
     bind_res (Inr (if null_value v then w else v)) (\<lambda>x. lp 0 rx x as))"
  "lp 1 rx v (''&'' # as) = bind_res (ev 2 rx as) (\<lambda>(w, as).
     bind_res (Inr (if null_value v \<or> null_value w then VInteger 0 else v)) (\<lambda>x. lp 1 rx x as))"
  "lp 2 rx v (cmp_name cop # as) = bind_res (ev 3 rx as) (\<lambda>(w, as).
     bind_res (compare_values cop v w) (\<lambda>x. lp 2 rx x as))"
  "lp 5 rx v ('':'' # as) = bind_res (ev 6 rx as) (\<lambda>(w, as).
     bind_res (docolon rx v w) (\<lambda>x. lp 5 rx x as))"
  by (simp_all add: lp_def ev_def eval_loop.simps [of rx v "_ # _"] eval1_loop.simps [of rx v "_ # _"]
      eval5_loop.simps [of rx v "_ # _"] eval2_loop.simps [of rx v "_ # _"] op2_def cmp_name_def
      bind_res_assoc flip: cmp_common_compare_values split: cmp_op.split)

lemma lp_arith:
  "lp (arith_level op) rx v (arith_name op # as) =
     bind_res (ev (Suc (arith_level op)) rx as) (\<lambda>(w, as).
       bind_res (bind_res (arithmetic_common v w op) (\<lambda>i. Inr (VInteger i)))
         (\<lambda>x. lp (arith_level op) rx x as))"
  by (cases op) (simp_all add: lp_def ev_def arith_level_def arith_name_def bind_res_assoc
      eval3_loop.simps [of rx v "_ # _"] eval4_loop.simps [of rx v "_ # _"] op3_def op4_def)

lemma stops_close: "stops 0 ('')'' # rest)"
  by (auto simp: stops_def operators_def level_cases)

lemma parses_parens:
  assumes "parses rx 0 ts s"
  shows "parses rx 6 ([''(''] @ ts @ ['')'']) s"
proof -
  have "eval rx (ts @ '')'' # rest) = bind_res s (\<lambda>v. Inr (v, '')'' # rest))" for rest
    using assms stops_close [of rest] lp_stop [of 0 "'')'' # rest"]
    by (simp add: parses_def ev_def operators_def)
  then show ?thesis
    by (simp add: parses_def ev_def lp_def eval6.simps eval7.simps bind_res_assoc)
qed

lemma arith_level_ops: "arith_level op < 6" "arith_name op \<in> set (operators (arith_level op))"
  by (cases op; simp add: arith_level_def arith_name_def operators_def)+

lemma cmp_name_ops: "cmp_name op \<in> set (operators 2)"
  by (cases op) (simp_all add: cmp_name_def operators_def)

lemma parses_at:
  assumes "parses rx j ts s" "j \<le> 6" "k \<le> 6"
  shows "parses rx k (parens (j < k) ts) s"
proof (cases "j < k")
  case True
  have "parses rx 0 ts s" using assms by (intro parses_le [of 0 j]) auto
  with True assms(3) parses_parens parses_le [of k 6] show ?thesis by (simp add: parens_def)
next
  case False
  with assms parses_le [of k j] show ?thesis by (simp add: parens_def)
qed

lemma parses_keyword:
  assumes "parses rx 6 ts s" "k \<le> 6"
  shows "parses rx k ts s"
  using assms parses_le [of k 6] by simp

lemma eval6_args:
  assumes "parses rx 6 ts s"
  shows "eval6 rx (ts @ rest) = bind_res s (\<lambda>v. Inr (v, rest))"
  using assms by (simp add: parses_def stops_def ev_def lp_def)

lemma unparse_parses: "k \<le> 6 \<Longrightarrow> parses rx k (unparse k e) (sem rx e)"
proof (induction e arbitrary: k)
  case (Operand x)
  have "parses rx 6 (unparse k (Operand x)) (sem rx (Operand x))"
    by (simp add: parses_def ev_def lp_def eval6.simps eval7.simps keywords_of_expr_def)
  with Operand show ?case by (rule parses_keyword [rotated])
next
  case (Length e)
  have "parses rx 6 (unparse k (Length e)) (sem rx (Length e))"
    using eval6_args [OF Length.IH [of 6]]
    by (simp add: parses_def ev_def lp_def eval6.simps [of rx "_ # _"] bind_res_assoc)
  with Length show ?case by (blast intro: parses_keyword)
next
  case (Match e f)
  have "parses rx 6 (unparse k (Match e f)) (sem rx (Match e f))"
    using eval6_args [OF Match.IH(1) [of 6]] eval6_args [OF Match.IH(2) [of 6]]
    by (simp add: parses_def ev_def lp_def eval6.simps [of rx "_ # _"] bind_res_assoc)
  with Match show ?case by (blast intro: parses_keyword)
next
  case (Index e f)
  have "parses rx 6 (unparse k (Index e f)) (sem rx (Index e f))"
    using eval6_args [OF Index.IH(1) [of 6]] eval6_args [OF Index.IH(2) [of 6]]
    by (simp add: parses_def ev_def lp_def eval6.simps [of rx "_ # _"] bind_res_assoc)
  with Index show ?case by (blast intro: parses_keyword)
next
  case (Substr e f g)
  have "parses rx 6 (unparse k (Substr e f g)) (sem rx (Substr e f g))"
    using eval6_args [OF Substr.IH(1) [of 6]] eval6_args [OF Substr.IH(2) [of 6]]
      eval6_args [OF Substr.IH(3) [of 6]]
    by (simp add: parses_def ev_def lp_def eval6.simps [of rx "_ # _"] bind_res_assoc)
  with Substr show ?case by (blast intro: parses_keyword)
next
  case (Colon e f)
  have "parses rx 5 (unparse 5 e @ '':'' # unparse 6 f) (sem rx (Colon e f))"
    unfolding sem.simps
    by (rule parses_binary) (use Colon.IH in \<open>simp_all add: lp_operators operators_def\<close>)
  with Colon.prems show ?case by (simp add: parses_at)
next
  case (Arith op e f)
  have "parses rx (arith_level op)
      (unparse (arith_level op) e @ arith_name op # unparse (Suc (arith_level op)) f)
      (sem rx (Arith op e f))"
    unfolding sem.simps
    by (rule parses_binary)
      (use Arith.IH arith_level_ops [of op] in \<open>simp_all add: lp_arith\<close>)
  with Arith.prems arith_level_ops(1) [of op] show ?case by (simp add: parses_at)
next
  case (Compare op e f)
  have "parses rx 2 (unparse 2 e @ cmp_name op # unparse 3 f) (sem rx (Compare op e f))"
    unfolding sem.simps
    by (rule parses_binary)
      (use Compare.IH cmp_name_ops [of op] in \<open>simp_all add: lp_operators\<close>)
  with Compare.prems show ?case by (simp add: parses_at)
next
  case (And e f)
  have "parses rx 1 (unparse 1 e @ ''&'' # unparse 2 f) (sem rx (And e f))"
    unfolding sem.simps
    by (rule parses_binary) (use And.IH lp_operators(2) in \<open>simp_all add: operators_def numeral_2_eq_2\<close>)
  with And.prems show ?case by (simp add: parses_at)
next
  case (Or e f)
  have "parses rx 0 (unparse 0 e @ ''|'' # unparse 1 f) (sem rx (Or e f))"
    unfolding sem.simps
    by (rule parses_binary) (use Or.IH in \<open>simp_all add: lp_operators operators_def\<close>)
  with Or.prems show ?case by (simp add: parses_at)
qed

lemma unparse_nonempty: "unparse k e \<noteq> []"
  by (cases e) (simp_all add: parens_def)

text \<open>
  C18. \<open>expr\<close> agrees with the semantics: for every syntax tree, the arguments that write the
  tree down, with parentheses only where the precedence needs them, make the applet print
  the value of the tree and exit with the status that says whether it is null, or end with
  the error of the tree. Operators group to the left, \<open>|\<close> binds weakest, then \<open>&\<close>, the
  comparisons, \<open>+ -\<close>, \<open>* / %\<close>, \<open>:\<close> and the keywords; every word can be an operand.
\<close>

theorem expr_computes_semantics:
  "expr_main rx (unparse 0 e) =
     bind_res (sem rx e) (\<lambda>v. Inr (tostring v @ [CHR 0x0A], null_value v))"
proof -
  have "eval rx (unparse 0 e) = bind_res (sem rx e) (\<lambda>v. lp 0 rx v [])"
    using unparse_parses [of 0 rx e, unfolded parses_def, rule_format, of "[]"]
    by (simp add: stops_def ev_def)
  then show ?thesis
    by (simp add: expr_main_def unparse_nonempty lp_stop bind_res_assoc)
qed

text \<open>
  Undefined behaviour: when the pattern has a group that takes no part in the match, such
  as in \<open>a\\|\\(b\\)\<close>, the offsets of the group are \<open>-1\<close>, and the operator \<open>:\<close> writes a zero in
  front of the string.
\<close>

lemma docolon_unmatched_group:
  assumes "regcomp rx p = Some n" "0 < n" "regexec rx p s = Some ((0, m), (- 1, - 1))"
  shows "docolon rx (VString s) (VString p) = Inl Undefined"
  using assms by (simp add: docolon_def tostring_def cut_string_def)

definition group_regex :: regex_lib where
  "group_regex = \<lparr> regcomp = \<lambda>p. Some 1,
     regexec = \<lambda>p s. if s = ''a'' then Some ((0, 1), (- 1, - 1)) else None \<rparr>"

lemma docolon_unmatched_group_example:
  "docolon group_regex (VString ''a'') (VString [CHR ''a'', CHR 0x5C, CHR ''|'', CHR 0x5C, CHR ''('',
     CHR ''b'', CHR 0x5C, CHR '')'']) = Inl Undefined"
  by (rule docolon_unmatched_group [where n = 1 and m = 1]) (simp_all add: group_regex_def)

text \<open>
  C33. Every call of the parser ends, whatever the arguments and the regular expression library: the
  recursion through the seven levels and their loops is well-founded, since each operator and each
  operand takes an argument (\<open>eval_terminates\<close> is the domain of the recursion, the calls that end).
  What is left after an expression is shorter than the arguments.
\<close>

theorem eval_ends:
  "eval_terminates (Inl (Inl (Inl (rx, args)))) \<and>
   (\<forall>v rest. eval rx args = Inr (v, rest) \<longrightarrow> length rest < length args)"
  using eval_consumes_terminating(1) eval_all_terminate by blast

theorem eval_ends_witness:
  "eval_terminates (Inl (Inl (Inl (group_regex, [''b'', '')''])))) \<and>
   eval group_regex [''b'', '')''] = Inr (VString ''b'', ['')'']) \<and> length ['')''] < length [''b'', '')'']"
  using eval_ends [of group_regex "[''b'', '')'']"]
  by (simp add: eval_simps op2_def op3_def op4_def)

end
