(* ===== verification/Uucode.thy ===== *)
theory Uucode
  imports C_Lib
begin

text \<open>
  The applets \<open>uuencode\<close> and \<open>uudecode\<close> (\<open>coreutils/uuencode.c\<close>, \<open>coreutils/uudecode.c\<close>) with the
  line reader of \<open>libbb/get_line_from_file.c\<close>. Files are byte lists; a file is read without an
  I/O error. A call of \<open>bb_error_msg_and_die\<close> is a value of \<open>uu_error\<close>, paired with what was
  written before; an access outside of a buffer is \<open>None\<close>.
\<close>

section \<open>Encoding\<close>

definition tbl_base64 :: bytes where
  "tbl_base64 = str_bytes ''ABCDEFGHIJKLMNOPQRSTUVWXYZabcdefghijklmnopqrstuvwxyz0123456789+/=''"

definition tbl_std :: bytes where
  "tbl_std =
    [0x60, 0x21, 0x22, 0x23, 0x24, 0x25, 0x26, 0x27,
     0x28, 0x29, 0x2A, 0x2B, 0x2C, 0x2D, 0x2E, 0x2F,
     0x30, 0x31, 0x32, 0x33, 0x34, 0x35, 0x36, 0x37,
     0x38, 0x39, 0x3A, 0x3B, 0x3C, 0x3D, 0x3E, 0x3F,
     0x40, 0x41, 0x42, 0x43, 0x44, 0x45, 0x46, 0x47,
     0x48, 0x49, 0x4A, 0x4B, 0x4C, 0x4D, 0x4E, 0x4F,
     0x50, 0x51, 0x52, 0x53, 0x54, 0x55, 0x56, 0x57,
     0x58, 0x59, 0x5A, 0x5B, 0x5C, 0x5D, 0x5E, 0x5F, 0x60]"

text \<open>The four 6-bit values of three bytes.\<close>

definition sx0 :: "byte \<Rightarrow> byte" where "sx0 a = drop_bit 2 a"
definition sx1 :: "byte \<Rightarrow> byte \<Rightarrow> byte" where "sx1 a b = push_bit 4 (a AND 3) + drop_bit 4 b"
definition sx2 :: "byte \<Rightarrow> byte \<Rightarrow> byte" where "sx2 b c = push_bit 2 (b AND 0xf) + drop_bit 6 c"
definition sx3 :: "byte \<Rightarrow> byte" where "sx3 c = c AND 0x3f"

function uuencode_loop :: "bytes \<Rightarrow> nat \<Rightarrow> bytes \<Rightarrow> nat \<Rightarrow> bytes \<Rightarrow> (nat \<times> bytes) option" where
  "uuencode_loop s len tbl i p =
     (if i < len then do {
        s0 \<leftarrow> rd s i; s1 \<leftarrow> rd s (i + 1); s2 \<leftarrow> rd s (i + 2);
        a \<leftarrow> rd tbl (unat (sx0 s0));
        b \<leftarrow> rd tbl (unat (sx1 s0 s1));
        c \<leftarrow> rd tbl (unat (sx2 s1 s2));
        d \<leftarrow> rd tbl (unat (sx3 s2));
        uuencode_loop s len tbl (i + 3) (p @ [a, b, c, d]) }
      else Some (i, p))"
  by pat_completeness auto
termination
  by (relation "measure (\<lambda>(_, len, _, i, _). len - i)") auto

declare uuencode_loop.simps [simp del]

definition uu_pad :: "byte \<Rightarrow> nat \<Rightarrow> nat \<Rightarrow> bytes \<Rightarrow> bytes" where
  "uu_pad t len i p =
     (if i = len + 1 then p[length p - 1 := t]
      else if i = len + 2 then p[length p - 2 := t, length p - 1 := t]
      else p)"

text \<open>The contents of the buffer \<open>store\<close> after the call.\<close>

definition uuencode :: "bytes \<Rightarrow> bytes \<Rightarrow> nat \<Rightarrow> bytes \<Rightarrow> bytes option" where
  "uuencode s store len tbl = do {
     (i, p) \<leftarrow> uuencode_loop s len tbl 0 [];
     t \<leftarrow> rd tbl 64;
     wr_range store 0 (uu_pad t len i p @ [0]) }"

definition SRC_BUF_SIZE :: nat where "SRC_BUF_SIZE = 45"

definition DST_BUF_SIZE :: nat where "DST_BUF_SIZE = 4 * ((SRC_BUF_SIZE + 2) div 3)"

text \<open>\<open>fread\<close> fills the buffer unless the file ends. The first argument says \<open>tbl == tbl_std\<close>.\<close>

function encode_loop :: "bool \<Rightarrow> bytes \<Rightarrow> bytes \<Rightarrow> bytes \<Rightarrow> bytes \<Rightarrow> bytes option" where
  "encode_loop std src_buf dst_buf input out =
     (if input = [] then Some out
      else
        let tbl = (if std then tbl_std else tbl_base64);
            chunk = take SRC_BUF_SIZE input;
            size = length chunk;
            write_size = (if size \<noteq> SRC_BUF_SIZE then 4 * ((size + 2) div 3) else DST_BUF_SIZE)
        in do {
          src \<leftarrow> wr_range src_buf 0 chunk;
          src \<leftarrow> (if size \<noteq> SRC_BUF_SIZE then wr_range src size (replicate (SRC_BUF_SIZE - size) 0)
                 else Some src);
          dst \<leftarrow> uuencode src dst_buf size tbl;
          mark \<leftarrow> (if std then do { c \<leftarrow> rd tbl size; Some [c] } else Some []);
          line \<leftarrow> rd_range dst 0 write_size;
          encode_loop std src dst (drop SRC_BUF_SIZE input) (out @ [10] @ mark @ line) })"
  by pat_completeness auto
termination
  by (relation "measure (\<lambda>(_, _, _, input, _). length input)") (auto simp: SRC_BUF_SIZE_def)

text \<open>\<open>%o\<close>\<close>

fun oct :: "nat \<Rightarrow> bytes" where
  "oct n = (if n < 8 then [48 + of_nat n] else oct (n div 8) @ [48 + of_nat (n mod 8)])"

declare oct.simps [simp del] encode_loop.simps [simp del]

text \<open>
  The applet, after the options and the file were opened: \<open>base64\<close> is the option \<open>-m\<close>, \<open>mode\<close> the
  permissions of the file or those that the \<open>umask\<close> gives, \<open>name\<close> the last argument. The two
  buffers have arbitrary contents at first.
\<close>

definition uuencode_main ::
  "bool \<Rightarrow> nat \<Rightarrow> bytes \<Rightarrow> bytes \<Rightarrow> bytes \<Rightarrow> bytes \<Rightarrow> bytes option" where
  "uuencode_main base64 mode name src_buf dst_buf input = do {
     out \<leftarrow> encode_loop (\<not> base64) src_buf dst_buf input
       (str_bytes ''begin'' @ (if base64 then str_bytes ''-base64'' else []) @ [32] @ oct mode @ [32] @ name);
     Some (out @ (if base64 then [10, 61, 61, 61, 61, 10]
       else [10, 96, 10] @ str_bytes ''end'' @ [10])) }"

section \<open>Decoding\<close>

datatype uu_error = Line_too_long | Short_file | No_begin_line | Cannot_open

definition dec_std :: "byte \<Rightarrow> byte" where
  "dec_std c = (c - 0x20) AND 0x3f"

text \<open>
  The characters of the line behind the length, with the zero at the end; \<open>n\<close> is the variable
  \<open>length\<close>, which the source may let drop to \<open>-1\<close> to end the loop.
\<close>

fun stduu_loop :: "bytes \<Rightarrow> nat \<Rightarrow> bytes \<Rightarrow> bytes option" where
  "stduu_loop q n out =
     (if n = 0 then Some out
      else do {
        a \<leftarrow> rd q 0; b \<leftarrow> rd q 1;
        let out = out @ [push_bit 2 (dec_std a) OR drop_bit 4 (dec_std b)];
        if n = 1 then Some out
        else do {
          c \<leftarrow> rd q 2;
          let out = out @ [push_bit 4 (dec_std b) OR drop_bit 2 (dec_std c)];
          if n = 2 then Some out
          else do {
            d \<leftarrow> rd q 3;
            stduu_loop (drop 4 q) (n - 4) (out @ [push_bit 6 (dec_std c) OR dec_std d]) } } })"

declare stduu_loop.simps [simp del]

function read_stduu :: "bytes \<Rightarrow> bytes \<Rightarrow> (uu_error option \<times> bytes) option" where
  "read_stduu src out =
     (case bb_get_chomped_line_from_file src of
        None \<Rightarrow> Some (Some Short_file, out)
      | Some (line, src) \<Rightarrow>
          if line = str_bytes ''end'' then Some (None, out)
          else
            let n = unat (dec_std (if line = [] then 0 else hd line)) * 4 div 3
            in if n = 0 then read_stduu src out
               else if n > 60 then Some (Some Line_too_long, out)
               else if length (tl line) < n then Some (Some Short_file, out)
               else do {
                 out \<leftarrow> stduu_loop (tl line @ [0]) n out;
                 read_stduu src out })"
  by pat_completeness auto
termination
  by (relation "measure (\<lambda>(s, _). length s)") (auto dest: chomped_line_shorter)

declare read_stduu.simps [simp del]

definition base64_table :: bytes where
  "base64_table =
     str_bytes ''ABCDEFGHIJKLMNOPQRSTUVWXYZabcdefghijklmnopqrstuvwxyz0123456789+/='' @ [10]"

text \<open>The offset that \<open>strchr\<close> finds; it finds the zero at the end of the string too.\<close>

definition strchr_index :: "bytes \<Rightarrow> byte \<Rightarrow> nat option" where
  "strchr_index s c =
     (let n = length (takeWhile (\<lambda>d. d \<noteq> c) (s @ [0])) in if n \<le> length s then Some n else None)"

definition merge64 :: "bytes \<Rightarrow> bytes" where
  "merge64 t =
     (if length t > 1 then [push_bit 2 (t ! 0) OR drop_bit 4 (t ! 1)] else []) @
     (if length t > 2 then [push_bit 4 (t ! 1) OR drop_bit 2 (t ! 2)] else []) @
     (if length t > 3 then [push_bit 6 (t ! 2) OR t ! 3] else [])"

text \<open>
  One character of the file after the other: \<open>t\<close> holds the \<open>count\<close> characters that were
  translated since the last group was written.
\<close>

fun read_base64 :: "bytes \<Rightarrow> bytes \<Rightarrow> byte \<Rightarrow> bytes \<Rightarrow> uu_error option \<times> bytes" where
  "read_base64 [] t term_count out = (Some Short_file, out)"
| "read_base64 (ch # src) t term_count out =
     (case strchr_index base64_table ch of
        None \<Rightarrow> read_base64 src t term_count out
      | Some i \<Rightarrow>
          if ch = 61 then
            if term_count = 0 then read_base64 src [] term_count (out @ merge64 t)
            else read_base64 src t (term_count + 1) out
          else if ch = 10 then
            if term_count = 5 then (None, out) else read_base64 src t 1 out
          else
            let t = t @ [of_nat i]
            in if length t < 4 then read_base64 src t 0 out
               else read_base64 src [] 0 (out @ merge64 t))"

datatype uu_result = Died uu_error | Decoded bytes "nat option" "uu_error option" bytes

text \<open>
  The applet after the input was opened. \<open>Decoded f m e d\<close>: the file \<open>f\<close> was created with the
  mode \<open>m\<close> and the data \<open>d\<close>, with the error \<open>e\<close> if there was one. The functions of the file
  system are a parameter: \<open>can_open\<close> says whether the file can be created. The name \<open>-\<close> is the
  standard output, whose mode is not changed (\<open>None\<close>).
\<close>

definition begin_line :: "bytes \<Rightarrow> (bool \<times> bytes) option" where
  "begin_line line =
     (if take 13 line = str_bytes ''begin-base64 '' then Some (True, drop 13 line)
      else if take 6 line = str_bytes ''begin '' then Some (False, drop 6 line)
      else None)"

definition header_mode :: "bytes \<Rightarrow> nat" where
  "header_mode s = unat (fst (strtoul 8 (map (\<lambda>b. char_of (unat b)) s)) AND 0x1FF)"

definition header_name :: "bytes \<Rightarrow> bytes option" where
  "header_name s =
     (case dropWhile (\<lambda>c. c \<noteq> 32) s of [] \<Rightarrow> None | _ # name \<Rightarrow> Some name)"

function uudecode_main ::
  "bytes option \<Rightarrow> (bytes \<Rightarrow> bool) \<Rightarrow> bytes \<Rightarrow> uu_result option" where
  "uudecode_main outname can_open src =
     (case bb_get_chomped_line_from_file src of
        None \<Rightarrow> Some (Died No_begin_line)
      | Some (line, src) \<Rightarrow>
          (case begin_line line of
             None \<Rightarrow> uudecode_main outname can_open src
           | Some (base64, line_ptr) \<Rightarrow>
               (case (case outname of Some n \<Rightarrow> Some n | None \<Rightarrow> header_name line_ptr) of
                  None \<Rightarrow> Some (Died No_begin_line)
                | Some name \<Rightarrow>
                    if name \<noteq> str_bytes ''-'' \<and> \<not> can_open name then Some (Died Cannot_open)
                    else do {
                      (e, d) \<leftarrow> (if base64 then Some (read_base64 src [] 1 []) else read_stduu src []);
                      Some (Decoded name (if name = str_bytes ''-'' then None else Some (header_mode line_ptr)) e d) })))"
  by pat_completeness auto
termination
  by (relation "measure (\<lambda>(_, _, s). length s)") (auto dest: chomped_line_shorter)

declare uudecode_main.simps [simp del] read_base64.simps [simp del]

section \<open>Groups of three bytes\<close>

lemma sx1_or: "sx1 a b = push_bit 4 (a AND 3) OR drop_bit 4 b"
  unfolding sx1_def
proof (rule disjunctive_add)
  show "\<not> bit (push_bit 4 (a AND 3)) n \<or> \<not> bit (drop_bit 4 b) n" for n
    by (auto simp: bit_simps dest: bit_imp_le_length)
qed

lemma sx2_or: "sx2 b c = push_bit 2 (b AND 0xf) OR drop_bit 6 c"
  unfolding sx2_def
proof (rule disjunctive_add)
  show "\<not> bit (push_bit 2 (b AND 0xf)) n \<or> \<not> bit (drop_bit 6 c) n" for n
    by (auto simp: bit_simps dest: bit_imp_le_length)
qed

lemma byte_cases:
  assumes "n < LENGTH(8)"
  obtains "n = 0" | "n = 1" | "n = 2" | "n = 3" | "n = 4" | "n = 5" | "n = 6" | "n = 7"
  using assms by fastforce

lemma merge_sextets:
  "push_bit 2 (sx0 a) OR drop_bit 4 (sx1 a b) = a"
  "push_bit 4 (sx1 a b) OR drop_bit 2 (sx2 b c) = b"
  "push_bit 6 (sx2 b c) OR sx3 c = c"
  unfolding sx0_def sx1_or sx2_or sx3_def
  by (rule bit_word_eqI, erule byte_cases; simp add: bit_simps bit_numeral_rec)+

lemma byte_high: "8 \<le> n \<Longrightarrow> \<not> bit (b :: byte) n"
  by (auto dest: bit_imp_le_length)

lemma mask_less_64: "(w :: byte) AND 63 = w \<Longrightarrow> unat w < 64"
proof -
  assume "w AND 63 = w"
  then have "w \<le> 63" by (metis word_and_le1)
  then have "unat w \<le> 63" by (simp add: word_le_nat_alt)
  then show ?thesis by simp
qed

lemma sextets_less [simp]:
  "unat (sx0 a) < 64" "unat (sx1 a b) < 64" "unat (sx2 b c) < 64" "unat (sx3 c) < 64"
  unfolding sx0_def sx1_or sx2_or sx3_def
  by (rule mask_less_64, rule bit_word_eqI, erule byte_cases;
      simp add: bit_simps bit_numeral_rec byte_high)+

text \<open>
  The interface between the encoder and the decoders: a table of 64 characters and the
  padding, and the value of a character.
\<close>

locale sextet_code =
  fixes tbl :: bytes and val :: "byte \<Rightarrow> byte"
  assumes length_tbl: "length tbl = 65"
    and val_tbl: "k < 64 \<Longrightarrow> val (tbl ! k) = of_nat k"
begin

lemma rd_tbl: "unat w < 64 \<Longrightarrow> rd tbl (unat (w :: byte)) = Some (tbl ! unat w)"
  by (simp add: rd_def length_tbl)

lemma val_chr: "unat w < 64 \<Longrightarrow> val (tbl ! unat (w :: byte)) = w"
  by (simp add: val_tbl)

end

text \<open>The specification of a line: the characters of the groups, with the padding.\<close>

fun enc_groups :: "bytes \<Rightarrow> bytes \<Rightarrow> bytes" where
  "enc_groups tbl (a # b # c # r) =
     [tbl ! unat (sx0 a), tbl ! unat (sx1 a b), tbl ! unat (sx2 b c), tbl ! unat (sx3 c)]
       @ enc_groups tbl r"
| "enc_groups tbl [a, b] =
     [tbl ! unat (sx0 a), tbl ! unat (sx1 a b), tbl ! unat (sx2 b 0), tbl ! 64]"
| "enc_groups tbl [a] = [tbl ! unat (sx0 a), tbl ! unat (sx1 a 0), tbl ! 64, tbl ! 64]"
| "enc_groups tbl [] = []"

lemma length_enc_groups: "length (enc_groups tbl s) = 4 * ((length s + 2) div 3)"
proof (induction tbl s rule: enc_groups.induct)
  case (1 tbl a b c r)
  have "(length r + 2 + 3) div 3 = (length r + 2) div 3 + 1" by (rule div_add_self2) simp
  with 1 show ?case by (simp add: algebra_simps)
qed simp_all

lemma groups_induct [case_names three two one none]:
  assumes "\<And>a b c r. P r \<Longrightarrow> P (a # b # c # r)" "\<And>a b. P [a, b]" "\<And>a. P [a]" "P []"
  shows "P (s :: bytes)"
  using assms by (rule enc_groups.induct [where P = "\<lambda>_ :: bytes. P"])

text \<open>The bytes behind the input that the last group takes are zero.\<close>

definition pad_ok :: "bytes \<Rightarrow> bytes \<Rightarrow> bool" where
  "pad_ok s z \<longleftrightarrow> length s mod 3 = 0 \<or> (\<exists>z'. z = 0 # 0 # z') \<or>
     length s mod 3 = 2 \<and> (\<exists>z'. z = 0 # z')"

lemma pad_ok_simps [simp]:
  "pad_ok (a # b # c # r) z \<longleftrightarrow> pad_ok r z" "pad_ok [a, b] z \<longleftrightarrow> (\<exists>z'. z = 0 # z')"
  "pad_ok [a] z \<longleftrightarrow> (\<exists>z'. z = 0 # 0 # z')"
  by (auto simp: pad_ok_def)

context sextet_code
begin

lemma uuencode_step:
  assumes "i < len" "rd s i = Some a" "rd s (Suc i) = Some b" "rd s (Suc (Suc i)) = Some c"
  shows "uuencode_loop s len tbl i p = uuencode_loop s len tbl (Suc (Suc (Suc i)))
     (p @ [tbl ! unat (sx0 a), tbl ! unat (sx1 a b), tbl ! unat (sx2 b c), tbl ! unat (sx3 c)])"
  using assms
  by (subst uuencode_loop.simps)
    (simp add: rd_tbl numeral_3_eq_3)

lemma uuencode_stop: "len \<le> i \<Longrightarrow> uuencode_loop s len t i p = Some (i, p)"
  by (simp add: uuencode_loop.simps)

lemma uuencode_groups:
  assumes "pad_ok s z"
  shows "\<exists>i q. uuencode_loop (pre @ s @ z) (length pre + length s) tbl (length pre) p = Some (i, q) \<and>
    uu_pad (tbl ! 64) (length pre + length s) i q = p @ enc_groups tbl s"
  using assms
proof (induction s arbitrary: pre p rule: groups_induct)
  case (three a b c r)
  from three.IH [of "pre @ [a, b, c]" "p @ [tbl ! unat (sx0 a), tbl ! unat (sx1 a b),
    tbl ! unat (sx2 b c), tbl ! unat (sx3 c)]"] three.prems show ?case
    by (simp add: uuencode_step [of _ _ _ a b c] rd_def nth_append)
next
  case (two a b)
  then obtain z' where "z = 0 # z'" by auto
  then have "uuencode_loop (pre @ [a, b] @ z) (length pre + 2) tbl (length pre) p =
      Some (length pre + 3, p @ [tbl ! unat (sx0 a), tbl ! unat (sx1 a b), tbl ! unat (sx2 b 0),
        tbl ! unat (sx3 0)])"
    by (simp add: uuencode_step [of _ _ _ a b 0] rd_def nth_append uuencode_stop)
  then show ?case by (simp add: uu_pad_def list_update_append)
next
  case (one a)
  then obtain z' where "z = 0 # 0 # z'" by auto
  then have "uuencode_loop (pre @ [a] @ z) (length pre + 1) tbl (length pre) p =
      Some (length pre + 3, p @ [tbl ! unat (sx0 a), tbl ! unat (sx1 a 0), tbl ! unat (sx2 0 0),
        tbl ! unat (sx3 0)])"
    by (simp add: uuencode_step [of _ _ _ a 0 0] rd_def nth_append uuencode_stop)
  then show ?case by (simp add: uu_pad_def list_update_append)
next
  case none
  then show ?case by (simp add: uuencode_stop uu_pad_def)
qed

lemma uuencode_line:
  assumes "pad_ok s z"
  shows "uuencode (s @ z) store (length s) tbl = wr_range store 0 (enc_groups tbl s @ [0])"
proof -
  from uuencode_groups [OF assms, of "[]" "[]"] obtain i q where
    "uuencode_loop (s @ z) (length s) tbl 0 [] = Some (i, q)"
    "uu_pad (tbl ! 64) (length s) i q = enc_groups tbl s" by auto
  then show ?thesis by (simp add: uuencode_def rd_def length_tbl)
qed

end

interpretation std: sextet_code tbl_std dec_std
proof
  show "length tbl_std = 65" by (simp add: tbl_std_def)
  have "list_all (\<lambda>k. dec_std (tbl_std ! k) = of_nat k) [0..<64]" by code_simp
  then show "dec_std (tbl_std ! k) = of_nat k" if "k < 64" for k
    using that by (simp add: list_all_iff)
qed

definition val64 :: "byte \<Rightarrow> byte" where
  "val64 c = (case strchr_index base64_table c of Some i \<Rightarrow> of_nat i | None \<Rightarrow> 0)"

lemma takeWhile_distinct:
  "distinct xs \<Longrightarrow> k < length xs \<Longrightarrow> takeWhile (\<lambda>d. d \<noteq> xs ! k) (xs @ ys) = take k xs"
proof (induction xs arbitrary: k)
  case (Cons x xs)
  then show ?case by (cases k) (auto simp: nth_eq_iff_index_eq in_set_conv_nth)
qed simp

lemma base64_table_tbl: "base64_table = tbl_base64 @ [10]"
  by (simp add: base64_table_def tbl_base64_def)

lemma strchr_base64: "k < 65 \<Longrightarrow> strchr_index base64_table (tbl_base64 ! k) = Some k"
proof -
  assume "k < 65"
  moreover have "distinct tbl_base64" by code_simp
  moreover have "length tbl_base64 = 65" by (simp add: tbl_base64_def)
  ultimately show ?thesis
    by (simp add: strchr_index_def base64_table_tbl takeWhile_distinct Let_def)
qed

interpretation b64: sextet_code tbl_base64 val64
  by unfold_locales (simp_all add: tbl_base64_def [THEN arg_cong, of length] val64_def strchr_base64)

section \<open>The encoded file\<close>

definition uu_line :: "bool \<Rightarrow> bytes \<Rightarrow> bytes" where
  "uu_line std s =
     (if std then [tbl_std ! length s] @ enc_groups tbl_std s else enc_groups tbl_base64 s)"

function uu_chunks :: "bytes \<Rightarrow> bytes list" where
  "uu_chunks s = (if s = [] then [] else take SRC_BUF_SIZE s # uu_chunks (drop SRC_BUF_SIZE s))"
  by pat_completeness auto
termination
  by (relation "measure length") (auto simp: SRC_BUF_SIZE_def)

declare uu_chunks.simps [simp del]

lemma uu_chunks_Nil [simp]: "uu_chunks [] = []"
  by (simp add: uu_chunks.simps)

lemma uu_chunks_step:
  "s \<noteq> [] \<Longrightarrow> uu_chunks s = take SRC_BUF_SIZE s # uu_chunks (drop SRC_BUF_SIZE s)"
  by (simp add: uu_chunks.simps [of s])

lemma concat_uu_chunks [simp]: "concat (uu_chunks s) = s"
proof (induction s rule: uu_chunks.induct)
  case (1 s)
  then show ?case by (cases "s = []") (simp_all add: uu_chunks_step [of s])
qed

lemma uu_chunks_bounds: "c \<in> set (uu_chunks s) \<Longrightarrow> c \<noteq> [] \<and> length c \<le> SRC_BUF_SIZE"
proof (induction s rule: uu_chunks.induct)
  case (1 s)
  then show ?case
    by (cases "s = []") (auto simp: uu_chunks_step [of s] SRC_BUF_SIZE_def)
qed

lemma uuencode_full:
  assumes "length c \<le> SRC_BUF_SIZE" "c \<noteq> []" "length src_buf = SRC_BUF_SIZE + 1"
    "length dst_buf = DST_BUF_SIZE + 1"
  shows "\<exists>src dst. (do { src \<leftarrow> wr_range src_buf 0 c;
           if length c \<noteq> SRC_BUF_SIZE
           then wr_range src (length c) (replicate (SRC_BUF_SIZE - length c) 0) else Some src }) = Some src \<and>
       length src = SRC_BUF_SIZE + 1 \<and>
       uuencode src dst_buf (length c) (if std then tbl_std else tbl_base64) = Some dst \<and>
       length dst = DST_BUF_SIZE + 1 \<and>
       rd_range dst 0 (if length c \<noteq> SRC_BUF_SIZE then 4 * ((length c + 2) div 3) else DST_BUF_SIZE) =
         Some (enc_groups (if std then tbl_std else tbl_base64) c)"
proof -
  let ?tbl = "if std then tbl_std else tbl_base64"
  define z where "z = (if length c \<noteq> SRC_BUF_SIZE
    then replicate (SRC_BUF_SIZE - length c) 0 @ drop SRC_BUF_SIZE src_buf else drop (length c) src_buf)"
  have len: "length src_buf = 46" "length dst_buf = 61" "length c \<le> 45"
    using assms by (simp_all add: SRC_BUF_SIZE_def DST_BUF_SIZE_def)
  have "pad_ok c z"
  proof (cases "length c = 45")
    case False
    then obtain k where k: "45 - length c = Suc k" "k < 45" using len(3) by (cases "45 - length c") auto
    show ?thesis
    proof (cases k)
      case 0
      with k have "length c = 44" by simp
      then show ?thesis by (simp add: pad_ok_def z_def SRC_BUF_SIZE_def)
    qed (use False k in \<open>simp add: pad_ok_def z_def SRC_BUF_SIZE_def\<close>)
  qed (simp add: pad_ok_def)
  then have "uuencode (c @ z) dst_buf (length c) ?tbl = wr_range dst_buf 0 (enc_groups ?tbl c @ [0])"
    by (simp add: std.uuencode_line b64.uuencode_line)
  moreover have "(length c + 2) div 3 \<le> 15" using len(3) by simp
  ultimately show ?thesis using len
    by (auto simp: wr_range_def rd_range_def z_def length_enc_groups SRC_BUF_SIZE_def DST_BUF_SIZE_def)
qed

lemma encode_loop_lines:
  assumes "length src_buf = SRC_BUF_SIZE + 1" "length dst_buf = DST_BUF_SIZE + 1"
  shows "encode_loop std src_buf dst_buf input out =
     Some (out @ concat (map (\<lambda>c. 10 # uu_line std c) (uu_chunks input)))"
  using assms
proof (induction "length input" arbitrary: input src_buf dst_buf out rule: less_induct)
  case less
  show ?case
  proof (cases "input = []")
    case True
    then show ?thesis by (simp add: encode_loop.simps)
  next
    case False
    let ?c = "take SRC_BUF_SIZE input"
    have c: "length ?c \<le> SRC_BUF_SIZE" "?c \<noteq> []" using False by (simp_all add: SRC_BUF_SIZE_def)
    from uuencode_full [OF c less.prems, of std] obtain src1 src dst where
      w: "wr_range src_buf 0 ?c = Some src1"
         "(if length ?c \<noteq> SRC_BUF_SIZE
           then wr_range src1 (length ?c) (replicate (SRC_BUF_SIZE - length ?c) 0) else Some src1) = Some src"
      and l: "length src = SRC_BUF_SIZE + 1" "length dst = DST_BUF_SIZE + 1"
      and u: "uuencode src dst_buf (length ?c) (if std then tbl_std else tbl_base64) = Some dst"
      and r: "rd_range dst 0 (if length ?c \<noteq> SRC_BUF_SIZE then 4 * ((length ?c + 2) div 3)
           else DST_BUF_SIZE) = Some (enc_groups (if std then tbl_std else tbl_base64) ?c)"
      by (auto simp: bind_eq_Some_conv simp del: length_take)
    have m: "(if std then do { x \<leftarrow> rd (if std then tbl_std else tbl_base64) (length ?c); Some [x] } else Some [])
       = Some (if std then [tbl_std ! length ?c] else [])"
      using c(1) by (simp add: rd_def std.length_tbl SRC_BUF_SIZE_def min_less_iff_disj)
    have "length (drop SRC_BUF_SIZE input) < length input" using False by (simp add: SRC_BUF_SIZE_def)
    from less.hyps [OF this l] show ?thesis
      unfolding encode_loop.simps [of std src_buf] Let_def
      by (simp add: False w u r m uu_chunks_step uu_line_def del: length_take)
  qed
qed

text \<open>The lines as the decoders read them: each is ended by a newline.\<close>

lemma concat_newlines:
  "concat (map (\<lambda>c. 10 # f c) cs) @ 10 # r = 10 # concat (map (\<lambda>c. f c @ [10]) cs) @ r"
  by (induction cs) auto

section \<open>Decoding the encoded file\<close>

lemma stduu_groups:
  "stduu_loop (enc_groups tbl_std s @ q) (length s * 4 div 3) out = Some (out @ s)"
proof (induction s arbitrary: out rule: groups_induct)
  case (three a b c r)
  have "(length r + 3) * 4 div 3 = length r * 4 div 3 + 4" by (simp add: algebra_simps)
  with three show ?case
    by (simp add: stduu_loop.simps [of "_ # _"] rd_def std.val_chr merge_sextets algebra_simps)
next
  case (two a b)
  then show ?case by (simp add: stduu_loop.simps rd_def std.val_chr merge_sextets)
next
  case (one a)
  then show ?case by (simp add: stduu_loop.simps rd_def std.val_chr merge_sextets)
qed (simp add: stduu_loop.simps)

lemma set_enc_groups: "length tbl = 65 \<Longrightarrow> set (enc_groups tbl s) \<subseteq> set tbl"
proof -
  assume len: "length tbl = 65"
  have nth: "tbl ! unat w \<in> set tbl" if "unat w < 64" for w :: byte
    using that len by (intro nth_mem) simp
  have "tbl ! 64 \<in> set tbl" using len by (intro nth_mem) simp
  with nth show ?thesis by (induction s rule: groups_induct) simp_all
qed

lemma read_stduu_line:
  assumes "s \<noteq> []" "length s \<le> 45"
  shows "read_stduu (uu_line True s @ 10 # src) out = read_stduu src (out @ s)"
proof -
  have "set (uu_line True s) \<subseteq> set tbl_std"
    using assms(2) set_enc_groups [OF std.length_tbl] by (simp add: uu_line_def std.length_tbl)
  moreover have "\<forall>c \<in> set tbl_std. c \<noteq> 0 \<and> c \<noteq> 10 \<and> c \<noteq> 101" by (simp add: tbl_std_def)
  ultimately have ok: "\<forall>c \<in> set (uu_line True s). c \<noteq> 0 \<and> c \<noteq> 10"
    and "hd (uu_line True s) \<noteq> 101" by (auto simp: uu_line_def)
  then have ne: "uu_line True s \<noteq> str_bytes ''end''"
    by (auto simp: str_bytes_def byte_of_char_def)
  have n: "unat (dec_std (tbl_std ! length s)) = length s"
    using assms(2) by (simp add: std.val_tbl unat_of_nat)
  have le: "length s * 4 div 3 \<le> 4 * ((length s + 2) div 3)" "length s * 4 div 3 \<noteq> 0"
    "length s * 4 div 3 \<le> 60"
    using assms by (cases s; simp)+
  have len: "length (tl (uu_line True s)) = 4 * ((length s + 2) div 3)"
    "hd (uu_line True s) = tbl_std ! length s" "tl (uu_line True s) = enc_groups tbl_std s"
    "uu_line True s \<noteq> []"
    by (simp_all add: uu_line_def length_enc_groups)
  show ?thesis
    using ne n le len
    by (subst read_stduu.simps) (simp add: chomped_line [OF ok] stduu_groups [of _ "[0]"] Let_def)
qed

lemma read_stduu_file:
  assumes "\<forall>c \<in> set cs. c \<noteq> [] \<and> length c \<le> 45"
  shows "read_stduu (concat (map (\<lambda>c. uu_line True c @ [10]) cs) @ [96, 10] @ str_bytes ''end'' @ [10]) out
    = Some (None, out @ concat cs)"
  using assms
proof (induction cs arbitrary: out)
  case Nil
  have "read_stduu ([96] @ 10 # str_bytes ''end'' @ [10]) out = read_stduu (str_bytes ''end'' @ [10]) out"
    by (subst read_stduu.simps, subst chomped_line) (simp_all add: dec_std_def str_bytes_def byte_of_char_def)
  also have "\<dots> = Some (None, out)"
    by (subst read_stduu.simps, subst chomped_line) (simp_all add: str_bytes_def byte_of_char_def)
  finally show ?case by simp
qed (simp add: read_stduu_line)

lemma read_base64_char:
  assumes "unat w < 64"
  shows "length t < 3 \<Longrightarrow> read_base64 (tbl_base64 ! unat w # src) t k out = read_base64 src (t @ [w]) 0 out"
    and "read_base64 (tbl_base64 ! unat w # src) [x, y, z] k out =
      read_base64 src [] 0 (out @ merge64 [x, y, z, w])"
proof -
  have "tbl_base64 ! unat w \<notin> {61, 10}"
  proof -
    have "list_all (\<lambda>k. tbl_base64 ! k \<notin> {61, 10}) [0..<64]" by code_simp
    with assms(1) show ?thesis by (simp add: list_all_iff)
  qed
  with assms strchr_base64 [of "unat w"] show
    "length t < 3 \<Longrightarrow> read_base64 (tbl_base64 ! unat w # src) t k out = read_base64 src (t @ [w]) 0 out"
    "read_base64 (tbl_base64 ! unat w # src) [x, y, z] k out =
      read_base64 src [] 0 (out @ merge64 [x, y, z, w])"
    by (simp_all add: read_base64.simps Let_def)
qed

lemma read_base64_pad: "read_base64 (tbl_base64 ! 64 # src) t 0 out = read_base64 src [] 0 (out @ merge64 t)"
proof -
  have "tbl_base64 ! 64 = 61" by (simp add: tbl_base64_def str_bytes_def byte_of_char_def)
  with strchr_base64 [of 64] show ?thesis by (simp add: read_base64.simps)
qed

lemma strchr_newline: "strchr_index base64_table 10 = Some 65"
  by code_simp

lemma read_base64_newline: "k \<noteq> 5 \<Longrightarrow> read_base64 (10 # src) t k out = read_base64 src t 1 out"
  by (simp add: read_base64.simps strchr_newline)

lemma read_base64_groups:
  "k \<noteq> 5 \<Longrightarrow> read_base64 (enc_groups tbl_base64 s @ 10 # src) [] k out = read_base64 src [] 1 (out @ s)"
proof (induction s arbitrary: k out rule: groups_induct)
  case (three a b c r)
  then show ?case by (simp add: read_base64_char merge64_def merge_sextets)
next
  case (two a b)
  then show ?case
    by (simp add: read_base64_char read_base64_pad merge64_def merge_sextets read_base64_newline)
next
  case (one a)
  then show ?case
    by (simp add: read_base64_char read_base64_pad merge64_def merge_sextets read_base64_newline)
next
  case none
  then show ?case by (simp add: read_base64.simps strchr_newline)
qed

lemma read_base64_file:
  "read_base64 (concat (map (\<lambda>c. uu_line False c @ [10]) cs) @ [61, 61, 61, 61, 10]) [] 1 out =
     (None, out @ concat cs)"
proof (induction cs arbitrary: out)
  case Nil
  have "strchr_index base64_table 61 = Some 64" by code_simp
  then show ?case by (simp add: read_base64.simps strchr_newline)
qed (simp add: uu_line_def read_base64_groups)

lemma chr_byte [simp]: "(of_char (char_of (unat (b :: byte)) :: char) :: nat) = unat b"
  by simp

lemma oct_digits: "oct n = [] \<longleftrightarrow> False" "\<forall>c \<in> set (oct n). 48 \<le> unat c \<and> unat c < 56"
proof (induction n rule: oct.induct)
  case (1 n)
  have d: "48 \<le> unat (48 + of_nat k :: byte) \<and> unat (48 + of_nat k :: byte) < 56" if "k < 8" for k
    using that by (simp add: unat_word_ariths unat_of_nat)
  { case 1 show ?case by (simp add: oct.simps [of n]) }
  { case 2 show ?case using "1.IH" d by (simp add: oct.simps [of n]) }
qed

definition chr :: "byte \<Rightarrow> char" where
  "chr b = char_of (unat b)"

lemma of_char_chr [simp]: "(of_char (chr b) :: nat) = unat b"
  by (simp add: chr_def)

lemma unat_oct_digit: "k < 8 \<Longrightarrow> unat (48 + of_nat k :: byte) = 48 + k"
  by (simp add: unat_word_ariths unat_of_nat)

lemma digit_val_oct: "k < 8 \<Longrightarrow> digit_val (chr (48 + of_nat k)) = k"
  by (simp add: digit_val_def Let_def unat_oct_digit)

lemma digits_val_oct: "digits_val 8 (map chr (oct n)) = n"
proof (induction n rule: oct.induct)
  case (1 n)
  have "digits_val 8 (map chr (oct (n div 8)) @ [chr (48 + of_nat (n mod 8))]) =
      digits_val 8 (map chr (oct (n div 8))) * 8 + n mod 8"
    by (simp add: digits_val_def digit_val_oct)
  with 1 show ?case
    by (simp add: oct.simps [of n]) (simp add: digits_val_def digit_val_oct)
qed

lemma oct_chr:
  assumes "c \<in> set (map chr (oct n))"
  shows "digit_val c < 8" "\<not> isspace c" "c \<noteq> CHR ''-''" "c \<noteq> CHR ''+''"
proof -
  from assms oct_digits(2) [of n] have b: "48 \<le> (of_char c :: nat)" "(of_char c :: nat) < 56" by auto
  then show "digit_val c < 8" by (simp add: digit_val_def)
  from b show "\<not> isspace c" "c \<noteq> CHR ''-''" "c \<noteq> CHR ''+''" by (auto simp: isspace_def)
qed

lemma header_mode_oct:
  assumes "m < 512"
  shows "header_mode (oct m @ 32 # name) = m"
proof -
  let ?s = "map chr (oct m) @ chr 32 # map chr name"
  obtain c r where c: "map chr (oct m) = c # r" using oct_digits(1) [of m] by (cases "map chr (oct m)") auto
  then have h: "\<not> isspace c" "c \<noteq> CHR ''-''" "c \<noteq> CHR ''+''"
    using oct_chr [of c m] by auto
  have "takeWhile (\<lambda>c. digit_val c < 8) ?s = map chr (oct m)"
    using oct_chr(1) [of _ m] by (subst takeWhile_append2) (auto simp: digit_val_def chr_def)
  then have "scan_num 8 ?s = Some (False, m, chr 32 # map chr name)"
    using h c digits_val_oct [of m]
    by (simp add: scan_num_def strip_sign_def strip_base_def)
  then have "fst (strtoul 8 ?s) = of_nat m" using assms by (simp add: strtoul_def)
  moreover have "unat ((of_nat m :: u32) AND 0x1FF) = m"
  proof -
    have "unat ((of_nat m :: u32) AND 0x1FF) = m mod 2 ^ 32 AND 0x1FF"
      by (simp add: unsigned_and_eq unat_of_nat)
    also have "\<dots> = take_bit 9 m" using assms by (simp add: take_bit_eq_mask mask_eq_exp_minus_1)
    also have "\<dots> = m" using assms by (simp add: take_bit_nat_eq_self)
    finally show ?thesis .
  qed
  ultimately show ?thesis by (simp add: header_mode_def chr_def [abs_def])
qed

lemma header_name_oct: "header_name (oct m @ 32 # name) = Some name"
proof -
  have "\<forall>c \<in> set (oct m). c \<noteq> 32" using oct_digits(2) [of m] by fastforce
  then show ?thesis by (simp add: header_name_def dropWhile_append2)
qed

lemma begin_line_header:
  "begin_line (str_bytes ''begin'' @ (if base64 then str_bytes ''-base64'' else []) @ [32] @ l) =
     Some (base64, l)"
  by (simp add: begin_line_def str_bytes_def byte_of_char_def)

text \<open>
  C17. The round trip of \<open>uuencode\<close> and \<open>uudecode\<close>, for both codes: the encoder never leaves its
  buffers, and decoding what it prints for a file creates a file with the given name, the
  permissions and exactly the bytes of the input, without an error; with the name \<open>-\<close> the bytes
  are written to the standard output.
\<close>

theorem uuencode_round_trip:
  assumes "length src_buf = SRC_BUF_SIZE + 1" "length dst_buf = DST_BUF_SIZE + 1"
    "mode < 512" "\<forall>c \<in> set name. c \<noteq> 0 \<and> c \<noteq> 10" "name = str_bytes ''-'' \<or> can_open name"
  shows "\<exists>f. uuencode_main base64 mode name src_buf dst_buf input = Some f \<and>
    uudecode_main None can_open f = Some (Decoded name (if name = str_bytes ''-'' then None else Some mode) None input)"
proof -
  let ?l = "oct mode @ 32 # name"
  let ?h = "str_bytes ''begin'' @ (if base64 then str_bytes ''-base64'' else []) @ [32] @ ?l"
  let ?body = "concat (map (\<lambda>c. uu_line (\<not> base64) c @ [10]) (uu_chunks input))"
  let ?fin = "if base64 then [61, 61, 61, 61, 10] else [96, 10] @ str_bytes ''end'' @ [10]"
  have "uuencode_main base64 mode name src_buf dst_buf input = Some (?h @ 10 # ?body @ ?fin)"
    by (simp add: uuencode_main_def encode_loop_lines [OF assms(1,2)] concat_newlines)
  moreover have "\<forall>c \<in> set ?h. c \<noteq> 0 \<and> c \<noteq> 10"
    using assms(4) oct_digits(2) [of mode] by (fastforce simp: str_bytes_def byte_of_char_def)
  then have "uudecode_main None can_open (?h @ 10 # ?body @ ?fin) =
    Some (Decoded name (if name = str_bytes ''-'' then None else Some mode) None input)"
    using assms(3,5) uu_chunks_bounds [of _ input] begin_line_header [of base64 ?l]
    by (subst uudecode_main.simps, subst chomped_line)
      (auto simp: header_name_oct header_mode_oct read_base64_file SRC_BUF_SIZE_def
        read_stduu_file [unfolded append_Cons append_Nil, simplified])
  ultimately show ?thesis by blast
qed

theorem uuencode_round_trip_witness:
  "\<exists>f. uuencode_main True 420 (str_bytes ''a b'') (replicate 46 255) (replicate 61 255) [1, 2] = Some f \<and>
     uudecode_main None (\<lambda>_. True) f = Some (Decoded (str_bytes ''a b'') (Some 420) None [1, 2])"
  using uuencode_round_trip [of "replicate 46 255" "replicate 61 255" 420 "str_bytes ''a b''" "\<lambda>_. True" True "[1, 2]"]
  by (simp add: SRC_BUF_SIZE_def DST_BUF_SIZE_def str_bytes_def byte_of_char_def)

end
