(* ===== verification/Tr.thy ===== *)
theory Tr
  imports C_Lib
begin

text \<open>
  The applet \<open>tr\<close> (\<open>coreutils/tr.c\<close>) with \<open>libbb/process_escape_sequence.c\<close>. Characters are
  unsigned, as the build asks for. A string argument is the byte list of its characters with
  the zero at the end, and a pointer into it is an index; buffers keep their size, so a read or
  a write outside of them is \<open>None\<close>. \<open>BUFSIZ\<close> of the C library is an argument. The options of the
  build for character classes and equivalence classes are the arguments \<open>classes\<close> and \<open>equivs\<close>.
\<close>

section \<open>Escape sequences\<close>

text \<open>The mnemonic escapes and their characters.\<close>

definition charmap :: "(byte \<times> byte) list" where
  "charmap = [(97, 7), (98, 8), (102, 12), (110, 10), (114, 13), (116, 9), (118, 11), (92, 92)]"

text \<open>The variable \<open>d\<close>: the value of a digit in unsigned arithmetic.\<close>

definition esc_digit :: "byte \<Rightarrow> u32" where
  "esc_digit c =
     (let d = ucast c - 48 in
      if d \<ge> 10 then (ucast (c OR 0x20) - 97) + 10 else d)"

text \<open>The loop over the digits, with \<open>num_digits\<close>, \<open>n\<close> and \<open>q\<close>.\<close>

function esc_loop :: "bytes \<Rightarrow> u32 \<Rightarrow> nat \<Rightarrow> u32 \<Rightarrow> nat \<Rightarrow> (nat \<times> u32 \<times> nat) option" where
  "esc_loop s base num_digits n q = do {
     c \<leftarrow> rd s q;
     let d = esc_digit c;
     if d \<ge> base then
       (if base = 16 then
          if num_digits - 1 = 0 then Some (0, n, q - 1) else Some (num_digits - 1, n, q)
        else Some (num_digits, n, q))
     else
       let r = n * base + d in
       if r > 255 then Some (num_digits, n, q)
       else if num_digits + 1 < 3 then esc_loop s base (num_digits + 1) r (q + 1)
       else Some (num_digits + 1, r, q + 1) }"
  by pat_completeness auto
termination
  by (relation "measure (\<lambda>(_, _, k, _, _). 3 - k)") auto

declare esc_loop.simps [simp del]

text \<open>The character, and the pointer behind the sequence.\<close>

definition bb_process_escape_sequence :: "bytes \<Rightarrow> nat \<Rightarrow> (byte \<times> nat) option" where
  "bb_process_escape_sequence s q = do {
     c \<leftarrow> rd s q;
     (num_digits, n, q) \<leftarrow> (if c = 120 then esc_loop s 16 1 0 (q + 1) else esc_loop s 8 0 0 q);
     if num_digits = 0 then do {
       c \<leftarrow> rd s q;
       Some (case map_of charmap c of Some m \<Rightarrow> (m, q + 1) | None \<Rightarrow> (92, q)) }
     else Some (ucast n, q) }"

section \<open>Expansion of the arguments\<close>

definition char_range :: "nat \<Rightarrow> nat \<Rightarrow> bytes" where
  "char_range i ac = map of_nat [i..<Suc ac]"

definition is_print :: "nat \<Rightarrow> bool" where "is_print i \<longleftrightarrow> 32 \<le> i \<and> i \<le> 126"
definition is_alnum :: "nat \<Rightarrow> bool" where
  "is_alnum i \<longleftrightarrow> 48 \<le> i \<and> i \<le> 57 \<or> 65 \<le> i \<and> i \<le> 90 \<or> 97 \<le> i \<and> i \<le> 122"
definition is_space :: "nat \<Rightarrow> bool" where "is_space i \<longleftrightarrow> i = 32 \<or> 9 \<le> i \<and> i \<le> 13"
definition is_cntrl :: "nat \<Rightarrow> bool" where "is_cntrl i \<longleftrightarrow> i < 32 \<or> i = 127"

definition space_chars :: bytes where "space_chars = [9, 10, 11, 12, 13, 32]"

text \<open>
  The characters of a class that is written character by character, by the name behind \<open>[:\<close>; the
  class \<open>space\<close> is handled apart.
\<close>

definition class_chars :: "bytes \<Rightarrow> bytes option" where
  "class_chars name =
     (if name = str_bytes ''alpha'' then Some (char_range 65 90 @ char_range 97 122)
      else if name = str_bytes ''alnum'' then
        Some (char_range 48 57 @ char_range 65 90 @ char_range 97 122)
      else if name = str_bytes ''digit'' then Some (char_range 48 57)
      else if name = str_bytes ''lower'' then Some (char_range 97 122)
      else if name = str_bytes ''upper'' then Some (char_range 65 90)
      else if name = str_bytes ''blank'' then Some [9, 32]
      else if name = str_bytes ''punct'' then
        Some (map of_nat (filter (\<lambda>i. is_print i \<and> \<not> is_alnum i \<and> \<not> is_space i) [0..<256]))
      else if name = str_bytes ''cntrl'' then Some (map of_nat (filter is_cntrl [0..<256]))
      else None)"

text \<open>\<open>strcat\<close> at \<open>buffer + p\<close> appends behind the first zero it finds there.\<close>

definition strcat_at :: "bytes \<Rightarrow> nat \<Rightarrow> bytes \<Rightarrow> bytes option" where
  "strcat_at buf p s =
     (let n = length (takeWhile (\<lambda>c. c \<noteq> 0) (drop p buf))
      in if p + n < length buf then wr_range buf (p + n) (s @ [0]) else None)"

lemma esc_loop_ge:
  "esc_loop s base k n q = Some (k', n', q') \<Longrightarrow> q \<le> (if base = 16 then Suc q' else q')"
proof (induction s base k n q rule: esc_loop.induct)
  case (1 s base k n q)
  from "1.prems" [unfolded esc_loop.simps [of s base k n q]] obtain c where "rd s q = Some c"
    by (auto simp: bind_eq_Some_conv)
  with "1.IH" [OF this refl] "1.prems" [unfolded esc_loop.simps [of s base k n q]] show ?case
    by (auto simp: Let_def split: if_splits)
qed

lemma escape_advances:
  "bb_process_escape_sequence s q = Some (c, q') \<Longrightarrow> q \<le> q'"
  by (auto simp: bb_process_escape_sequence_def bind_eq_Some_conv dest!: esc_loop_ge
      split: if_splits option.splits)

text \<open>
  The loop over the argument: \<open>a\<close> is \<open>arg\<close>, \<open>p\<close> the distance of \<open>buffer\<close> from its start. The
  result is the buffer and its filled length. After a class the source leaves the loop.
\<close>

function expand_loop :: "bool \<Rightarrow> bool \<Rightarrow> bytes \<Rightarrow> nat \<Rightarrow> bytes \<Rightarrow> nat \<Rightarrow> (bytes \<times> nat) option" where
  "expand_loop classes equivs arg a buf p = do {
     c \<leftarrow> rd arg a;
     if c = 0 then Some (buf, p)
     else if c = 92 then do {
       (e, a) \<leftarrow> bb_process_escape_sequence arg (a + 1);
       buf \<leftarrow> wr buf p e;
       expand_loop classes equivs arg a buf (p + 1) }
     else do {
       c1 \<leftarrow> rd arg (a + 1);
       if c1 = 45 then do {
         ac \<leftarrow> rd arg (a + 2);
         if ac = 0 then do {
           buf \<leftarrow> wr buf p c;
           expand_loop classes equivs arg (a + 1) buf (p + 1) }
         else do {
           let r = char_range (unat c) (unat ac);
           buf \<leftarrow> wr_range buf p r;
           expand_loop classes equivs arg (a + 3) buf (p + length r) } }
       else if c = 91 then
         if classes \<and> c1 = 58 then
           let name = take 5 (drop (a + 2) arg) in
           if name = str_bytes ''space'' then do {
             buf \<leftarrow> strcat_at buf p space_chars;
             Some (buf, p + length space_chars) }
           else (case class_chars name of
             Some cs \<Rightarrow> do { buf \<leftarrow> wr_range buf p cs; Some (buf, p + length cs) }
           | None \<Rightarrow> do {
               buf \<leftarrow> wr_range buf p [91, 58];
               expand_loop classes equivs arg (a + 2) buf (p + 2) })
         else if equivs \<and> c1 = 61 then do {
           e \<leftarrow> rd arg (a + 2);
           buf \<leftarrow> wr buf p e;
           expand_loop classes equivs arg (a + 5) buf (p + 1) }
         else do {
           c2 \<leftarrow> rd arg (a + 2);
           if c2 \<noteq> 45 then do {
             buf \<leftarrow> wr buf p 91;
             expand_loop classes equivs arg (a + 1) buf (p + 1) }
           else do {
             ac \<leftarrow> rd arg (a + 3);
             let r = char_range (unat c1) (unat ac);
             buf \<leftarrow> wr_range buf p r;
             expand_loop classes equivs arg (a + 5) buf (p + length r) } }
       else do {
         buf \<leftarrow> wr buf p c;
         expand_loop classes equivs arg (a + 1) buf (p + 1) } } }"
  by pat_completeness auto
termination
  by (relation "measure (\<lambda>(_, _, arg, a, _, _). length arg - a)")
    (auto simp: rd_eq_Some_iff dest!: escape_advances)

declare expand_loop.simps [simp del]

definition expand :: "bool \<Rightarrow> bool \<Rightarrow> bytes \<Rightarrow> bytes \<Rightarrow> (bytes \<times> nat) option" where
  "expand classes equivs arg buf = expand_loop classes equivs (arg @ [0]) 0 buf 0"

text \<open>The bytes that do not occur in the first \<open>len\<close> bytes of the buffer, in ascending order.\<close>

definition complement :: "bytes \<Rightarrow> nat \<Rightarrow> (bytes \<times> nat) option" where
  "complement buf len = do {
     s \<leftarrow> rd_range buf 0 len;
     let conv = map of_nat (filter (\<lambda>i. of_nat i \<notin> set s) [0..<256]);
     buf \<leftarrow> wr_range buf 0 conv;
     Some (buf, length conv) }"

text \<open>\<open>string2\<close> is what is left of the second string, from the index \<open>j\<close> on.\<close>

fun map_loop :: "bytes \<Rightarrow> bytes \<Rightarrow> bytes \<Rightarrow> byte \<Rightarrow> bytes" where
  "map_loop v [] string2 lst = v"
| "map_loop v (c # string1) [] lst = map_loop (v[unat c := lst]) string1 [] lst"
| "map_loop v (c # string1) (d # string2) lst = map_loop (v[unat c := d]) string1 string2 d"

definition tr_map :: "bytes \<Rightarrow> bytes \<Rightarrow> bytes \<Rightarrow> bytes" where
  "tr_map pvector string1 string2 = map_loop pvector string1 string2 48"

section \<open>Conversion of the input\<close>

record tr_state =
  del_fl :: bool
  sq_fl :: bool
  pvector :: bytes
  pinvec :: "bool list"
  poutvec :: "bool list"

text \<open>
  The characters of one read, with the output buffer, its fill and the last character (\<open>None\<close>
  for \<open>-1\<close>).
\<close>

fun convert_chars ::
  "tr_state \<Rightarrow> bytes \<Rightarrow> bytes \<Rightarrow> nat \<Rightarrow> byte option \<Rightarrow> (bytes \<times> nat \<times> byte option) option" where
  "convert_chars st [] out out_index lst = Some (out, out_index, lst)"
| "convert_chars st (c # input) out out_index lst = do {
     coded \<leftarrow> rd (pvector st) (unat c);
     inc \<leftarrow> rd (pinvec st) (unat c);
     outc \<leftarrow> rd (poutvec st) (unat coded);
     if del_fl st \<and> inc then convert_chars st input out out_index lst
     else if sq_fl st \<and> lst = Some coded \<and> (inc \<or> outc) then convert_chars st input out out_index lst
     else do {
       out \<leftarrow> wr out out_index coded;
       convert_chars st input out (out_index + 1) (Some coded) } }"

text \<open>The results of \<open>read\<close> until the end of the file, and the bytes that are written.\<close>

fun convert :: "tr_state \<Rightarrow> bytes list \<Rightarrow> bytes \<Rightarrow> byte option \<Rightarrow> bytes option" where
  "convert st [] out lst = Some []"
| "convert st (r # reads) out lst = do {
     (out, n, lst) \<leftarrow> convert_chars st r out 0 lst;
     w \<leftarrow> rd_range out 0 n;
     rest \<leftarrow> convert st reads out lst;
     Some (w @ rest) }"

section \<open>The applet\<close>

datatype tr_error = Usage | Empty_string2

text \<open>The options: \<open>com_fl\<close>, \<open>del_fl\<close> and \<open>sq_fl\<close>.\<close>

fun tr_flags :: "bytes \<Rightarrow> bool \<times> bool \<times> bool \<Rightarrow> (bool \<times> bool \<times> bool) option" where
  "tr_flags [] fl = Some fl"
| "tr_flags (c # cs) (com, del, sq) =
     (if c = 99 then tr_flags cs (True, del, sq)
      else if c = 100 then tr_flags cs (com, True, sq)
      else if c = 115 then tr_flags cs (com, del, True)
      else None)"

definition mark_all :: "bytes \<Rightarrow> bool list" where
  "mark_all s = foldl (\<lambda>v c. v[unat c := True]) (replicate 256 False) s"

text \<open>
  The two strings: the sets and the vector. \<open>buf\<close> is \<open>bb_common_bufsiz1\<close>, which is zero at
  first, and \<open>output\<close> the output buffer with whatever it contains.
\<close>

definition tr_strings ::
  "bool \<Rightarrow> bool \<Rightarrow> bool \<times> bool \<times> bool \<Rightarrow> bytes list \<Rightarrow> bytes \<Rightarrow> bytes \<Rightarrow>
     (tr_error + tr_state \<times> bytes) option" where
  "tr_strings classes equivs fl args buf output =
     (case fl of (com, del, sq) \<Rightarrow>
      case args of
        [] \<Rightarrow> Some (Inr (\<lparr> del_fl = del, sq_fl = sq, pvector = map of_nat [0..<256],
           pinvec = mark_all [], poutvec = mark_all [] \<rparr>, output))
      | s1 # rest \<Rightarrow> do {
          (buf, n) \<leftarrow> expand classes equivs s1 buf;
          (buf, n) \<leftarrow> (if com then complement buf n else Some (buf, n));
          string1 \<leftarrow> rd_range buf 0 n;
          case rest of
            [] \<Rightarrow> Some (Inr (\<lparr> del_fl = del, sq_fl = sq, pvector = map of_nat [0..<256],
               pinvec = mark_all string1, poutvec = mark_all [] \<rparr>, output))
          | s2 # _ \<Rightarrow>
              if s2 = [] then Some (Inl Empty_string2)
              else do {
                (output, m) \<leftarrow> expand classes equivs s2 output;
                string2 \<leftarrow> rd_range output 0 m;
                Some (Inr (\<lparr> del_fl = del, sq_fl = sq,
                  pvector = tr_map (map of_nat [0..<256]) string1 string2,
                  pinvec = mark_all string1, poutvec = mark_all string2 \<rparr>, output)) } })"

definition tr_main ::
  "bool \<Rightarrow> bool \<Rightarrow> nat \<Rightarrow> bytes list \<Rightarrow> bytes \<Rightarrow> bytes list \<Rightarrow> (tr_error + bytes) option" where
  "tr_main classes equivs bufsiz argv output reads =
     (let opt = argv \<noteq> [] \<and> hd argv \<noteq> [] \<and> hd (hd argv) = 45;
          args = (if opt then tl argv else argv)
      in case (if opt then tr_flags (tl (hd argv)) (False, False, False) else Some (False, False, False)) of
           None \<Rightarrow> Some (Inl Usage)
         | Some fl \<Rightarrow> do {
             r \<leftarrow> tr_strings classes equivs fl args (replicate (bufsiz + 1) 0) output;
             case r of
               Inl e \<Rightarrow> Some (Inl e)
             | Inr (st, output) \<Rightarrow> do { w \<leftarrow> convert st reads output None; Some (Inr w) } })"

section \<open>Properties\<close>

text \<open>The specification of the conversion.\<close>

fun tr_spec :: "bool \<Rightarrow> bool \<Rightarrow> (byte \<Rightarrow> byte) \<Rightarrow> byte set \<Rightarrow> byte set \<Rightarrow> byte option \<Rightarrow> bytes \<Rightarrow> bytes" where
  "tr_spec del sq f S1 S2 lst [] = []"
| "tr_spec del sq f S1 S2 lst (c # cs) =
     (if del \<and> c \<in> S1 then tr_spec del sq f S1 S2 lst cs
      else if sq \<and> lst = Some (f c) \<and> (c \<in> S1 \<or> f c \<in> S2) then tr_spec del sq f S1 S2 lst cs
      else f c # tr_spec del sq f S1 S2 (Some (f c)) cs)"

definition refines :: "tr_state \<Rightarrow> (byte \<Rightarrow> byte) \<Rightarrow> byte set \<Rightarrow> byte set \<Rightarrow> bool" where
  "refines st f S1 S2 \<longleftrightarrow> (\<forall>c. rd (pvector st) (unat c) = Some (f c) \<and>
     rd (pinvec st) (unat c) = Some (c \<in> S1) \<and> rd (poutvec st) (unat c) = Some (c \<in> S2))"

definition last_of :: "byte option \<Rightarrow> bytes \<Rightarrow> byte option" where
  "last_of l w = (if w = [] then l else Some (last w))"

lemma tr_spec_append:
  "tr_spec del sq f S1 S2 l (xs @ ys) =
     (let w = tr_spec del sq f S1 S2 l xs in w @ tr_spec del sq f S1 S2 (last_of l w) ys)"
  by (induction xs arbitrary: l) (auto simp: Let_def last_of_def)

lemma length_tr_spec: "length (tr_spec del sq f S1 S2 l xs) \<le> length xs"
  by (induction xs arbitrary: l) (auto simp: le_SucI)

lemma convert_chars_spec:
  assumes "refines st f S1 S2" "n + length input \<le> length out"
  shows "\<exists>out'. convert_chars st input out n l =
      Some (out', n + length (tr_spec (del_fl st) (sq_fl st) f S1 S2 l input),
        last_of l (tr_spec (del_fl st) (sq_fl st) f S1 S2 l input)) \<and>
      length out' = length out \<and>
      take (n + length (tr_spec (del_fl st) (sq_fl st) f S1 S2 l input)) out' =
        take n out @ tr_spec (del_fl st) (sq_fl st) f S1 S2 l input"
  using assms(2)
proof (induction input arbitrary: out n l)
  case Nil
  then show ?case by (simp add: last_of_def)
next
  case (Cons c input)
  have r: "rd (pvector st) (unat c) = Some (f c)" "rd (pinvec st) (unat c) = Some (c \<in> S1)"
    "rd (poutvec st) (unat (f c)) = Some (f c \<in> S2)"
    using assms(1) by (simp_all add: refines_def)
  have w: "wr out n (f c) = Some (out[n := f c])" using Cons.prems by (simp add: wr_def)
  have t: "take (Suc n) (out[n := f c]) = take n out @ [f c]"
    using Cons.prems by (simp add: take_Suc_conv_app_nth)
  show ?case
  proof (cases "del_fl st \<and> c \<in> S1 \<or> sq_fl st \<and> l = Some (f c) \<and> (c \<in> S1 \<or> f c \<in> S2)")
    case True
    then have "convert_chars st (c # input) out n l = convert_chars st input out n l"
      "tr_spec (del_fl st) (sq_fl st) f S1 S2 l (c # input) = tr_spec (del_fl st) (sq_fl st) f S1 S2 l input"
      by (auto simp: r)
    with Cons.IH [of n out l] Cons.prems show ?thesis by simp
  next
    case False
    then have e: "convert_chars st (c # input) out n l =
        convert_chars st input (out[n := f c]) (Suc n) (Some (f c))"
      "tr_spec (del_fl st) (sq_fl st) f S1 S2 l (c # input) =
        f c # tr_spec (del_fl st) (sq_fl st) f S1 S2 (Some (f c)) input"
      using w by (auto simp: r)
    from Cons.IH [of "Suc n" "out[n := f c]" "Some (f c)"] Cons.prems show ?thesis
      unfolding e by (auto simp: t last_of_def)
  qed
qed

lemma convert_spec:
  assumes "refines st f S1 S2" "\<forall>r \<in> set reads. length r \<le> length out"
  shows "convert st reads out l = Some (tr_spec (del_fl st) (sq_fl st) f S1 S2 l (concat reads))"
  using assms(2)
proof (induction reads arbitrary: out l)
  case (Cons r reads)
  then obtain out' where "convert_chars st r out 0 l =
      Some (out', length (tr_spec (del_fl st) (sq_fl st) f S1 S2 l r),
        last_of l (tr_spec (del_fl st) (sq_fl st) f S1 S2 l r))" "length out' = length out"
      "take (length (tr_spec (del_fl st) (sq_fl st) f S1 S2 l r)) out' =
        tr_spec (del_fl st) (sq_fl st) f S1 S2 l r"
    using convert_chars_spec [OF assms(1), of 0 r out l] by auto
  moreover have "length (tr_spec (del_fl st) (sq_fl st) f S1 S2 l r) \<le> length out"
    using length_tr_spec [of "del_fl st" "sq_fl st" f S1 S2 l r] Cons.prems by auto
  ultimately show ?case using Cons.IH [of out'] Cons.prems
    by (simp add: rd_range_def tr_spec_append Let_def)
qed simp

lemma unat_eq_iff: "unat (a :: byte) = unat b \<longleftrightarrow> a = b"
  by (simp add: word_unat_eq_iff)

lemma mark_all_rd [simp]: "rd (mark_all s) (unat c) = Some (c \<in> set s)"
proof -
  have "length v = 256 \<Longrightarrow> rd (foldl (\<lambda>v c. v[unat c := True]) v s) (unat c) =
      Some (c \<in> set s \<or> v ! unat c)" for v
    by (induction s arbitrary: v) (auto simp: rd_def nth_list_update unat_eq_iff)
  then show ?thesis by (simp add: mark_all_def)
qed

text \<open>Each character of the first string is mapped to the one at the same place of the second;
  the second string is extended by its last character. The last mapping of a character counts.\<close>

definition translate :: "bytes \<Rightarrow> bytes \<Rightarrow> byte \<Rightarrow> byte" where
  "translate s1 s2 c =
     (case map_of (rev (zip s1 (s2 @ replicate (length s1) (last s2)))) c of Some d \<Rightarrow> d | None \<Rightarrow> c)"

lemma zip_pad:
  "length xs \<le> m \<Longrightarrow> length xs \<le> k \<Longrightarrow> zip xs (s @ replicate m x) = zip xs (s @ replicate k x)"
proof (induction xs arbitrary: s m k)
  case (Cons a xs)
  show ?case
  proof (cases s)
    case Nil
    with Cons.prems Cons.IH [of "m - 1" "k - 1" "[]"] show ?thesis by (cases m; cases k) auto
  qed (use Cons in auto)
qed simp

lemma map_loop_rd:
  "length v = 256 \<Longrightarrow> rd (map_loop v s1 s2 l) (unat c) =
     Some (case map_of (rev (zip s1 (s2 @ replicate (length s1) (if s2 = [] then l else last s2)))) c of
       Some d \<Rightarrow> d | None \<Rightarrow> v ! unat c)"
proof (induction v s1 s2 l rule: map_loop.induct)
  case (1 v s2 l)
  then show ?case by (simp add: rd_def)
next
  case (2 v a s1 l)
  then show ?case by (auto simp: map_add_def nth_list_update unat_eq_iff split: option.splits)
next
  case (3 v a s1 d s2 l)
  let ?x = "if s2 = [] then d else last s2"
  have "zip s1 (s2 @ replicate (Suc (length s1)) ?x) = zip s1 (s2 @ replicate (length s1) ?x)"
    by (rule zip_pad) simp_all
  with 3 show ?case
    by (simp add: map_add_def nth_list_update unat_eq_iff split: option.split)
qed

lemma identity_nth: "map of_nat [0..<256] ! unat (c :: byte) = c"
  by (subst nth_map) simp_all

lemma tr_map_rd: "s2 \<noteq> [] \<Longrightarrow> rd (tr_map (map of_nat [0..<256]) s1 s2) (unat c) = Some (translate s1 s2 c)"
  by (simp add: tr_map_def map_loop_rd translate_def identity_nth split: option.split)

section \<open>Literal strings\<close>

definition literal :: "bytes \<Rightarrow> bool" where
  "literal s \<longleftrightarrow> set s \<inter> {0, 45, 91, 92} = {}"

lemma expand_literal_char:
  assumes "rd arg a = Some c" "c \<notin> {0, 45, 91, 92}" "rd arg (Suc a) = Some c1" "c1 \<noteq> 45" "p < length buf"
  shows "expand_loop classes equivs arg a buf p = expand_loop classes equivs arg (Suc a) (buf[p := c]) (Suc p)"
  using assms by (subst expand_loop.simps) (simp add: wr_def)

lemma expand_loop_literal:
  assumes "literal s" "p + length s \<le> length buf"
  shows "expand_loop classes equivs (pre @ s @ [0]) (length pre) buf p =
    Some (take p buf @ s @ drop (p + length s) buf, p + length s)"
  using assms
proof (induction s arbitrary: pre buf p)
  case Nil
  then show ?case by (subst expand_loop.simps) simp
next
  case (Cons c s)
  have c1: "rd (pre @ (c # s) @ [0]) (Suc (length pre)) = Some (if s = [] then 0 else hd s)"
    by (cases s) (simp_all add: rd_def nth_append)
  have "expand_loop classes equivs (pre @ (c # s) @ [0]) (length pre) buf p =
      expand_loop classes equivs ((pre @ [c]) @ s @ [0]) (length (pre @ [c])) (buf[p := c]) (Suc p)"
    using Cons.prems by (subst expand_literal_char [OF _ _ c1]) (auto simp: literal_def dest: hd_in_set)
  also have "\<dots> = Some (take (Suc p) (buf[p := c]) @ s @ drop (Suc p + length s) (buf[p := c]), Suc p + length s)"
    using Cons.prems by (intro Cons.IH) (auto simp: literal_def)
  also have "take (Suc p) (buf[p := c]) = take p buf @ [c]"
    using Cons.prems by (simp add: take_Suc_conv_app_nth)
  finally show ?case by simp
qed

lemma expand_literal:
  assumes "literal s" "length s \<le> length buf"
  shows "expand classes equivs s buf = Some (s @ drop (length s) buf, length s)"
  using expand_loop_literal [OF assms(1), of 0 buf classes equivs "[]"] assms(2) by (simp add: expand_def)

definition complement_of :: "bytes \<Rightarrow> bytes" where
  "complement_of s = map of_nat (filter (\<lambda>i. of_nat i \<notin> set s) [0..<256])"

lemma set_complement_of: "set (complement_of s) = - set s"
proof
  show "- set s \<subseteq> set (complement_of s)"
  proof
    fix c assume "c \<in> - set s"
    then show "c \<in> set (complement_of s)"
      by (auto simp: complement_of_def intro!: image_eqI [of _ _ "unat c"])
  qed
qed (auto simp: complement_of_def)

lemma length_complement_of: "length (complement_of s) \<le> 256"
proof -
  have "length (filter (\<lambda>i. (of_nat i :: byte) \<notin> set s) [0..<256]) \<le> length [0..<256 :: nat]"
    by (rule length_filter_le)
  then show ?thesis by (simp add: complement_of_def)
qed

lemma complement_prefix:
  "256 \<le> length (s @ r) \<Longrightarrow>
     complement (s @ r) (length s) =
       Some (complement_of s @ drop (length (complement_of s)) (s @ r), length (complement_of s))"
  using length_complement_of [of s]
  by (simp add: complement_def rd_range_def wr_range_def complement_of_def [symmetric] Let_def)

lemma rd_range_prefix [simp]: "rd_range (s @ r) 0 (length s) = Some s"
  by (simp add: rd_range_def)

lemma tr_flags_letters:
  "tr_flags w (com, del, sq) = (if set w \<subseteq> {99, 100, 115}
     then Some (com \<or> 99 \<in> set w, del \<or> 100 \<in> set w, sq \<or> 115 \<in> set w) else None)"
  by (induction w arbitrary: com del sq) auto

lemma expand_then_set1:
  assumes "literal s1" "length s1 \<le> bufsiz" "256 \<le> bufsiz" "length buf = bufsiz + 1"
  shows "do { (buf, n) \<leftarrow> expand classes equivs s1 buf;
      (buf, n) \<leftarrow> (if com then complement buf n else Some (buf, n)); g buf n } =
    (let set1 = if com then complement_of s1 else s1; k = if com then length set1 else length s1
     in g (set1 @ drop k (if com then s1 @ drop (length s1) buf else buf)) (length set1))"
  using assms by (simp add: expand_literal complement_prefix Let_def)

lemma tr_strings_one:
  assumes "literal s1" "length s1 \<le> bufsiz" "256 \<le> bufsiz" "length buf = bufsiz + 1"
    "set1 = (if com then complement_of s1 else s1)"
  shows "tr_strings classes equivs (com, del, sq) [s1] buf output = Some (Inr (\<lparr> del_fl = del, sq_fl = sq,
    pvector = map of_nat [0..<256], pinvec = mark_all set1, poutvec = mark_all [] \<rparr>, output))"
  unfolding tr_strings_def assms(5)
  by (simp add: expand_then_set1 [OF assms(1-4)] Let_def)

lemma tr_strings_two:
  assumes "literal s1" "length s1 \<le> bufsiz" "256 \<le> bufsiz" "length buf = bufsiz + 1"
    "set1 = (if com then complement_of s1 else s1)" "literal s2" "length s2 \<le> length output"
  shows "tr_strings classes equivs (com, del, sq) [s1, s2] buf output =
    Some (if s2 = [] then Inl Empty_string2 else Inr (\<lparr> del_fl = del, sq_fl = sq,
      pvector = tr_map (map of_nat [0..<256]) set1 s2, pinvec = mark_all set1, poutvec = mark_all s2 \<rparr>,
      s2 @ drop (length s2) output))"
  unfolding tr_strings_def assms(5)
  by (simp add: expand_then_set1 [OF assms(1-4)] expand_literal [OF assms(6,7)] Let_def)



lemma expand_loop_bracket:
  "literal s \<Longrightarrow> expand_loop classes equivs (pre @ s @ [91, 0]) (length pre) buf p = None"
proof (induction s arbitrary: pre buf p)
  case Nil
  have "rd (pre @ [91, 0 :: byte]) (length pre + 2) = None" by (simp add: rd_def)
  then show ?case by (subst expand_loop.simps) (simp add: rd_def nth_append)
next
  case (Cons c s)
  have c1: "rd (pre @ (c # s) @ [91, 0]) (Suc (length pre)) = Some (hd (s @ [91]))"
    by (cases s) (simp_all add: rd_def nth_append)
  show ?case
  proof (cases "p < length buf")
    case True
    have "expand_loop classes equivs (pre @ (c # s) @ [91, 0]) (length pre) buf p =
        expand_loop classes equivs ((pre @ [c]) @ s @ [91, 0]) (length (pre @ [c])) (buf[p := c]) (Suc p)"
      using Cons.prems True
      by (subst expand_literal_char [OF _ _ c1]) (auto simp: literal_def hd_append dest: hd_in_set)
    also have "\<dots> = None" using Cons.prems by (intro Cons.IH) (simp add: literal_def)
    finally show ?thesis .
  next
    case False
    with Cons.prems c1 show ?thesis
      by (subst expand_loop.simps)
        (auto simp: literal_def wr_def hd_append dest: hd_in_set split: if_splits)
  qed
qed

text \<open>
  A read outside of the argument: a string that ends in a single bracket makes \<open>expand\<close>
  read the byte behind the end of the argument.
\<close>

lemma expand_lone_bracket:
  assumes "literal s"
  shows "expand classes equivs (s @ [91]) buf = None"
  using expand_loop_bracket [OF assms, of classes equivs "[]"] by (simp add: expand_def)

lemma expand_lone_bracket_example: "expand True True ([97, 98] @ [91]) (replicate 300 0) = None"
  by (rule expand_lone_bracket) (simp add: literal_def)

text \<open>
  In hexadecimal escapes the characters \<open>@\<close> and the backquote count as the digit 9: the
  sequence that starts with \<open>x@\<close> gives the character 9.
\<close>

lemma escape_at_sign:
  "bb_process_escape_sequence (str_bytes ''x@'' @ [0]) 0 = Some (9, 2)"
  by code_simp

end
