(* ===== verification/Ash_Vars.thy ===== *)
theory Ash_Vars
  imports C_Lib
begin

text \<open>
  The shell variables of \<open>ash\<close> (\<open>shell/ash.c\<close>, the part \<open>var.c\<close>): a table of 39 hash lists of
  variables, and the saved values of the local variables of a function. The flags of a variable
  are the set of its bits. The callback of a variable is a number, and the calls are recorded in
  the order in which they are made; that a callback changes variables is not modelled. Dynamic
  variables are not configured. A call of \<open>sh_error\<close> ends the operation with the table as it is at
  that moment.

  The specification is dynamic scoping: a global environment, and a frame for the variables that
  were declared local.
\<close>

section \<open>Variables\<close>

datatype vflag = VEXPORT | VREADONLY | VSTRFIXED | VTEXTFIXED | VSTACK | VUNSET | VNOFUNC | VNOSET
  | VNOSAVE

record var =
  v_flags :: "vflag set"
  v_text :: string
  v_func :: "nat option"

type_synonym vartab = "var list list"

definition VTABSIZE :: nat where "VTABSIZE = 39"

datatype var_error = Bad_variable_name | Is_read_only

text \<open>
  The calls of callbacks. The argument is \<open>None\<close> when the text has no equals sign: the pointer is
  then behind the terminating zero of the text.
\<close>

type_synonym var_calls = "(nat \<times> string option) list"

type_synonym var_result = "(var_error \<times> vartab) + (vartab \<times> var_calls)"

text \<open>Strings have no zero inside; a zero would end them.\<close>

definition vname :: "string \<Rightarrow> string" where
  "vname s = takeWhile (\<lambda>c. c \<noteq> CHR ''='' \<and> c \<noteq> CHR 0x00) s"

definition has_value :: "string \<Rightarrow> bool" where
  "has_value s \<longleftrightarrow> CHR ''='' \<in> set s"

text \<open>\<open>strchrnul(s, '=') + 1\<close>\<close>

definition value_of :: "string \<Rightarrow> string" where
  "value_of s = tl (dropWhile (\<lambda>c. c \<noteq> CHR ''='') s)"

definition call_arg :: "string \<Rightarrow> string option" where
  "call_arg s = (if has_value s then Some (value_of s) else None)"

definition char_at :: "string \<Rightarrow> nat" where
  "char_at s = (case s of [] \<Rightarrow> 0 | c # _ \<Rightarrow> of_char c)"

definition hashvar :: "string \<Rightarrow> nat" where
  "hashvar p =
     ((16 * char_at p + sum_list (map of_char (vname p))) mod 2 ^ 32) mod VTABSIZE"

function varcmp :: "string \<Rightarrow> string \<Rightarrow> int" where
  "varcmp p q =
     (let c = char_at p; d = char_at q in
      if c = d then
        if c = 0 \<or> c = 61 then 0 else varcmp (tl p) (tl q)
      else (if c = 61 then 0 else int c) - (if d = 61 then 0 else int d))"
  by pat_completeness auto
termination
  by (relation "measure (\<lambda>(p, _). length p)") (auto simp: char_at_def split: list.splits)

declare varcmp.simps [simp del]

definition varequal :: "string \<Rightarrow> string \<Rightarrow> bool" where
  "varequal a b \<longleftrightarrow> varcmp a b = 0"

text \<open>The position of the variable in its list.\<close>

fun findvar :: "var list \<Rightarrow> string \<Rightarrow> nat option" where
  "findvar [] name = None"
| "findvar (v # vs) name =
     (if varequal (v_text v) name then Some 0 else map_option Suc (findvar vs name))"

definition is_alpha :: "char \<Rightarrow> bool" where
  "is_alpha c \<longleftrightarrow> (let n = (of_char c :: nat) in 65 \<le> n \<and> n \<le> 90 \<or> 97 \<le> n \<and> n \<le> 122)"

definition is_name :: "char \<Rightarrow> bool" where
  "is_name c \<longleftrightarrow> c = CHR ''_'' \<or> is_alpha c"

definition is_in_name :: "char \<Rightarrow> bool" where
  "is_in_name c \<longleftrightarrow> c = CHR ''_'' \<or> is_alpha c \<or> isdigit c"

text \<open>The length of the name at the start of the string.\<close>

definition endofname :: "string \<Rightarrow> nat" where
  "endofname s =
     (case s of
        [] \<Rightarrow> 0
      | c # r \<Rightarrow> if is_name c then Suc (length (takeWhile is_in_name r)) else 0)"

definition setvareq :: "bool \<Rightarrow> vartab \<Rightarrow> string \<Rightarrow> vflag set \<Rightarrow> var_result" where
  "setvareq aflag tab s flags0 =
     (let h = hashvar s;
          flags = flags0 \<union> (if aflag then {VEXPORT} else {})
      in case findvar (tab ! h) s of
           Some k \<Rightarrow>
             let vp = tab ! h ! k in
             if VREADONLY \<in> v_flags vp then Inl (Is_read_only, tab)
             else if VNOSET \<in> flags then Inr (tab, [])
             else Inr (tab[h := (tab ! h)[k := vp\<lparr>
                    v_flags := flags \<union> (v_flags vp - {VTEXTFIXED, VSTACK, VNOSAVE, VUNSET}),
                    v_text := s\<rparr>]],
                  case v_func vp of
                    Some f \<Rightarrow> if VNOFUNC \<notin> flags then [(f, call_arg s)] else []
                  | None \<Rightarrow> [])
         | None \<Rightarrow>
             if VNOSET \<in> flags then Inr (tab, [])
             else Inr (tab[h := \<lparr>v_flags = flags, v_text = s, v_func = None\<rparr> # tab ! h], []))"

definition setvar :: "bool \<Rightarrow> vartab \<Rightarrow> string \<Rightarrow> string option \<Rightarrow> vflag set \<Rightarrow> var_result" where
  "setvar aflag tab name val flags =
     (let q = endofname name;
          p = q + length (takeWhile (\<lambda>c. c \<noteq> CHR ''='') (drop q name))
      in if p = 0 \<or> p \<noteq> q then Inl (Bad_variable_name, tab)
         else setvareq aflag tab
                (take p name @ (case val of Some v \<Rightarrow> CHR ''='' # v | None \<Rightarrow> ''''))
                (flags \<union> (if val = None then {VUNSET} else {}) \<union> {VNOSAVE}))"

definition lookupvar :: "vartab \<Rightarrow> string \<Rightarrow> string option" where
  "lookupvar tab name =
     (case findvar (tab ! hashvar name) name of
        Some k \<Rightarrow>
          let v = tab ! hashvar name ! k in
          if VUNSET \<notin> v_flags v then Some (value_of (v_text v)) else None
      | None \<Rightarrow> None)"

text \<open>The return value is 0 for success, 1 for a read-only and 2 for an unknown variable.\<close>

definition unsetvar ::
  "bool \<Rightarrow> vartab \<Rightarrow> string \<Rightarrow> (var_error \<times> vartab) + (vartab \<times> var_calls \<times> nat)" where
  "unsetvar aflag tab s =
     (let h = hashvar s in
      case findvar (tab ! h) s of
        None \<Rightarrow> Inr (tab, [], 2)
      | Some k \<Rightarrow>
          let vp = tab ! h ! k in
          if VREADONLY \<in> v_flags vp then Inr (tab, [], 1)
          else if VUNSET \<in> v_flags vp then Inr (tab, [], 0)
          else if VSTRFIXED \<notin> v_flags vp then
            Inr (tab[h := take k (tab ! h) @ drop (Suc k) (tab ! h)], [], 0)
          else
            bind_res (setvar aflag tab s None {}) (\<lambda>(tab, calls).
              Inr (tab[h := (tab ! h)[k := (tab ! h ! k)\<lparr>v_flags := v_flags (tab ! h ! k) - {VEXPORT}\<rparr>]],
                calls, 0)))"

section \<open>Local variables\<close>

text \<open>
  A saved variable: the pointer \<open>vp\<close> is the name of the variable, whose structure is not freed
  while it is saved. The name \<open>-\<close> saves the options of the shell.
\<close>

datatype localvar = Saved_var string "vflag set" string | Saved_options string

record shell_vars =
  sv_tab :: vartab
  localvars :: "localvar list"
  optlist :: string
  funcnest :: int

definition mklocal ::
  "bool \<Rightarrow> shell_vars \<Rightarrow> string \<Rightarrow> (var_error \<times> shell_vars) + (shell_vars \<times> var_calls)" where
  "mklocal aflag st name =
     (if name = ''-'' then Inr (st\<lparr>localvars := Saved_options (optlist st) # localvars st\<rparr>, [])
      else
        let h = hashvar name; tab = sv_tab st in
        case findvar (tab ! h) name of
          None \<Rightarrow>
            (case (if has_value name then setvareq aflag tab name {VSTRFIXED}
                   else setvar aflag tab name None {VSTRFIXED}) of
               Inl (e, tab) \<Rightarrow> Inl (e, st\<lparr>sv_tab := tab\<rparr>)
             | Inr (tab, calls) \<Rightarrow>
                 Inr (st\<lparr>sv_tab := tab,
                   localvars := Saved_var (vname name) {VUNSET} '''' # localvars st\<rparr>, calls))
        | Some k \<Rightarrow>
            let vp = tab ! h ! k;
                tab1 = tab[h := (tab ! h)[k := vp\<lparr>v_flags := v_flags vp \<union> {VSTRFIXED, VTEXTFIXED}\<rparr>]]
            in case (if has_value name then setvareq aflag tab1 name {} else Inr (tab1, [])) of
                 Inl (e, tab) \<Rightarrow> Inl (e, st\<lparr>sv_tab := tab\<rparr>)
               | Inr (tab, calls) \<Rightarrow>
                   Inr (st\<lparr>sv_tab := tab,
                     localvars := Saved_var (vname name) (v_flags vp) (v_text vp) # localvars st\<rparr>, calls))"

text \<open>
  One turn of the loop of \<open>poplocalvars\<close>. A saved variable is in the table; \<open>unsetvar\<close> is called with
  its text.
\<close>

definition poplocal ::
  "bool \<Rightarrow> vartab \<Rightarrow> string \<Rightarrow> vflag set \<Rightarrow> string \<Rightarrow> var_result option" where
  "poplocal aflag tab name flags text =
     (let h = hashvar name in
      case findvar (tab ! h) name of
        None \<Rightarrow> None
      | Some k \<Rightarrow>
          let vp = tab ! h ! k in
          Some (
            if VUNSET \<in> flags \<and> VSTRFIXED \<notin> flags then
              bind_res (unsetvar aflag tab (v_text vp)) (\<lambda>(tab, calls, _). Inr (tab, calls))
            else
              Inr (tab[h := (tab ! h)[k := vp\<lparr>v_flags := flags, v_text := text\<rparr>]],
                case v_func vp of Some f \<Rightarrow> [(f, call_arg text)] | None \<Rightarrow> [])))"

text \<open>
  The loop of \<open>poplocalvars\<close>. An error leaves it after the entry was taken off the list; the entries
  behind it are the third component.
\<close>

fun poplocals ::
  "bool \<Rightarrow> vartab \<Rightarrow> string \<Rightarrow> localvar list \<Rightarrow>
     (var_error option \<times> vartab \<times> localvar list \<times> string \<times> var_calls) option" where
  "poplocals aflag tab opts [] = Some (None, tab, [], opts, [])"
| "poplocals aflag tab opts (Saved_options o' # ls) = poplocals aflag tab o' ls"
| "poplocals aflag tab opts (Saved_var n fl tx # ls) = do {
     r \<leftarrow> poplocal aflag tab n fl tx;
     case r of
       Inl (e, tab) \<Rightarrow> Some (Some e, tab, ls, opts, [])
     | Inr (tab, calls) \<Rightarrow> do {
         (e, tab, ls', opts, calls') \<leftarrow> poplocals aflag tab opts ls;
         Some (e, tab, ls', opts, calls @ calls') } }"

definition poplocalvars ::
  "bool \<Rightarrow> shell_vars \<Rightarrow> (var_error option \<times> shell_vars \<times> var_calls) option" where
  "poplocalvars aflag st = do {
     (e, tab, ls, opts, calls) \<leftarrow> poplocals aflag (sv_tab st) (optlist st) (localvars st);
     Some (e, st\<lparr>sv_tab := tab, localvars := ls, optlist := opts\<rparr>, calls) }"

lemma poplocals_rest:
  "poplocals aflag tab opts ls = Some (e, tab', ls', opts', calls) \<Longrightarrow>
     length ls' \<le> length ls \<and> (e \<noteq> None \<longrightarrow> length ls' < length ls)"
  by (induction aflag tab opts ls arbitrary: e tab' ls' opts' calls rule: poplocals.induct)
    (fastforce split: bind_splits sum.splits)+

text \<open>
  The end of \<open>evalfun\<close>, behind the label \<open>funcdone\<close>. The handler of the function is still in force:
  an error in \<open>poplocalvars\<close> jumps back to the label.
\<close>

function funcdone ::
  "bool \<Rightarrow> bool \<Rightarrow> shell_vars \<Rightarrow> (bool \<times> shell_vars \<times> var_calls) option" where
  "funcdone aflag e st =
     (case poplocalvars aflag (st\<lparr>funcnest := funcnest st - 1\<rparr>) of
        None \<Rightarrow> None
      | Some (None, st, calls) \<Rightarrow> Some (e, st, calls)
      | Some (Some _, st, calls) \<Rightarrow>
          map_option (\<lambda>(e, st, calls'). (e, st, calls @ calls')) (funcdone aflag True st))"
  by pat_completeness auto
termination
  by (relation "measure (\<lambda>(_, _, st). length (localvars st))")
    (auto simp: poplocalvars_def bind_eq_Some_conv dest!: poplocals_rest)

declare funcdone.simps [simp del]

text \<open>
  What \<open>evalfun\<close> does with the variables; the evaluation of the body is an argument, which returns
  whether it was left by an error.
\<close>

definition evalfun ::
  "bool \<Rightarrow> (shell_vars \<Rightarrow> (bool \<times> shell_vars \<times> var_calls) option) \<Rightarrow> shell_vars \<Rightarrow>
     (bool \<times> shell_vars \<times> var_calls) option" where
  "evalfun aflag body st = do {
     (e, st1, calls) \<leftarrow> body (st\<lparr>localvars := [], funcnest := funcnest st + 1\<rparr>);
     (e, st2, calls') \<leftarrow> funcdone aflag e st1;
     Some (e, st2\<lparr>localvars := localvars st\<rparr>, calls @ calls') }"

text \<open>The variables with all flags of \<open>on\<close> and none of \<open>off\<close>, in the order of the table.\<close>

definition listvars :: "vartab \<Rightarrow> vflag set \<Rightarrow> vflag set \<Rightarrow> string list" where
  "listvars tab on off = map v_text (filter (\<lambda>v. v_flags v \<inter> (on \<union> off) = on) (concat tab))"

text \<open>One argument of the commands \<open>export\<close> and \<open>readonly\<close>.\<close>

definition export_arg :: "bool \<Rightarrow> vartab \<Rightarrow> vflag \<Rightarrow> string \<Rightarrow> var_result" where
  "export_arg aflag tab flag name =
     (let h = hashvar name in
      if has_value name then setvar aflag tab name (Some (value_of name)) {flag}
      else case findvar (tab ! h) name of
             Some k \<Rightarrow>
               Inr (tab[h := (tab ! h)[k := (tab ! h ! k)\<lparr>v_flags := insert flag (v_flags (tab ! h ! k))\<rparr>]], [])
           | None \<Rightarrow> setvar aflag tab name None {flag})"

text \<open>The assignments in front of a command.\<close>

fun listsetvar :: "bool \<Rightarrow> vartab \<Rightarrow> string list \<Rightarrow> vflag set \<Rightarrow> var_result" where
  "listsetvar aflag tab [] flags = Inr (tab, [])"
| "listsetvar aflag tab (s # ss) flags =
     bind_res (setvareq aflag tab s flags) (\<lambda>(tab, calls).
       bind_res (listsetvar aflag tab ss flags) (\<lambda>(tab, calls'). Inr (tab, calls @ calls')))"

text \<open>The lookup of a builtin command, which has assignments of its own.\<close>

definition bltinlookup :: "string list \<Rightarrow> vartab \<Rightarrow> string \<Rightarrow> string option" where
  "bltinlookup cmdenviron tab name =
     (case find (\<lambda>s. varequal s name) cmdenviron of
        Some s \<Rightarrow> Some (value_of s)
      | None \<Rightarrow> lookupvar tab name)"

text \<open>
  The variables of the shell at its start, with the option \<open>CONFIG_ASH_GETOPTS\<close>. The callbacks are
  \<open>changepath\<close> (0) and \<open>getoptsreset\<close> (1).
\<close>

definition varinit :: "var list" where
  "varinit =
     [\<lparr>v_flags = {VSTRFIXED, VTEXTFIXED}, v_text = ''IFS= '' @ [CHR 0x09, CHR 0x0A], v_func = None\<rparr>,
      \<lparr>v_flags = {VSTRFIXED, VTEXTFIXED}, v_text = ''PATH=/usr/local/bin:/usr/bin:/sbin:/bin'', v_func = Some 0\<rparr>,
      \<lparr>v_flags = {VSTRFIXED, VTEXTFIXED}, v_text = ''PS1=$ '', v_func = None\<rparr>,
      \<lparr>v_flags = {VSTRFIXED, VTEXTFIXED}, v_text = ''PS2=> '', v_func = None\<rparr>,
      \<lparr>v_flags = {VSTRFIXED, VTEXTFIXED}, v_text = ''PS4=+ '', v_func = None\<rparr>,
      \<lparr>v_flags = {VSTRFIXED, VTEXTFIXED}, v_text = ''OPTIND=1'', v_func = Some 1\<rparr>]"

definition initvar :: "bool \<Rightarrow> vartab" where
  "initvar root =
     foldl (\<lambda>tab v. tab[hashvar (v_text v) := v # tab ! hashvar (v_text v)])
       (replicate VTABSIZE [])
       (varinit[2 := (varinit ! 2)\<lparr>v_text := if root then ''PS1=# '' else ''PS1=$ ''\<rparr>])"

section \<open>The table as a map\<close>

lemma vname_Cons: "vname (c # s) = (if c = CHR ''='' \<or> c = CHR 0x00 then [] else c # vname s)"
  by (simp add: vname_def)

lemma vname_Nil [simp]: "vname [] = []"
  by (simp add: vname_def)

lemma varequal_vname: "varequal p q \<longleftrightarrow> vname p = vname q"
  unfolding varequal_def
proof (induction p q rule: varcmp.induct)
  case (1 p q)
  have eq61: "(of_char c :: nat) = 61 \<longleftrightarrow> c = CHR ''=''" for c
    using of_char_eq_iff [where 'a = nat, of c "CHR ''=''"] by (simp del: of_char_eq_iff)
  have eq0: "(of_char c :: nat) = 0 \<longleftrightarrow> c = CHR 0x00" for c
    using of_char_eq_iff [where 'a = nat, of c "CHR 0x00"] by (simp del: of_char_eq_iff)
  show ?case
    unfolding varcmp.simps [of p q] using 1
    by (cases p; cases q) (auto simp: char_at_def vname_Cons Let_def eq61 eq0)
qed

lemma hashvar_vname: "vname p = vname q \<Longrightarrow> vname p \<noteq> [] \<Longrightarrow> hashvar p = hashvar q"
  by (cases p; cases q) (auto simp: hashvar_def char_at_def vname_Cons split: if_splits)

lemma hashvar_less: "hashvar p < VTABSIZE"
  by (simp add: hashvar_def VTABSIZE_def)

lemma findvar_Some:
  "findvar b s = Some k \<Longrightarrow> k < length b \<and> vname (v_text (b ! k)) = vname s"
  by (induction b arbitrary: k) (auto simp: varequal_vname split: if_splits)

lemma findvar_None: "findvar b s = None \<longleftrightarrow> (\<forall>v \<in> set b. vname (v_text v) \<noteq> vname s)"
  by (induction b) (auto simp: varequal_vname)

lemma findvar_vname: "vname s = vname t \<Longrightarrow> findvar b s = findvar b t"
  by (induction b) (auto simp: varequal_vname)

definition find_in :: "var list \<Rightarrow> string \<Rightarrow> var option" where
  "find_in b n = (case findvar b n of None \<Rightarrow> None | Some k \<Rightarrow> Some (b ! k))"

lemma find_in_simps [simp]:
  "find_in [] n = None"
  "find_in (v # b) n = (if vname (v_text v) = vname n then Some v else find_in b n)"
  by (auto simp: find_in_def varequal_vname split: option.split)

definition find_var :: "vartab \<Rightarrow> string \<Rightarrow> var option" where
  "find_var tab n = find_in (tab ! hashvar n) n"

lemma find_var_vname: "vname s = vname t \<Longrightarrow> vname s \<noteq> [] \<Longrightarrow> find_var tab s = find_var tab t"
  using hashvar_vname [of s t] findvar_vname [of s t] by (simp add: find_var_def find_in_def)

text \<open>A legal name, alone or with a value behind it.\<close>

definition ident :: "string \<Rightarrow> bool" where
  "ident s \<longleftrightarrow> vname s \<noteq> [] \<and> endofname s = length (vname s) \<and> CHR 0x00 \<notin> set s"

definition text_ok :: "var \<Rightarrow> bool" where
  "text_ok v \<longleftrightarrow> ident (v_text v) \<and> VREADONLY \<notin> v_flags v \<and> (VUNSET \<in> v_flags v \<or> has_value (v_text v))"

definition bucket_ok :: "nat \<Rightarrow> var list \<Rightarrow> bool" where
  "bucket_ok i b \<longleftrightarrow> (\<forall>v \<in> set b. hashvar (v_text v) = i \<and> text_ok v) \<and> distinct (map (vname \<circ> v_text) b)"

text \<open>
  The invariant of the table: each variable is in the list of its hash value, the names are
  unique, a variable that is set has a value behind its name, and no variable is read-only.
\<close>

definition vars_ok :: "vartab \<Rightarrow> bool" where
  "vars_ok tab \<longleftrightarrow> length tab = VTABSIZE \<and> (\<forall>i < VTABSIZE. bucket_ok i (tab ! i))"

lemma bucket_replace:
  assumes "bucket_ok i b" "findvar b s = Some k" "vname (v_text v) = vname s" "text_ok v"
  shows "bucket_ok i (b[k := v])"
proof -
  from findvar_Some [OF assms(2)] have k: "k < length b" "vname (v_text (b ! k)) = vname s" by auto
  have "map (vname \<circ> v_text) (b[k := v]) = map (vname \<circ> v_text) b"
    using k assms(3) by (simp add: map_update list_update_same_conv)
  moreover have "hashvar (v_text v) = i"
    using assms(1,3,4) k by (metis bucket_ok_def hashvar_vname ident_def nth_mem text_ok_def)
  ultimately show ?thesis using assms(1,3,4)
    by (auto simp: bucket_ok_def dest!: set_update_subset_insert [THEN subsetD] simp flip: map_update)
qed

lemma find_in_replace:
  assumes "findvar b s = Some k" "vname (v_text v) = vname s"
  shows "find_in (b[k := v]) m = (if vname m = vname s then Some v else find_in b m)"
  using assms
proof (induction b arbitrary: k)
  case (Cons a b)
  then show ?case by (cases k) (auto simp: varequal_vname split: if_splits)
qed simp

text \<open>The table is changed for the name in front of \<open>s\<close> only.\<close>

definition updated :: "vartab \<Rightarrow> string \<Rightarrow> var option \<Rightarrow> vartab \<Rightarrow> bool" where
  "updated tab s v tab' \<longleftrightarrow> vars_ok tab' \<and>
     (\<forall>m. vname m \<noteq> [] \<longrightarrow> find_var tab' m = (if vname m = vname s then v else find_var tab m))"

lemma table_replace:
  assumes tab: "vars_ok tab" and k: "findvar (tab ! hashvar s) s = Some k"
    and v: "vname (v_text v) = vname s" "text_ok v"
  defines "tab' \<equiv> tab[hashvar s := (tab ! hashvar s)[k := v]]"
  shows "updated tab s (Some v) tab'"
  unfolding updated_def
proof (intro conjI allI impI)
  have h: "hashvar s < length tab" using tab hashvar_less by (simp add: vars_ok_def)
  have kl: "k < length (tab ! hashvar s)" using findvar_Some [OF k] by simp
  show "vars_ok tab'"
    using tab h bucket_replace [OF _ k v] by (auto simp: vars_ok_def tab'_def nth_list_update hashvar_less)
  fix m assume m: "vname m \<noteq> []"
  show "find_var tab' m = (if vname m = vname s then Some v else find_var tab m)"
    using h m hashvar_vname [of m s] find_in_replace [OF k v(1), of m]
    by (cases "hashvar m = hashvar s") (auto simp: find_var_def tab'_def)
qed

lemma table_insert:
  assumes tab: "vars_ok tab" and none: "findvar (tab ! hashvar s) s = None"
    and v: "v_text v = s" "text_ok v"
  defines "tab' \<equiv> tab[hashvar s := v # tab ! hashvar s]"
  shows "updated tab s (Some v) tab'"
  unfolding updated_def
proof (intro conjI allI impI)
  have h: "hashvar s < length tab" using tab hashvar_less by (simp add: vars_ok_def)
  show "vars_ok tab'"
    using tab h none v hashvar_less [of s]
    by (auto simp: vars_ok_def tab'_def nth_list_update bucket_ok_def findvar_None)
  fix m assume m: "vname m \<noteq> []"
  show "find_var tab' m = (if vname m = vname s then Some v else find_var tab m)"
    using h v m hashvar_vname [of m s]
    by (cases "hashvar m = hashvar s") (auto simp: find_var_def tab'_def)
qed

lemma find_in_remove:
  assumes "findvar b s = Some k" "distinct (map (vname \<circ> v_text) b)"
  shows "find_in (take k b @ drop (Suc k) b) m = (if vname m = vname s then None else find_in b m)"
  using assms
proof (induction b arbitrary: k)
  case (Cons a b)
  show ?case
  proof (cases k)
    case 0
    with Cons.prems have a: "vname (v_text a) = vname s" by (simp add: varequal_vname split: if_splits)
    have "find_in b m = None" if "vname m = vname s"
    proof -
      have "findvar b m = None" using Cons.prems(2) a that by (auto simp: findvar_None image_iff)
      then show ?thesis by (simp add: find_in_def)
    qed
    with 0 a show ?thesis by simp
  next
    case (Suc j)
    with Cons.prems have "vname (v_text a) \<noteq> vname s" "findvar b s = Some j"
      by (auto simp: varequal_vname split: if_splits)
    with Suc Cons show ?thesis by simp
  qed
qed simp

lemma table_remove:
  assumes tab: "vars_ok tab" and k: "findvar (tab ! hashvar s) s = Some k" and s: "vname s \<noteq> []"
  defines "tab' \<equiv> tab[hashvar s := take k (tab ! hashvar s) @ drop (Suc k) (tab ! hashvar s)]"
  shows "updated tab s None tab'"
  unfolding updated_def
proof (intro conjI allI impI)
  let ?b = "tab ! hashvar s"
  have h: "hashvar s < length tab" using tab hashvar_less by (simp add: vars_ok_def)
  have b: "bucket_ok (hashvar s) ?b" using tab hashvar_less by (simp add: vars_ok_def)
  have kl: "k < length ?b" using findvar_Some [OF k] by simp
  have "distinct (map (vname \<circ> v_text) (take k ?b @ drop (Suc k) ?b))"
    using b unfolding bucket_ok_def map_append take_map [symmetric] drop_map [symmetric]
    by (metis distinct_append distinct_drop distinct_take set_take_disj_set_drop_if_distinct le_SucI order_refl)
  then have "bucket_ok (hashvar s) (take k ?b @ drop (Suc k) ?b)"
    using b by (auto simp: bucket_ok_def dest: in_set_takeD in_set_dropD)
  then show "vars_ok tab'"
    using tab h by (auto simp: vars_ok_def tab'_def nth_list_update)
  fix m assume m: "vname m \<noteq> []"
  show "find_var tab' m = (if vname m = vname s then None else find_var tab m)"
    using h b m find_in_remove [OF k, of m] hashvar_vname [of m s]
    by (cases "hashvar m = hashvar s") (auto simp: find_var_def tab'_def bucket_ok_def)
qed

section \<open>The operations on the map\<close>

definition var_value :: "var option \<Rightarrow> string option" where
  "var_value v = (case v of
     Some v \<Rightarrow> if VUNSET \<notin> v_flags v then Some (value_of (v_text v)) else None
   | None \<Rightarrow> None)"

lemma lookupvar_find: "lookupvar tab n = var_value (find_var tab n)"
  by (simp add: lookupvar_def var_value_def find_var_def find_in_def Let_def split: option.split)

lemma updated_lookup:
  "updated tab s v tab' \<Longrightarrow> vname m \<noteq> [] \<Longrightarrow>
     lookupvar tab' m = (if vname m = vname s then var_value v else lookupvar tab m)"
  by (simp add: updated_def lookupvar_find)

text \<open>A variable whose structure is kept when it is unset.\<close>

definition is_fixed :: "vartab \<Rightarrow> string \<Rightarrow> bool" where
  "is_fixed tab n \<longleftrightarrow> (\<exists>v. find_var tab n = Some v \<and> VSTRFIXED \<in> v_flags v)"

lemma updated_fixed:
  "updated tab s (Some v) tab' \<Longrightarrow> vname m \<noteq> [] \<Longrightarrow>
     is_fixed tab' m \<longleftrightarrow> (if vname m = vname s then VSTRFIXED \<in> v_flags v else is_fixed tab m)"
  by (simp add: updated_def is_fixed_def)

lemma find_var_SomeD:
  assumes "vars_ok tab" "find_var tab s = Some v"
  obtains k where "findvar (tab ! hashvar s) s = Some k" "tab ! hashvar s ! k = v" "text_ok v" "vname (v_text v) = vname s"
proof -
  from assms(2) obtain k where k: "findvar (tab ! hashvar s) s = Some k" "tab ! hashvar s ! k = v"
    by (auto simp: find_var_def find_in_def split: option.splits)
  from findvar_Some [OF k(1)] k(2) have "v \<in> set (tab ! hashvar s)" "vname (v_text v) = vname s" by auto
  moreover have "bucket_ok (hashvar s) (tab ! hashvar s)" using assms(1) hashvar_less by (simp add: vars_ok_def)
  ultimately show thesis using that [OF k] by (simp add: bucket_ok_def)
qed

lemma find_var_None: "find_var tab s = None \<longleftrightarrow> findvar (tab ! hashvar s) s = None"
  by (simp add: find_var_def find_in_def split: option.split)

lemma setvareq_updates:
  assumes tab: "vars_ok tab" and s: "ident s" "VUNSET \<in> fl \<or> has_value s"
    and fl: "fl \<inter> {VNOSET, VREADONLY} = {}"
  shows "\<exists>tab' calls v. setvareq aflag tab s fl = Inr (tab', calls) \<and> updated tab s (Some v) tab' \<and>
    v_text v = s \<and> (VUNSET \<in> v_flags v \<longleftrightarrow> VUNSET \<in> fl) \<and>
    (VSTRFIXED \<in> v_flags v \<longleftrightarrow> VSTRFIXED \<in> fl \<or> is_fixed tab s) \<and> fl \<subseteq> v_flags v"
proof (cases "find_var tab s")
  case None
  let ?v = "\<lparr>v_flags = fl \<union> (if aflag then {VEXPORT} else {}), v_text = s, v_func = None\<rparr>"
  have "text_ok ?v" using fl s by (auto simp: text_ok_def)
  with table_insert [OF tab, of s ?v] None have "updated tab s (Some ?v) (tab[hashvar s := ?v # tab ! hashvar s])"
    by (simp add: find_var_None)
  moreover have "setvareq aflag tab s fl = Inr (tab[hashvar s := ?v # tab ! hashvar s], [])"
    using None fl by (auto simp: setvareq_def Let_def find_var_None)
  ultimately show ?thesis using None
    by (intro exI [of _ "tab[hashvar s := ?v # tab ! hashvar s]"] exI [of _ "[]"] exI [of _ ?v])
      (auto simp: is_fixed_def)
next
  case (Some vp)
  with tab obtain k where k: "findvar (tab ! hashvar s) s = Some k" "tab ! hashvar s ! k = vp" "text_ok vp"
    by (rule find_var_SomeD)
  let ?v = "vp\<lparr>v_flags := fl \<union> (if aflag then {VEXPORT} else {}) \<union>
     (v_flags vp - {VTEXTFIXED, VSTACK, VNOSAVE, VUNSET}), v_text := s\<rparr>"
  have "text_ok ?v" using fl s k(3) by (auto simp: text_ok_def)
  with table_replace [OF tab k(1), of ?v] have
    u: "updated tab s (Some ?v) (tab[hashvar s := (tab ! hashvar s)[k := ?v]])" by simp
  obtain calls where "setvareq aflag tab s fl = Inr (tab[hashvar s := (tab ! hashvar s)[k := ?v]], calls)"
    using k fl by (cases aflag) (auto simp: setvareq_def Let_def text_ok_def)
  with u Some show ?thesis by (intro exI conjI) (auto simp: is_fixed_def split: if_splits)
qed

lemma vname_split:
  assumes "CHR 0x00 \<notin> set s"
  obtains n r where "s = n @ r" "vname s = n" "r = [] \<or> (\<exists>v. r = CHR ''='' # v)"
proof -
  from assms have "\<exists>n r. s = n @ r \<and> vname s = n \<and> (r = [] \<or> (\<exists>v. r = CHR ''='' # v))"
  proof (induction s)
    case (Cons c s)
    have "CHR 0x00 \<notin> set s" using Cons.prems by simp
    from Cons.IH [OF this] obtain n r where
      "s = n @ r" "vname s = n" "r = [] \<or> (\<exists>v. r = CHR ''='' # v)" by blast
    with Cons.prems show ?case by (cases "c = CHR ''=''") (auto simp: vname_Cons)
  qed simp
  with that show ?thesis by blast
qed

lemma setvar_ident:
  assumes "ident s"
  shows "setvar aflag tab s val fl = setvareq aflag tab
    (vname s @ (case val of Some v \<Rightarrow> CHR ''='' # v | None \<Rightarrow> []))
    (fl \<union> (if val = None then {VUNSET} else {}) \<union> {VNOSAVE})"
proof -
  from assms have "CHR 0x00 \<notin> set s" by (simp add: ident_def)
  then obtain n r where r: "s = n @ r" "vname s = n" "r = [] \<or> (\<exists>v. r = CHR ''='' # v)"
    by (rule vname_split)
  have "takeWhile (\<lambda>c. c \<noteq> CHR ''='') r = []" using r(3) by auto
  moreover have "endofname s = length n" "n \<noteq> []" using assms r(2) by (simp_all add: ident_def)
  ultimately show ?thesis unfolding r(2) using r(1) by (simp add: setvar_def Let_def)
qed

lemma vname_append_value: "CHR 0x00 \<notin> set n \<Longrightarrow> CHR ''='' \<notin> set n \<Longrightarrow> vname (n @ CHR ''='' # v) = n"
  by (auto simp: vname_def takeWhile_append)

lemma vname_vname [simp]: "vname (vname s) = vname s"
  by (simp add: vname_def)

lemma vname_chars: "CHR 0x00 \<notin> set (vname s)" "CHR ''='' \<notin> set (vname s)"
  by (auto simp: vname_def dest: set_takeWhileD)

lemma vname_value [simp]: "vname (vname s @ CHR ''='' # v) = vname s"
  by (simp add: vname_append_value vname_chars)

lemma takeWhile_covers: "length xs \<le> length (takeWhile P (xs @ ys)) \<Longrightarrow> \<forall>x \<in> set xs. P x"
proof (rule ccontr)
  assume l: "length xs \<le> length (takeWhile P (xs @ ys))" and "\<not> (\<forall>x \<in> set xs. P x)"
  then obtain x where x: "x \<in> set xs" "\<not> P x" by blast
  from l have "length xs \<le> length (takeWhile P xs)"
    unfolding takeWhile_append1 [of x xs P, OF x] .
  then have "takeWhile P xs = xs" by (metis takeWhile_eq_take take_all)
  with x show False by (metis takeWhile_eq_all_conv)
qed

lemma endofname_vname:
  assumes "ident s"
  shows "endofname (vname s) = length (vname s)" "endofname (vname s @ CHR ''='' # v) = length (vname s)"
proof -
  from assms have "CHR 0x00 \<notin> set s" by (simp add: ident_def)
  then obtain m r where r: "s = m @ r" "vname s = m" by (rule vname_split)
  have "m \<noteq> []" using assms unfolding ident_def r(2) by blast
  then obtain c n where n: "m = c # n" by (cases m) auto
  have "endofname s = length m" using assms unfolding ident_def r(2) by blast
  then have e: "endofname (c # n @ r) = Suc (length n)" unfolding r(1) n by simp
  then have c: "is_name c" by (simp add: endofname_def split: if_splits)
  with e have "length n \<le> length (takeWhile is_in_name (n @ r))" by (simp add: endofname_def)
  then have all: "\<forall>d \<in> set n. is_in_name d" by (rule takeWhile_covers)
  then have t1: "takeWhile is_in_name n = n" by (simp add: takeWhile_eq_all_conv)
  have "\<not> is_in_name (CHR ''='')" by (simp add: is_in_name_def is_alpha_def isdigit_def)
  with all have t2: "takeWhile is_in_name (n @ CHR ''='' # v) = n" by (subst takeWhile_append2) auto
  show "endofname (vname s) = length (vname s)"
    "endofname (vname s @ CHR ''='' # v) = length (vname s)"
    unfolding r(2) n by (simp_all add: endofname_def c t1 t2)
qed

lemma ident_texts:
  assumes "ident s" "CHR 0x00 \<notin> set v"
  shows "ident (vname s)" "ident (vname s @ CHR ''='' # v)"
  using assms endofname_vname [OF assms(1)] vname_chars by (auto simp: ident_def)

lemma value_of_value [simp]: "value_of (vname s @ CHR ''='' # v) = v"
proof -
  have "dropWhile (\<lambda>c. c \<noteq> CHR ''='') (vname s @ CHR ''='' # v) = CHR ''='' # v"
    by (subst dropWhile_append2) (use vname_chars(2) [of s] in auto)
  then show ?thesis by (simp add: value_of_def)
qed


lemma has_value_simps [simp]: "has_value (n @ CHR ''='' # v)"
  by (simp add: has_value_def)

lemma setvar_None_updates:
  assumes tab: "vars_ok tab" and s: "ident s" and fl: "fl \<inter> {VNOSET, VREADONLY} = {}"
  shows "\<exists>tab' calls v. setvar aflag tab s None fl = Inr (tab', calls) \<and> updated tab s (Some v) tab' \<and>
    v_text v = vname s \<and> VUNSET \<in> v_flags v \<and> (VSTRFIXED \<in> v_flags v \<longleftrightarrow> VSTRFIXED \<in> fl \<or> is_fixed tab s)"
proof -
  have "ident (vname s)" "vname s \<noteq> []" using ident_texts [OF s, of "[]"] s by (auto simp: ident_def)
  moreover from this have "is_fixed tab (vname s) = is_fixed tab s"
    using find_var_vname [of "vname s" s tab] by (simp add: is_fixed_def)
  moreover have "(fl \<union> {VUNSET} \<union> {VNOSAVE}) \<inter> {VNOSET, VREADONLY} = {}" using fl by auto
  ultimately obtain tab' calls v where
    "setvareq aflag tab (vname s) (fl \<union> {VUNSET} \<union> {VNOSAVE}) = Inr (tab', calls)" "updated tab (vname s) (Some v) tab'"
    "v_text v = vname s" "VUNSET \<in> v_flags v" "VSTRFIXED \<in> v_flags v \<longleftrightarrow> VSTRFIXED \<in> fl \<or> is_fixed tab s"
    using setvareq_updates [OF tab, of "vname s" "fl \<union> {VUNSET} \<union> {VNOSAVE}" aflag] by auto
  then show ?thesis
    by (intro exI [of _ tab'] exI [of _ calls] exI [of _ v]) (simp add: setvar_ident [OF s] updated_def)
qed

lemma updated_same: "vars_ok tab \<Longrightarrow> vname s \<noteq> [] \<Longrightarrow> updated tab s (find_var tab s) tab"
  by (auto simp: updated_def intro: find_var_vname)

lemma unsetvar_updates:
  assumes tab: "vars_ok tab" and s: "ident s"
  shows "\<exists>tab' calls ret v. unsetvar aflag tab s = Inr (tab', calls, ret) \<and> updated tab s v tab' \<and>
    var_value v = None \<and> (is_fixed tab s \<longrightarrow> (\<exists>w. v = Some w \<and> VSTRFIXED \<in> v_flags w))"
proof (cases "find_var tab s")
  case None
  then have "updated tab s None tab"
    using updated_same [OF tab, of s] s by (simp add: ident_def)
  moreover have "findvar (tab ! hashvar s) s = None" using None by (simp add: find_var_None)
  ultimately show ?thesis using None
    by (intro exI [of _ tab] exI [of _ "[]"] exI [of _ 2] exI [of _ None])
      (simp add: unsetvar_def var_value_def is_fixed_def)
next
  case (Some vp)
  with tab obtain k where k: "findvar (tab ! hashvar s) s = Some k" "tab ! hashvar s ! k = vp" "text_ok vp"
    "vname (v_text vp) = vname s" by (rule find_var_SomeD)
  have id: "updated tab s (Some vp) tab"
    using Some updated_same [OF tab, of s] s by (simp add: ident_def)
  consider "VUNSET \<in> v_flags vp" | "VUNSET \<notin> v_flags vp" "VSTRFIXED \<notin> v_flags vp"
    | "VUNSET \<notin> v_flags vp" "VSTRFIXED \<in> v_flags vp" by blast
  then show ?thesis
  proof cases
    case 1
    with k Some id show ?thesis
      by (intro exI [of _ tab] exI [of _ "[]"] exI [of _ 0] exI [of _ "Some vp"])
        (auto simp: unsetvar_def Let_def var_value_def is_fixed_def text_ok_def)
  next
    case 2
    with k table_remove [OF tab k(1)] s Some show ?thesis
      by (intro exI conjI) (auto simp: unsetvar_def Let_def var_value_def is_fixed_def text_ok_def ident_def)
  next
    case 3
    have n: "hashvar (vname s) = hashvar s" "\<And>b. findvar b (vname s) = findvar b s" "vname s \<noteq> []"
      using hashvar_vname [of "vname s" s] findvar_vname [of "vname s" s] s by (auto simp: ident_def)
    let ?w = "vp\<lparr>v_text := vname s, v_flags := insert VNOSAVE (insert VUNSET
       (v_flags vp - {VTEXTFIXED, VSTACK, VNOSAVE, VUNSET})) - {VEXPORT}\<rparr>"
    have "text_ok ?w" using k(3) ident_texts [OF s, of "[]"] by (auto simp: text_ok_def)
    with table_replace [OF tab k(1), of ?w] have
      "updated tab s (Some ?w) (tab[hashvar s := (tab ! hashvar s)[k := ?w]])" by simp
    moreover have "hashvar s < length tab" "k < length (tab ! hashvar s)"
      using tab hashvar_less findvar_Some [OF k(1)] by (auto simp: vars_ok_def)
    then obtain calls where "unsetvar aflag tab s = Inr (tab[hashvar s := (tab ! hashvar s)[k := ?w]], calls, 0)"
      using k 3 n by (cases aflag) (auto simp: unsetvar_def setvar_ident [OF s] setvareq_def Let_def text_ok_def)
    ultimately show ?thesis
      using 3 by (intro exI conjI) (auto simp: var_value_def is_fixed_def)
  qed
qed

section \<open>Local variables\<close>

text \<open>The value that a saved variable comes back to, and the environment after all of them.\<close>

definition saved_value :: "vflag set \<Rightarrow> string \<Rightarrow> string option" where
  "saved_value fl tx = (if VUNSET \<in> fl then None else Some (value_of tx))"

type_synonym env = "string \<Rightarrow> string option"

fun restored :: "localvar list \<Rightarrow> env \<Rightarrow> env" where
  "restored [] e = e"
| "restored (Saved_options o' # ls) e = restored ls e"
| "restored (Saved_var n fl tx # ls) e = restored ls (e(n := saved_value fl tx))"

fun saved_names :: "localvar list \<Rightarrow> string set" where
  "saved_names [] = {}"
| "saved_names (Saved_options o' # ls) = saved_names ls"
| "saved_names (Saved_var n fl tx # ls) = insert n (saved_names ls)"

definition plain :: "string \<Rightarrow> bool" where
  "plain n \<longleftrightarrow> ident n \<and> vname n = n"

text \<open>
  The saved variables of a function, where the structures of the variables \<open>K\<close> have to survive its
  end.
\<close>

fun saved_ok :: "string set \<Rightarrow> localvar list \<Rightarrow> bool" where
  "saved_ok K [] \<longleftrightarrow> True"
| "saved_ok K (Saved_options o' # ls) \<longleftrightarrow> saved_ok K ls"
| "saved_ok K (Saved_var n fl tx # ls) \<longleftrightarrow>
     plain n \<and> VREADONLY \<notin> fl \<and> (n \<in> K \<union> saved_names ls \<longrightarrow> VSTRFIXED \<in> fl) \<and>
     (VUNSET \<in> fl \<and> VSTRFIXED \<notin> fl \<or>
      ident tx \<and> vname tx = n \<and> (VUNSET \<in> fl \<or> has_value tx)) \<and>
     saved_ok K ls"

lemma poplocal_updates:
  assumes tab: "vars_ok tab" and n: "saved_ok K (Saved_var n fl tx # ls)" "is_fixed tab n"
  shows "\<exists>tab' calls v. poplocal aflag tab n fl tx = Some (Inr (tab', calls)) \<and> updated tab n (Some v) tab' \<and>
    var_value (Some v) = saved_value fl tx \<and> (VSTRFIXED \<in> fl \<longrightarrow> VSTRFIXED \<in> v_flags v)"
proof -
  from n(2) obtain vp where vp: "find_var tab n = Some vp" by (auto simp: is_fixed_def)
  with tab obtain k where k: "findvar (tab ! hashvar n) n = Some k" "tab ! hashvar n ! k = vp" "text_ok vp"
    "vname (v_text vp) = vname n" by (rule find_var_SomeD)
  show ?thesis
  proof (cases "VUNSET \<in> fl \<and> VSTRFIXED \<notin> fl")
    case True
    have t: "ident (v_text vp)" "vname n \<noteq> []" using k(3) n(1) by (auto simp: text_ok_def plain_def ident_def)
    have "is_fixed tab (v_text vp)"
      using n(2) find_var_vname [of "v_text vp" n tab] k(4) t by (simp add: is_fixed_def)
    with unsetvar_updates [OF tab t(1), of aflag] obtain tab' calls ret w where
      "unsetvar aflag tab (v_text vp) = Inr (tab', calls, ret)" "updated tab (v_text vp) (Some w) tab'"
      "var_value (Some w) = None" by auto
    with True k show ?thesis
      by (intro exI [of _ tab'] exI [of _ calls] exI [of _ w])
        (simp add: poplocal_def Let_def saved_value_def updated_def)
  next
    case False
    let ?v = "vp\<lparr>v_flags := fl, v_text := tx\<rparr>"
    have v: "text_ok ?v" "vname (v_text ?v) = vname n" using False n(1) by (auto simp: text_ok_def plain_def)
    from table_replace [OF tab k(1) v(2,1)] False k show ?thesis
      by (intro exI conjI) (auto simp: poplocal_def Let_def saved_value_def var_value_def)
  qed
qed

lemma plain_vname: "plain n \<Longrightarrow> vname n = n \<and> n \<noteq> []"
  by (auto simp: plain_def ident_def)

lemma restored_cong: "(\<And>m. plain m \<Longrightarrow> e m = e' m) \<Longrightarrow> plain m \<Longrightarrow> restored ls e m = restored ls e' m"
proof (induction ls e arbitrary: e' rule: restored.induct)
  case (3 n fl tx ls e)
  show ?case unfolding restored.simps by (rule "3.IH") (use "3.prems" in auto)
qed auto

lemma poplocals_restores:
  assumes "vars_ok tab" "saved_ok K ls" "\<forall>n \<in> K \<union> saved_names ls. plain n \<and> is_fixed tab n"
  shows "\<exists>tab' opts' calls. poplocals aflag tab opts ls = Some (None, tab', [], opts', calls) \<and> vars_ok tab' \<and>
    (\<forall>n \<in> K. is_fixed tab' n) \<and> (\<forall>m. plain m \<longrightarrow> lookupvar tab' m = restored ls (lookupvar tab) m)"
  using assms
proof (induction aflag tab opts ls rule: poplocals.induct)
  case (3 aflag tab opts n fl tx ls)
  from poplocal_updates [OF 3(2,3), of aflag] 3(4) obtain tab1 calls v where
    p: "poplocal aflag tab n fl tx = Some (Inr (tab1, calls))" and u: "updated tab n (Some v) tab1"
    and v: "var_value (Some v) = saved_value fl tx" "VSTRFIXED \<in> fl \<longrightarrow> VSTRFIXED \<in> v_flags v" by auto
  have l: "lookupvar tab1 m = ((lookupvar tab)(n := saved_value fl tx)) m" if "plain m" for m
    using updated_lookup [OF u, of m] plain_vname [OF that] plain_vname [of n] 3(3) v(1) by auto
  have "is_fixed tab1 m" if "m \<in> K \<union> saved_names ls" for m
    using updated_fixed [OF u, of m] plain_vname [of m] plain_vname [of n] 3(3,4) v(2) that by auto
  then obtain tab2 opts2 calls2 where
    r: "poplocals aflag tab1 opts ls = Some (None, tab2, [], opts2, calls2)" "vars_ok tab2"
      "\<forall>n \<in> K. is_fixed tab2 n" and l2: "\<And>m. plain m \<Longrightarrow> lookupvar tab2 m = restored ls (lookupvar tab1) m"
    using 3(1) [OF p refl refl] 3(3,4) u by (auto simp: updated_def)
  have "lookupvar tab2 m = restored ls ((lookupvar tab)(n := saved_value fl tx)) m" if "plain m" for m
    using trans [OF l2 [OF that] restored_cong [OF l that]] .
  with p r show ?case by simp
qed auto

section \<open>Dynamic scoping\<close>

text \<open>
  Scripts that work on variables: assignments, the commands \<open>unset\<close> and \<open>local\<close>, and calls of functions.
  An error ends the body of a function.
\<close>

datatype var_cmd = Assign string string | Unset string | Local string | Local_set string string
  | Call "var_cmd list"

definition of_res ::
  "shell_vars \<Rightarrow> var_result \<Rightarrow> (bool \<times> shell_vars \<times> var_calls) option" where
  "of_res st r = Some (case r of
     Inl (e, tab) \<Rightarrow> (True, st\<lparr>sv_tab := tab\<rparr>, [])
   | Inr (tab, calls) \<Rightarrow> (False, st\<lparr>sv_tab := tab\<rparr>, calls))"

definition run_local :: "bool \<Rightarrow> string \<Rightarrow> shell_vars \<Rightarrow> (bool \<times> shell_vars \<times> var_calls) option" where
  "run_local aflag name st = Some (case mklocal aflag st name of
     Inl (e, st) \<Rightarrow> (True, st, [])
   | Inr (st, calls) \<Rightarrow> (False, st, calls))"

fun exec_cmd :: "bool \<Rightarrow> var_cmd \<Rightarrow> shell_vars \<Rightarrow> (bool \<times> shell_vars \<times> var_calls) option"
  and exec_cmds :: "bool \<Rightarrow> var_cmd list \<Rightarrow> shell_vars \<Rightarrow> (bool \<times> shell_vars \<times> var_calls) option" where
  "exec_cmd aflag (Assign n v) st = of_res st (listsetvar aflag (sv_tab st) [n @ CHR ''='' # v] {})"
| "exec_cmd aflag (Unset n) st =
     of_res st (bind_res (unsetvar aflag (sv_tab st) n) (\<lambda>(tab, calls, _). Inr (tab, calls)))"
| "exec_cmd aflag (Local n) st = run_local aflag n st"
| "exec_cmd aflag (Local_set n v) st = run_local aflag (n @ CHR ''='' # v) st"
| "exec_cmd aflag (Call cs) st = evalfun aflag (exec_cmds aflag cs) st"
| "exec_cmds aflag [] st = Some (False, st, [])"
| "exec_cmds aflag (c # cs) st = do {
     (e, st, calls) \<leftarrow> exec_cmd aflag c st;
     if e then Some (True, st, calls)
     else do {
       (e, st, calls') \<leftarrow> exec_cmds aflag cs st;
       Some (e, st, calls @ calls') } }"

text \<open>
  The specification: the environment of the caller, and a frame with the local variables of the
  function. A called function sees, and writes through to, what its caller sees.
\<close>

type_synonym scope = "env \<times> (string \<rightharpoonup> string option)"

definition scope_read :: "scope \<Rightarrow> env" where
  "scope_read s n = (case snd s n of Some v \<Rightarrow> v | None \<Rightarrow> fst s n)"

definition scope_write :: "scope \<Rightarrow> string \<Rightarrow> string option \<Rightarrow> scope" where
  "scope_write s n v = (if n \<in> dom (snd s) then (fst s, (snd s)(n \<mapsto> v)) else ((fst s)(n := v), snd s))"

fun sem_cmd :: "var_cmd \<Rightarrow> scope \<Rightarrow> scope" and sem_cmds :: "var_cmd list \<Rightarrow> scope \<Rightarrow> scope" where
  "sem_cmd (Assign n v) s = scope_write s n (Some v)"
| "sem_cmd (Unset n) s = scope_write s n None"
| "sem_cmd (Local n) s = (fst s, (snd s)(n \<mapsto> scope_read s n))"
| "sem_cmd (Local_set n v) s = (fst s, (snd s)(n \<mapsto> Some v))"
| "sem_cmd (Call cs) s =
     (let g = fst (sem_cmds cs (scope_read s, Map.empty))
      in (\<lambda>n. if n \<in> dom (snd s) then fst s n else g n, \<lambda>n. if n \<in> dom (snd s) then Some (g n) else None))"
| "sem_cmds [] s = s"
| "sem_cmds (c # cs) s = sem_cmds cs (sem_cmd c s)"

fun cmd_ok :: "var_cmd \<Rightarrow> bool" and cmds_ok :: "var_cmd list \<Rightarrow> bool" where
  "cmd_ok (Assign n v) \<longleftrightarrow> plain n \<and> CHR 0x00 \<notin> set v"
| "cmd_ok (Unset n) \<longleftrightarrow> plain n"
| "cmd_ok (Local n) \<longleftrightarrow> plain n"
| "cmd_ok (Local_set n v) \<longleftrightarrow> plain n \<and> CHR 0x00 \<notin> set v"
| "cmd_ok (Call cs) \<longleftrightarrow> cmds_ok cs"
| "cmds_ok [] \<longleftrightarrow> True"
| "cmds_ok (c # cs) \<longleftrightarrow> cmd_ok c \<and> cmds_ok cs"

text \<open>The simulation. The variables \<open>K\<close> are the saved ones of the calling functions.\<close>

definition scoped :: "string set \<Rightarrow> shell_vars \<Rightarrow> scope \<Rightarrow> bool" where
  "scoped K st s \<longleftrightarrow> vars_ok (sv_tab st) \<and> saved_ok K (localvars st) \<and>
     (\<forall>n \<in> K \<union> saved_names (localvars st). plain n \<and> is_fixed (sv_tab st) n) \<and>
     (\<forall>m. plain m \<longrightarrow> lookupvar (sv_tab st) m = scope_read s m) \<and>
     (\<forall>e m. plain m \<longrightarrow> restored (localvars st) e m = (if m \<in> dom (snd s) then fst s m else e m))"

lemma scope_read_write: "scope_read (scope_write s n v) = (scope_read s)(n := v)"
  by (auto simp: scope_read_def scope_write_def fun_eq_iff dom_def split: option.splits)

lemma scoped_write:
  assumes st: "scoped K st s" and n: "plain n" and u: "updated (sv_tab st) n v tab'"
    and v: "is_fixed (sv_tab st) n \<longrightarrow> (\<exists>w. v = Some w \<and> VSTRFIXED \<in> v_flags w)" "var_value v = x"
  shows "scoped K (st\<lparr>sv_tab := tab'\<rparr>) (scope_write s n x)"
proof -
  have "is_fixed tab' m" if "m \<in> K \<union> saved_names (localvars st)" for m
    using st that v(1) u plain_vname [OF n] plain_vname [of m]
    by (cases "m = n") (auto simp: scoped_def updated_def is_fixed_def)
  moreover have "lookupvar tab' m = scope_read (scope_write s n x) m" if "plain m" for m
    using updated_lookup [OF u, of m] plain_vname [OF n] plain_vname [OF that] st v(2) that
    by (simp add: scope_read_write scoped_def)
  moreover have "dom (snd (scope_write s n x)) = dom (snd s)"
    "m \<in> dom (snd s) \<Longrightarrow> fst (scope_write s n x) m = fst s m" for m
    by (auto simp: scope_write_def)
  ultimately show ?thesis using st u by (auto simp: scoped_def updated_def)
qed

lemma scoped_local:
  assumes st: "scoped K st s" and n: "plain n" and u: "updated (sv_tab st) n (Some v) tab'"
    and v: "VSTRFIXED \<in> v_flags v" "var_value (Some v) = x"
    and ok: "saved_ok K (Saved_var n fl tx # localvars st)" "saved_value fl tx = lookupvar (sv_tab st) n"
  shows "scoped K (st\<lparr>sv_tab := tab', localvars := Saved_var n fl tx # localvars st\<rparr>) (fst s, (snd s)(n \<mapsto> x))"
proof -
  have "is_fixed tab' m" if "m \<in> insert n (K \<union> saved_names (localvars st))" for m
    using st that v(1) updated_fixed [OF u, of m] plain_vname [OF n] plain_vname [of m]
    by (cases "m = n") (auto simp: scoped_def)
  moreover have "lookupvar tab' m = scope_read (fst s, (snd s)(n \<mapsto> x)) m" if "plain m" for m
    using updated_lookup [OF u, of m] plain_vname [OF n] plain_vname [OF that] st v(2) that
    by (simp add: scope_read_def scoped_def split: option.split)
  moreover have "restored (localvars st) (e(n := saved_value fl tx)) m =
      (if m \<in> insert n (dom (snd s)) then fst s m else e m)" if "plain m" for e m
  proof -
    have "restored (localvars st) (e(n := saved_value fl tx)) m =
        (if m \<in> dom (snd s) then fst s m else (e(n := saved_value fl tx)) m)"
      using st that by (simp add: scoped_def)
    moreover have "saved_value fl tx = scope_read s n" using st ok(2) n by (simp add: scoped_def)
    ultimately show ?thesis by (auto simp: scope_read_def dom_def)
  qed
  ultimately show ?thesis using st ok(1) n u by (auto simp: scoped_def updated_def)
qed

lemma updated_trans: "updated tab s v tab1 \<Longrightarrow> vname t = vname s \<Longrightarrow> updated tab1 t w tab2 \<Longrightarrow> updated tab s w tab2"
  by (simp add: updated_def)

lemma plain_texts:
  assumes "plain n" "CHR 0x00 \<notin> set v"
  shows "ident n" "ident (n @ CHR ''='' # v)" "vname (n @ CHR ''='' # v) = n" "\<not> has_value n" "n \<noteq> ''-''"
    "n @ CHR ''='' # v \<noteq> ''-''" "value_of (n @ CHR ''='' # v) = v"
proof -
  have n: "ident n" "vname n = n" using assms(1) by (auto simp: plain_def)
  show "ident n" "ident (n @ CHR ''='' # v)" "vname (n @ CHR ''='' # v) = n" "value_of (n @ CHR ''='' # v) = v"
    using ident_texts [OF n(1) assms(2)] n vname_value [of n v] value_of_value [of n v] by simp_all
  show "\<not> has_value n" using vname_chars(2) [of n] n(2) by (simp add: has_value_def)
  show "n \<noteq> ''-''"
    using n by (auto simp: ident_def endofname_def is_name_def is_alpha_def)
  show "n @ CHR ''='' # v \<noteq> ''-''" by (cases n) auto
qed

text \<open>The two forms of the argument of \<open>local\<close>.\<close>

definition local_text :: "string \<Rightarrow> string option \<Rightarrow> string" where
  "local_text n x = (case x of None \<Rightarrow> n | Some v \<Rightarrow> n @ CHR ''='' # v)"

lemma local_text_ok:
  assumes "plain n" "\<forall>v. x = Some v \<longrightarrow> CHR 0x00 \<notin> set v"
  shows "vname (local_text n x) = n" "ident (local_text n x)" "local_text n x \<noteq> ''-''"
    "has_value (local_text n x) \<longleftrightarrow> x \<noteq> None"
  using assms plain_texts [OF assms(1)] plain_texts [OF assms(1), of "[]"] plain_vname [OF assms(1)]
  by (cases x; simp add: local_text_def)+

lemma scoped_fixed: "scoped K st s \<Longrightarrow> n \<in> K \<union> saved_names (localvars st) \<Longrightarrow> is_fixed (sv_tab st) n"
  by (simp add: scoped_def)

lemma scoped_lookup: "scoped K st s \<Longrightarrow> plain n \<Longrightarrow> lookupvar (sv_tab st) n = scope_read s n"
  by (simp add: scoped_def)

lemma is_fixed_vname: "vname s = vname t \<Longrightarrow> vname s \<noteq> [] \<Longrightarrow> is_fixed tab s = is_fixed tab t"
  using find_var_vname [of s t tab] by (simp add: is_fixed_def)

lemma updated_vname: "updated tab s v tab' \<Longrightarrow> vname s = vname t \<Longrightarrow> updated tab t v tab'"
  by (simp add: updated_def)

lemma mklocal_new:
  assumes st: "scoped K st s" and n: "plain n" "\<forall>v. x = Some v \<longrightarrow> CHR 0x00 \<notin> set v"
    and none: "find_var (sv_tab st) n = None"
  shows "\<exists>st' calls. mklocal aflag st (local_text n x) = Inr (st', calls) \<and> funcnest st' = funcnest st \<and>
    scoped K st' (fst s, (snd s)(n \<mapsto> x))"
proof -
  let ?t = "local_text n x"
  let ?r = "if has_value ?t then setvareq aflag (sv_tab st) ?t {VSTRFIXED}
    else setvar aflag (sv_tab st) ?t None {VSTRFIXED}"
  note t = local_text_ok [OF n]
  have tab: "vars_ok (sv_tab st)" using st by (simp add: scoped_def)
  have fl: "{VSTRFIXED} \<inter> {VNOSET, VREADONLY} = {}" by simp
  obtain tab' calls v where r: "?r = Inr (tab', calls)" and u: "updated (sv_tab st) n (Some v) tab'"
    and v: "VSTRFIXED \<in> v_flags v" "var_value (Some v) = x"
  proof (cases x)
    case None
    from setvar_None_updates [OF tab t(2) fl, of aflag] obtain tab' calls v where
      a: "setvar aflag (sv_tab st) ?t None {VSTRFIXED} = Inr (tab', calls)" "updated (sv_tab st) ?t (Some v) tab'"
        "VUNSET \<in> v_flags v" "VSTRFIXED \<in> v_flags v" by auto
    show thesis
      by (rule that [of tab' calls v]) (use a None t plain_vname [OF n(1)] in \<open>auto simp: updated_def var_value_def\<close>)
  next
    case (Some y)
    with setvareq_updates [OF tab t(2) _ fl, of aflag] t obtain tab' calls v where
      a: "setvareq aflag (sv_tab st) ?t {VSTRFIXED} = Inr (tab', calls)" "updated (sv_tab st) ?t (Some v) tab'"
        "v_text v = ?t" "VUNSET \<notin> v_flags v" "VSTRFIXED \<in> v_flags v" by auto
    show thesis
      by (rule that [of tab' calls v]) (use a Some t n(2) plain_vname [OF n(1)] plain_texts(7) [OF n(1), of y]
          in \<open>auto simp: updated_def var_value_def local_text_def\<close>)
  qed
  have "findvar (sv_tab st ! hashvar ?t) ?t = None"
    using none find_var_vname [of n ?t "sv_tab st"] t plain_vname [OF n(1)] by (simp add: find_var_None)
  with r t(1,3) have m: "mklocal aflag st ?t =
      Inr (st\<lparr>sv_tab := tab', localvars := Saved_var n {VUNSET} '''' # localvars st\<rparr>, calls)"
    by (simp add: mklocal_def Let_def)
  have ok: "saved_ok K (Saved_var n {VUNSET} '''' # localvars st)"
    using st n(1) none scoped_fixed [OF st, of n] by (auto simp: scoped_def is_fixed_def)
  have val: "saved_value {VUNSET} '''' = lookupvar (sv_tab st) n"
    by (simp add: saved_value_def lookupvar_find none var_value_def)
  show ?thesis unfolding m by (intro exI conjI) (rule refl, simp, rule scoped_local [OF st n(1) u v ok val])
qed

lemma mklocal_old:
  assumes st: "scoped K st s" and n: "plain n" "\<forall>v. x = Some v \<longrightarrow> CHR 0x00 \<notin> set v"
    and vp: "find_var (sv_tab st) n = Some vp"
  shows "\<exists>st' calls. mklocal aflag st (local_text n x) = Inr (st', calls) \<and> funcnest st' = funcnest st \<and>
    scoped K st' (fst s, (snd s)(n \<mapsto> (case x of None \<Rightarrow> scope_read s n | Some v \<Rightarrow> Some v)))"
proof -
  let ?t = "local_text n x"
  let ?h = "hashvar ?t"
  let ?w = "vp\<lparr>v_flags := v_flags vp \<union> {VSTRFIXED, VTEXTFIXED}\<rparr>"
  note t = local_text_ok [OF n]
  have tab: "vars_ok (sv_tab st)" using st by (simp add: scoped_def)
  have "find_var (sv_tab st) ?t = Some vp"
    using vp find_var_vname [of n ?t "sv_tab st"] t plain_vname [OF n(1)] by simp
  with tab obtain k where k: "findvar (sv_tab st ! ?h) ?t = Some k" "sv_tab st ! ?h ! k = vp" "text_ok vp"
    "vname (v_text vp) = vname ?t" by (rule find_var_SomeD)
  let ?tab = "(sv_tab st)[?h := (sv_tab st ! ?h)[k := ?w]]"
  have "vname (v_text ?w) = vname ?t" "text_ok ?w" using k by (auto simp: text_ok_def)
  then have u1: "updated (sv_tab st) n (Some ?w) ?tab"
    using table_replace [OF tab k(1)] t(1) plain_vname [OF n(1)] by (simp add: updated_def)
  let ?r = "if has_value ?t then setvareq aflag ?tab ?t {} else Inr (?tab, [])"
  have cur: "var_value (Some vp) = scope_read s n" using st n(1) vp by (metis lookupvar_find scoped_def)
  obtain tab' calls v where r: "?r = Inr (tab', calls)" and u: "updated (sv_tab st) n (Some v) tab'"
    and v: "VSTRFIXED \<in> v_flags v" "var_value (Some v) = (case x of None \<Rightarrow> scope_read s n | Some v \<Rightarrow> Some v)"
  proof (cases x)
    case None
    show thesis by (rule that [OF _ u1]) (use None cur t in \<open>auto simp: var_value_def split: if_splits\<close>)
  next
    case (Some y)
    have "is_fixed ?tab ?t" using updated_fixed [OF u1, of ?t] t plain_vname [OF n(1)] by simp
    with Some setvareq_updates [of ?tab ?t "{}" aflag] u1 t obtain tab' calls v where
      "?r = Inr (tab', calls)" "updated ?tab ?t (Some v) tab'" "v_text v = ?t" "VUNSET \<notin> v_flags v" "VSTRFIXED \<in> v_flags v"
      by (auto simp: updated_def)
    with that [OF _ updated_trans [OF u1]] Some t plain_texts(7) [OF n(1), of y] n(2) plain_vname [OF n(1)] show thesis
      by (simp add: var_value_def local_text_def)
  qed
  have m: "mklocal aflag st ?t = Inr (st\<lparr>sv_tab := tab',
      localvars := Saved_var n (v_flags vp) (v_text vp) # localvars st\<rparr>, calls)"
    using r t(1,3) k by (cases "has_value ?t") (simp_all add: mklocal_def Let_def)
  have fixed: "n \<in> K \<union> saved_names (localvars st) \<longrightarrow> VSTRFIXED \<in> v_flags vp"
    using scoped_fixed [OF st, of n] vp by (auto simp: is_fixed_def)
  have ok: "saved_ok K (Saved_var n (v_flags vp) (v_text vp) # localvars st)"
    using st n(1) k(3,4) t(1) fixed by (auto simp: scoped_def text_ok_def)
  have val: "saved_value (v_flags vp) (v_text vp) = lookupvar (sv_tab st) n"
    by (simp add: saved_value_def lookupvar_find vp var_value_def)
  show ?thesis unfolding m by (intro exI conjI) (rule refl, simp, rule scoped_local [OF st n(1) u v ok val])
qed

lemma mklocal_scoped:
  assumes st: "scoped K st s" and n: "plain n" "\<forall>v. x = Some v \<longrightarrow> CHR 0x00 \<notin> set v"
  shows "\<exists>st' calls. mklocal aflag st (local_text n x) = Inr (st', calls) \<and> funcnest st' = funcnest st \<and>
    scoped K st' (fst s, (snd s)(n \<mapsto> (case x of None \<Rightarrow> scope_read s n | Some v \<Rightarrow> Some v)))"
proof (cases "find_var (sv_tab st) n")
  case None
  moreover from None st n(1) have "scope_read s n = None"
    using scoped_lookup [OF st n(1)] by (simp add: lookupvar_find var_value_def)
  ultimately show ?thesis using mklocal_new [OF st n, of aflag] by (cases x) auto
next
  case (Some vp)
  from mklocal_old [OF st n this, of aflag] show ?thesis by blast
qed

lemma evalfun_scoped:
  assumes st: "scoped K st s"
    and body: "\<And>st0. scoped (K \<union> saved_names (localvars st)) st0 (scope_read s, Map.empty) \<Longrightarrow>
      \<exists>st1 calls. body st0 = Some (False, st1, calls) \<and> funcnest st1 = funcnest st0 \<and>
        scoped (K \<union> saved_names (localvars st)) st1 s1"
  shows "\<exists>st' calls. evalfun aflag body st = Some (False, st', calls) \<and> localvars st' = localvars st \<and>
    funcnest st' = funcnest st \<and> scoped K st'
      (\<lambda>n. if n \<in> dom (snd s) then fst s n else fst s1 n, \<lambda>n. if n \<in> dom (snd s) then Some (fst s1 n) else None)"
proof -
  let ?K = "K \<union> saved_names (localvars st)"
  let ?st0 = "st\<lparr>localvars := [], funcnest := funcnest st + 1\<rparr>"
  have "scoped ?K ?st0 (scope_read s, Map.empty)"
    using st by (auto simp: scoped_def scope_read_def)
  from body [OF this] obtain st1 calls where b: "body ?st0 = Some (False, st1, calls)"
    "funcnest st1 = funcnest st + 1" and st1: "scoped ?K st1 s1" by auto
  from st1 have "vars_ok (sv_tab st1)" "saved_ok ?K (localvars st1)"
    "\<forall>n \<in> ?K \<union> saved_names (localvars st1). plain n \<and> is_fixed (sv_tab st1) n" by (simp_all add: scoped_def)
  from poplocals_restores [OF this, of aflag "optlist st1"] obtain tab' opts calls' where
    p: "poplocals aflag (sv_tab st1) (optlist st1) (localvars st1) = Some (None, tab', [], opts, calls')"
    and tab': "vars_ok tab'" "\<forall>n \<in> ?K. is_fixed tab' n"
    and l: "\<And>m. plain m \<Longrightarrow> lookupvar tab' m = restored (localvars st1) (lookupvar (sv_tab st1)) m" by auto
  have l: "lookupvar tab' m = fst s1 m" if "plain m" for m
    using l [OF that] st1 that by (auto simp: scoped_def scope_read_def split: option.splits)
  let ?st' = "st1\<lparr>funcnest := funcnest st, sv_tab := tab', localvars := localvars st, optlist := opts\<rparr>"
  have "evalfun aflag body st = Some (False, ?st', calls @ calls')"
    using b p by (simp add: evalfun_def funcdone.simps poplocalvars_def)
  moreover have "scoped K ?st' (\<lambda>n. if n \<in> dom (snd s) then fst s n else fst s1 n,
      \<lambda>n. if n \<in> dom (snd s) then Some (fst s1 n) else None)"
    using st tab' l by (auto simp: scoped_def scope_read_def dom_def)
  ultimately show ?thesis by auto
qed

lemma exec_scoped:
  "scoped K st s \<Longrightarrow> cmd_ok c \<Longrightarrow> \<exists>st' calls. exec_cmd aflag c st = Some (False, st', calls) \<and>
    funcnest st' = funcnest st \<and> scoped K st' (sem_cmd c s)"
  "scoped K st s \<Longrightarrow> cmds_ok cs \<Longrightarrow> \<exists>st' calls. exec_cmds aflag cs st = Some (False, st', calls) \<and>
    funcnest st' = funcnest st \<and> scoped K st' (sem_cmds cs s)"
proof (induction aflag c st and aflag cs st arbitrary: K s and K s rule: exec_cmd_exec_cmds.induct)
  case (1 aflag n v st)
  then have tab: "vars_ok (sv_tab st)" and n: "plain n" "CHR 0x00 \<notin> set v" by (simp_all add: scoped_def)
  note t = plain_texts [OF n] plain_vname [OF n(1)]
  from setvareq_updates [OF tab t(2), of "{}" aflag] obtain tab' calls w where
    r: "setvareq aflag (sv_tab st) (n @ CHR ''='' # v) {} = Inr (tab', calls)"
    and u: "updated (sv_tab st) (n @ CHR ''='' # v) (Some w) tab'"
    and w: "v_text w = n @ CHR ''='' # v" "VUNSET \<notin> v_flags w"
      "VSTRFIXED \<in> v_flags w \<longleftrightarrow> is_fixed (sv_tab st) (n @ CHR ''='' # v)" by auto
  have "updated (sv_tab st) n (Some w) tab'" using updated_vname [OF u, of n] t by simp
  from scoped_write [OF "1.prems"(1) n(1) this, of "Some v"] w t is_fixed_vname [of n "n @ CHR ''='' # v"]
  have "scoped K (st\<lparr>sv_tab := tab'\<rparr>) (scope_write s n (Some v))" by (simp add: var_value_def)
  with r show ?case by (simp add: of_res_def)
next
  case (2 aflag n st)
  then have tab: "vars_ok (sv_tab st)" and n: "plain n" "ident n" by (simp_all add: scoped_def plain_def)
  from unsetvar_updates [OF tab n(2), of aflag] obtain tab' calls ret w where
    r: "unsetvar aflag (sv_tab st) n = Inr (tab', calls, ret)" and u: "updated (sv_tab st) n w tab'"
      "is_fixed (sv_tab st) n \<longrightarrow> (\<exists>v. w = Some v \<and> VSTRFIXED \<in> v_flags v)" "var_value w = None" by auto
  from scoped_write [OF "2.prems"(1) n(1) u] r show ?case by (simp add: of_res_def)
next
  case (3 aflag n st)
  from mklocal_scoped [OF "3.prems"(1), of n None aflag] "3.prems"(2) show ?case
    by (auto simp: run_local_def local_text_def)
next
  case (4 aflag n v st)
  from mklocal_scoped [OF "4.prems"(1), of n "Some v" aflag] "4.prems"(2) show ?case
    by (auto simp: run_local_def local_text_def)
next
  case (5 aflag cs st)
  let ?K = "K \<union> saved_names (localvars st)"
  have "\<exists>st1 calls. exec_cmds aflag cs st0 = Some (False, st1, calls) \<and> funcnest st1 = funcnest st0 \<and>
      scoped ?K st1 (sem_cmds cs (scope_read s, Map.empty))" if "scoped ?K st0 (scope_read s, Map.empty)" for st0
    using "5.IH" that "5.prems"(2) by simp
  from evalfun_scoped [OF "5.prems"(1) this, of aflag] show ?case by (auto simp: Let_def)
next
  case (6 aflag st)
  then show ?case by simp
next
  case (7 aflag c cs st)
  from "7.IH"(1) [OF "7.prems"(1)] "7.prems"(2) obtain st1 calls where
    a: "exec_cmd aflag c st = Some (False, st1, calls)" "funcnest st1 = funcnest st" "scoped K st1 (sem_cmd c s)" by auto
  have "\<exists>st' calls. exec_cmds aflag cs st1 = Some (False, st', calls) \<and>
      funcnest st' = funcnest st1 \<and> scoped K st' (sem_cmds cs (sem_cmd c s))"
    by (rule "7.IH"(2) [OF a(1) refl refl]) (use a "7.prems"(2) in simp_all)
  with a show ?case by auto
qed

section \<open>The environment of commands\<close>

lemma names_distinct:
  "\<forall>i < length l. bucket_ok (k + i) (l ! i) \<Longrightarrow> distinct (map (\<lambda>v. vname (v_text v)) (concat l)) \<and>
    (\<forall>v \<in> set (concat l). k \<le> hashvar (v_text v) \<and> vname (v_text v) \<noteq> [])"
proof (induction l arbitrary: k)
  case (Cons b l)
  have b: "bucket_ok k b" using Cons.prems by fastforce
  have "\<forall>i < length l. bucket_ok (Suc k + i) (l ! i)" using Cons.prems by fastforce
  note l = Cons.IH [OF this]
  have "vname (v_text v) \<noteq> vname (v_text w)" if "v \<in> set b" "w \<in> set (concat l)" for v w
  proof
    assume "vname (v_text v) = vname (v_text w)"
    moreover have "hashvar (v_text v) = k" "vname (v_text v) \<noteq> []"
      using b that(1) by (auto simp: bucket_ok_def text_ok_def ident_def)
    moreover have "Suc k \<le> hashvar (v_text w)" using l that(2) by blast
    ultimately show False using hashvar_vname [of "v_text v" "v_text w"] by simp
  qed
  then have "(\<lambda>v. vname (v_text v)) ` set b \<inter> (\<lambda>v. vname (v_text v)) ` set (concat l) = {}" by blast
  moreover have "distinct (map (\<lambda>v. vname (v_text v)) b)" using b by (simp add: bucket_ok_def comp_def)
  moreover have "\<forall>v \<in> set b. k \<le> hashvar (v_text v) \<and> vname (v_text v) \<noteq> []"
    using b by (auto simp: bucket_ok_def text_ok_def ident_def)
  moreover have "\<forall>v \<in> set (concat l). k \<le> hashvar (v_text v)" using l Suc_leD by blast
  ultimately show ?case using l by auto
qed simp

text \<open>No name is twice in the environment that commands get.\<close>

lemma environment_unique:
  assumes "vars_ok tab"
  shows "distinct (map vname (listvars tab {VEXPORT} {VUNSET}))"
proof -
  have "distinct (map (\<lambda>v. vname (v_text v)) (concat tab))"
    using names_distinct [of tab 0] assms by (simp add: vars_ok_def)
  then show ?thesis by (simp add: listvars_def distinct_map_filter comp_def)
qed

lemma find_var_listed:
  assumes "vars_ok tab" "find_var tab n = Some v" "v_flags v \<inter> (on \<union> off) = on"
  shows "v_text v \<in> set (listvars tab on off)"
proof -
  from assms(1,2) obtain k where "findvar (tab ! hashvar n) n = Some k" "tab ! hashvar n ! k = v"
    by (rule find_var_SomeD)
  with findvar_Some have "v \<in> set (tab ! hashvar n)" by (metis nth_mem)
  moreover have "tab ! hashvar n \<in> set tab" using assms(1) hashvar_less by (simp add: vars_ok_def)
  ultimately show ?thesis using assms(3) by (auto simp: listvars_def)
qed

text \<open>The command \<open>export\<close> with a value puts the variable into the environment.\<close>

lemma export_in_environment:
  assumes "vars_ok tab" "plain n" "CHR 0x00 \<notin> set v"
  shows "\<exists>tab' calls. export_arg aflag tab VEXPORT (n @ CHR ''='' # v) = Inr (tab', calls) \<and> vars_ok tab' \<and>
    n @ CHR ''='' # v \<in> set (listvars tab' {VEXPORT} {VUNSET})"
proof -
  let ?s = "n @ CHR ''='' # v"
  note t = plain_texts [OF assms(2,3)]
  have "setvar aflag tab ?s (Some v) {VEXPORT} = setvareq aflag tab ?s {VNOSAVE, VEXPORT}"
    using setvar_ident [OF t(2)] t(3) by simp
  moreover have "{VNOSAVE, VEXPORT} \<inter> {VNOSET, VREADONLY} = {}" by simp
  ultimately obtain tab' calls w where
    r: "setvar aflag tab ?s (Some v) {VEXPORT} = Inr (tab', calls)" and u: "updated tab ?s (Some w) tab'"
    and w: "v_text w = ?s" "VUNSET \<notin> v_flags w" "VEXPORT \<in> v_flags w"
    using setvareq_updates [OF assms(1) t(2), of "{VNOSAVE, VEXPORT}" aflag] by auto
  have "vname ?s \<noteq> []" using t(3) plain_vname [OF assms(2)] by simp
  then have f: "vars_ok tab'" "find_var tab' ?s = Some w" using u by (auto simp: updated_def)
  have "?s \<in> set (listvars tab' {VEXPORT} {VUNSET})"
    using find_var_listed [OF f, of "{VEXPORT}" "{VUNSET}"] w by auto
  moreover have "export_arg aflag tab VEXPORT ?s = Inr (tab', calls)" using r t(7) by (simp add: export_arg_def)
  ultimately show ?thesis using f(1) by blast
qed

text \<open>
  When a built-in variable with a callback is unset, the callback gets a pointer behind the
  terminating zero of the new text.
\<close>

lemma unset_callback_argument:
  assumes "vars_ok tab" "plain n" "find_var tab n = Some vp"
    and "VUNSET \<notin> v_flags vp" "VSTRFIXED \<in> v_flags vp" "v_func vp = Some f"
  shows "\<exists>tab'. unsetvar aflag tab n = Inr (tab', [(f, None)], 0)"
proof -
  from assms(1,3) obtain k where k: "findvar (tab ! hashvar n) n = Some k" "tab ! hashvar n ! k = vp" "text_ok vp"
    by (rule find_var_SomeD)
  note n = plain_texts [OF assms(2), of "[]"] plain_vname [OF assms(2)]
  show ?thesis
    using k assms(4-6) n
    by (cases aflag) (auto simp: unsetvar_def setvar_ident [OF n(1)] setvareq_def call_arg_def Let_def text_ok_def)
qed

section \<open>Properties\<close>

lemma scoped_start:
  "vars_ok (sv_tab st) \<Longrightarrow> localvars st = [] \<Longrightarrow> scoped {} st (lookupvar (sv_tab st), Map.empty)"
  by (simp add: scoped_def scope_read_def)

text \<open>
  C10. The variables of the shell are dynamically scoped: for every script of assignments, \<open>unset\<close>,
  \<open>local\<close> and nested function calls, no operation fails, every variable has the value that the
  specification gives it inside of the function, and after the return from the function the
  variables that it declared local have the values from before, while all others keep the values
  that it gave them. The hash table stays well-formed.
\<close>

theorem dynamic_scoping:
  assumes "vars_ok (sv_tab st)" "localvars st = []" "cmds_ok cs"
  shows "\<exists>st1 calls1 st2 calls2.
    exec_cmds aflag cs st = Some (False, st1, calls1) \<and>
    (\<forall>n. plain n \<longrightarrow> lookupvar (sv_tab st1) n = scope_read (sem_cmds cs (lookupvar (sv_tab st), Map.empty)) n) \<and>
    evalfun aflag (exec_cmds aflag cs) st = Some (False, st2, calls2) \<and>
    (\<forall>n. plain n \<longrightarrow> lookupvar (sv_tab st2) n = fst (sem_cmds cs (lookupvar (sv_tab st), Map.empty)) n) \<and>
    vars_ok (sv_tab st2) \<and> localvars st2 = [] \<and> funcnest st2 = funcnest st"
proof -
  let ?s = "(lookupvar (sv_tab st), Map.empty)"
  have st: "scoped {} st ?s" using assms by (intro scoped_start) auto
  from exec_scoped(2) [OF st assms(3), of aflag] obtain st1 calls1 where
    1: "exec_cmds aflag cs st = Some (False, st1, calls1)" "scoped {} st1 (sem_cmds cs ?s)" by blast
  have "\<exists>st1 calls. exec_cmds aflag cs st0 = Some (False, st1, calls) \<and> funcnest st1 = funcnest st0 \<and>
      scoped ({} \<union> saved_names (localvars st)) st1 (sem_cmds cs ?s)"
    if "scoped ({} \<union> saved_names (localvars st)) st0 (scope_read ?s, Map.empty)" for st0
    using exec_scoped(2) [OF that assms(3), of aflag] by (simp add: scope_read_def [abs_def])
  from evalfun_scoped [OF st this, of aflag] obtain st2 calls2 where
    2: "evalfun aflag (exec_cmds aflag cs) st = Some (False, st2, calls2)" "localvars st2 = []" "funcnest st2 = funcnest st"
      "scoped {} st2 (fst (sem_cmds cs ?s), Map.empty)" using assms(2) by auto
  show ?thesis
    using 1(1) 2(1-3) scoped_lookup [OF 1(2)] scoped_lookup [OF 2(4)] 2(4)
    by (intro exI [of _ st1] exI [of _ calls1] exI [of _ st2] exI [of _ calls2])
      (auto simp: scope_read_def scoped_def)
qed

lemma in_name_chars: "is_in_name c \<Longrightarrow> c \<noteq> CHR ''='' \<and> c \<noteq> CHR 0x00"
  by (auto simp: is_in_name_def is_alpha_def isdigit_def)

lemma endofname_rest:
  assumes "CHR 0x00 \<notin> set s"
  shows "endofname s + length (takeWhile (\<lambda>c. c \<noteq> CHR ''='') (drop (endofname s) s)) = length (vname s)"
proof -
  have no0: "vname r = takeWhile (\<lambda>c. c \<noteq> CHR ''='') r" if "set r \<subseteq> set s" for r
    unfolding vname_def using assms that by (intro takeWhile_cong) auto
  show ?thesis
  proof (cases s)
    case (Cons c r)
    show ?thesis
    proof (cases "is_name c")
      case True
      let ?n = "takeWhile is_in_name r"
      have "c \<noteq> CHR ''='' \<and> c \<noteq> CHR 0x00" using True in_name_chars [of c] by (auto simp: is_name_def is_in_name_def)
      then have "vname s = c # vname r" using Cons by (simp add: vname_Cons)
      also have "vname r = vname (?n @ dropWhile is_in_name r)" by simp
      also have "\<dots> = ?n @ vname (dropWhile is_in_name r)"
        unfolding vname_def by (rule takeWhile_append2) (use in_name_chars set_takeWhileD in fastforce)
      also have "vname (dropWhile is_in_name r) = takeWhile (\<lambda>c. c \<noteq> CHR ''='') (dropWhile is_in_name r)"
        by (rule no0) (use Cons set_dropWhileD in fastforce)
      finally show ?thesis using True Cons by (simp add: endofname_def dropWhile_eq_drop)
    qed (use Cons no0 [of s] in \<open>simp add: endofname_def\<close>)
  qed (simp add: endofname_def)
qed

lemma setvar_bad_name:
  assumes "CHR 0x00 \<notin> set s" "endofname s \<noteq> length (vname s)"
  shows "setvar aflag tab s val fl = Inl (Bad_variable_name, tab)"
  using endofname_rest [OF assms(1)] assms(2) by (auto simp: setvar_def Let_def)

text \<open>
  The command \<open>local\<close> does not check a name that comes with a value. For a name that is not
  legal, such as in \<open>local 1x=3\<close>, the variable is made, and the error is raised when the function
  returns, in the middle of \<open>poplocalvars\<close>. The handler of the function is still installed, so that
  the end of \<open>evalfun\<close> runs a second time: the nesting depth goes down by one in total (and the
  function's reference is dropped twice), and the variable stays set.
\<close>

lemma local_bad_name:
  assumes "length (sv_tab st) = VTABSIZE" "find_var (sv_tab st) s = None"
    and "CHR 0x00 \<notin> set s" "has_value s" "vname s \<noteq> []" "endofname s \<noteq> length (vname s)"
  shows "\<exists>st'. evalfun aflag (run_local aflag s) st = Some (True, st', []) \<and>
    funcnest st' = funcnest st - 1 \<and> lookupvar (sv_tab st') s = Some (value_of s)"
proof -
  let ?h = "hashvar s"
  define v where "v = \<lparr>v_flags = {VSTRFIXED} \<union> (if aflag then {VEXPORT} else {}), v_text = s, v_func = None\<rparr>"
  define tab where "tab = (sv_tab st)[?h := v # sv_tab st ! ?h]"
  have v: "v_text v = s" "VSTRFIXED \<in> v_flags v" "VREADONLY \<notin> v_flags v" "VUNSET \<notin> v_flags v"
    by (auto simp: v_def)
  have b: "tab ! ?h = v # sv_tab st ! ?h" using assms(1) hashvar_less by (simp add: tab_def)
  have f: "findvar (tab ! ?h) s = Some 0" by (simp add: b v varequal_vname)
  have none: "findvar (sv_tab st ! ?h) s = None" using assms(2) by (simp add: find_var_None)
  have "s \<noteq> ''-''" using assms(4) by (auto simp: has_value_def)
  then have l: "run_local aflag s (st\<lparr>localvars := [], funcnest := funcnest st + 1\<rparr>) =
      Some (False, st\<lparr>localvars := [Saved_var (vname s) {VUNSET} ''''], funcnest := funcnest st + 1, sv_tab := tab\<rparr>, [])"
    using none assms(4)
    by (cases aflag) (simp_all add: run_local_def mklocal_def Let_def setvareq_def tab_def v_def)
  have n: "hashvar (vname s) = ?h" "findvar (tab ! ?h) (vname s) = Some 0"
    using hashvar_vname [of "vname s" s] findvar_vname [of "vname s" s "tab ! ?h"] f assms(5) by auto
  have "unsetvar aflag tab s = Inl (Bad_variable_name, tab)"
    using f setvar_bad_name [OF assms(3,6)] by (simp add: unsetvar_def Let_def b v)
  then have p: "poplocals aflag tab opts [Saved_var (vname s) {VUNSET} ''''] =
      Some (Some Bad_variable_name, tab, [], opts, [])" for opts
    using n by (simp add: poplocal_def Let_def b v)
  have d: "funcdone aflag True (st\<lparr>sv_tab := tab, localvars := []\<rparr>) =
      Some (True, st\<lparr>sv_tab := tab, localvars := [], funcnest := funcnest st - 1\<rparr>, [])"
    by (simp add: funcdone.simps poplocalvars_def)
  then have "evalfun aflag (run_local aflag s) st = Some (True, st\<lparr>funcnest := funcnest st - 1, sv_tab := tab\<rparr>, [])"
    by (simp add: evalfun_def l funcdone.simps [of _ False] poplocalvars_def p del: poplocals.simps)
  moreover have "lookupvar tab s = Some (value_of s)" using f by (simp add: lookupvar_def Let_def b v)
  ultimately show ?thesis by auto
qed

section \<open>Witnesses and examples\<close>

definition sample_shell :: shell_vars where
  "sample_shell = \<lparr>sv_tab = initvar True, localvars = [], optlist = '''', funcnest = 0\<rparr>"

text \<open>Entering new variables, as at the start of the shell.\<close>

lemma insert_vars:
  assumes "vars_ok tab" "\<forall>v \<in> set vs. text_ok v \<and> find_var tab (v_text v) = None" "distinct (map (\<lambda>v. vname (v_text v)) vs)"
  defines "tab' \<equiv> foldl (\<lambda>tab v. tab[hashvar (v_text v) := v # tab ! hashvar (v_text v)]) tab vs"
  shows "vars_ok tab' \<and>
    (\<forall>m. vname m \<noteq> [] \<longrightarrow> vname m \<notin> set (map (\<lambda>v. vname (v_text v)) vs) \<longrightarrow> find_var tab' m = find_var tab m)"
  using assms(1-3) unfolding tab'_def
proof (induction vs arbitrary: tab)
  case (Cons v vs)
  let ?tab = "tab[hashvar (v_text v) := v # tab ! hashvar (v_text v)]"
  have u: "updated tab (v_text v) (Some v) ?tab"
    using Cons.prems by (intro table_insert) (simp_all add: find_var_None)
  then have "vars_ok ?tab" "\<forall>w \<in> set vs. text_ok w \<and> find_var ?tab (v_text w) = None" "distinct (map (\<lambda>v. vname (v_text v)) vs)"
    using Cons.prems by (auto simp: updated_def text_ok_def ident_def image_iff)
  from Cons.IH [OF this] u show ?case by (auto simp: updated_def)
qed simp

lemma initvar_spec:
  "vars_ok (initvar root) \<and> (\<forall>m. vname m \<noteq> [] \<longrightarrow> vname m \<notin> set (map (\<lambda>v. vname (v_text v)) varinit) \<longrightarrow>
    find_var (initvar root) m = None)"
proof -
  define vs where "vs = varinit[2 := (varinit ! 2)\<lparr>v_text := if root then ''PS1=# '' else ''PS1=$ ''\<rparr>]"
  have "list_all text_ok vs" unfolding vs_def by (cases root) (simp_all only: if_True if_False, code_simp+)
  moreover have n: "map (\<lambda>v. vname (v_text v)) vs = map (\<lambda>v. vname (v_text v)) varinit"
    unfolding vs_def by (cases root) (simp_all only: if_True if_False, code_simp+)
  have "distinct (map (\<lambda>v. vname (v_text v)) varinit)" by code_simp
  moreover have "find_var (replicate VTABSIZE []) m = None" for m by (simp add: find_var_def hashvar_less)
  moreover have "vars_ok (replicate VTABSIZE [])" by (simp add: vars_ok_def bucket_ok_def)
  ultimately show ?thesis
    using insert_vars [of "replicate VTABSIZE []" vs] unfolding initvar_def vs_def [symmetric] n list_all_iff by simp
qed

theorem dynamic_scoping_witness:
  "\<exists>st calls. evalfun False (exec_cmds False [Local_set ''x'' ''1'', Call [Assign ''x'' ''2'', Assign ''y'' ''3'']])
      sample_shell = Some (False, st, calls) \<and>
    lookupvar (sv_tab st) ''x'' = lookupvar (sv_tab sample_shell) ''x'' \<and> lookupvar (sv_tab st) ''y'' = Some ''3''"
proof -
  have n: "plain ''x''" "plain ''y''" by code_simp+
  have "vars_ok (sv_tab sample_shell)" "localvars sample_shell = []" by (simp_all add: sample_shell_def initvar_spec)
  from dynamic_scoping [OF this, of "[Local_set ''x'' ''1'', Call [Assign ''x'' ''2'', Assign ''y'' ''3'']]" False] n
  show ?thesis by (auto simp: scope_write_def scope_read_def Let_def)
qed

lemma local_bad_name_example:
  "\<exists>st. evalfun False (run_local False ''1x=3'') sample_shell = Some (True, st, []) \<and>
    funcnest st = - 1 \<and> lookupvar (sv_tab st) ''1x=3'' = Some ''3''"
proof -
  have "length (sv_tab sample_shell) = VTABSIZE" using initvar_spec by (simp add: sample_shell_def vars_ok_def)
  moreover have n: "vname ''1x=3'' \<notin> set (map (\<lambda>v. vname (v_text v)) varinit)" "vname ''1x=3'' \<noteq> []" by code_simp+
  then have "find_var (sv_tab sample_shell) ''1x=3'' = None"
    using initvar_spec unfolding sample_shell_def by fastforce
  moreover have "CHR 0x00 \<notin> set ''1x=3''" "has_value ''1x=3''" "vname ''1x=3'' \<noteq> []"
    "endofname ''1x=3'' \<noteq> length (vname ''1x=3'')" "value_of ''1x=3'' = ''3''" by code_simp+
  ultimately show ?thesis
    using local_bad_name [of sample_shell "''1x=3''" False] by (simp add: sample_shell_def)
qed

end
