(* ===== verification/Ash_Arith.thy ===== *)
theory Ash_Arith
  imports Ash_Vars Expr
begin

text \<open>
  The arithmetic expansion of \<open>ash\<close> (\<open>shell/ash.c\<close>, the functions \<open>arith_lookup_val\<close>, \<open>arith_apply\<close>,
  \<open>arith\<close> and \<open>dash_arith\<close>), without 64-bit support: a stack of operators, a stack of numbers and
  variables, and a scanner. The arrays of both stacks have the sizes that the code gives them; a
  write behind their end, and arithmetic that is undefined in C, is an error of its own. Variables are looked up
  when an operator needs their value, and a value is evaluated as an expression again. This
  recursion is bounded by the first argument of \<open>arith\<close>.

  The fields of an element of the stack that the code leaves uninitialised are zero in the model;
  they are written before they are read. The model keeps the text of a variable while it is
  evaluated; the code reads freed memory when the expression assigns to this very variable.

  The specification is a syntax tree with the precedences of the operators as its side condition.
\<close>

unbundle bit_operations_syntax

section \<open>Operators\<close>

datatype operator = TOK_LPAREN | TOK_COMMA
  | TOK_ASSIGN | TOK_AND_ASSIGN | TOK_OR_ASSIGN | TOK_XOR_ASSIGN | TOK_PLUS_ASSIGN
  | TOK_MINUS_ASSIGN | TOK_LSHIFT_ASSIGN | TOK_RSHIFT_ASSIGN
  | TOK_MUL_ASSIGN | TOK_DIV_ASSIGN | TOK_REM_ASSIGN
  | TOK_CONDITIONAL | TOK_CONDITIONAL_SEP | TOK_OR | TOK_AND | TOK_BOR | TOK_BXOR | TOK_BAND
  | TOK_EQ | TOK_NE | TOK_LT | TOK_GT | TOK_GE | TOK_LE | TOK_LSHIFT | TOK_RSHIFT
  | TOK_ADD | TOK_SUB | TOK_MUL | TOK_DIV | TOK_REM | TOK_EXPONENT
  | TOK_BNOT | TOK_NOT | TOK_UMINUS | TOK_UPLUS | TOK_PRE_INC | TOK_PRE_DEC
  | TOK_POST_INC | TOK_POST_DEC | TOK_NUM | TOK_RPAREN

definition UNARYPREC :: nat where "UNARYPREC = 16"
definition PREC_PRE :: nat where "PREC_PRE = UNARYPREC + 2"
definition PREC_POST :: nat where "PREC_POST = UNARYPREC + 3"
definition SPEC_PREC :: nat where "SPEC_PREC = UNARYPREC + 4"

fun PREC :: "operator \<Rightarrow> nat" where
  "PREC TOK_LPAREN = 0"
| "PREC TOK_COMMA = 1"
| "PREC TOK_MUL_ASSIGN = 3"
| "PREC TOK_DIV_ASSIGN = 3"
| "PREC TOK_REM_ASSIGN = 3"
| "PREC TOK_CONDITIONAL = 4"
| "PREC TOK_CONDITIONAL_SEP = 4"
| "PREC TOK_OR = 5"
| "PREC TOK_AND = 6"
| "PREC TOK_BOR = 7"
| "PREC TOK_BXOR = 8"
| "PREC TOK_BAND = 9"
| "PREC TOK_EQ = 10"
| "PREC TOK_NE = 10"
| "PREC TOK_LT = 11"
| "PREC TOK_GT = 11"
| "PREC TOK_GE = 11"
| "PREC TOK_LE = 11"
| "PREC TOK_LSHIFT = 12"
| "PREC TOK_RSHIFT = 12"
| "PREC TOK_ADD = 13"
| "PREC TOK_SUB = 13"
| "PREC TOK_MUL = 14"
| "PREC TOK_DIV = 14"
| "PREC TOK_REM = 14"
| "PREC TOK_EXPONENT = 15"
| "PREC TOK_BNOT = UNARYPREC"
| "PREC TOK_NOT = UNARYPREC"
| "PREC TOK_UMINUS = UNARYPREC + 1"
| "PREC TOK_UPLUS = UNARYPREC + 1"
| "PREC TOK_PRE_INC = PREC_PRE"
| "PREC TOK_PRE_DEC = PREC_PRE"
| "PREC TOK_POST_INC = PREC_POST"
| "PREC TOK_POST_DEC = PREC_POST"
| "PREC TOK_NUM = SPEC_PREC"
| "PREC TOK_RPAREN = SPEC_PREC"
| "PREC _ = 2"

definition convert_prec_is_assing :: "nat \<Rightarrow> nat" where
  "convert_prec_is_assing prec = (if prec = 3 then 2 else prec)"

definition tok_have_assign :: "operator \<Rightarrow> bool" where
  "tok_have_assign op =
     (let prec = convert_prec_is_assing (PREC op)
      in prec = PREC TOK_ASSIGN \<or> prec = PREC_PRE \<or> prec = PREC_POST)"

definition is_right_associativity :: "nat \<Rightarrow> bool" where
  "is_right_associativity prec \<longleftrightarrow>
     prec = PREC TOK_ASSIGN \<or> prec = PREC TOK_EXPONENT \<or> prec = PREC TOK_CONDITIONAL"

definition op_tokens :: "(string \<times> operator) list" where
  "op_tokens =
     [(''<<='', TOK_LSHIFT_ASSIGN), (''>>='', TOK_RSHIFT_ASSIGN), (''<<'', TOK_LSHIFT), (''>>'', TOK_RSHIFT),
      (''||'', TOK_OR), (''&&'', TOK_AND), (''!='', TOK_NE), (''<='', TOK_LE), (''>='', TOK_GE),
      (''=='', TOK_EQ), (''|='', TOK_OR_ASSIGN), (''&='', TOK_AND_ASSIGN), (''*='', TOK_MUL_ASSIGN),
      (''/='', TOK_DIV_ASSIGN), (''%='', TOK_REM_ASSIGN), (''+='', TOK_PLUS_ASSIGN),
      (''-='', TOK_MINUS_ASSIGN), (''--'', TOK_POST_DEC), (''^='', TOK_XOR_ASSIGN),
      (''++'', TOK_POST_INC), (''**'', TOK_EXPONENT), (''!'', TOK_NOT), (''<'', TOK_LT), (''>'', TOK_GT),
      (''='', TOK_ASSIGN), (''|'', TOK_BOR), (''&'', TOK_BAND), (''*'', TOK_MUL), (''/'', TOK_DIV),
      (''%'', TOK_REM), (''+'', TOK_ADD), (''-'', TOK_SUB), (''^'', TOK_BXOR), (''~'', TOK_BNOT),
      ('','', TOK_COMMA), (''?'', TOK_CONDITIONAL), ('':'', TOK_CONDITIONAL_SEP), ('')'', TOK_RPAREN),
      (''('', TOK_LPAREN)]"

section \<open>Applying an operator\<close>

record v_n =
  an_val :: int
  contidional_second_val :: int
  contidional_second_val_initialized :: bool
  an_var :: "string option"

text \<open>The codes that \<open>arith\<close> returns, undefined arithmetic, a write behind the end of a stack, an error of
  \<open>setvar\<close>, and the bound of the recursion.\<close>

datatype arith_err = Code int | Undefined_arith | Num_overflow | Op_overflow | Shell_error var_error | Too_deep

text \<open>The variables, and the callbacks that were called.\<close>

type_synonym arith_env = "vartab \<times> var_calls"

type_synonym 'a arith_res = "(arith_err \<times> arith_env) + ('a \<times> arith_env)"

type_synonym lookup = "string \<Rightarrow> arith_env \<Rightarrow> int arith_res"

text \<open>The loop of the exponentiation.\<close>

fun exp_loop :: "int \<Rightarrow> int \<Rightarrow> nat \<Rightarrow> arith_err + int" where
  "exp_loop c rez 0 = Inr c"
| "exp_loop c rez (Suc n) = (if long_ok (c * rez) then exp_loop (c * rez) rez n else Inl Undefined_arith)"

definition long_res :: "int \<Rightarrow> arith_err + int" where
  "long_res i = (if long_ok i then Inr i else Inl Undefined_arith)"

definition arith_unop :: "operator \<Rightarrow> int \<Rightarrow> arith_err + int" where
  "arith_unop op rez =
     (if op = TOK_UMINUS then long_res (- rez)
      else if op = TOK_NOT then Inr (of_bool (rez = 0))
      else if op = TOK_BNOT then Inr (NOT rez)
      else if op = TOK_POST_INC \<or> op = TOK_PRE_INC then long_res (rez + 1)
      else if op = TOK_POST_DEC \<or> op = TOK_PRE_DEC then long_res (rez - 1)
      else Inr rez)"

definition arith_binop :: "operator \<Rightarrow> int \<Rightarrow> int \<Rightarrow> arith_err + int" where
  "arith_binop op rez numptr_val =
     (if op = TOK_BOR \<or> op = TOK_OR_ASSIGN then Inr (rez OR numptr_val)
      else if op = TOK_OR then Inr (of_bool (numptr_val \<noteq> 0 \<or> rez \<noteq> 0))
      else if op = TOK_BAND \<or> op = TOK_AND_ASSIGN then Inr (rez AND numptr_val)
      else if op = TOK_BXOR \<or> op = TOK_XOR_ASSIGN then Inr (rez XOR numptr_val)
      else if op = TOK_AND then Inr (of_bool (rez \<noteq> 0 \<and> numptr_val \<noteq> 0))
      else if op = TOK_EQ then Inr (of_bool (rez = numptr_val))
      else if op = TOK_NE then Inr (of_bool (rez \<noteq> numptr_val))
      else if op = TOK_GE then Inr (of_bool (rez \<ge> numptr_val))
      else if op = TOK_RSHIFT \<or> op = TOK_RSHIFT_ASSIGN then
        (if numptr_val < 0 \<or> 32 \<le> numptr_val then Inl Undefined_arith else Inr (rez div 2 ^ nat numptr_val))
      else if op = TOK_LSHIFT \<or> op = TOK_LSHIFT_ASSIGN then
        (if numptr_val < 0 \<or> 32 \<le> numptr_val \<or> rez < 0 then Inl Undefined_arith
         else long_res (rez * 2 ^ nat numptr_val))
      else if op = TOK_GT then Inr (of_bool (rez > numptr_val))
      else if op = TOK_LT then Inr (of_bool (rez < numptr_val))
      else if op = TOK_LE then Inr (of_bool (rez \<le> numptr_val))
      else if op = TOK_MUL \<or> op = TOK_MUL_ASSIGN then long_res (rez * numptr_val)
      else if op = TOK_ADD \<or> op = TOK_PLUS_ASSIGN then long_res (rez + numptr_val)
      else if op = TOK_SUB \<or> op = TOK_MINUS_ASSIGN then long_res (rez - numptr_val)
      else if op = TOK_ASSIGN \<or> op = TOK_COMMA then Inr numptr_val
      else if op = TOK_EXPONENT then
        (if numptr_val < 0 then Inl (Code (- 3)) else exp_loop 1 rez (nat numptr_val))
      else if numptr_val = 0 then Inl (Code (- 2))
      else if op = TOK_DIV \<or> op = TOK_DIV_ASSIGN then long_res (quot rez numptr_val)
      else if op = TOK_REM \<or> op = TOK_REM_ASSIGN then
        bind_res (long_res (quot rez numptr_val)) (\<lambda>_. Inr (remainder rez numptr_val))
      else Inr rez)"

definition arith_lookup_val :: "lookup \<Rightarrow> v_n \<Rightarrow> arith_env \<Rightarrow> int arith_res" where
  "arith_lookup_val look t env = (case an_var t of Some x \<Rightarrow> look x env | None \<Rightarrow> Inr (an_val t, env))"

text \<open>An error of an operation in a state.\<close>

definition lift_res :: "arith_env \<Rightarrow> arith_err + int \<Rightarrow> int arith_res" where
  "lift_res env r = (case r of Inl e \<Rightarrow> Inl (e, env) | Inr v \<Rightarrow> Inr (v, env))"

text \<open>The end of \<open>arith_apply\<close>: the assignment to a variable, and the new top of the stack.\<close>

definition arith_store :: "bool \<Rightarrow> operator \<Rightarrow> v_n \<Rightarrow> int \<Rightarrow> arith_env \<Rightarrow> v_n arith_res" where
  "arith_store aflag op t rez env =
     (if tok_have_assign op then
        case an_var t of
          None \<Rightarrow> Inl (Code (- 1), env)
        | Some x \<Rightarrow>
            (case setvar aflag (fst env) x (Some (fmt_ld rez)) {} of
               Inl (e, tab) \<Rightarrow> Inl (Shell_error e, tab, snd env)
             | Inr (tab, calls) \<Rightarrow>
                 let rez = (if op = TOK_POST_INC then rez - 1 else if op = TOK_POST_DEC then rez + 1 else rez)
                 in Inr (t\<lparr>an_val := rez, an_var := None\<rparr>, tab, snd env @ calls))
      else Inr (t\<lparr>an_val := rez, an_var := None\<rparr>, env))"

definition is_unary :: "operator \<Rightarrow> bool" where
  "is_unary op \<longleftrightarrow> op \<in> {TOK_UMINUS, TOK_NOT, TOK_BNOT, TOK_POST_INC, TOK_PRE_INC, TOK_POST_DEC, TOK_PRE_DEC, TOK_UPLUS}"

text \<open>The stack is a list with the top in front.\<close>

definition arith_apply ::
  "bool \<Rightarrow> lookup \<Rightarrow> operator \<Rightarrow> v_n list \<Rightarrow> arith_env \<Rightarrow> v_n list arith_res" where
  "arith_apply aflag look op numstack env =
     (case numstack of
        [] \<Rightarrow> Inl (Code (- 1), env)
      | t # rest \<Rightarrow>
          bind_res (arith_lookup_val look t env) (\<lambda>(rez, env).
            if is_unary op then
              bind_res (lift_res env (arith_unop op rez)) (\<lambda>(rez, env).
              bind_res (arith_store aflag op t rez env) (\<lambda>(t, env). Inr (t # rest, env)))
            else
              case rest of
                [] \<Rightarrow> Inl (Code (- 1), env)
              | t1 # rest1 \<Rightarrow>
                  if (op = TOK_CONDITIONAL) \<noteq> contidional_second_val_initialized t then Inl (Code (- 1), env)
                  else
                    let numptr_val = rez in
                    bind_res (if op = TOK_ASSIGN then Inr (an_val t1, env) else arith_lookup_val look t1 env)
                      (\<lambda>(rez, env).
                        if op = TOK_CONDITIONAL then
                          Inr (t1\<lparr>an_val := if rez \<noteq> 0 then numptr_val else contidional_second_val t,
                            contidional_second_val := contidional_second_val t, an_var := None\<rparr> # rest1, env)
                        else if op = TOK_CONDITIONAL_SEP then
                          if rest1 = [] then Inl (Code (- 1), env)
                          else Inr (t1\<lparr>an_val := rez, contidional_second_val := numptr_val,
                            contidional_second_val_initialized := True, an_var := None\<rparr> # rest1, env)
                        else
                          bind_res (lift_res env (arith_binop op rez numptr_val)) (\<lambda>(rez, env).
                          bind_res (arith_store aflag op t1 rez env) (\<lambda>(t1, env). Inr (t1 # rest1, env))))))"

section \<open>The evaluator\<close>

record arith_state =
  a_ops :: "operator list"
  a_nums :: "v_n list"
  lasttok :: operator

definition arith_isspace :: "char \<Rightarrow> bool" where
  "arith_isspace c \<longleftrightarrow> c = CHR '' '' \<or> c = CHR 0x0A \<or> c = CHR 0x09"

datatype tok = T_var string | T_num int | T_op operator

text \<open>The token at the start of a string that does not start with a space.\<close>

definition next_tok :: "string \<Rightarrow> (tok \<times> string) option" where
  "next_tok s =
     (if endofname s \<noteq> 0 then Some (T_var (take (endofname s) s), drop (endofname s) s)
      else if isdigit (hd s) then (case strtol 0 s of (v, r) \<Rightarrow> Some (T_num v, r))
      else case find (\<lambda>(t, _). take (length t) s = t) op_tokens of
             None \<Rightarrow> None
           | Some (t, op) \<Rightarrow> Some (T_op op, drop (length t) s))"

definition push_num :: "nat \<Rightarrow> v_n \<Rightarrow> arith_state \<Rightarrow> arith_env \<Rightarrow> arith_state arith_res" where
  "push_num cap t \<sigma> env =
     (if length (a_nums \<sigma>) < cap then Inr (\<sigma>\<lparr>a_nums := t # a_nums \<sigma>, lasttok := TOK_NUM\<rparr>, env)
      else Inl (Num_overflow, env))"

definition push_op :: "nat \<Rightarrow> operator \<Rightarrow> arith_state \<Rightarrow> arith_env \<Rightarrow> arith_state arith_res" where
  "push_op cap op \<sigma> env =
     (if length (a_ops \<sigma>) < cap then Inr (\<sigma>\<lparr>a_ops := op # a_ops \<sigma>, lasttok := op\<rparr>, env)
      else Inl (Op_overflow, env))"

definition unary_form :: "operator \<Rightarrow> operator" where
  "unary_form op =
     (if op = TOK_ADD then TOK_UPLUS
      else if op = TOK_SUB then TOK_UMINUS
      else if op = TOK_POST_INC then TOK_PRE_INC
      else if op = TOK_POST_DEC then TOK_PRE_DEC
      else op)"

definition keeps_below :: "operator \<Rightarrow> operator \<Rightarrow> bool" where
  "keeps_below prev op =
     (let prev_prec = convert_prec_is_assing (PREC prev); prec = convert_prec_is_assing (PREC op)
      in prev_prec < prec \<or> prev_prec = prec \<and> is_right_associativity prec)"

text \<open>The loop that applies operators; the flag says that the parenthesis was found.\<close>

fun arith_reduce ::
  "bool \<Rightarrow> lookup \<Rightarrow> operator \<Rightarrow> operator list \<Rightarrow> v_n list \<Rightarrow> arith_env \<Rightarrow>
     (bool \<times> operator list \<times> v_n list) arith_res" where
  "arith_reduce aflag look op [] nums env = Inr ((False, [], nums), env)"
| "arith_reduce aflag look op (prev # ops) nums env =
     (if op = TOK_RPAREN \<and> prev = TOK_LPAREN then Inr ((True, ops, nums), env)
      else if op \<noteq> TOK_RPAREN \<and> keeps_below prev op then Inr ((False, prev # ops, nums), env)
      else bind_res (arith_apply aflag look prev nums env) (\<lambda>(nums, env).
        arith_reduce aflag look op ops nums env))"

definition arith_token_op ::
  "bool \<Rightarrow> lookup \<Rightarrow> nat \<Rightarrow> operator \<Rightarrow> arith_state \<Rightarrow> arith_env \<Rightarrow> arith_state arith_res" where
  "arith_token_op aflag look cap op0 \<sigma> env =
     (let last = (if lasttok \<sigma> = TOK_POST_INC \<or> lasttok \<sigma> = TOK_POST_DEC then TOK_NUM else lasttok \<sigma>);
          op = (if last \<noteq> TOK_NUM then unary_form op0 else op0);
          prec = PREC op
      in if 0 < prec \<and> prec < UNARYPREC \<or> prec = SPEC_PREC then
           if last \<noteq> TOK_NUM then Inl (Code (- 1), env)
           else bind_res (arith_reduce aflag look op (a_ops \<sigma>) (a_nums \<sigma>) env) (\<lambda>((closed, ops, nums), env).
             if closed then Inr (\<sigma>\<lparr>a_ops := ops, a_nums := nums, lasttok := TOK_NUM\<rparr>, env)
             else if op = TOK_RPAREN then Inl (Code (- 1), env)
             else push_op cap op (\<sigma>\<lparr>a_ops := ops, a_nums := nums\<rparr>) env)
         else push_op cap op \<sigma> env)"

text \<open>The sizes of the stacks are \<open>datasizes\<close> for the operators and the half of it for the numbers.\<close>

definition arith_tok ::
  "bool \<Rightarrow> lookup \<Rightarrow> nat \<Rightarrow> tok \<Rightarrow> arith_state \<Rightarrow> arith_env \<Rightarrow> arith_state arith_res" where
  "arith_tok aflag look datasizes tk \<sigma> env =
     (case tk of
        T_var x \<Rightarrow> push_num (datasizes div 2) \<lparr>an_val = 0, contidional_second_val = 0,
          contidional_second_val_initialized = False, an_var = Some x\<rparr> \<sigma> env
      | T_num v \<Rightarrow> push_num (datasizes div 2) \<lparr>an_val = v, contidional_second_val = 0,
          contidional_second_val_initialized = False, an_var = None\<rparr> \<sigma> env
      | T_op op \<Rightarrow> arith_token_op aflag look datasizes op \<sigma> env)"

text \<open>The end of the text: a closing parenthesis is processed, and one number has to be left.\<close>

definition arith_finish ::
  "bool \<Rightarrow> lookup \<Rightarrow> nat \<Rightarrow> arith_state \<Rightarrow> arith_env \<Rightarrow> int arith_res" where
  "arith_finish aflag look datasizes \<sigma> env =
     bind_res (arith_token_op aflag look datasizes TOK_RPAREN \<sigma> env) (\<lambda>(\<sigma>, env).
       case a_nums \<sigma> of [t] \<Rightarrow> arith_lookup_val look t env | _ \<Rightarrow> Inl (Code (- 1), env))"

lemma strtol_digit_shorter:
  assumes "strtol 0 s = (v, r)" "s \<noteq> []" "isdigit (hd s)"
  shows "length r < length s"
proof -
  obtain c t where s: "s = c # t" using assms(2) by (cases s) auto
  have d: "48 \<le> (of_char c :: nat)" "(of_char c :: nat) \<le> 57" using assms(3) s by (auto simp: isdigit_def)
  have ws: "dropWhile isspace s = s" "strip_sign s = (False, s)"
    using d s by (auto simp: isspace_def strip_sign_def)
  obtain b s2 where b: "strip_base 0 s = (b, s2)" by (cases "strip_base 0 s")
  define ds where "ds = takeWhile (\<lambda>c. digit_val c < b) s2"
  have "length s2 \<le> length s" "ds \<noteq> []"
    using b d s by (auto simp: strip_base_def ds_def takeWhile_eq_Nil_iff digit_val_def Let_def hd_drop_conv_nth
        split: if_splits)
  moreover have "length r = length s2 - length ds"
    using assms(1) ws b \<open>ds \<noteq> []\<close> by (auto simp: strtol_def scan_num_def ds_def [symmetric] Let_def)
  moreover have "length ds \<le> length s2" by (simp add: ds_def length_takeWhile_le)
  ultimately show ?thesis using s by (cases ds) auto
qed

lemma op_tokens_nonempty: "(t, op) \<in> set op_tokens \<Longrightarrow> t \<noteq> []"
  by (auto simp: op_tokens_def)

lemma next_tok_shorter:
  assumes "next_tok s = Some (t, r)" "s \<noteq> []"
  shows "length r < length s"
proof -
  consider "endofname s \<noteq> 0" | "endofname s = 0" "isdigit (hd s)" | "endofname s = 0" "\<not> isdigit (hd s)" by blast
  then show ?thesis
  proof cases
    case 1
    with assms show ?thesis by (auto simp: next_tok_def)
  next
    case 2
    with assms strtol_digit_shorter [of s _ r] show ?thesis by (auto simp: next_tok_def split: prod.splits)
  next
    case 3
    with assms(1) obtain x op where "find (\<lambda>(t, _). take (length t) s = t) op_tokens = Some (x, op)" "r = drop (length x) s"
      by (auto simp: next_tok_def split: option.splits)
    moreover from this(1) have "(x, op) \<in> set op_tokens" by (metis find_Some_iff nth_mem)
    ultimately show ?thesis using op_tokens_nonempty assms(2) by fastforce
  qed
qed

function arith_loop ::
  "bool \<Rightarrow> lookup \<Rightarrow> nat \<Rightarrow> bool \<Rightarrow> string \<Rightarrow> arith_state \<Rightarrow> arith_env \<Rightarrow> int arith_res" where
  "arith_loop aflag look datasizes seen s \<sigma> env =
     (case s of
        [] \<Rightarrow> if seen then arith_finish aflag look datasizes \<sigma> env else Inr (0, env)
      | c # r \<Rightarrow>
          if arith_isspace c then arith_loop aflag look datasizes seen r \<sigma> env
          else case next_tok s of
                 None \<Rightarrow> Inl (Code (- 1), env)
               | Some (tk, rest) \<Rightarrow>
                   bind_res (arith_tok aflag look datasizes tk \<sigma> env) (\<lambda>(\<sigma>, env).
                     arith_loop aflag look datasizes True rest \<sigma> env))"
  by pat_completeness auto
termination
  by (relation "measure (\<lambda>(_, _, _, _, s, _). length s)") (auto dest: next_tok_shorter)

declare arith_loop.simps [simp del]

text \<open>
  The recursion of \<open>arith\<close> through the values of variables; \<open>chain\<close> are the names that are looked up at
  the moment.
\<close>

fun arith :: "nat \<Rightarrow> bool \<Rightarrow> string list \<Rightarrow> string \<Rightarrow> arith_env \<Rightarrow> int arith_res"
  and arith_var :: "nat \<Rightarrow> bool \<Rightarrow> string list \<Rightarrow> lookup" where
  "arith depth aflag chain s env =
     (let datasizes = length s + 2
      in arith_loop aflag (arith_var depth aflag chain) datasizes False s
           \<lparr>a_ops = [TOK_LPAREN], a_nums = [], lasttok = TOK_LPAREN\<rparr> env)"
| "arith_var depth aflag chain x env =
     (case lookupvar (fst env) x of
        None \<Rightarrow> Inr (0, env)
      | Some p \<Rightarrow>
          if x \<in> set chain then Inl (Code (- 5), env)
          else (case depth of
                  0 \<Rightarrow> Inl (Too_deep, env)
                | Suc d \<Rightarrow> arith d aflag (x # chain) p env))"

text \<open>\<open>dash_arith\<close> and the command \<open>let\<close>; the errors are the calls of \<open>sh_error\<close> and \<open>synerror\<close>.\<close>

datatype dash_error = Exponent_negative | Divide_by_zero | Recursion_loop | Syntax_err | Expression_expected
  | Other_error arith_err

definition dash_arith :: "nat \<Rightarrow> bool \<Rightarrow> string \<Rightarrow> arith_env \<Rightarrow> (dash_error \<times> arith_env) + (int \<times> arith_env)" where
  "dash_arith depth aflag s env =
     (case arith depth aflag [] s env of
        Inr r \<Rightarrow> Inr r
      | Inl (Code errcode, env) \<Rightarrow>
          Inl (if errcode = - 3 then Exponent_negative
               else if errcode = - 2 then Divide_by_zero
               else if errcode = - 5 then Recursion_loop
               else Syntax_err, env)
      | Inl (e, env) \<Rightarrow> Inl (Other_error e, env))"

fun letcmd :: "nat \<Rightarrow> bool \<Rightarrow> string list \<Rightarrow> arith_env \<Rightarrow> (dash_error \<times> arith_env) + (int \<times> arith_env)" where
  "letcmd depth aflag [] env = Inl (Expression_expected, env)"
| "letcmd depth aflag [s] env =
     bind_res (dash_arith depth aflag s env) (\<lambda>(i, env). Inr (of_bool (i = 0), env))"
| "letcmd depth aflag (s # ss) env =
     bind_res (dash_arith depth aflag s env) (\<lambda>(i, env). letcmd depth aflag ss env)"

section \<open>Syntax trees\<close>

datatype aexp = ANum int | AVar string | AUn operator aexp | APost operator aexp
  | ABin operator aexp aexp | ACond aexp aexp aexp | AParen aexp

definition un_token :: "operator \<Rightarrow> operator" where
  "un_token u =
     (if u = TOK_UPLUS then TOK_ADD
      else if u = TOK_UMINUS then TOK_SUB
      else if u = TOK_PRE_INC then TOK_POST_INC
      else if u = TOK_PRE_DEC then TOK_POST_DEC
      else u)"

text \<open>The tokens that write a tree down.\<close>

fun atoks :: "aexp \<Rightarrow> tok list" where
  "atoks (ANum v) = [T_num v]"
| "atoks (AVar x) = [T_var x]"
| "atoks (AUn u e) = T_op (un_token u) # atoks e"
| "atoks (APost p e) = atoks e @ [T_op p]"
| "atoks (ABin op l r) = atoks l @ T_op op # atoks r"
| "atoks (ACond c x y) = atoks c @ T_op TOK_CONDITIONAL # atoks x @ T_op TOK_CONDITIONAL_SEP # atoks y"
| "atoks (AParen e) = T_op TOK_LPAREN # atoks e @ [T_op TOK_RPAREN]"

definition cprec :: "operator \<Rightarrow> nat" where
  "cprec op = convert_prec_is_assing (PREC op)"

fun lev :: "aexp \<Rightarrow> nat" where
  "lev (AUn u e) = UNARYPREC"
| "lev (APost p e) = PREC_POST"
| "lev (ABin op l r) = cprec op"
| "lev (ACond c x y) = 4"
| "lev _ = SPEC_PREC"

definition prefix_op :: "operator \<Rightarrow> bool" where
  "prefix_op u \<longleftrightarrow> u \<in> {TOK_UMINUS, TOK_UPLUS, TOK_NOT, TOK_BNOT, TOK_PRE_INC, TOK_PRE_DEC}"

definition bin_op :: "operator \<Rightarrow> bool" where
  "bin_op op \<longleftrightarrow> 0 < PREC op \<and> PREC op < UNARYPREC"

text \<open>
  The trees that need no further parentheses. The operand between \<open>?\<close> and \<open>:\<close> must not be a
  conditional expression or an assignment.
\<close>

fun awf :: "aexp \<Rightarrow> bool" where
  "awf (ANum v) \<longleftrightarrow> True"
| "awf (AVar x) \<longleftrightarrow> True"
| "awf (AUn u e) \<longleftrightarrow> prefix_op u \<and> UNARYPREC \<le> lev e \<and> awf e"
| "awf (APost p e) \<longleftrightarrow> (p = TOK_POST_INC \<or> p = TOK_POST_DEC) \<and> lev e = SPEC_PREC \<and> awf e"
| "awf (ABin op l r) \<longleftrightarrow> bin_op op \<and> op \<noteq> TOK_CONDITIONAL \<and> op \<noteq> TOK_CONDITIONAL_SEP \<and>
     (if is_right_associativity (cprec op) then cprec op < lev l \<and> cprec op \<le> lev r
      else cprec op \<le> lev l \<and> cprec op < lev r) \<and> awf l \<and> awf r"
| "awf (ACond c x y) \<longleftrightarrow> 4 < lev c \<and> 4 < lev x \<and> 4 \<le> lev y \<and> awf c \<and> awf x \<and> awf y"
| "awf (AParen e) \<longleftrightarrow> awf e"

text \<open>
  The semantics. An operand is a number or a variable, whose value is taken when an operator needs
  it: after both operands are evaluated, first on the right. Both branches of a conditional
  expression, and both operands of \<open>&&\<close> and \<open>||\<close>, are evaluated.
\<close>

datatype operand = Number int | Variable string

definition operand_val :: "lookup \<Rightarrow> operand \<Rightarrow> arith_env \<Rightarrow> int arith_res" where
  "operand_val look o' env = (case o' of Number v \<Rightarrow> Inr (v, env) | Variable x \<Rightarrow> look x env)"

definition assign_operand :: "bool \<Rightarrow> operator \<Rightarrow> operand \<Rightarrow> int \<Rightarrow> arith_env \<Rightarrow> operand arith_res" where
  "assign_operand aflag op o' w env =
     (if \<not> tok_have_assign op then Inr (Number w, env)
      else case o' of
             Number _ \<Rightarrow> Inl (Code (- 1), env)
           | Variable x \<Rightarrow>
               (case setvar aflag (fst env) x (Some (fmt_ld w)) {} of
                  Inl (e, tab) \<Rightarrow> Inl (Shell_error e, tab, snd env)
                | Inr (tab, calls) \<Rightarrow>
                    Inr (Number (if op = TOK_POST_INC then w - 1 else if op = TOK_POST_DEC then w + 1 else w),
                      tab, snd env @ calls)))"

definition sem_un :: "bool \<Rightarrow> lookup \<Rightarrow> operator \<Rightarrow> operand \<Rightarrow> arith_env \<Rightarrow> operand arith_res" where
  "sem_un aflag look u o' env =
     bind_res (operand_val look o' env) (\<lambda>(v, env).
     bind_res (lift_res env (arith_unop u v)) (\<lambda>(w, env). assign_operand aflag u o' w env))"

definition sem_bin :: "bool \<Rightarrow> lookup \<Rightarrow> operator \<Rightarrow> operand \<Rightarrow> operand \<Rightarrow> arith_env \<Rightarrow> operand arith_res" where
  "sem_bin aflag look op o1 o2 env =
     bind_res (operand_val look o2 env) (\<lambda>(v2, env).
     bind_res (if op = TOK_ASSIGN then Inr (0, env) else operand_val look o1 env) (\<lambda>(v1, env).
     bind_res (lift_res env (arith_binop op v1 v2)) (\<lambda>(w, env). assign_operand aflag op o1 w env)))"

definition sem_cond :: "lookup \<Rightarrow> operand \<Rightarrow> operand \<Rightarrow> operand \<Rightarrow> arith_env \<Rightarrow> operand arith_res" where
  "sem_cond look oc ox oy env =
     bind_res (operand_val look oy env) (\<lambda>(vy, env).
     bind_res (operand_val look ox env) (\<lambda>(vx, env).
     bind_res (operand_val look oc env) (\<lambda>(vc, env). Inr (Number (if vc \<noteq> 0 then vx else vy), env))))"

fun asem :: "bool \<Rightarrow> lookup \<Rightarrow> aexp \<Rightarrow> arith_env \<Rightarrow> operand arith_res" where
  "asem aflag look (ANum v) env = Inr (Number v, env)"
| "asem aflag look (AVar x) env = Inr (Variable x, env)"
| "asem aflag look (AUn u e) env = bind_res (asem aflag look e env) (\<lambda>(o', env). sem_un aflag look u o' env)"
| "asem aflag look (APost p e) env = bind_res (asem aflag look e env) (\<lambda>(o', env). sem_un aflag look p o' env)"
| "asem aflag look (ABin op l r) env =
     bind_res (asem aflag look l env) (\<lambda>(o1, env).
     bind_res (asem aflag look r env) (\<lambda>(o2, env). sem_bin aflag look op o1 o2 env))"
| "asem aflag look (ACond c x y) env =
     bind_res (asem aflag look c env) (\<lambda>(oc, env).
     bind_res (asem aflag look x env) (\<lambda>(ox, env).
     bind_res (asem aflag look y env) (\<lambda>(oy, env). sem_cond look oc ox oy env)))"
| "asem aflag look (AParen e) env = asem aflag look e env"

section \<open>The two stacks evaluate the tree\<close>

fun arith_run ::
  "bool \<Rightarrow> lookup \<Rightarrow> nat \<Rightarrow> tok list \<Rightarrow> arith_state \<Rightarrow> arith_env \<Rightarrow> arith_state arith_res" where
  "arith_run aflag look ds [] \<sigma> env = Inr (\<sigma>, env)"
| "arith_run aflag look ds (t # ts) \<sigma> env =
     bind_res (arith_tok aflag look ds t \<sigma> env) (\<lambda>(\<sigma>, env). arith_run aflag look ds ts \<sigma> env)"

definition denotes :: "v_n \<Rightarrow> operand \<Rightarrow> bool" where
  "denotes t o' \<longleftrightarrow> \<not> contidional_second_val_initialized t \<and>
     (case o' of Number v \<Rightarrow> an_var t = None \<and> an_val t = v | Variable x \<Rightarrow> an_var t = Some x)"

text \<open>The result of the specification, continued on the stack.\<close>

definition agrees :: "operand arith_res \<Rightarrow> (v_n \<Rightarrow> arith_env \<Rightarrow> 'a arith_res) \<Rightarrow> 'a arith_res \<Rightarrow> bool" where
  "agrees m k r \<longleftrightarrow> (case m of Inl e \<Rightarrow> r = Inl e | Inr (o', env) \<Rightarrow> \<exists>t. denotes t o' \<and> r = k t env)"

lemma agrees_bind:
  assumes "agrees m k r" "\<And>o' env t. denotes t o' \<Longrightarrow> agrees (f o' env) k' (k t env)"
  shows "agrees (bind_res m (\<lambda>(o', env). f o' env)) k' r"
proof (cases m)
  case (Inr p)
  obtain o' env where p: "p = (o', env)" by (cases p)
  with assms(1) Inr obtain t where "denotes t o'" "r = k t env" by (auto simp: agrees_def)
  with assms(2) [of t o' env] show ?thesis by (simp add: Inr p)
qed (use assms(1) in \<open>simp add: agrees_def\<close>)

lemma denotes_val: "denotes t o' \<Longrightarrow> arith_lookup_val look t env = operand_val look o' env"
  by (cases o') (auto simp: denotes_def arith_lookup_val_def operand_val_def)

lemma agrees_val:
  assumes "\<And>v env. agrees (f v env) k (g v env)"
  shows "agrees (bind_res m (\<lambda>(v, env). f v env)) k (bind_res m (\<lambda>(v, env). g v env))"
  using assms by (cases m) (auto simp: agrees_def)

lemma store_agrees:
  assumes "denotes t o'"
  shows "agrees (assign_operand aflag op o' w env) (\<lambda>t env. Inr (t # rest, env))
    (bind_res (arith_store aflag op t w env) (\<lambda>(t, env). Inr (t # rest, env)))"
  using assms
  by (auto simp: agrees_def assign_operand_def arith_store_def denotes_def Let_def
      split: operand.splits sum.splits option.splits)

lemma apply_un:
  assumes "is_unary u" "denotes t o'"
  shows "agrees (sem_un aflag look u o' env) (\<lambda>t env. Inr (t # nums, env)) (arith_apply aflag look u (t # nums) env)"
  unfolding sem_un_def arith_apply_def denotes_val [OF assms(2)] list.case
  by (rule agrees_val) (simp only: assms(1) if_True, rule agrees_val, rule store_agrees, rule assms(2))

lemma apply_bin_eq:
  assumes "\<not> is_unary op" "op \<noteq> TOK_CONDITIONAL" "op \<noteq> TOK_CONDITIONAL_SEP" "\<not> contidional_second_val_initialized t2"
  shows "arith_apply aflag look op (t2 # t1 # nums) env =
    bind_res (arith_lookup_val look t2 env) (\<lambda>(v2, env).
    bind_res (if op = TOK_ASSIGN then Inr (an_val t1, env) else arith_lookup_val look t1 env) (\<lambda>(v1, env).
    bind_res (lift_res env (arith_binop op v1 v2)) (\<lambda>(w, env).
    bind_res (arith_store aflag op t1 w env) (\<lambda>(t, env). Inr (t # nums, env)))))"
  using assms by (simp add: arith_apply_def)

lemma apply_sep_eq:
  assumes "\<not> contidional_second_val_initialized t2"
  shows "arith_apply aflag look TOK_CONDITIONAL_SEP (t2 # t1 # t0 # nums) env =
    bind_res (arith_lookup_val look t2 env) (\<lambda>(v2, env).
    bind_res (arith_lookup_val look t1 env) (\<lambda>(v1, env).
      Inr (t1\<lparr>an_val := v1, contidional_second_val := v2, contidional_second_val_initialized := True,
        an_var := None\<rparr> # t0 # nums, env)))"
  using assms by (simp add: arith_apply_def is_unary_def)

lemma apply_cond_eq:
  assumes "contidional_second_val_initialized t" "an_var t = None"
  shows "arith_apply aflag look TOK_CONDITIONAL (t # t1 # nums) env =
    bind_res (arith_lookup_val look t1 env) (\<lambda>(v1, env).
      Inr (t1\<lparr>an_val := if v1 \<noteq> 0 then an_val t else contidional_second_val t,
        contidional_second_val := contidional_second_val t, an_var := None\<rparr> # nums, env))"
  using assms by (simp add: arith_apply_def is_unary_def arith_lookup_val_def)

lemma bind_res_pair:
  "bind_res (bind_res m (\<lambda>(v, env). g v env)) h = bind_res m (\<lambda>(v, env). bind_res (g v env) h)"
  by (cases m) auto

lemma agrees_return: "denotes t o' \<Longrightarrow> agrees (Inr (o', env)) k (k t env)"
  by (auto simp: agrees_def)

lemma apply_bin:
  assumes "\<not> is_unary op" "op \<noteq> TOK_CONDITIONAL" "op \<noteq> TOK_CONDITIONAL_SEP" "denotes t1 o1" "denotes t2 o2"
  shows "agrees (sem_bin aflag look op o1 o2 env) (\<lambda>t env. Inr (t # nums, env))
    (arith_apply aflag look op (t2 # t1 # nums) env)"
proof -
  have "\<not> contidional_second_val_initialized t2" using assms(5) by (simp add: denotes_def)
  note eq = apply_bin_eq [OF assms(1-3) this]
  have b: "arith_binop TOK_ASSIGN (an_val t1) w = arith_binop TOK_ASSIGN 0 w" for w by (simp add: arith_binop_def)
  show ?thesis
  proof (cases "op = TOK_ASSIGN")
    case True
    show ?thesis
      unfolding sem_bin_def eq denotes_val [OF assms(5)] unfolding True
      by (rule agrees_val) (simp only: simp_thms if_True bind_res_simps split_conv b,
          rule agrees_val, rule store_agrees [OF assms(4)])
  next
    case False
    show ?thesis
      unfolding sem_bin_def eq denotes_val [OF assms(5)] denotes_val [OF assms(4)] if_not_P [OF False]
      by (rule agrees_val, rule agrees_val, rule agrees_val, rule store_agrees [OF assms(4)])
  qed
qed

lemma apply_cond:
  assumes "denotes tc oc" "denotes tx ox" "denotes ty oy"
  shows "agrees (sem_cond look oc ox oy env) (\<lambda>t env. Inr (t # nums, env))
    (bind_res (arith_apply aflag look TOK_CONDITIONAL_SEP (ty # tx # tc # nums) env) (\<lambda>(nums, env).
      arith_apply aflag look TOK_CONDITIONAL nums env))"
proof -
  have i: "\<not> contidional_second_val_initialized ty" using assms by (simp add: denotes_def)
  have d: "denotes (tc\<lparr>an_val := w, contidional_second_val := v, an_var := None\<rparr>) (Number w)" for v w
    using assms(1) by (simp add: denotes_def)
  show ?thesis
    unfolding sem_cond_def apply_sep_eq [OF i] bind_res_pair denotes_val [OF assms(3)] denotes_val [OF assms(2)]
  proof (rule agrees_val, rule agrees_val)
    fix vy vx env
    show "agrees (bind_res (operand_val look oc env) (\<lambda>(vc, env). Inr (Number (if vc \<noteq> 0 then vx else vy), env)))
      (\<lambda>t env. Inr (t # nums, env))
      (bind_res (Inr (tx\<lparr>an_val := vx, contidional_second_val := vy, contidional_second_val_initialized := True,
        an_var := None\<rparr> # tc # nums, env)) (\<lambda>(nums, env). arith_apply aflag look TOK_CONDITIONAL nums env))"
      unfolding bind_res_simps split_conv
      by (subst apply_cond_eq, simp, simp, unfold denotes_val [OF assms(1)], rule agrees_val)
        (use d in \<open>force simp: agrees_def\<close>)
  qed
qed

definition numish :: "operator \<Rightarrow> bool" where
  "numish l \<longleftrightarrow> l = TOK_NUM \<or> l = TOK_POST_INC \<or> l = TOK_POST_DEC"

text \<open>An operator that ends an operand of the level \<open>n\<close>, and a stack that such an operand leaves alone.\<close>

definition closes :: "operator \<Rightarrow> nat \<Rightarrow> bool" where
  "closes t n \<longleftrightarrow> t = TOK_RPAREN \<or>
     bin_op t \<and> (cprec t < n \<or> cprec t = n \<and> \<not> is_right_associativity n)"

definition blocks :: "operator list \<Rightarrow> nat \<Rightarrow> bool" where
  "blocks ops n \<longleftrightarrow> UNARYPREC \<le> n \<or> (\<exists>p ps. ops = p # ps \<and> (cprec p < n \<or> cprec p = n \<and> is_right_associativity n))"

lemma closes_pops: "closes t n \<Longrightarrow> n \<le> cprec op \<Longrightarrow> t \<noteq> TOK_RPAREN \<Longrightarrow> \<not> keeps_below op t"
  by (auto simp: closes_def keeps_below_def cprec_def Let_def)

lemma closes_op: "closes t n \<Longrightarrow> 0 < PREC t \<and> PREC t < UNARYPREC \<or> PREC t = SPEC_PREC"
  by (auto simp: closes_def bin_op_def)

lemma arith_op_closes:
  assumes "numish (lasttok \<sigma>)" "closes t n"
  shows "arith_token_op aflag look cap t \<sigma> env =
    bind_res (arith_reduce aflag look t (a_ops \<sigma>) (a_nums \<sigma>) env) (\<lambda>((closed, ops, nums), env).
      if closed then Inr (\<lparr>a_ops = ops, a_nums = nums, lasttok = TOK_NUM\<rparr>, env)
      else if t = TOK_RPAREN then Inl (Code (- 1), env)
      else push_op cap t \<lparr>a_ops = ops, a_nums = nums, lasttok = TOK_NUM\<rparr> env)"
proof -
  have last: "(if lasttok \<sigma> = TOK_POST_INC \<or> lasttok \<sigma> = TOK_POST_DEC then TOK_NUM else lasttok \<sigma>) = TOK_NUM"
    using assms(1) by (auto simp: numish_def)
  have u: "push_op cap t (\<sigma>\<lparr>a_ops := ops, a_nums := nums\<rparr>) env =
      push_op cap t \<lparr>a_ops = ops, a_nums = nums, lasttok = TOK_NUM\<rparr> env"
    "\<sigma>\<lparr>a_ops := ops, a_nums := nums, lasttok := TOK_NUM\<rparr> = \<lparr>a_ops = ops, a_nums = nums, lasttok = TOK_NUM\<rparr>"
    for ops nums env by (cases \<sigma>; simp add: push_op_def)+
  show ?thesis
    unfolding arith_token_op_def last Let_def if_P [OF closes_op [OF assms(2)]] u simp_thms if_False
    unfolding if_P [OF closes_op [OF assms(2)]] by simp
qed

lemma arith_op_pops:
  assumes "numish (lasttok \<sigma>)" "a_ops \<sigma> = op # ops" "closes t n" "n \<le> cprec op" "op \<noteq> TOK_LPAREN"
  shows "arith_token_op aflag look cap t \<sigma> env =
    bind_res (arith_apply aflag look op (a_nums \<sigma>) env) (\<lambda>(nums, env).
      arith_token_op aflag look cap t \<lparr>a_ops = ops, a_nums = nums, lasttok = TOK_NUM\<rparr> env)"
proof -
  have r: "arith_reduce aflag look t (op # ops) (a_nums \<sigma>) env =
      bind_res (arith_apply aflag look op (a_nums \<sigma>) env) (\<lambda>(nums, env). arith_reduce aflag look t ops nums env)"
    using closes_pops [OF assms(3,4)] assms(5) by auto
  have n: "numish (lasttok \<lparr>a_ops = ops, a_nums = nums, lasttok = TOK_NUM\<rparr>)" for nums by (simp add: numish_def)
  show ?thesis
    unfolding arith_op_closes [OF assms(1,3)] assms(2) r bind_res_pair arith_op_closes [OF n assms(3)] by simp
qed

abbreviation stk :: "operator list \<Rightarrow> v_n list \<Rightarrow> operator \<Rightarrow> arith_state" where
  "stk ops nums l \<equiv> \<lparr>a_ops = ops, a_nums = nums, lasttok = l\<rparr>"

fun anums :: "aexp \<Rightarrow> nat" where
  "anums (AUn u e) = anums e"
| "anums (APost p e) = anums e"
| "anums (ABin op l r) = anums l + anums r"
| "anums (ACond c x y) = anums c + anums x + anums y"
| "anums (AParen e) = anums e"
| "anums _ = 1"

fun aops :: "aexp \<Rightarrow> nat" where
  "aops (AUn u e) = Suc (aops e)"
| "aops (APost p e) = Suc (aops e)"
| "aops (ABin op l r) = Suc (aops l + aops r)"
| "aops (ACond c x y) = Suc (Suc (aops c + aops x + aops y))"
| "aops (AParen e) = Suc (Suc (aops e))"
| "aops _ = 0"

lemma anums_pos: "0 < anums e"
  by (induction e) auto

lemma length_atoks: "length (atoks e) = anums e + aops e"
  by (induction e) auto

lemma anums_aops: "anums e \<le> Suc (aops e)"
  by (induction e) auto

lemma closes_mono: "closes t n \<Longrightarrow> n \<le> m \<Longrightarrow> closes t m"
  by (auto simp: closes_def)

lemma blocks_mono: "blocks ops n \<Longrightarrow> n \<le> m \<Longrightarrow> blocks ops m"
  by (auto simp: blocks_def)

lemmas prec_defs = UNARYPREC_def PREC_PRE_def PREC_POST_def SPEC_PREC_def convert_prec_is_assing_def

lemma prefix_op_facts:
  assumes "prefix_op u"
  shows "unary_form (un_token u) = u" "is_unary u" "\<not> numish u" "UNARYPREC \<le> cprec u" "UNARYPREC \<le> PREC u"
    "PREC u \<noteq> SPEC_PREC" "u \<noteq> TOK_LPAREN"
  using assms by (auto simp: prefix_op_def un_token_def unary_form_def is_unary_def numish_def cprec_def prec_defs)

lemma bin_op_facts:
  assumes "bin_op op"
  shows "\<not> is_unary op" "\<not> numish op" "cprec op < UNARYPREC" "op \<noteq> TOK_LPAREN" "op \<noteq> TOK_RPAREN" "0 < cprec op"
  using assms by (cases op; simp add: bin_op_def is_unary_def numish_def cprec_def prec_defs)+

lemma run_pop:
  assumes "numish l" "closes t n" "n \<le> cprec op" "op \<noteq> TOK_LPAREN"
  shows "arith_run aflag look ds (T_op t # ts) (stk (op # ops) nums l) env =
    bind_res (arith_apply aflag look op nums env) (\<lambda>(nums, env).
      arith_run aflag look ds (T_op t # ts) (stk ops nums TOK_NUM) env)"
  using arith_op_pops [of "stk (op # ops) nums l" op ops t n aflag look ds env] assms
  by (simp add: arith_tok_def bind_res_pair)

lemma run_binary:
  assumes "bin_op op" "blocks ops n" "n \<le> cprec op" "length ops < ds"
  shows "arith_run aflag look ds (T_op op # ts) (stk ops nums TOK_NUM) env =
    arith_run aflag look ds ts (stk (op # ops) nums op) env"
proof -
  obtain p ps where p: "ops = p # ps" "cprec p < n \<or> cprec p = n \<and> is_right_associativity n"
    using assms(2,3) bin_op_facts(3) [OF assms(1)] by (auto simp: blocks_def)
  have "keeps_below p op" using p(2) assms(3) by (auto simp: keeps_below_def cprec_def [symmetric] Let_def)
  then have "arith_reduce aflag look op ops nums env = Inr ((False, ops, nums), env)"
    using bin_op_facts [OF assms(1)] by (simp add: p(1))
  then show ?thesis
    using assms(1,4) bin_op_facts [OF assms(1)] by (simp add: arith_tok_def arith_token_op_def Let_def push_op_def bin_op_def)
qed

lemma run_prefix:
  assumes "prefix_op u" "\<not> numish l" "length ops < ds"
  shows "arith_run aflag look ds (T_op (un_token u) # ts) (stk ops nums l) env =
    arith_run aflag look ds ts (stk (u # ops) nums u) env"
proof -
  have l: "l \<noteq> TOK_POST_INC" "l \<noteq> TOK_POST_DEC" "l \<noteq> TOK_NUM"
    using assms(2) by (auto simp: numish_def)
  have "\<not> PREC u < UNARYPREC" "PREC u \<noteq> SPEC_PREC" using prefix_op_facts [OF assms(1)] by auto
  then show ?thesis
    using l prefix_op_facts(1) [OF assms(1)] assms(3)
    by (simp add: arith_tok_def arith_token_op_def Let_def push_op_def)
qed

lemma run_lparen:
  assumes "\<not> numish l" "length ops < ds"
  shows "arith_run aflag look ds (T_op TOK_LPAREN # ts) (stk ops nums l) env =
    arith_run aflag look ds ts (stk (TOK_LPAREN # ops) nums TOK_LPAREN) env"
  using assms by (auto simp: arith_tok_def arith_token_op_def Let_def push_op_def unary_form_def prec_defs)

lemma run_rparen:
  "arith_run aflag look ds (T_op TOK_RPAREN # ts) (stk (TOK_LPAREN # ops) nums TOK_NUM) env =
    arith_run aflag look ds ts (stk ops nums TOK_NUM) env"
  by (simp add: arith_tok_def arith_token_op_def Let_def prec_defs)

lemma run_postfix:
  assumes "p = TOK_POST_INC \<or> p = TOK_POST_DEC" "length ops < ds"
  shows "arith_run aflag look ds (T_op p # ts) (stk ops nums TOK_NUM) env =
    arith_run aflag look ds ts (stk (p # ops) nums p) env"
  using assms by (auto simp: arith_tok_def arith_token_op_def Let_def push_op_def prec_defs)

lemma agrees_then:
  assumes "agrees m (\<lambda>t env. Inr (t # nums, env)) r"
  shows "agrees m (\<lambda>t env. k (t # nums) env) (bind_res r (\<lambda>(nums, env). k nums env))"
  using assms by (auto simp: agrees_def split: sum.splits)

text \<open>
  Reading the tokens of a tree pushes its operand, when the operator behind them ends it and the
  operator below does not take its first operand away.
\<close>

definition reads :: "bool \<Rightarrow> lookup \<Rightarrow> nat \<Rightarrow> aexp \<Rightarrow> bool" where
  "reads aflag look ds e \<longleftrightarrow> (\<forall>ops nums l ts env.
     blocks ops (lev e) \<longrightarrow> \<not> numish l \<longrightarrow>
     lev e = SPEC_PREC \<or> (\<exists>t rest. ts = T_op t # rest \<and> closes t (lev e)) \<longrightarrow>
     length nums + anums e \<le> ds div 2 \<longrightarrow> length ops + aops e \<le> ds \<longrightarrow>
     agrees (asem aflag look e env) (\<lambda>t env. arith_run aflag look ds ts (stk ops (t # nums) TOK_NUM) env)
       (arith_run aflag look ds (atoks e @ ts) (stk ops nums l) env))"

lemma readsD:
  assumes "reads aflag look ds e" "blocks ops (lev e)" "\<not> numish l"
    "lev e = SPEC_PREC \<or> (\<exists>t rest. ts = T_op t # rest \<and> closes t (lev e))"
    "length nums + anums e \<le> ds div 2" "length ops + aops e \<le> ds"
  shows "agrees (asem aflag look e env) (\<lambda>t env. arith_run aflag look ds ts (stk ops (t # nums) TOK_NUM) env)
    (arith_run aflag look ds (atoks e @ ts) (stk ops nums l) env)"
  using assms unfolding reads_def by blast

lemma reads_atom:
  "reads aflag look ds (ANum v)" "reads aflag look ds (AVar x)"
  unfolding reads_def
  by (intro allI impI, simp add: arith_tok_def push_num_def, rule agrees_return, simp add: denotes_def)+

lemma reads_paren:
  assumes "reads aflag look ds e" "0 < lev e"
  shows "reads aflag look ds (AParen e)"
  unfolding reads_def
proof (intro allI impI)
  fix ops :: "operator list" and nums :: "v_n list" and l ts and env :: arith_env
  assume l: "\<not> numish l" and n: "length nums + anums (AParen e) \<le> ds div 2" "length ops + aops (AParen e) \<le> ds"
  have "blocks (TOK_LPAREN # ops) (lev e)" using assms(2) by (simp add: blocks_def cprec_def prec_defs)
  moreover have "closes TOK_RPAREN (lev e)" "\<not> numish TOK_LPAREN" by (simp_all add: closes_def numish_def)
  ultimately have "agrees (asem aflag look e env)
      (\<lambda>t env. arith_run aflag look ds (T_op TOK_RPAREN # ts) (stk (TOK_LPAREN # ops) (t # nums) TOK_NUM) env)
      (arith_run aflag look ds (atoks e @ T_op TOK_RPAREN # ts) (stk (TOK_LPAREN # ops) nums TOK_LPAREN) env)"
    using n by (intro readsD [OF assms(1)]) auto
  then show "agrees (asem aflag look (AParen e) env)
      (\<lambda>t env. arith_run aflag look ds ts (stk ops (t # nums) TOK_NUM) env)
      (arith_run aflag look ds (atoks (AParen e) @ ts) (stk ops nums l) env)"
    using run_lparen [OF l, of ops ds] n(2) unfolding run_rparen by simp
qed

lemma reads_prefix:
  assumes "reads aflag look ds e" "prefix_op u" "UNARYPREC \<le> lev e"
  shows "reads aflag look ds (AUn u e)"
  unfolding reads_def
proof (intro allI impI)
  fix ops :: "operator list" and nums :: "v_n list" and l ts and env :: arith_env
  assume l: "\<not> numish l" and n: "length nums + anums (AUn u e) \<le> ds div 2" "length ops + aops (AUn u e) \<le> ds"
    and "lev (AUn u e) = SPEC_PREC \<or> (\<exists>t rest. ts = T_op t # rest \<and> closes t (lev (AUn u e)))"
  then obtain t rest where ts: "ts = T_op t # rest" and t: "closes t UNARYPREC" by (auto simp: prec_defs)
  note u = prefix_op_facts [OF assms(2)]
  have "blocks (u # ops) (lev e)" using assms(3) by (simp add: blocks_def)
  then have e: "agrees (asem aflag look e env)
      (\<lambda>t' env. arith_run aflag look ds ts (stk (u # ops) (t' # nums) TOK_NUM) env)
      (arith_run aflag look ds (atoks e @ ts) (stk (u # ops) nums u) env)"
    using n u(3) closes_mono [OF t assms(3)] ts by (intro readsD [OF assms(1)]) auto
  have "agrees (asem aflag look (AUn u e) env)
      (\<lambda>t env. arith_run aflag look ds ts (stk ops (t # nums) TOK_NUM) env)
      (arith_run aflag look ds (atoks e @ ts) (stk (u # ops) nums u) env)"
    unfolding asem.simps ts
  proof (rule agrees_bind [OF e [unfolded ts]])
    fix o' env t'
    assume d: "denotes t' o'"
    show "agrees (sem_un aflag look u o' env)
        (\<lambda>t' env. arith_run aflag look ds (T_op t # rest) (stk ops (t' # nums) TOK_NUM) env)
        (arith_run aflag look ds (T_op t # rest) (stk (u # ops) (t' # nums) TOK_NUM) env)"
      unfolding run_pop [OF _ t u(4,7), of TOK_NUM, unfolded numish_def, OF disjI1, OF refl]
      by (rule agrees_then [OF apply_un [OF u(2) d]])
  qed
  then show "agrees (asem aflag look (AUn u e) env)
      (\<lambda>t env. arith_run aflag look ds ts (stk ops (t # nums) TOK_NUM) env)
      (arith_run aflag look ds (atoks (AUn u e) @ ts) (stk ops nums l) env)"
    using run_prefix [OF assms(2) l, of ops ds] n(2) by simp
qed

lemmas run_pop_num = run_pop [of TOK_NUM, unfolded numish_def, OF disjI1, OF refl]

lemma reads_postfix:
  assumes "reads aflag look ds e" "p = TOK_POST_INC \<or> p = TOK_POST_DEC" "lev e = SPEC_PREC"
  shows "reads aflag look ds (APost p e)"
  unfolding reads_def
proof (intro allI impI)
  fix ops :: "operator list" and nums :: "v_n list" and l ts and env :: arith_env
  assume l: "\<not> numish l" and n: "length nums + anums (APost p e) \<le> ds div 2" "length ops + aops (APost p e) \<le> ds"
    and "lev (APost p e) = SPEC_PREC \<or> (\<exists>t rest. ts = T_op t # rest \<and> closes t (lev (APost p e)))"
  then obtain t rest where ts: "ts = T_op t # rest" and t: "closes t PREC_POST" by (auto simp: prec_defs)
  have p: "is_unary p" "numish p" "PREC_POST \<le> cprec p" "p \<noteq> TOK_LPAREN"
    using assms(2) by (auto simp: is_unary_def numish_def cprec_def prec_defs)
  have "blocks ops (lev e)" using assms(3) by (simp add: blocks_def prec_defs)
  then have e: "agrees (asem aflag look e env)
      (\<lambda>t' env. arith_run aflag look ds (T_op p # ts) (stk ops (t' # nums) TOK_NUM) env)
      (arith_run aflag look ds (atoks e @ T_op p # ts) (stk ops nums l) env)"
    using n l assms(3) by (intro readsD [OF assms(1)]) auto
  show "agrees (asem aflag look (APost p e) env)
      (\<lambda>t env. arith_run aflag look ds ts (stk ops (t # nums) TOK_NUM) env)
      (arith_run aflag look ds (atoks (APost p e) @ ts) (stk ops nums l) env)"
    unfolding asem.simps atoks.simps append_assoc append.simps
  proof (rule agrees_bind [OF e])
    fix o' env t'
    assume d: "denotes t' o'"
    have "arith_run aflag look ds (T_op p # ts) (stk ops (t' # nums) TOK_NUM) env =
        arith_run aflag look ds ts (stk (p # ops) (t' # nums) p) env"
      using n(2) by (intro run_postfix assms(2)) simp
    also have "\<dots> = bind_res (arith_apply aflag look p (t' # nums) env) (\<lambda>(nums, env).
        arith_run aflag look ds ts (stk ops nums TOK_NUM) env)" unfolding ts by (rule run_pop [OF p(2) t p(3,4)])
    finally show "agrees (sem_un aflag look p o' env)
        (\<lambda>t env. arith_run aflag look ds ts (stk ops (t # nums) TOK_NUM) env)
        (arith_run aflag look ds (T_op p # ts) (stk ops (t' # nums) TOK_NUM) env)"
      using agrees_then [OF apply_un [OF p(1) d]] by simp
  qed
qed

lemma reads_binary:
  assumes l: "reads aflag look ds el" and r: "reads aflag look ds er"
    and op: "bin_op op" "op \<noteq> TOK_CONDITIONAL" "op \<noteq> TOK_CONDITIONAL_SEP"
    and a: "if is_right_associativity (cprec op) then cprec op < lev el \<and> cprec op \<le> lev er
      else cprec op \<le> lev el \<and> cprec op < lev er"
  shows "reads aflag look ds (ABin op el er)"
  unfolding reads_def
proof (intro allI impI)
  fix ops :: "operator list" and nums :: "v_n list" and l ts and env :: arith_env
  assume b: "blocks ops (lev (ABin op el er))" and nl: "\<not> numish l"
    and n: "length nums + anums (ABin op el er) \<le> ds div 2" "length ops + aops (ABin op el er) \<le> ds"
    and ts: "lev (ABin op el er) = SPEC_PREC \<or> (\<exists>t rest. ts = T_op t # rest \<and> closes t (lev (ABin op el er)))"
  note f = bin_op_facts [OF op(1)]
  from ts f(3) obtain t rest where ts: "ts = T_op t # rest" and t: "closes t (cprec op)" by (auto simp: prec_defs)
  have le: "cprec op \<le> lev el" "cprec op \<le> lev er" using a by (auto split: if_splits)
  have "closes op (lev el)" "blocks (op # ops) (lev er)"
    using a op(1) by (auto simp: closes_def blocks_def split: if_splits)
  note c = this
  have el: "agrees (asem aflag look el env)
      (\<lambda>t1 env. arith_run aflag look ds (T_op op # atoks er @ ts) (stk ops (t1 # nums) TOK_NUM) env)
      (arith_run aflag look ds (atoks el @ T_op op # atoks er @ ts) (stk ops nums l) env)"
    using n nl c(1) blocks_mono [OF b, of "lev el"] le by (intro readsD [OF l]) auto
  show "agrees (asem aflag look (ABin op el er) env)
      (\<lambda>t env. arith_run aflag look ds ts (stk ops (t # nums) TOK_NUM) env)
      (arith_run aflag look ds (atoks (ABin op el er) @ ts) (stk ops nums l) env)"
    unfolding asem.simps atoks.simps append_assoc append.simps
  proof (rule agrees_bind [OF el])
    fix o1 env t1
    assume d1: "denotes t1 o1"
    have push: "arith_run aflag look ds (T_op op # atoks er @ ts) (stk ops (t1 # nums) TOK_NUM) env =
        arith_run aflag look ds (atoks er @ ts) (stk (op # ops) (t1 # nums) op) env"
      using n(2) b by (intro run_binary [OF op(1), of _ "cprec op"]) auto
    have er: "agrees (asem aflag look er env)
        (\<lambda>t2 env. arith_run aflag look ds ts (stk (op # ops) (t2 # t1 # nums) TOK_NUM) env)
        (arith_run aflag look ds (atoks er @ ts) (stk (op # ops) (t1 # nums) op) env)"
      using n f(2) c(2) ts closes_mono [OF t le(2)] anums_pos [of el] by (intro readsD [OF r]) auto
    show "agrees (bind_res (asem aflag look er env) (\<lambda>(o2, env). sem_bin aflag look op o1 o2 env))
        (\<lambda>t env. arith_run aflag look ds ts (stk ops (t # nums) TOK_NUM) env)
        (arith_run aflag look ds (T_op op # atoks er @ ts) (stk ops (t1 # nums) TOK_NUM) env)"
      unfolding push
    proof (rule agrees_bind [OF er])
      fix o2 env t2
      assume d2: "denotes t2 o2"
      show "agrees (sem_bin aflag look op o1 o2 env)
          (\<lambda>t env. arith_run aflag look ds ts (stk ops (t # nums) TOK_NUM) env)
          (arith_run aflag look ds ts (stk (op # ops) (t2 # t1 # nums) TOK_NUM) env)"
        unfolding ts run_pop_num [OF t order_refl f(4)]
        by (rule agrees_then [OF apply_bin [OF f(1) op(2,3) d1 d2]])
    qed
  qed
qed

lemma cond_op_facts:
  "bin_op TOK_CONDITIONAL" "bin_op TOK_CONDITIONAL_SEP" "cprec TOK_CONDITIONAL = 4" "cprec TOK_CONDITIONAL_SEP = 4"
  "is_right_associativity 4"
  by (simp_all add: bin_op_def cprec_def is_right_associativity_def prec_defs)

lemma run_pop_cond:
  assumes "closes t 4"
  shows "arith_run aflag look ds (T_op t # rest) (stk (TOK_CONDITIONAL_SEP # TOK_CONDITIONAL # ops) nums TOK_NUM) env =
    bind_res (bind_res (arith_apply aflag look TOK_CONDITIONAL_SEP nums env) (\<lambda>(nums, env).
      arith_apply aflag look TOK_CONDITIONAL nums env)) (\<lambda>(nums, env).
    arith_run aflag look ds (T_op t # rest) (stk ops nums TOK_NUM) env)"
proof -
  have "4 \<le> cprec TOK_CONDITIONAL" "4 \<le> cprec TOK_CONDITIONAL_SEP" by (simp_all add: cond_op_facts)
  then show ?thesis
    using run_pop_num [OF assms, of TOK_CONDITIONAL] run_pop_num [OF assms, of TOK_CONDITIONAL_SEP]
    by (simp only: bind_res_pair simp_thms operator.distinct)
qed

lemma reads_cond:
  assumes c: "reads aflag look ds ec" and x: "reads aflag look ds ex" and y: "reads aflag look ds ey"
    and lev: "4 < lev ec" "4 < lev ex" "4 \<le> lev ey"
  shows "reads aflag look ds (ACond ec ex ey)"
  unfolding reads_def
proof (intro allI impI)
  fix ops :: "operator list" and nums :: "v_n list" and l ts and env :: arith_env
  let ?Q = TOK_CONDITIONAL
  let ?C = TOK_CONDITIONAL_SEP
  let ?run = "arith_run aflag look ds"
  assume b: "blocks ops (lev (ACond ec ex ey))" and nl: "\<not> numish l"
    and n: "length nums + anums (ACond ec ex ey) \<le> ds div 2" "length ops + aops (ACond ec ex ey) \<le> ds"
    and "lev (ACond ec ex ey) = SPEC_PREC \<or> (\<exists>t rest. ts = T_op t # rest \<and> closes t (lev (ACond ec ex ey)))"
  then obtain t rest where ts: "ts = T_op t # rest" and t: "closes t 4" by (auto simp: prec_defs)
  note f = cond_op_facts bin_op_facts [OF cond_op_facts(1)] bin_op_facts [OF cond_op_facts(2)]
  have cl: "closes ?Q (lev ec)" "closes ?C (lev ex)" "blocks (?Q # ops) (lev ex)" "blocks (?Q # ops) 4"
    "blocks (?C # ?Q # ops) (lev ey)" using lev f by (auto simp: closes_def blocks_def)
  have ec: "agrees (asem aflag look ec env)
      (\<lambda>tc env. ?run (T_op ?Q # atoks ex @ T_op ?C # atoks ey @ ts) (stk ops (tc # nums) TOK_NUM) env)
      (?run (atoks ec @ T_op ?Q # atoks ex @ T_op ?C # atoks ey @ ts) (stk ops nums l) env)"
    using n nl cl(1) blocks_mono [OF b, of "lev ec"] lev by (intro readsD [OF c]) auto
  have ex: "agrees (asem aflag look ex env)
      (\<lambda>tx env. ?run (atoks ey @ ts) (stk (?C # ?Q # ops) (tx # tc # nums) ?C) env)
      (?run (T_op ?Q # atoks ex @ T_op ?C # atoks ey @ ts) (stk ops (tc # nums) TOK_NUM) env)" for tc env
  proof -
    have "?run (T_op ?Q # atoks ex @ T_op ?C # atoks ey @ ts) (stk ops (tc # nums) TOK_NUM) env =
        ?run (atoks ex @ T_op ?C # atoks ey @ ts) (stk (?Q # ops) (tc # nums) ?Q) env"
      using n(2) b f by (intro run_binary [of _ _ 4]) auto
    moreover have "?run (T_op ?C # atoks ey @ ts) (stk (?Q # ops) (tx # tc # nums) TOK_NUM) env =
        ?run (atoks ey @ ts) (stk (?C # ?Q # ops) (tx # tc # nums) ?C) env" for tx env
      using n(2) cl(4) f by (intro run_binary [of _ _ 4]) auto
    ultimately show ?thesis
      using readsD [OF x cl(3), of ?Q "T_op ?C # atoks ey @ ts" "tc # nums" env] n f cl(2) anums_pos [of ec] by simp
  qed
  have ey: "agrees (asem aflag look ey env)
      (\<lambda>ty env. ?run ts (stk (?C # ?Q # ops) (ty # tx # tc # nums) TOK_NUM) env)
      (?run (atoks ey @ ts) (stk (?C # ?Q # ops) (tx # tc # nums) ?C) env)" for tc tx env
    using n f cl(5) ts closes_mono [OF t lev(3)] anums_pos [of ec] anums_pos [of ex] by (intro readsD [OF y]) auto
  show "agrees (asem aflag look (ACond ec ex ey) env) (\<lambda>t env. ?run ts (stk ops (t # nums) TOK_NUM) env)
      (?run (atoks (ACond ec ex ey) @ ts) (stk ops nums l) env)"
    unfolding asem.simps atoks.simps append_assoc append.simps
    by (rule agrees_bind [OF ec], rule agrees_bind [OF ex], rule agrees_bind [OF ey],
      unfold ts run_pop_cond [OF t], rule agrees_then, rule apply_cond)
qed

lemma lev_pos: "awf e \<Longrightarrow> 0 < lev e"
  using bin_op_facts(6) by (cases e) (auto simp: prec_defs)

lemma reads_tree: "awf e \<Longrightarrow> reads aflag look ds e"
proof (induction e)
  case (ABin op l r)
  then show ?case by (intro reads_binary) auto
qed (auto intro: reads_atom reads_paren reads_prefix reads_postfix reads_cond lev_pos)

section \<open>The text of an expression\<close>

function lex :: "string \<Rightarrow> tok list option" where
  "lex s =
     (case s of
        [] \<Rightarrow> Some []
      | c # r \<Rightarrow>
          if arith_isspace c then lex r
          else case next_tok s of
                 None \<Rightarrow> None
               | Some (tk, rest) \<Rightarrow> map_option ((#) tk) (lex rest))"
  by pat_completeness auto
termination
  by (relation "measure length") (auto dest: next_tok_shorter)

declare lex.simps [simp del]

lemma lex_length: "lex s = Some ts \<Longrightarrow> length ts \<le> length s"
proof (induction s arbitrary: ts rule: lex.induct)
  case (1 s)
  show ?case
  proof (cases s)
    case (Cons c r)
    show ?thesis
    proof (cases "arith_isspace c")
      case True
      with Cons "1.prems" have "lex r = Some ts" by (simp add: lex.simps [of "c # r"])
      from "1.IH"(1) [OF Cons True this] Cons show ?thesis by simp
    next
      case False
      with Cons "1.prems" obtain tk rest ts' where tk: "next_tok s = Some (tk, rest)" "lex rest = Some ts'" "ts = tk # ts'"
        by (auto simp: lex.simps [of "c # r"] split: option.splits)
      from "1.IH"(2) [OF Cons False tk(1) refl tk(2)] next_tok_shorter [OF tk(1)] Cons tk(3) show ?thesis by simp
    qed
  qed (use "1.prems" in \<open>simp add: lex.simps [of "[]"]\<close>)
qed

lemma arith_loop_tok:
  "next_tok (c # r) = Some (tk, rest) \<Longrightarrow> \<not> arith_isspace c \<Longrightarrow>
    arith_loop aflag look ds seen (c # r) \<sigma> env =
      bind_res (arith_tok aflag look ds tk \<sigma> env) (\<lambda>(\<sigma>, env). arith_loop aflag look ds True rest \<sigma> env)"
  by (simp add: arith_loop.simps [of _ _ _ _ "c # r"])

lemma arith_loop_lex:
  assumes "lex s = Some ts" "seen \<or> ts \<noteq> []"
  shows "arith_loop aflag look ds seen s \<sigma> env =
    bind_res (arith_run aflag look ds ts \<sigma> env) (\<lambda>(\<sigma>, env). arith_finish aflag look ds \<sigma> env)"
  using assms
proof (induction s arbitrary: ts seen \<sigma> env rule: lex.induct)
  case (1 s)
  show ?case
  proof (cases s)
    case Nil
    with "1.prems" show ?thesis by (auto simp: lex.simps [of "[]"] arith_loop.simps [of _ _ _ _ "[]"])
  next
    case (Cons c r)
    show ?thesis
    proof (cases "arith_isspace c")
      case True
      with Cons "1.prems" have "lex r = Some ts" by (simp add: lex.simps [of "c # r"])
      from "1.IH"(1) [OF Cons True this "1.prems"(2)] True Cons show ?thesis
        by (simp add: arith_loop.simps [of _ _ _ _ "c # r"])
    next
      case False
      with Cons "1.prems" obtain tk rest ts' where tk: "next_tok s = Some (tk, rest)" "lex rest = Some ts'" "ts = tk # ts'"
        by (auto simp: lex.simps [of "c # r"] split: option.splits)
      have ih: "arith_loop aflag look ds True rest \<sigma> env =
          bind_res (arith_run aflag look ds ts' \<sigma> env) (\<lambda>(\<sigma>, env). arith_finish aflag look ds \<sigma> env)" for \<sigma> env
        using "1.IH"(2) [OF Cons False tk(1) refl tk(2)] by simp
      show ?thesis
        unfolding Cons arith_loop_tok [OF tk(1) [unfolded Cons] False] tk(3) arith_run.simps bind_res_pair ih ..
    qed
  qed
qed

lemma arith_text:
  assumes "lex s = Some (atoks e)" "awf e"
  shows "arith depth aflag chain s env =
    bind_res (asem aflag (arith_var depth aflag chain) e env)
      (\<lambda>(o', env). operand_val (arith_var depth aflag chain) o' env)"
proof -
  let ?look = "arith_var depth aflag chain"
  let ?ds = "length s + 2"
  have "atoks e \<noteq> []" using length_atoks [of e] anums_pos [of e] by auto
  then have run: "arith depth aflag chain s env =
      bind_res (arith_run aflag ?look ?ds (atoks e) (stk [TOK_LPAREN] [] TOK_LPAREN) env)
        (\<lambda>(\<sigma>, env). arith_finish aflag ?look ?ds \<sigma> env)"
    using arith_loop_lex [OF assms(1), of False aflag ?look ?ds] by (simp add: Let_def)
  have "anums e + aops e \<le> length s" using lex_length [OF assms(1)] by (simp add: length_atoks)
  then have "length [] + anums e \<le> ?ds div 2" "length [TOK_LPAREN] + aops e \<le> ?ds"
    using anums_aops [of e] by auto
  moreover have "blocks [TOK_LPAREN] (lev e)" using lev_pos [OF assms(2)] by (simp add: blocks_def cprec_def prec_defs)
  moreover have "closes TOK_RPAREN (lev e)" "\<not> numish TOK_LPAREN" by (simp_all add: closes_def numish_def)
  ultimately have "agrees (asem aflag ?look e env)
      (\<lambda>t env. arith_run aflag ?look ?ds [T_op TOK_RPAREN] (stk [TOK_LPAREN] [t] TOK_NUM) env)
      (arith_run aflag ?look ?ds (atoks e @ [T_op TOK_RPAREN]) (stk [TOK_LPAREN] [] TOK_LPAREN) env)"
    by (intro readsD [OF reads_tree [OF assms(2)]]) auto
  then have a: "agrees (asem aflag ?look e env) (\<lambda>t env. Inr (stk [] [t] TOK_NUM, env))
      (arith_run aflag ?look ?ds (atoks e @ [T_op TOK_RPAREN]) (stk [TOK_LPAREN] [] TOK_LPAREN) env)"
    unfolding run_rparen arith_run.simps(1) .
  have app: "arith_run aflag look ds (ts @ [t]) \<sigma> env =
      bind_res (arith_run aflag look ds ts \<sigma> env) (\<lambda>(\<sigma>, env). arith_tok aflag look ds t \<sigma> env)" for look ds ts t \<sigma> env
    by (induction ts arbitrary: \<sigma> env) (auto simp: bind_res_def split: sum.splits prod.splits)
  show ?thesis
    using a denotes_val unfolding run app arith_tok_def tok.case arith_finish_def
    by (auto simp: agrees_def bind_res_def split: sum.splits)
qed

text \<open>
  C13. The two stacks implement the precedences: for every text that consists of the tokens of a
  syntax tree, \<open>arith\<close> computes the value of the tree, with the assignments it makes, or fails with
  the error of the tree; the stacks do not overflow.
\<close>

theorem arith_computes_tree:
  assumes "lex s = Some (atoks e)" "awf e"
  shows "arith depth aflag chain s env =
    bind_res (asem aflag (arith_var depth aflag chain) e env)
      (\<lambda>(o', env). operand_val (arith_var depth aflag chain) o' env)"
  by (rule arith_text [OF assms])

section \<open>The sizes of the stacks\<close>

definition in_ops :: "'a arith_res \<Rightarrow> bool" where
  "in_ops r \<longleftrightarrow> (\<forall>env. r \<noteq> Inl (Op_overflow, env))"

lemma in_ops_bind:
  "in_ops m \<Longrightarrow> (\<And>x env. m = Inr (x, env) \<Longrightarrow> in_ops (f (x, env))) \<Longrightarrow> in_ops (bind_res m f)"
  by (cases m) (auto simp: in_ops_def)

lemma in_ops_simps [simp]: "in_ops (Inr r)" "in_ops (Inl (e, env)) \<longleftrightarrow> e \<noteq> Op_overflow"
  by (auto simp: in_ops_def)

lemma exp_loop_in_ops: "exp_loop c rez n \<noteq> Inl Op_overflow"
  by (induction c rez n rule: exp_loop.induct) auto

lemma arith_unop_in_ops: "in_ops (lift_res env (arith_unop op v))"
  by (auto simp: in_ops_def lift_res_def arith_unop_def long_res_def)

lemma arith_binop_in_ops: "in_ops (lift_res env (arith_binop op v w))"
proof -
  have "arith_binop op v w \<noteq> Inl Op_overflow"
    using exp_loop_in_ops unfolding arith_binop_def long_res_def by (auto simp: bind_res_def)
  then show ?thesis by (auto simp: in_ops_def lift_res_def split: sum.splits)
qed

lemma arith_store_in_ops: "in_ops (arith_store aflag op t v env)"
  by (auto simp: in_ops_def arith_store_def Let_def split: option.splits sum.splits)

lemma arith_lookup_in_ops: "\<forall>x env. in_ops (look x env) \<Longrightarrow> in_ops (arith_lookup_val look t env)"
  by (cases env) (auto simp: arith_lookup_val_def split: option.splits)

lemmas in_ops_rules = arith_unop_in_ops arith_binop_in_ops arith_store_in_ops arith_lookup_in_ops

lemma arith_apply_in_ops:
  assumes "\<forall>x env. in_ops (look x env)"
  shows "in_ops (arith_apply aflag look op nums env)"
  unfolding arith_apply_def Let_def using assms
  by (auto intro!: in_ops_bind in_ops_rules split: list.splits)

lemma arith_reduce_in_ops:
  assumes "\<forall>x env. in_ops (look x env)"
  shows "in_ops (arith_reduce aflag look op ops nums env) \<and>
    (\<forall>c ops' nums' env'. arith_reduce aflag look op ops nums env = Inr ((c, ops', nums'), env') \<longrightarrow> length ops' \<le> length ops)"
proof (induction ops arbitrary: nums env)
  case (Cons p ops)
  show ?case
    using Cons arith_apply_in_ops [OF assms, of aflag p nums env]
    by (auto simp: bind_res_def in_ops_def le_SucI split: sum.splits)
qed simp

lemma push_op_in_ops:
  "length (a_ops \<sigma>) < ds \<Longrightarrow> in_ops (push_op ds op \<sigma> env) \<and>
    (\<forall>\<sigma>' env'. push_op ds op \<sigma> env = Inr (\<sigma>', env') \<longrightarrow> length (a_ops \<sigma>') = Suc (length (a_ops \<sigma>)))"
  by (simp add: push_op_def)

lemma arith_op_in_ops:
  assumes "\<forall>x env. in_ops (look x env)" "length (a_ops \<sigma>) < ds"
  shows "in_ops (arith_token_op aflag look ds op \<sigma> env) \<and>
    (\<forall>\<sigma>' env'. arith_token_op aflag look ds op \<sigma> env = Inr (\<sigma>', env') \<longrightarrow> length (a_ops \<sigma>') \<le> Suc (length (a_ops \<sigma>)))"
proof -
  define last where "last = (if lasttok \<sigma> = TOK_POST_INC \<or> lasttok \<sigma> = TOK_POST_DEC then TOK_NUM else lasttok \<sigma>)"
  define op' where "op' = (if last \<noteq> TOK_NUM then unary_form op else op)"
  note r = arith_reduce_in_ops [OF assms(1), of aflag op' "a_ops \<sigma>" "a_nums \<sigma>" env]
  have p: "in_ops (push_op ds op' (\<sigma>\<lparr>a_ops := ops, a_nums := nums\<rparr>) env) \<and>
      (\<forall>\<sigma>' env'. push_op ds op' (\<sigma>\<lparr>a_ops := ops, a_nums := nums\<rparr>) env = Inr (\<sigma>', env') \<longrightarrow>
        length (a_ops \<sigma>') \<le> Suc (length (a_ops \<sigma>)))" if "length ops \<le> length (a_ops \<sigma>)" for ops nums env
    using push_op_in_ops [of "\<sigma>\<lparr>a_ops := ops, a_nums := nums\<rparr>" ds op' env] assms(2) that by auto
  show ?thesis
  proof (cases "arith_reduce aflag look op' (a_ops \<sigma>) (a_nums \<sigma>) env")
    case (Inl e)
    with r push_op_in_ops [OF assms(2)] show ?thesis
      unfolding arith_token_op_def last_def [symmetric] Let_def op'_def [symmetric] by (auto simp: in_ops_def)
  next
    case (Inr q)
    obtain c ops nums env' where q: "q = ((c, ops, nums), env')" by (metis surj_pair)
    have l: "length ops \<le> length (a_ops \<sigma>)" using r Inr q by blast
    from p [OF this] push_op_in_ops [OF assms(2)] l show ?thesis
      unfolding arith_token_op_def last_def [symmetric] Let_def op'_def [symmetric] Inr q by auto
  qed
qed

lemma arith_tok_in_ops:
  assumes "\<forall>x env. in_ops (look x env)" "length (a_ops \<sigma>) < ds"
  shows "in_ops (arith_tok aflag look ds tk \<sigma> env) \<and>
    (\<forall>\<sigma>' env'. arith_tok aflag look ds tk \<sigma> env = Inr (\<sigma>', env') \<longrightarrow> length (a_ops \<sigma>') \<le> Suc (length (a_ops \<sigma>)))"
  using arith_op_in_ops [OF assms] by (cases tk) (auto simp: arith_tok_def push_num_def in_ops_def)

lemma arith_finish_in_ops:
  assumes "\<forall>x env. in_ops (look x env)" "length (a_ops \<sigma>) < ds"
  shows "in_ops (arith_finish aflag look ds \<sigma> env)"
  unfolding arith_finish_def
  using arith_op_in_ops [OF assms, of aflag TOK_RPAREN env] arith_lookup_in_ops [OF assms(1)]
  by (auto intro!: in_ops_bind split: list.splits)

lemma arith_loop_in_ops:
  assumes "\<forall>x env. in_ops (look x env)" "length (a_ops \<sigma>) + length s < ds"
  shows "in_ops (arith_loop aflag look ds seen s \<sigma> env)"
  using assms(2)
proof (induction "length s" arbitrary: s seen \<sigma> env rule: less_induct)
  case less
  show ?case
  proof (cases s)
    case Nil
    with less.prems arith_finish_in_ops [OF assms(1), of \<sigma> ds aflag env] show ?thesis
      by (simp add: arith_loop.simps [of _ _ _ _ "[]"])
  next
    case (Cons c r)
    show ?thesis
    proof (cases "arith_isspace c \<or> next_tok s = None")
      case True
      with Cons less show ?thesis by (auto simp: arith_loop.simps [of _ _ _ _ "c # r"])
    next
      case False
      then obtain tk rest where tk: "next_tok (c # r) = Some (tk, rest)" "\<not> arith_isspace c" using Cons by auto
      have sh: "length rest < length s" using next_tok_shorter [OF tk(1)] Cons by simp
      have "length (a_ops \<sigma>) < ds" using less.prems by simp
      note t = arith_tok_in_ops [OF assms(1) this, of aflag tk env]
      have "in_ops (bind_res (arith_tok aflag look ds tk \<sigma> env) (\<lambda>(\<sigma>, env). arith_loop aflag look ds True rest \<sigma> env))"
      proof (rule in_ops_bind)
        fix \<sigma>' env'
        assume "arith_tok aflag look ds tk \<sigma> env = Inr (\<sigma>', env')"
        with t have "length (a_ops \<sigma>') \<le> Suc (length (a_ops \<sigma>))" by blast
        with less.hyps [OF sh, of \<sigma>' True env'] less.prems sh
        show "in_ops (case (\<sigma>', env') of (\<sigma>, env) \<Rightarrow> arith_loop aflag look ds True rest \<sigma> env)" by simp
      qed (use t in blast)
      then show ?thesis using arith_loop_tok [OF tk] Cons by simp
    qed
  qed
qed

text \<open>
  The operator stack of \<open>arith\<close> is large enough: whatever the text is, and whatever texts the
  variables have, no operator is pushed behind its end.
\<close>

lemma arith_ops_in_bounds:
  "arith depth aflag chain s env \<noteq> Inl (Op_overflow, env')"
proof -
  have "in_ops (arith depth aflag chain s env)" "in_ops (arith_var depth aflag chain x env)" for x
  proof (induction depth aflag chain s env and depth aflag chain x env rule: arith_arith_var.induct)
    case (1 depth aflag chain s env)
    show ?case unfolding arith.simps Let_def by (rule arith_loop_in_ops) (use 1 in auto)
  next
    case (2 depth aflag chain x env)
    then show ?case by (auto split: option.splits nat.splits simp del: arith.simps)
  qed
  then show ?thesis unfolding in_ops_def by blast
qed

text \<open>
  C34. The number stack is not: the text \<open>08a\<close> has three operands for the scanner (\<open>0\<close>, since an octal
  number ends in front of the digit 8, then \<open>8\<close> and \<open>a\<close>), and the array has room for two.
\<close>

theorem arith_nums_overflow:
  "arith depth aflag chain ''08a'' env = Inl (Num_overflow, env)"
proof -
  have t: "next_tok ''08a'' = Some (T_num 0, ''8a'')" "next_tok ''8a'' = Some (T_num 8, ''a'')"
    "next_tok ''a'' = Some (T_var ''a'', '''')" by code_simp+
  have s: "\<not> arith_isspace (CHR ''0'')" "\<not> arith_isspace (CHR ''8'')" "\<not> arith_isspace (CHR ''a'')" by code_simp+
  show ?thesis
    by (simp add: arith_loop_tok [OF t(1) s(1)] arith_loop_tok [OF t(2) s(2)] arith_loop_tok [OF t(3) s(3)]
        arith_tok_def push_num_def)
qed

section \<open>Numbers in variables\<close>

lemma strtol_dstr: "n < 2 ^ 31 \<Longrightarrow> strtol 0 (dstr n) = (int n, [])"
proof -
  assume n: "n < 2 ^ 31"
  note d = dstr_props [of n]
  obtain c r where s: "dstr n = c # r" using d by (cases "dstr n") auto
  have c: "isdigit c" using d s by simp
  have ws: "dropWhile isspace (dstr n) = dstr n" "strip_sign (dstr n) = (False, dstr n)"
    using c s by (auto simp: isdigit_def isspace_def strip_sign_def)
  show ?thesis
  proof (cases "n = 0")
    case True
    then show ?thesis by (simp add: dstr_simps strtol_def scan_num_def strip_sign_def strip_base_def isspace_def
          digits_val_def digit_val_def char_of_codes)
  next
    case False
    then have "c \<noteq> CHR ''0''" using d s by simp
    then have sb: "strip_base 0 (dstr n) = (10, dstr n)" using s by (simp add: strip_base_def)
    have tw: "takeWhile (\<lambda>c. digit_val c < 10) (dstr n) = dstr n" using d by (simp add: takeWhile_eq_all_conv)
    show ?thesis using n d by (simp add: strtol_def scan_num_def Let_def ws sb tw)
  qed
qed

lemma lex_dstr:
  assumes "n < 2 ^ 31"
  shows "lex (dstr n) = Some [T_num (int n)]"
proof -
  obtain c r where s: "dstr n = c # r" using dstr_props [of n] by (cases "dstr n") auto
  have c: "isdigit c" using dstr_props [of n] s by simp
  have "\<not> is_name c" using c by (auto simp: is_name_def is_alpha_def isdigit_def Let_def)
  then have "endofname (c # r) = 0" by (simp add: endofname_def)
  then have "next_tok (c # r) = Some (T_num (int n), [])"
    using c strtol_dstr [OF assms] s by (simp add: next_tok_def)
  moreover have "\<not> arith_isspace c" using c by (auto simp: arith_isspace_def isdigit_def)
  ultimately show ?thesis unfolding s by (simp add: lex.simps [of "c # r"] lex.simps [of "[]"])
qed

lemma fmt_ld_dstr: "fmt_ld w = (if w < 0 then CHR ''-'' # dstr (nat (- w)) else dstr (nat w))"
  by (simp add: fmt_ld_def dec_int_def dstr_def char_of_codes)

lemma next_tok_minus: "next_tok (CHR ''-'' # dstr n) = Some (T_op TOK_SUB, dstr n)"
proof -
  obtain c r where s: "dstr n = c # r" using dstr_props [of n] by (cases "dstr n") auto
  have "isdigit c" using dstr_props [of n] s by simp
  then have "c \<noteq> CHR ''-''" "c \<noteq> CHR ''=''" by (auto simp: isdigit_def)
  then show ?thesis unfolding s
    by (simp add: next_tok_def endofname_def is_name_def is_alpha_def isdigit_def op_tokens_def)
qed

lemma arith_number:
  assumes "- (2 ^ 31) < w" "w < 2 ^ 31"
  shows "arith depth aflag chain (fmt_ld w) env = Inr (w, env)"
proof (cases "w < 0")
  case True
  let ?e = "AUn TOK_UMINUS (ANum (- w))"
  have "next_tok (CHR ''-'' # dstr (nat (- w))) = Some (T_op TOK_SUB, dstr (nat (- w)))" by (rule next_tok_minus)
  moreover have "\<not> arith_isspace (CHR ''-'')" by (simp add: arith_isspace_def)
  moreover have "lex (dstr (nat (- w))) = Some [T_num (- w)]" using lex_dstr [of "nat (- w)"] assms True by simp
  ultimately have l: "lex (fmt_ld w) = Some (atoks ?e)"
    using True by (simp add: fmt_ld_dstr lex.simps [of "CHR ''-'' # _"] un_token_def)
  have "awf ?e" by (simp add: prefix_op_def prec_defs)
  from arith_text [OF l this, of depth aflag chain env] assms show ?thesis
    by (simp add: sem_un_def operand_val_def arith_unop_def long_res_def long_ok_def
      lift_res_def assign_operand_def tok_have_assign_def prec_defs del: arith.simps)
next
  case False
  have "lex (fmt_ld w) = Some (atoks (ANum w))" using lex_dstr [of "nat w"] assms False by (simp add: fmt_ld_dstr)
  from arith_text [OF this, of depth aflag chain env] show ?thesis by (simp add: operand_val_def del: arith.simps)
qed

text \<open>
  A number that an assignment stores in a variable is read back: after \<open>setvar\<close> with the decimal
  text of any number but the smallest, the lookup of the variable in an expression gives the number.
\<close>

lemma stored_number_read_back:
  assumes "vars_ok (fst env)" "plain x" "x \<notin> set chain" "- (2 ^ 31) < w" "w < 2 ^ 31"
  shows "\<exists>tab calls. setvar aflag (fst env) x (Some (fmt_ld w)) {} = Inr (tab, calls) \<and> vars_ok tab \<and>
    (\<forall>cs. arith_var (Suc depth) aflag chain x (tab, cs) = Inr (w, tab, cs))"
proof -
  have "CHR 0x00 \<notin> set (dstr n)" for n using dstr_props [of n] by (auto simp: isdigit_def)
  then have z: "CHR 0x00 \<notin> set (fmt_ld w)" by (simp add: fmt_ld_dstr)
  note t = plain_texts [OF assms(2) z]
  have "setvar aflag (fst env) x (Some (fmt_ld w)) {} = setvareq aflag (fst env) (x @ CHR ''='' # fmt_ld w) {VNOSAVE}"
    using setvar_ident [OF t(1)] plain_vname [OF assms(2)] by simp
  moreover have "{VNOSAVE} \<inter> {VNOSET, VREADONLY} = {}" by simp
  ultimately obtain tab calls v where
    r: "setvar aflag (fst env) x (Some (fmt_ld w)) {} = Inr (tab, calls)"
    and u: "updated (fst env) (x @ CHR ''='' # fmt_ld w) (Some v) tab"
    and v: "v_text v = x @ CHR ''='' # fmt_ld w" "VUNSET \<notin> v_flags v"
    using setvareq_updates [OF assms(1) t(2), of "{VNOSAVE}" aflag] by auto
  have "lookupvar tab x = Some (fmt_ld w)"
    using updated_lookup [OF u, of x] plain_vname [OF assms(2)] t(3,7) v by (simp add: var_value_def)
  then have "arith_var (Suc depth) aflag chain x (tab, cs) = Inr (w, tab, cs)" for cs
    using assms(3) arith_number [OF assms(4,5), of depth aflag "x # chain"] by (simp del: arith.simps)
  with r u show ?thesis by (auto simp: updated_def)
qed

section \<open>Witnesses and examples\<close>

theorem arith_computes_tree_witness:
  "lex ''1+2*-3'' = Some (atoks (ABin TOK_ADD (ANum 1) (ABin TOK_MUL (ANum 2) (AUn TOK_UMINUS (ANum 3))))) \<and>
   arith 0 False [] ''1+2*-3'' (initvar True, []) = Inr (- 5, initvar True, [])"
proof -
  let ?e = "ABin TOK_ADD (ANum 1) (ABin TOK_MUL (ANum 2) (AUn TOK_UMINUS (ANum 3)))"
  have l: "lex ''1+2*-3'' = Some (atoks ?e)" by code_simp
  have "awf ?e" by (simp add: bin_op_def prefix_op_def cprec_def is_right_associativity_def prec_defs)
  from arith_computes_tree [OF l this, of 0 False "[]" "(initvar True, [])"] l show ?thesis
    by (simp add: sem_bin_def sem_un_def operand_val_def arith_unop_def arith_binop_def long_res_def long_ok_def
        lift_res_def assign_operand_def tok_have_assign_def prec_defs del: arith.simps)
qed

lemma stored_number_read_back_example:
  "\<exists>tab calls. setvar False (initvar True) ''a'' (Some (fmt_ld (- 5))) {} = Inr (tab, calls) \<and>
    arith_var 1 False [] ''a'' (tab, []) = Inr (- 5, tab, [])"
proof -
  have "vars_ok (fst (initvar True, []))" using initvar_spec by simp
  moreover have "plain ''a''" by code_simp
  ultimately show ?thesis
    using stored_number_read_back [of "(initvar True, [])" "''a''" "[]" "- 5" False 0] by fastforce
qed

lemma arith_run_text:
  assumes "lex s = Some ts" "ts \<noteq> []"
  shows "arith depth aflag chain s env =
    bind_res (arith_run aflag (arith_var depth aflag chain) (length s + 2) ts (stk [TOK_LPAREN] [] TOK_LPAREN) env)
      (\<lambda>(\<sigma>, env). arith_finish aflag (arith_var depth aflag chain) (length s + 2) \<sigma> env)"
  using arith_loop_lex [OF assms(1), of False] assms(2) by (simp add: Let_def)

lemmas arith_eval_defs = arith_tok_def push_num_def push_op_def arith_token_op_def arith_finish_def arith_apply_def
  arith_lookup_val_def arith_store_def tok_have_assign_def is_unary_def keeps_below_def unary_form_def
  is_right_associativity_def prec_defs Let_def

text \<open>A conditional expression between \<open>?\<close> and \<open>:\<close> is rejected, although C accepts it.\<close>

lemma nested_conditional_rejected:
  "arith depth aflag chain ''1?1?2:3:4'' env = Inl (Code (- 1), env)"
proof -
  have "lex ''1?1?2:3:4'' = Some [T_num 1, T_op TOK_CONDITIONAL, T_num 1, T_op TOK_CONDITIONAL, T_num 2,
      T_op TOK_CONDITIONAL_SEP, T_num 3, T_op TOK_CONDITIONAL_SEP, T_num 4]" by code_simp
  from arith_run_text [OF this] show ?thesis by (simp add: arith_eval_defs del: arith.simps)
qed

text \<open>An open parenthesis need not be closed.\<close>

lemma open_parenthesis_accepted:
  "arith depth aflag chain ''(1'' env = Inr (1, env)"
proof -
  have "lex ''(1'' = Some [T_op TOK_LPAREN, T_num 1]" by code_simp
  from arith_run_text [OF this] show ?thesis by (simp add: arith_eval_defs del: arith.simps)
qed

text \<open>A variable whose value is its own name is detected.\<close>

lemma self_reference_detected:
  assumes "lookupvar (fst env) ''x'' = Some ''x''"
  shows "dash_arith (Suc depth) aflag ''x'' env = Inl (Recursion_loop, env)"
proof -
  have l: "lex ''x'' = Some (atoks (AVar ''x''))" by code_simp
  have "arith (Suc depth) aflag [] ''x'' env = Inl (Code (- 5), env)"
    using arith_text [OF l, of "Suc depth" aflag "[]" env] arith_text [OF l, of depth aflag "[''x'']" env] assms
    by (simp add: operand_val_def del: arith.simps)
  then show ?thesis by (simp add: dash_arith_def del: arith.simps)
qed

text \<open>The smallest number is not read back from its decimal text.\<close>

lemma smallest_number_changed:
  "arith depth aflag chain ''-2147483648'' env = Inr (- 2147483647, env)"
proof -
  have "next_tok ''-2147483648'' = Some (T_op TOK_SUB, ''2147483648'')" by code_simp
  moreover have "next_tok ''2147483648'' = Some (T_num 2147483647, '''')"
    by (simp add: next_tok_def endofname_def is_name_def is_alpha_def isdigit_def strtol_def scan_num_def strip_sign_def
        strip_base_def isspace_def digits_val_def digit_val_def to_lower_def)
  ultimately have l: "lex ''-2147483648'' = Some (atoks (AUn TOK_UMINUS (ANum 2147483647)))"
    by (simp add: lex.simps arith_isspace_def un_token_def)
  have "awf (AUn TOK_UMINUS (ANum 2147483647))" by (simp add: prefix_op_def prec_defs)
  from arith_text [OF l this, of depth aflag chain env] show ?thesis
    by (simp add: sem_un_def operand_val_def arith_unop_def long_res_def long_ok_def
      lift_res_def assign_operand_def tok_have_assign_def prec_defs del: arith.simps)
qed

end
