(* ===== verification/Block_Hash.thy ===== *)
theory Block_Hash
  imports Prelude
begin

text \<open>
  What the digests of \<open>libbb/md5.c\<close> and \<open>libbb/sha1.c\<close> have in common: a message is cut into
  blocks of 64 bytes, each block is compressed into a chaining value, and the last block is
  completed by a padding that ends in the length of the message. The locale \<open>stream_hash\<close> is the
  contract of the three functions \<open>begin\<close>, \<open>hash\<close> and \<open>end\<close> of such a digest, as the applets use
  them, and its lemmas say what any sequence of calls computes.
\<close>

type_synonym u64 = "64 word"

section \<open>The construction on whole messages\<close>

text \<open>The whole blocks of a message are compressed; the rest is what is left over.\<close>

function absorb :: "('h \<Rightarrow> bytes \<Rightarrow> 'h) \<Rightarrow> 'h \<Rightarrow> bytes \<Rightarrow> 'h \<times> bytes" where
  "absorb f h m = (if length m < 64 then (h, m) else absorb f (f h (take 64 m)) (drop 64 m))"
  by pat_completeness auto
termination
  by (relation "measure (\<lambda>(_, _, m). length m)") auto

declare absorb.simps [simp del]

text \<open>The zeros of the padding behind \<open>n\<close> bytes, and the padding for a length in bits.\<close>

definition pad_zeros :: "nat \<Rightarrow> nat" where
  "pad_zeros n = (119 - n mod 64) mod 64"

definition md_padding :: "(u64 \<Rightarrow> bytes) \<Rightarrow> nat \<Rightarrow> bytes" where
  "md_padding enc n = [0x80] @ replicate (pad_zeros n) 0 @ enc (of_nat (8 * n))"

definition md_hash :: "('h \<Rightarrow> bytes \<Rightarrow> 'h) \<Rightarrow> 'h \<Rightarrow> (u64 \<Rightarrow> bytes) \<Rightarrow> bytes \<Rightarrow> 'h" where
  "md_hash f h0 enc m = fst (absorb f h0 (m @ md_padding enc (length m)))"

lemma absorb_short [simp]: "length m < 64 \<Longrightarrow> absorb f h m = (h, m)"
  by (simp add: absorb.simps)

lemma absorb_block [simp]:
  "length b = 64 \<Longrightarrow> absorb f h (b @ m) = absorb f (f h b) m"
  by (simp add: absorb.simps [of f h "b @ m"])

lemma absorb_last_block [simp]: "length b = 64 \<Longrightarrow> absorb f h b = (f h b, [])"
  using absorb_block [of b f h "[]"] by simp

lemma absorb_length: "length (snd (absorb f h m)) = length m mod 64"
  by (induction f h m rule: absorb.induct) (simp add: absorb.simps le_mod_geq)

lemma absorb_append:
  "absorb f h (m @ d) = (let (h', r) = absorb f h m in absorb f h' (r @ d))"
proof (induction f h m rule: absorb.induct)
  case (1 f h m)
  show ?case
  proof (cases "length m < 64")
    case True
    then show ?thesis by simp
  next
    case False
    then have "absorb f h (m @ d) = absorb f (f h (take 64 m)) (drop 64 m @ d)"
      by (simp add: absorb.simps [of f h "m @ d"])
    with False 1 show ?thesis by (simp add: absorb.simps [of f h m])
  qed
qed

lemma absorb_full_length: "length m mod 64 = 0 \<Longrightarrow> snd (absorb f h m) = []"
  using absorb_length [of f h m] by simp

lemma pad_zeros_cases:
  "pad_zeros n = (if n mod 64 \<le> 55 then 55 - n mod 64 else 119 - n mod 64)"
proof -
  have "(119 - r) mod 64 = (if r \<le> 55 then 55 - r else 119 - r)" if "r < 64" for r :: nat
  proof (cases "r \<le> 55")
    case True
    then have "119 - r = (55 - r) + 64" by simp
    then have "(119 - r) mod 64 = (55 - r) mod 64" by (simp only: mod_add_self2)
    with True show ?thesis by simp
  next
    case False
    with that show ?thesis by simp
  qed
  then show ?thesis by (simp add: pad_zeros_def)
qed

lemma pad_zeros_mod [simp]: "pad_zeros (n mod 64) = pad_zeros n"
  by (simp add: pad_zeros_def)

text \<open>The padding completes the message to whole blocks.\<close>

lemma md_padding_length:
  assumes "\<And>w. length (enc w) = 8"
  shows "(n + length (md_padding enc n)) mod 64 = 0"
proof -
  have "\<exists>k. n mod 64 + (9 + pad_zeros n) = 64 * k"
    by (intro exI [of _ "if n mod 64 \<le> 55 then 1 else 2"]) (simp add: pad_zeros_cases)
  then have "(n + (9 + pad_zeros n)) mod 64 = 0"
    by (metis mod_add_left_eq mod_mult_self1_is_0)
  with assms show ?thesis by (simp add: md_padding_def)
qed

section \<open>The contract of a digest\<close>

text \<open>
  A context \<open>c\<close> holds a chaining value, the bytes of an unfinished block and the number of bytes so
  far, modulo \<open>2^64\<close>. A context that \<open>begin\<close> has set up is empty, \<open>hash\<close> takes a chunk of less than \<open>2^32\<close>
  bytes, and \<open>end\<close> pads and compresses the rest.
\<close>

locale stream_hash =
  fixes compress :: "'h \<Rightarrow> bytes \<Rightarrow> 'h"
    and h0 :: 'h
    and enc :: "u64 \<Rightarrow> bytes"
    and digest :: "'h \<Rightarrow> bytes"
    and ok :: "'c \<Rightarrow> bool"
    and chain :: "'c \<Rightarrow> 'h"
    and pending :: "'c \<Rightarrow> bytes"
    and total :: "'c \<Rightarrow> u64"
    and fresh :: "'c \<Rightarrow> bool"
    and update :: "bytes \<Rightarrow> 'c \<Rightarrow> 'c option"
    and final :: "'c \<Rightarrow> bytes option"
  assumes fresh: "fresh c \<Longrightarrow> ok c \<and> chain c = h0 \<and> pending c = [] \<and> total c = 0"
    and pending_short: "ok c \<Longrightarrow> length (pending c) < 64"
    and update: "ok c \<Longrightarrow> length d < 2 ^ 32 \<Longrightarrow> \<exists>c'. update d c = Some c' \<and> ok c' \<and>
      absorb compress (chain c) (pending c @ d) = (chain c', pending c') \<and>
      total c' = total c + of_nat (length d)"
    and final: "ok c \<Longrightarrow> final c = Some (digest (fst (absorb compress (chain c)
      (pending c @ [0x80] @ replicate (pad_zeros (length (pending c))) 0 @ enc (8 * total c)))))"
begin

text \<open>The state of a context that has taken the message \<open>m\<close>.\<close>

definition taken :: "'c \<Rightarrow> bytes \<Rightarrow> bool" where
  "taken c m \<longleftrightarrow> ok c \<and> absorb compress h0 m = (chain c, pending c) \<and> total c = of_nat (length m)"

lemma taken_fresh: "fresh c \<Longrightarrow> taken c []"
  by (simp add: taken_def fresh)

lemma taken_update:
  assumes "taken c m" "length d < 2 ^ 32"
  shows "\<exists>c'. update d c = Some c' \<and> taken c' (m @ d)"
proof -
  from assms update [of c d] obtain c' where c': "update d c = Some c'" "ok c'"
    "absorb compress (chain c) (pending c @ d) = (chain c', pending c')"
    "total c' = total c + of_nat (length d)"
    unfolding taken_def by blast
  with assms(1) have "taken c' (m @ d)"
    by (simp add: taken_def absorb_append [of compress h0 m d])
  with c' show ?thesis by blast
qed

lemma taken_updates:
  assumes "taken c m" "\<forall>d \<in> set ds. length d < 2 ^ 32"
  shows "\<exists>c'. foldM (\<lambda>c d. update d c) c ds = Some c' \<and> taken c' (m @ concat ds)"
  using assms
proof (induction ds arbitrary: c m)
  case Nil
  then show ?case by simp
next
  case (Cons d ds)
  then have d: "length d < 2 ^ 32" and ds: "\<forall>d \<in> set ds. length d < 2 ^ 32" by simp_all
  obtain c1 where c1: "update d c = Some c1" "taken c1 (m @ d)"
    using taken_update [OF Cons.prems(1) d] by blast
  show ?case using Cons.IH [OF c1(2) ds] c1(1) by simp
qed

lemma taken_final:
  assumes "taken c m"
  shows "final c = Some (digest (md_hash compress h0 enc m))"
proof -
  have len: "length (pending c) = length m mod 64"
    using assms absorb_length [of compress h0 m] by (simp add: taken_def)
  have "md_hash compress h0 enc m
      = fst (absorb compress (chain c) (pending c @ md_padding enc (length m)))"
    using assms by (simp add: md_hash_def taken_def absorb_append [of compress h0 m "md_padding enc (length m)"])
  also have "md_padding enc (length m)
      = [0x80] @ replicate (pad_zeros (length (pending c))) 0 @ enc (8 * total c)"
    using assms len by (simp add: md_padding_def taken_def)
  finally show ?thesis using assms final [of c] by (simp add: taken_def)
qed

lemma stream_defined:
  assumes "fresh c" "\<forall>d \<in> set ds. length d < 2 ^ 32"
  shows "\<exists>c'. foldM (\<lambda>c d. update d c) c ds = Some c'"
  using taken_updates [OF taken_fresh [OF assms(1)] assms(2)] by blast

text \<open>Any way to cut a message into chunks gives the digest of the message.\<close>

lemma stream_correct:
  assumes "fresh c" "\<forall>d \<in> set ds. length d < 2 ^ 32"
  shows "foldM (\<lambda>c d. update d c) c ds \<bind> final = Some (digest (md_hash compress h0 enc (concat ds)))"
  using taken_updates [OF taken_fresh [OF assms(1)] assms(2)] taken_final by auto

end

end
