(* ===== verification/Md5.thy ===== *)
theory Md5
  imports Block_Hash C_Lib
begin

text \<open>
  The MD5 digest of \<open>libbb/md5.c\<close>. The option \<open>CONFIG_MD5_SIZE_VS_SPEED\<close> of the build chooses one
  of four bodies of \<open>md5_hash_block\<close>; all four are modelled, and \<open>md5_hash_block\<close> takes the option as
  its argument. The registers \<open>A\<close>, \<open>B\<close>, \<open>C\<close>, \<open>D\<close> are a tuple. The host is little-endian, so
  \<open>SWAP_LE32\<close> is the identity. The reference is the description of the algorithm in RFC 1321.
\<close>

section \<open>The context\<close>

type_synonym md5_regs = "u32 \<times> u32 \<times> u32 \<times> u32"

record md5_ctx =
  md5_regs :: md5_regs
  md5_total :: u64
  md5_buflen :: nat
  md5_buffer :: bytes

definition MD5_SIZE_VS_SPEED :: "int \<Rightarrow> int" where
  "MD5_SIZE_VS_SPEED config = (if config < 0 \<or> config > 3 then 2 else config)"

text \<open>The buffer is not initialised: \<open>junk\<close> is what it holds.\<close>

definition md5_begin :: "bytes \<Rightarrow> md5_ctx" where
  "md5_begin junk = \<lparr>md5_regs = (0x67452301, 0xefcdab89, 0x98badcfe, 0x10325476),
     md5_total = 0, md5_buflen = 0, md5_buffer = junk\<rparr>"

section \<open>The functions and tables\<close>

definition FF :: "u32 \<Rightarrow> u32 \<Rightarrow> u32 \<Rightarrow> u32" where
  "FF b c d = d XOR (b AND (c XOR d))"

definition FG :: "u32 \<Rightarrow> u32 \<Rightarrow> u32 \<Rightarrow> u32" where
  "FG b c d = FF d b c"

definition FH :: "u32 \<Rightarrow> u32 \<Rightarrow> u32 \<Rightarrow> u32" where
  "FH b c d = b XOR c XOR d"

definition FI :: "u32 \<Rightarrow> u32 \<Rightarrow> u32 \<Rightarrow> u32" where
  "FI b c d = c XOR (b OR NOT d)"

definition CYCLIC :: "u32 \<Rightarrow> nat \<Rightarrow> u32" where
  "CYCLIC w s = push_bit s w OR drop_bit (32 - s) w"

definition C_array :: "u32 list" where
  "C_array = [
      0xd76aa478, 0xe8c7b756, 0x242070db, 0xc1bdceee, 0xf57c0faf, 0x4787c62a, 0xa8304613, 0xfd469501,
      0x698098d8, 0x8b44f7af, 0xffff5bb1, 0x895cd7be, 0x6b901122, 0xfd987193, 0xa679438e, 0x49b40821,
      0xf61e2562, 0xc040b340, 0x265e5a51, 0xe9b6c7aa, 0xd62f105d, 0x2441453, 0xd8a1e681, 0xe7d3fbc8,
      0x21e1cde6, 0xc33707d6, 0xf4d50d87, 0x455a14ed, 0xa9e3e905, 0xfcefa3f8, 0x676f02d9, 0x8d2a4c8a,
      0xfffa3942, 0x8771f681, 0x6d9d6122, 0xfde5380c, 0xa4beea44, 0x4bdecfa9, 0xf6bb4b60, 0xbebfbc70,
      0x289b7ec6, 0xeaa127fa, 0xd4ef3085, 0x4881d05, 0xd9d4d039, 0xe6db99e5, 0x1fa27cf8, 0xc4ac5665,
      0xf4292244, 0x432aff97, 0xab9423a7, 0xfc93a039, 0x655b59c3, 0x8f0ccc92, 0xffeff47d, 0x85845dd1,
      0x6fa87e4f, 0xfe2ce6e0, 0xa3014314, 0x4e0811a1, 0xf7537e82, 0xbd3af235, 0x2ad7d2bb, 0xeb86d391]"

text \<open>The first row is there only for the options 2 and 3.\<close>

definition P_row1 :: "nat list" where
  "P_row1 = [0, 1, 2, 3, 4, 5, 6, 7, 8, 9, 10, 11, 12, 13, 14, 15]"

definition P_rows :: "nat list" where
  "P_rows = [
      1, 6, 11, 0, 5, 10, 15, 4, 9, 14, 3, 8, 13, 2, 7, 12,
      5, 8, 11, 14, 1, 4, 7, 10, 13, 0, 3, 6, 9, 12, 15, 2,
      0, 7, 14, 5, 12, 3, 10, 1, 8, 15, 6, 13, 4, 11, 2, 9]"

definition S_array :: "nat list" where
  "S_array = [7, 12, 17, 22, 5, 9, 14, 20, 4, 11, 16, 23, 6, 10, 15, 21]"

section \<open>The body for option 3: one loop\<close>

definition md5_switch :: "nat \<Rightarrow> u32 \<Rightarrow> u32 \<Rightarrow> u32 \<Rightarrow> u32" where
  "md5_switch r b c d =
     (if r = 0 then FF b c d else if r = 1 then FG b c d else if r = 2 then FH b c d else FI b c d)"

definition md5_step3 :: "u32 list \<Rightarrow> md5_regs \<Rightarrow> nat \<Rightarrow> md5_regs option" where
  "md5_step3 cwp = (\<lambda>(A, B, C, D) i. do {
     let temp = A + md5_switch (i div 16) B C D;
     pp \<leftarrow> rd (P_row1 @ P_rows) i;
     x \<leftarrow> rd cwp pp;
     pc \<leftarrow> rd C_array i;
     let temp = temp + (x + pc);
     s \<leftarrow> rd S_array (4 * (i div 16) + i mod 4);
     let temp = CYCLIC temp s;
     let temp = temp + B;
     Some (D, temp, B, C) })"

definition md5_body3 :: "u32 list \<Rightarrow> md5_regs \<Rightarrow> md5_regs option" where
  "md5_body3 cwp r = foldM (md5_step3 cwp) r [0..<64]"

section \<open>The body for option 2: a loop per round\<close>

text \<open>The loop of round \<open>r\<close>; \<open>pp\<close> and \<open>pc\<close> have advanced by 16 per round and \<open>ps\<close> by 4.\<close>

definition md5_step2 :: "(u32 \<Rightarrow> u32 \<Rightarrow> u32 \<Rightarrow> u32) \<Rightarrow> nat \<Rightarrow> u32 list \<Rightarrow> md5_regs \<Rightarrow> nat \<Rightarrow> md5_regs option" where
  "md5_step2 f r cwp = (\<lambda>(A, B, C, D) i. do {
     pp \<leftarrow> rd (P_row1 @ P_rows) (16 * r + i);
     x \<leftarrow> rd cwp pp;
     pc \<leftarrow> rd C_array (16 * r + i);
     let temp = A + f B C D + x + pc;
     s \<leftarrow> rd S_array (4 * r + i mod 4);
     let temp = CYCLIC temp s;
     let temp = temp + B;
     Some (D, temp, B, C) })"

definition md5_body2 :: "u32 list \<Rightarrow> md5_regs \<Rightarrow> md5_regs option" where
  "md5_body2 cwp r = do {
     r \<leftarrow> foldM (md5_step2 FF 0 cwp) r [0..<16];
     r \<leftarrow> foldM (md5_step2 FG 1 cwp) r [0..<16];
     r \<leftarrow> foldM (md5_step2 FH 2 cwp) r [0..<16];
     foldM (md5_step2 FI 3 cwp) r [0..<16] }"

section \<open>The macro \<open>OP\<close>\<close>

text \<open>
  The registers stay in place; the macro is called with their names in four orders. The value is
  that of its first argument.
\<close>

datatype md5_order = ABCD | DABC | CDAB | BCDA

definition OP_value :: "(u32 \<Rightarrow> u32 \<Rightarrow> u32 \<Rightarrow> u32) \<Rightarrow> u32 \<Rightarrow> u32 \<Rightarrow> u32 \<Rightarrow> u32 \<Rightarrow> u32 \<Rightarrow> nat \<Rightarrow> u32 \<Rightarrow> u32" where
  "OP_value f a b c d x s t = CYCLIC (a + (f b c d + x + t)) s + b"

fun OP_assign :: "(u32 \<Rightarrow> u32 \<Rightarrow> u32 \<Rightarrow> u32) \<Rightarrow> md5_order \<Rightarrow> u32 \<Rightarrow> nat \<Rightarrow> u32 \<Rightarrow> md5_regs \<Rightarrow> md5_regs" where
  "OP_assign f ABCD x s t (A, B, C, D) = (OP_value f A B C D x s t, B, C, D)"
| "OP_assign f DABC x s t (A, B, C, D) = (A, B, C, OP_value f D A B C x s t)"
| "OP_assign f CDAB x s t (A, B, C, D) = (A, B, OP_value f C D A B x s t, D)"
| "OP_assign f BCDA x s t (A, B, C, D) = (A, OP_value f B C D A x s t, C, D)"

text \<open>
  In the first round a call copies the next word of the block to \<open>correct_words\<close>; the list is the
  part of the array that is written. The later rounds read the array.
\<close>

definition OP1 :: "u32 list \<Rightarrow> md5_regs \<times> u32 list \<Rightarrow> md5_order \<times> nat \<times> u32 \<Rightarrow> (md5_regs \<times> u32 list) option" where
  "OP1 words = (\<lambda>(r, cw) (order, s, t). do {
     w \<leftarrow> rd words (length cw);
     Some (OP_assign FF order w s t r, cw @ [w]) })"

definition OP2 :: "(u32 \<Rightarrow> u32 \<Rightarrow> u32 \<Rightarrow> u32) \<Rightarrow> u32 list \<Rightarrow> md5_regs \<Rightarrow> md5_order \<times> nat \<times> nat \<times> u32 \<Rightarrow> md5_regs option" where
  "OP2 f cw = (\<lambda>r (order, k, s, t). do { x \<leftarrow> rd cw k; Some (OP_assign f order x s t r) })"

section \<open>The body for option 1: four calls per turn\<close>

definition md5_turn1 :: "u32 list \<Rightarrow> md5_regs \<times> u32 list \<Rightarrow> nat \<Rightarrow> (md5_regs \<times> u32 list) option" where
  "md5_turn1 words st i = do {
     t0 \<leftarrow> rd C_array (4 * i); t1 \<leftarrow> rd C_array (4 * i + 1);
     t2 \<leftarrow> rd C_array (4 * i + 2); t3 \<leftarrow> rd C_array (4 * i + 3);
     foldM (OP1 words) st [(ABCD, 7, t0), (DABC, 12, t1), (CDAB, 17, t2), (BCDA, 22, t3)] }"

definition md5_turn2 :: "(u32 \<Rightarrow> u32 \<Rightarrow> u32 \<Rightarrow> u32) \<Rightarrow> nat \<Rightarrow> nat \<Rightarrow> nat \<Rightarrow> nat \<Rightarrow> nat \<Rightarrow> u32 list \<Rightarrow> md5_regs \<Rightarrow> nat \<Rightarrow> md5_regs option" where
  "md5_turn2 f r s0 s1 s2 s3 cw st i = do {
     k0 \<leftarrow> rd P_rows (16 * (r - 1) + 4 * i); k1 \<leftarrow> rd P_rows (16 * (r - 1) + 4 * i + 1);
     k2 \<leftarrow> rd P_rows (16 * (r - 1) + 4 * i + 2); k3 \<leftarrow> rd P_rows (16 * (r - 1) + 4 * i + 3);
     t0 \<leftarrow> rd C_array (16 * r + 4 * i); t1 \<leftarrow> rd C_array (16 * r + 4 * i + 1);
     t2 \<leftarrow> rd C_array (16 * r + 4 * i + 2); t3 \<leftarrow> rd C_array (16 * r + 4 * i + 3);
     foldM (OP2 f cw) st
       [(ABCD, k0, s0, t0), (DABC, k1, s1, t1), (CDAB, k2, s2, t2), (BCDA, k3, s3, t3)] }"

definition md5_body1 :: "u32 list \<Rightarrow> md5_regs \<Rightarrow> md5_regs option" where
  "md5_body1 words r = do {
     (r, cw) \<leftarrow> foldM (md5_turn1 words) (r, []) [0..<4];
     r \<leftarrow> foldM (md5_turn2 FG 1 5 9 14 20 cw) r [0..<4];
     r \<leftarrow> foldM (md5_turn2 FH 2 4 11 16 23 cw) r [0..<4];
     foldM (md5_turn2 FI 3 6 10 15 21 cw) r [0..<4] }"

section \<open>The body for option 0: the calls written out\<close>

definition md5_calls1 :: "(md5_order \<times> nat \<times> u32) list" where
  "md5_calls1 = [
      (ABCD, 7, 0xd76aa478), (DABC, 12, 0xe8c7b756), (CDAB, 17, 0x242070db), (BCDA, 22, 0xc1bdceee),
      (ABCD, 7, 0xf57c0faf), (DABC, 12, 0x4787c62a), (CDAB, 17, 0xa8304613), (BCDA, 22, 0xfd469501),
      (ABCD, 7, 0x698098d8), (DABC, 12, 0x8b44f7af), (CDAB, 17, 0xffff5bb1), (BCDA, 22, 0x895cd7be),
      (ABCD, 7, 0x6b901122), (DABC, 12, 0xfd987193), (CDAB, 17, 0xa679438e), (BCDA, 22, 0x49b40821)]"

definition md5_calls2 :: "(md5_order \<times> nat \<times> nat \<times> u32) list" where
  "md5_calls2 = [
      (ABCD, 1, 5, 0xf61e2562), (DABC, 6, 9, 0xc040b340), (CDAB, 11, 14, 0x265e5a51), (BCDA, 0, 20, 0xe9b6c7aa),
      (ABCD, 5, 5, 0xd62f105d), (DABC, 10, 9, 0x02441453), (CDAB, 15, 14, 0xd8a1e681), (BCDA, 4, 20, 0xe7d3fbc8),
      (ABCD, 9, 5, 0x21e1cde6), (DABC, 14, 9, 0xc33707d6), (CDAB, 3, 14, 0xf4d50d87), (BCDA, 8, 20, 0x455a14ed),
      (ABCD, 13, 5, 0xa9e3e905), (DABC, 2, 9, 0xfcefa3f8), (CDAB, 7, 14, 0x676f02d9), (BCDA, 12, 20, 0x8d2a4c8a)]"

definition md5_calls3 :: "(md5_order \<times> nat \<times> nat \<times> u32) list" where
  "md5_calls3 = [
      (ABCD, 5, 4, 0xfffa3942), (DABC, 8, 11, 0x8771f681), (CDAB, 11, 16, 0x6d9d6122), (BCDA, 14, 23, 0xfde5380c),
      (ABCD, 1, 4, 0xa4beea44), (DABC, 4, 11, 0x4bdecfa9), (CDAB, 7, 16, 0xf6bb4b60), (BCDA, 10, 23, 0xbebfbc70),
      (ABCD, 13, 4, 0x289b7ec6), (DABC, 0, 11, 0xeaa127fa), (CDAB, 3, 16, 0xd4ef3085), (BCDA, 6, 23, 0x04881d05),
      (ABCD, 9, 4, 0xd9d4d039), (DABC, 12, 11, 0xe6db99e5), (CDAB, 15, 16, 0x1fa27cf8), (BCDA, 2, 23, 0xc4ac5665)]"

definition md5_calls4 :: "(md5_order \<times> nat \<times> nat \<times> u32) list" where
  "md5_calls4 = [
      (ABCD, 0, 6, 0xf4292244), (DABC, 7, 10, 0x432aff97), (CDAB, 14, 15, 0xab9423a7), (BCDA, 5, 21, 0xfc93a039),
      (ABCD, 12, 6, 0x655b59c3), (DABC, 3, 10, 0x8f0ccc92), (CDAB, 10, 15, 0xffeff47d), (BCDA, 1, 21, 0x85845dd1),
      (ABCD, 8, 6, 0x6fa87e4f), (DABC, 15, 10, 0xfe2ce6e0), (CDAB, 6, 15, 0xa3014314), (BCDA, 13, 21, 0x4e0811a1),
      (ABCD, 4, 6, 0xf7537e82), (DABC, 11, 10, 0xbd3af235), (CDAB, 2, 15, 0x2ad7d2bb), (BCDA, 9, 21, 0xeb86d391)]"

definition md5_body0 :: "u32 list \<Rightarrow> md5_regs \<Rightarrow> md5_regs option" where
  "md5_body0 words r = do {
     (r, cw) \<leftarrow> foldM (OP1 words) (r, []) md5_calls1;
     r \<leftarrow> foldM (OP2 FG cw) r md5_calls2;
     r \<leftarrow> foldM (OP2 FH cw) r md5_calls3;
     foldM (OP2 FI cw) r md5_calls4 }"

section \<open>A block\<close>

text \<open>The sixteen words of the block at the pointer \<open>buf + off\<close>.\<close>

definition block_words :: "bytes \<Rightarrow> nat \<Rightarrow> u32 list option" where
  "block_words buf off = those (map (\<lambda>i. load32 buf (off + 4 * i)) [0..<16])"

fun md5_add :: "md5_regs \<Rightarrow> md5_regs \<Rightarrow> md5_regs" where
  "md5_add (A, B, C, D) (A', B', C', D') = (A + A', B + B', C + C', D + D')"

definition md5_hash_block :: "int \<Rightarrow> bytes \<Rightarrow> nat \<Rightarrow> md5_ctx \<Rightarrow> md5_ctx option" where
  "md5_hash_block config buf off ctx = do {
     words \<leftarrow> block_words buf off;
     let speed = MD5_SIZE_VS_SPEED config;
     let body = (if speed > 2 then md5_body3 else if speed > 1 then md5_body2
                 else if speed = 1 then md5_body1 else md5_body0);
     r \<leftarrow> body words (md5_regs ctx);
     Some (ctx\<lparr>md5_regs := md5_add r (md5_regs ctx)\<rparr>) }"

section \<open>Feeding data and finishing\<close>

text \<open>
  The number of bytes to copy: \<open>64 - buflen\<close> is compared as an unsigned number, so that it is
  larger than \<open>len\<close> when it is negative.
\<close>

function md5_loop :: "int \<Rightarrow> bytes \<Rightarrow> md5_ctx \<Rightarrow> md5_ctx option" where
  "md5_loop config buf ctx =
     (if buf = [] then Some ctx
      else let i = (if md5_buflen ctx \<le> 64 then min (64 - md5_buflen ctx) (length buf) else length buf);
               n = md5_buflen ctx + i
           in do {
             b \<leftarrow> wr_range (md5_buffer ctx) (md5_buflen ctx) (take i buf);
             if n = 64 then do {
               c \<leftarrow> md5_hash_block config b 0 (ctx\<lparr>md5_buffer := b, md5_buflen := n\<rparr>);
               md5_loop config (drop i buf) (c\<lparr>md5_buflen := 0\<rparr>) }
             else md5_loop config (drop i buf) (ctx\<lparr>md5_buffer := b, md5_buflen := n\<rparr>) })"
  by pat_completeness auto
termination
  by (relation "measure (\<lambda>(_, b, c). 2 * length b + (if md5_buflen c = 64 then 1 else 0))")
    (auto simp: min_def Let_def split: if_splits)

declare md5_loop.simps [simp del]

definition md5_hash :: "int \<Rightarrow> bytes \<Rightarrow> md5_ctx \<Rightarrow> md5_ctx option" where
  "md5_hash config buffer ctx =
     md5_loop config buffer (ctx\<lparr>md5_total := md5_total ctx + of_nat (length buffer)\<rparr>)"

text \<open>The bytes of \<open>total >> (i*8)\<close> for the eight values of \<open>i\<close>.\<close>

definition le64 :: "u64 \<Rightarrow> bytes" where
  "le64 w = map (\<lambda>i. ucast (drop_bit (8 * i) w)) [0..<8]"

definition md5_result :: "md5_regs \<Rightarrow> bytes" where
  "md5_result = (\<lambda>(A, B, C, D). le32 A @ le32 B @ le32 C @ le32 D)"

text \<open>The sixteen bytes written to \<open>resbuf\<close>.\<close>

definition md5_end :: "int \<Rightarrow> md5_ctx \<Rightarrow> bytes option" where
  "md5_end config ctx = do {
     buf \<leftarrow> wr (md5_buffer ctx) (md5_buflen ctx) 0x80;
     let n = md5_buflen ctx + 1;
     buf \<leftarrow> wr_range buf n (replicate (128 - n) 0);
     let total = push_bit 3 (md5_total ctx);
     let base = (if n > 56 then 64 else 0);
     buf \<leftarrow> wr_range buf (base + 56) (le64 total);
     let ctx = ctx\<lparr>md5_total := total, md5_buflen := n, md5_buffer := buf\<rparr>;
     ctx \<leftarrow> (if base \<noteq> 0 then md5_hash_block config buf 0 ctx else Some ctx);
     ctx \<leftarrow> md5_hash_block config buf base ctx;
     Some (md5_result (md5_regs ctx)) }"

section \<open>The algorithm of RFC 1321\<close>

definition rfc_F :: "u32 \<Rightarrow> u32 \<Rightarrow> u32 \<Rightarrow> u32" where
  "rfc_F x y z = (x AND y) OR (NOT x AND z)"

definition rfc_G :: "u32 \<Rightarrow> u32 \<Rightarrow> u32 \<Rightarrow> u32" where
  "rfc_G x y z = (x AND z) OR (y AND NOT z)"

definition rfc_H :: "u32 \<Rightarrow> u32 \<Rightarrow> u32 \<Rightarrow> u32" where
  "rfc_H x y z = x XOR y XOR z"

definition rfc_I :: "u32 \<Rightarrow> u32 \<Rightarrow> u32 \<Rightarrow> u32" where
  "rfc_I x y z = y XOR (x OR NOT z)"

text \<open>
  The 64 operations: the function, the index of the message word and the rotation are given by
  the round; the additive constants are the table of the document.
\<close>

definition rfc_fun :: "nat \<Rightarrow> u32 \<Rightarrow> u32 \<Rightarrow> u32 \<Rightarrow> u32" where
  "rfc_fun i = [rfc_F, rfc_G, rfc_H, rfc_I] ! (i div 16)"

definition rfc_index :: "nat \<Rightarrow> nat" where
  "rfc_index i = [i, 5 * i + 1, 3 * i + 5, 7 * i] ! (i div 16) mod 16"

definition rfc_shift :: "nat \<Rightarrow> nat" where
  "rfc_shift i = [[7, 12, 17, 22], [5, 9, 14, 20], [4, 11, 16, 23], [6, 10, 15, 21]] ! (i div 16) ! (i mod 4)"

definition rfc_step :: "u32 list \<Rightarrow> md5_regs \<Rightarrow> nat \<Rightarrow> md5_regs" where
  "rfc_step M = (\<lambda>(A, B, C, D) i.
     (D, B + word_rotl (rfc_shift i) (A + rfc_fun i B C D + M ! rfc_index i + C_array ! i), B, C))"

definition le_words :: "bytes \<Rightarrow> u32 list" where
  "le_words b = map (\<lambda>i. u32_of_le (b ! (4 * i)) (b ! (4 * i + 1)) (b ! (4 * i + 2)) (b ! (4 * i + 3))) [0..<16]"

definition rfc_block :: "md5_regs \<Rightarrow> bytes \<Rightarrow> md5_regs" where
  "rfc_block h b = md5_add (foldl (rfc_step (le_words b)) h [0..<64]) h"

definition rfc_md5 :: "bytes \<Rightarrow> bytes" where
  "rfc_md5 m = md5_result (md_hash rfc_block (0x67452301, 0xefcdab89, 0x98badcfe, 0x10325476) le64 m)"

section \<open>The four bodies compute the algorithm\<close>

lemma CYCLIC_rotl: "0 < s \<Longrightarrow> s < 32 \<Longrightarrow> CYCLIC w s = word_rotl s w"
proof (rule bit_word_eqI)
  fix n assume s: "0 < s" "s < 32" and "n < LENGTH(32)"
  then have n: "n < 32" by simp
  show "bit (CYCLIC w s) n = bit (word_rotl s w) n"
  proof (cases "s \<le> n")
    case True
    with s n have "(n + (32 - s)) mod 32 = n - s" by (simp add: le_mod_geq)
    with True s n show ?thesis
      by (auto simp: CYCLIC_def bit_simps dest: bit_imp_le_length)
  next
    case False
    with s n have "(n + (32 - s)) mod 32 = 32 - s + n" by simp
    with False s n show ?thesis
      by (simp add: CYCLIC_def bit_simps)
  qed
qed

lemma rfc_functions [simp]: "FF = rfc_F" "FG = rfc_G" "FH = rfc_H" "FI = rfc_I"
  by (intro ext bit_word_eqI;
      auto simp: FF_def FG_def FH_def FI_def rfc_F_def rfc_G_def rfc_H_def rfc_I_def bit_simps)+

text \<open>The tables, for each of the 64 operations.\<close>

lemma md5_tables:
  assumes "i < 64"
  shows "rd (P_row1 @ P_rows) i = Some (rfc_index i)" "rd C_array i = Some (C_array ! i)"
    "rd S_array (4 * (i div 16) + i mod 4) = Some (rfc_shift i)" "md5_switch (i div 16) = rfc_fun i"
    "rfc_index i < 16" "0 < rfc_shift i" "rfc_shift i < 32"
proof -
  have "\<forall>i \<in> set [0..<64]. rd (P_row1 @ P_rows) i = Some (rfc_index i) \<and>
      rd S_array (4 * (i div 16) + i mod 4) = Some (rfc_shift i) \<and> 0 < rfc_shift i \<and> rfc_shift i < 32"
    by code_simp
  then show "rd (P_row1 @ P_rows) i = Some (rfc_index i)"
    "rd S_array (4 * (i div 16) + i mod 4) = Some (rfc_shift i)" "0 < rfc_shift i" "rfc_shift i < 32"
    using assms by auto
  show "rd C_array i = Some (C_array ! i)" using assms by (simp add: rd_def C_array_def)
  have "i div 16 = 0 \<or> i div 16 = 1 \<or> i div 16 = 2 \<or> i div 16 = 3" using assms by auto
  then show "md5_switch (i div 16) = rfc_fun i"
    by (auto simp: fun_eq_iff md5_switch_def rfc_fun_def numeral_2_eq_2 numeral_3_eq_3)
  show "rfc_index i < 16" by (simp add: rfc_index_def)
qed

lemma OP_value_rotl:
  "0 < s \<Longrightarrow> s < 32 \<Longrightarrow> OP_value f a b c d x s t = b + word_rotl s (a + f b c d + x + t)"
  by (simp add: OP_value_def CYCLIC_rotl add.commute add.left_commute add.assoc)


text \<open>An operation that moves the registers on; four calls of \<open>OP\<close> leave them in place.\<close>

lemma rfc_step_value:
  assumes "i < 64"
  shows "rfc_step M (A, B, C, D) i
    = (D, OP_value (rfc_fun i) A B C D (M ! rfc_index i) (rfc_shift i) (C_array ! i), B, C)"
  using md5_tables [OF assms] by (simp add: rfc_step_def OP_value_rotl)

lemma four_calls:
  assumes "i + 3 < 64" "rfc_fun i = f" "rfc_fun (i + 1) = f" "rfc_fun (i + 2) = f" "rfc_fun (i + 3) = f"
  shows "OP_assign f BCDA (M ! rfc_index (i + 3)) (rfc_shift (i + 3)) (C_array ! (i + 3))
      (OP_assign f CDAB (M ! rfc_index (i + 2)) (rfc_shift (i + 2)) (C_array ! (i + 2))
      (OP_assign f DABC (M ! rfc_index (i + 1)) (rfc_shift (i + 1)) (C_array ! (i + 1))
      (OP_assign f ABCD (M ! rfc_index i) (rfc_shift i) (C_array ! i) r)))
    = foldl (rfc_step M) r [i, i + 1, i + 2, i + 3]"
  using assms by (cases r) (simp add: rfc_step_value)

lemma body3_rfc:
  assumes "length cw = 16"
  shows "md5_body3 cw r = Some (foldl (rfc_step cw) r [0..<64])"
  unfolding md5_body3_def
proof (rule foldM_total)
  fix r i assume "i \<in> set [0..<64]"
  then have i: "i < 64" by simp
  show "md5_step3 cw r i = Some (rfc_step cw r i)"
    using md5_tables [OF i] assms
    by (cases r) (simp add: md5_step3_def rfc_step_value [OF i] OP_value_def rd_in_bounds add.assoc)
qed

lemma step2_rfc:
  assumes "length cw = 16" "r < 4" "rfc_fun (16 * r) = f"
  shows "foldM (md5_step2 f r cw) st [0..<16] = Some (foldl (rfc_step cw) st [16 * r..<16 * r + 16])"
proof -
  have "foldM (md5_step2 f r cw) st [0..<16] = Some (foldl (\<lambda>s i. rfc_step cw s (16 * r + i)) st [0..<16])"
  proof (rule foldM_total)
    fix s i assume "i \<in> set [0..<16]"
    then have i: "i < 16" by simp
    then have j: "16 * r + i < 64" "(16 * r + i) div 16 = r" "(16 * r + i) mod 4 = i mod 4"
      using assms by (simp_all add: mod_simps) presburger+
    have f: "rfc_fun (16 * r + i) = f" using assms(3) j by (simp add: rfc_fun_def)
    show "md5_step2 f r cw s i = Some (rfc_step cw s (16 * r + i))"
      using md5_tables [OF j(1)] assms(1) j f
      by (cases s) (simp add: md5_step2_def rfc_step_value [OF j(1)] OP_value_def rd_in_bounds add.assoc)
  qed
  moreover have "[16 * r..<16 * r + 16] = map (\<lambda>i. 16 * r + i) [0..<16]"
    using map_add_upt [of "16 * r" 16] by (simp add: add.commute)
  ultimately show ?thesis by (simp add: foldl_map)
qed

lemma rounds_append: "[0..<64] = [0..<16] @ [16..<32] @ [32..<48] @ [48..<64::nat]"
  by code_simp

lemma rfc_fun_rounds [simp]:
  "rfc_fun 0 = rfc_F" "rfc_fun 16 = rfc_G" "rfc_fun 32 = rfc_H" "rfc_fun 48 = rfc_I"
  by (simp_all add: rfc_fun_def)

lemma body2_rfc:
  assumes "length cw = 16"
  shows "md5_body2 cw r = Some (foldl (rfc_step cw) r [0..<64])"
  using step2_rfc [OF assms, of 0 rfc_F] step2_rfc [OF assms, of 1 rfc_G]
    step2_rfc [OF assms, of 2 rfc_H] step2_rfc [OF assms, of 3 rfc_I]
  by (simp add: md5_body2_def rounds_append del: upt_Suc)


lemma turn2_rfc:
  assumes cw: "length cw = 16" and r: "r \<in> {1, 2, 3}" "i < 4" and f: "rfc_fun (16 * r) = f"
    and s: "[s0, s1, s2, s3] = map rfc_shift [16 * r, 16 * r + 1, 16 * r + 2, 16 * r + 3]"
  shows "md5_turn2 f r s0 s1 s2 s3 cw st i = Some (foldl (rfc_step cw) st [16 * r + 4 * i..<16 * r + 4 * i + 4])"
proof -
  let ?j = "16 * r + 4 * i"
  have k: "rd P_rows (16 * (r - 1) + 4 * i + n) = Some (rfc_index (?j + n))" if "n < 4" for n
  proof -
    have "length P_row1 = 16" by (simp add: P_row1_def)
    then have "rd (P_row1 @ P_rows) (16 + (16 * (r - 1) + 4 * i + n)) = rd P_rows (16 * (r - 1) + 4 * i + n)"
      by (metis rd_append_right)
    moreover have "16 + (16 * (r - 1) + 4 * i + n) = ?j + n" using r by auto
    moreover have "?j + n < 64" using r that by auto
    ultimately show ?thesis using md5_tables(1) [of "?j + n"] by metis
  qed
  have b: "?j + n < 64" "(?j + n) div 16 = r" if "n < 4" for n
    using that r by auto
  have b4: "(?j + n) mod 4 = n" "(16 * r + n) mod 4 = n" if "n < 4" for n
    using that by presburger+
  have fn: "rfc_fun (?j + n) = f" if "n < 4" for n
    using f b [OF that] by (simp add: rfc_fun_def)
  have sn: "rfc_shift (?j + n) = rfc_shift (16 * r + n)" if "n < 4" for n
    using that b [OF that] b4 [OF that] by (simp add: rfc_shift_def)
  have "md5_turn2 f r s0 s1 s2 s3 cw st i = Some (foldl (rfc_step cw) st [?j, ?j + 1, ?j + 2, ?j + 3])"
    using s k [of 0] k [of 1] k [of 2] k [of 3] sn [of 0] sn [of 1] sn [of 2] sn [of 3]
      four_calls [of ?j f cw st] b [of 3] fn [of 0] fn [of 1] fn [of 2] fn [of 3] cw
      md5_tables(2,5) [of "?j"] md5_tables(2,5) [of "?j + 1"] md5_tables(2,5) [of "?j + 2"] md5_tables(2,5) [of "?j + 3"]
    by (simp add: md5_turn2_def OP2_def rd_in_bounds)
  moreover have "[?j..<?j + 4] = [?j, ?j + 1, ?j + 2, ?j + 3]"
    by (simp add: upt_rec)
  ultimately show ?thesis by simp
qed


lemma turns_append: "foldl (rfc_step cw) st [a..<a + 16] =
  foldl (\<lambda>st i. foldl (rfc_step cw) st [a + 4 * i..<a + 4 * i + 4]) st [0..<4]"
proof -
  have "[a..<a + 16] = concat (map (\<lambda>i. [a + 4 * i..<a + 4 * i + 4]) [0..<4])"
    by (simp add: upt_rec)
  then show ?thesis by (simp add: foldl_concat foldl_map)
qed

lemma turns2_rfc:
  assumes "length cw = 16" "r \<in> {1, 2, 3}" "rfc_fun (16 * r) = f"
    "[s0, s1, s2, s3] = map rfc_shift [16 * r, 16 * r + 1, 16 * r + 2, 16 * r + 3]"
  shows "foldM (md5_turn2 f r s0 s1 s2 s3 cw) st [0..<4] = Some (foldl (rfc_step cw) st [16 * r..<16 * r + 16])"
  unfolding turns_append using turn2_rfc [OF assms(1,2) _ assms(3,4)] by (intro foldM_total) simp

text \<open>The first round copies the words.\<close>

lemma turn1_rfc:
  assumes cw: "length words = 16" and i: "i < 4"
  shows "md5_turn1 words (st, take (4 * i) words) i =
    Some (foldl (rfc_step words) st [4 * i..<4 * i + 4], take (4 * Suc i) words)"
proof -
  let ?j = "4 * i"
  have b: "?j + n < 64" "?j + n < 16" "(?j + n) div 16 = 0" if "n < 4" for n
    using that i by auto
  have b4: "(?j + n) mod 4 = n" if "n < 4" for n
    using that by presburger
  have t: "rfc_fun (?j + n) = rfc_F" "rfc_index (?j + n) = ?j + n" "rfc_shift (?j + n) = [7, 12, 17, 22] ! n"
      "rd C_array (?j + n) = Some (C_array ! (?j + n))" "rd words (?j + n) = Some (words ! (?j + n))"
      "take (?j + n) words @ [words ! (?j + n)] = take (?j + Suc n) words" if "n < 4" for n
    using b [OF that] b4 [OF that] md5_tables(2) [of "?j + n"] cw
    by (simp_all add: rfc_fun_def rfc_index_def rfc_shift_def rd_in_bounds take_Suc_conv_app_nth)
  have len: "length (take (?j + n) words) = ?j + n" if "n < 4" for n
    using b [OF that] cw by simp
  have "md5_turn1 words (st, take ?j words) i =
      Some (foldl (rfc_step words) st [?j, ?j + 1, ?j + 2, ?j + 3], take (?j + 4) words)"
    using t [of 0] t [of 1] t [of 2] t [of 3] len [of 0] len [of 1] len [of 2] len [of 3]
      four_calls [of ?j rfc_F words st] b(1) [of 3]
    by (simp add: md5_turn1_def OP1_def)
  moreover have "[?j..<?j + 4] = [?j, ?j + 1, ?j + 2, ?j + 3]"
    by (simp add: upt_rec)
  ultimately show ?thesis by (simp add: add.commute)
qed

lemma turns1_rfc:
  assumes "length words = 16" "n \<le> 4"
  shows "foldM (md5_turn1 words) (st, []) [0..<n] = Some (foldl (rfc_step words) st [0..<4 * n], take (4 * n) words)"
  using assms(2)
proof (induction n)
  case 0
  then show ?case by simp
next
  case (Suc n)
  have "[0..<4 * Suc n] = [0..<4 * n] @ [4 * n..<4 * n + 4]"
    using upt_add_eq_append [of 0 "4 * n" 4] by (simp add: add.commute)
  with Suc turn1_rfc [OF assms(1), of n] show ?case
    by (simp add: foldM_append)
qed

lemma body1_rfc:
  assumes "length words = 16"
  shows "md5_body1 words r = Some (foldl (rfc_step words) r [0..<64])"
  using turns1_rfc [OF assms, of 4 r]
    turns2_rfc [OF assms, of 1 rfc_G 5 9 14 20] turns2_rfc [OF assms, of 2 rfc_H 4 11 16 23]
    turns2_rfc [OF assms, of 3 rfc_I 6 10 15 21] assms
  by (simp add: md5_body1_def rounds_append rfc_shift_def numeral_2_eq_2 numeral_3_eq_3 del: upt_Suc)


lemma calls_tables:
  "md5_calls1 = concat (map (\<lambda>i. [(ABCD, 7, C_array ! (4 * i)), (DABC, 12, C_array ! (4 * i + 1)),
     (CDAB, 17, C_array ! (4 * i + 2)), (BCDA, 22, C_array ! (4 * i + 3))]) [0..<4])"
  by code_simp

definition md5_calls :: "nat \<Rightarrow> nat \<Rightarrow> nat \<Rightarrow> nat \<Rightarrow> nat \<Rightarrow> (md5_order \<times> nat \<times> nat \<times> u32) list list" where
  "md5_calls r s0 s1 s2 s3 = map (\<lambda>i.
     [(ABCD, P_rows ! (16 * (r - 1) + 4 * i), s0, C_array ! (16 * r + 4 * i)),
      (DABC, P_rows ! (16 * (r - 1) + 4 * i + 1), s1, C_array ! (16 * r + 4 * i + 1)),
      (CDAB, P_rows ! (16 * (r - 1) + 4 * i + 2), s2, C_array ! (16 * r + 4 * i + 2)),
      (BCDA, P_rows ! (16 * (r - 1) + 4 * i + 3), s3, C_array ! (16 * r + 4 * i + 3))]) [0..<4]"

lemma calls_tables2:
  "md5_calls2 = concat (md5_calls 1 5 9 14 20)"
  "md5_calls3 = concat (md5_calls 2 4 11 16 23)"
  "md5_calls4 = concat (md5_calls 3 6 10 15 21)"
  by code_simp+


lemma body0_body1: "md5_body0 words r = md5_body1 words r"
proof -
  have 1: "foldM (OP1 words) st md5_calls1 = foldM (md5_turn1 words) st [0..<4]" for st
    unfolding calls_tables foldM_concat foldM_map
    by (rule foldM_cong) (auto simp: md5_turn1_def md5_tables(2))
  have 2: "foldM (OP2 f cw) st (concat (md5_calls r s0 s1 s2 s3)) = foldM (md5_turn2 f r s0 s1 s2 s3 cw) st [0..<4]"
    if "r \<in> {1, 2, 3}" for f cw st r s0 s1 s2 s3
    unfolding md5_calls_def foldM_concat foldM_map
  proof (rule foldM_cong)
    fix st and i :: nat assume "i \<in> set [0..<4]"
    with that have "16 * r + 4 * i + 3 < 64" "16 * (r - 1) + 4 * i + 3 < length P_rows"
      by (auto simp: P_rows_def)
    then show "foldM (OP2 f cw) st
       [(ABCD, P_rows ! (16 * (r - 1) + 4 * i), s0, C_array ! (16 * r + 4 * i)),
        (DABC, P_rows ! (16 * (r - 1) + 4 * i + 1), s1, C_array ! (16 * r + 4 * i + 1)),
        (CDAB, P_rows ! (16 * (r - 1) + 4 * i + 2), s2, C_array ! (16 * r + 4 * i + 2)),
        (BCDA, P_rows ! (16 * (r - 1) + 4 * i + 3), s3, C_array ! (16 * r + 4 * i + 3))]
      = md5_turn2 f r s0 s1 s2 s3 cw st i"
      unfolding md5_turn2_def by (simp only: md5_tables(2) rd_in_bounds bind.bind_lunit)
  qed
  show ?thesis
    unfolding md5_body0_def md5_body1_def calls_tables2 1
    using 2 [of 1 FG] 2 [of 2 FH] 2 [of 3 FI] by simp
qed


section \<open>Blocks and streams\<close>

lemma those_Some_map: "those (map (\<lambda>i. Some (f i)) xs) = Some (map f xs)"
  by (induction xs) simp_all

lemma block_words_in_bounds:
  assumes "off + 64 \<le> length buf"
  shows "block_words buf off = Some (le_words (take 64 (drop off buf)))"
proof -
  let ?b = "take 64 (drop off buf)"
  have "load32 buf (off + 4 * i) =
      Some (u32_of_le (?b ! (4 * i)) (?b ! (4 * i + 1)) (?b ! (4 * i + 2)) (?b ! (4 * i + 3)))"
    if "i < 16" for i
    using assms that by (simp add: load32_def rd_def add.assoc)
  then have "map (\<lambda>i. load32 buf (off + 4 * i)) [0..<16] = map (\<lambda>i. Some (u32_of_le (?b ! (4 * i))
      (?b ! (4 * i + 1)) (?b ! (4 * i + 2)) (?b ! (4 * i + 3)))) [0..<16]"
    by (intro map_cong) simp_all
  then show ?thesis by (simp only: block_words_def le_words_def those_Some_map)
qed

lemma md5_hash_block_rfc:
  assumes "off + 64 \<le> length buf"
  shows "md5_hash_block config buf off ctx
    = Some (ctx\<lparr>md5_regs := rfc_block (md5_regs ctx) (take 64 (drop off buf))\<rparr>)"
proof -
  have "length (le_words b) = 16" for b by (simp add: le_words_def)
  then show ?thesis
    by (simp add: md5_hash_block_def block_words_in_bounds [OF assms] rfc_block_def Let_def
        body3_rfc body2_rfc body1_rfc body0_body1)
qed

definition md5_ok :: "md5_ctx \<Rightarrow> bool" where
  "md5_ok ctx \<longleftrightarrow> md5_buflen ctx < 64 \<and> length (md5_buffer ctx) = 128"

definition md5_pending :: "md5_ctx \<Rightarrow> bytes" where
  "md5_pending ctx = take (md5_buflen ctx) (md5_buffer ctx)"

definition md5_fresh :: "md5_ctx \<Rightarrow> bool" where
  "md5_fresh ctx \<longleftrightarrow> (\<exists>junk. length junk = 128 \<and> ctx = md5_begin junk)"

lemma md5_loop_absorb:
  assumes "md5_ok ctx"
  shows "\<exists>ctx'. md5_loop config buf ctx = Some ctx' \<and> md5_ok ctx' \<and> md5_total ctx' = md5_total ctx \<and>
    absorb rfc_block (md5_regs ctx) (md5_pending ctx @ buf) = (md5_regs ctx', md5_pending ctx')"
  using assms
proof (induction "length buf" arbitrary: buf ctx rule: less_induct)
  case less
  let ?n = "md5_buflen ctx"
  have ok: "?n < 64" "length (md5_buffer ctx) = 128" using less.prems by (auto simp: md5_ok_def)
  show ?case
  proof (cases "length buf < 64 - ?n")
    case True
    let ?b = "take ?n (md5_buffer ctx) @ buf @ drop (?n + length buf) (md5_buffer ctx)"
    let ?c = "ctx\<lparr>md5_buffer := ?b, md5_buflen := ?n + length buf\<rparr>"
    have "md5_loop config buf ctx = Some ?c" if "buf \<noteq> []"
    proof -
      have "wr_range (md5_buffer ctx) ?n buf = Some ?b" using True ok by (simp add: wr_range_def)
      moreover have "md5_loop config [] ?c = Some ?c" by (simp add: md5_loop.simps [of _ "[]"])
      moreover have "?n + length buf \<noteq> 64" using True ok by simp
      ultimately show ?thesis using that True ok
        by (subst md5_loop.simps) (simp add: min_def Let_def)
    qed
    then have "md5_loop config buf ctx = Some ?c"
      using ok by (cases "buf = []") (simp_all add: md5_loop.simps [of _ "[]"])
    moreover have "md5_ok ?c" "md5_pending ?c = md5_pending ctx @ buf"
      using True ok by (auto simp: md5_ok_def md5_pending_def)
    moreover have "length (md5_pending ctx @ buf) < 64"
      using True ok by (simp add: md5_pending_def)
    ultimately show ?thesis by simp
  next
    case False
    let ?i = "64 - ?n"
    let ?b = "take ?n (md5_buffer ctx) @ take ?i buf @ drop 64 (md5_buffer ctx)"
    let ?blk = "md5_pending ctx @ take ?i buf"
    let ?c = "ctx\<lparr>md5_buffer := ?b, md5_regs := rfc_block (md5_regs ctx) ?blk, md5_buflen := 0\<rparr>"
    have lens: "length ?blk = 64" "length ?b = 128" "buf \<noteq> []" "take 64 ?b = ?blk"
      using False ok by (auto simp: md5_pending_def)
    have pl: "length (md5_pending ctx) = ?n" using ok by (simp add: md5_pending_def)
    have w: "wr_range (md5_buffer ctx) ?n (take ?i buf) = Some ?b"
      using False ok by (simp add: wr_range_def min_def)
    have "md5_loop config buf ctx = md5_loop config (drop ?i buf) ?c"
      using False ok lens w pl
      by (subst md5_loop.simps) (simp add: min_def Let_def md5_hash_block_rfc)
    moreover have "length (drop ?i buf) < length buf" "md5_ok ?c"
      using ok lens by (auto simp: md5_ok_def)
    moreover note less.hyps [OF this]
    moreover have "absorb rfc_block (md5_regs ctx) (md5_pending ctx @ buf)
        = absorb rfc_block (md5_regs ?c) (drop ?i buf)"
      using absorb_block [OF lens(1), of rfc_block "md5_regs ctx" "drop ?i buf"] by simp
    moreover have "md5_pending ?c = []" by (simp add: md5_pending_def)
    ultimately show ?thesis by auto
  qed
qed


lemma length_le64 [simp]: "length (le64 w) = 8"
  by (simp add: le64_def)

lemma two_blocks:
  "length a = 64 \<Longrightarrow> length b = 64 \<Longrightarrow>
    length (a @ b) = 128 \<and> take 64 (a @ b) = a \<and> take 64 (drop 64 (a @ b)) = b"
  by simp

lemma md5_end_absorb:
  assumes "md5_ok ctx"
  shows "md5_end config ctx = Some (md5_result (fst (absorb rfc_block (md5_regs ctx)
    (md5_pending ctx @ [0x80] @ replicate (pad_zeros (length (md5_pending ctx))) 0 @ le64 (8 * md5_total ctx)))))"
proof -
  let ?n = "md5_buflen ctx" and ?p = "md5_pending ctx" and ?l = "le64 (8 * md5_total ctx)"
  have ok: "?n < 64" "length (md5_buffer ctx) = 128" using assms by (auto simp: md5_ok_def)
  have pl: "length ?p = ?n" using ok by (simp add: md5_pending_def)
  obtain r where r: "md5_buffer ctx = ?p @ r" "length r = 128 - ?n"
    using ok append_take_drop_id [of ?n "md5_buffer ctx"] by (metis length_drop md5_pending_def)
  then obtain x r' where r': "r = x # r'" "length r' = 127 - ?n"
    using ok by (cases r) auto
  have 1: "wr (md5_buffer ctx) ?n 0x80 = Some (?p @ 0x80 # r')"
    using r(1) r'(1) pl by (metis wr_append)
  have 2: "wr_range (?p @ 0x80 # r') (?n + 1) (replicate (127 - ?n) 0) = Some (?p @ 0x80 # replicate (127 - ?n) 0)"
    using pl r'(2) by (simp add: wr_range_def)
  have t: "push_bit 3 (md5_total ctx) = 8 * md5_total ctx"
    by (simp add: push_bit_eq_mult)
  show ?thesis
  proof (cases "?n + 1 > 56")
    case True
    let ?b1 = "?p @ 0x80 # replicate (63 - ?n) 0" and ?b2 = "replicate 56 0 @ ?l"
    have "replicate (127 - ?n) (0::byte) = replicate (63 - ?n) 0 @ replicate 56 0 @ replicate 8 0"
      using ok by (simp flip: replicate_add)
    then have 3: "wr_range (?p @ 0x80 # replicate (127 - ?n) 0) (64 + 56) ?l = Some (?b1 @ ?b2)"
      using pl ok wr_range_append [of "replicate 8 0" ?l "?b1 @ replicate 56 0" "[]"] by simp
    have len: "length ?b1 = 64" "length ?b2 = 64" using ok pl by simp_all
    have "pad_zeros ?n = 63 - ?n + 56" using True ok by (simp add: pad_zeros_cases)
    then have "?p @ [0x80] @ replicate (pad_zeros ?n) 0 @ ?l = ?b1 @ ?b2"
      by (simp add: replicate_add)
    then have "absorb rfc_block (md5_regs ctx) (?p @ [0x80] @ replicate (pad_zeros ?n) 0 @ ?l)
        = (rfc_block (rfc_block (md5_regs ctx) ?b1) ?b2, [])"
      using len by (simp only: absorb_block absorb_last_block)
    moreover define b where "b = ?b1 @ ?b2"
    have "wr_range (?p @ 0x80 # replicate (127 - ?n) 0) (64 + 56) ?l = Some b" "length b = 128"
      "take 64 b = ?b1" "take 64 (drop 64 b) = ?b2"
      using 3 two_blocks [OF len] unfolding b_def by blast+
    ultimately show ?thesis using True 1 2 t pl
      by (simp add: md5_end_def Let_def md5_hash_block_rfc)
  next
    case False
    let ?b1 = "?p @ 0x80 # replicate (55 - ?n) 0 @ ?l"
    have "replicate (127 - ?n) (0::byte) = replicate (55 - ?n) 0 @ replicate 8 0 @ replicate 64 0"
      using False by (simp flip: replicate_add)
    then have 3: "wr_range (?p @ 0x80 # replicate (127 - ?n) 0) 56 ?l = Some (?b1 @ replicate 64 0)"
      using False pl wr_range_append [of "replicate 8 0" ?l "?p @ 0x80 # replicate (55 - ?n) 0" "replicate 64 0"]
      by simp
    have len: "length ?b1 = 64" using False pl by simp
    have "pad_zeros ?n = 55 - ?n" using False by (simp add: pad_zeros_cases)
    then have "absorb rfc_block (md5_regs ctx) (?p @ [0x80] @ replicate (pad_zeros ?n) 0 @ ?l)
        = (rfc_block (md5_regs ctx) ?b1, [])"
      using absorb_last_block [OF len] by simp
    moreover define b where "b = ?b1 @ replicate 64 0"
    have "wr_range (?p @ 0x80 # replicate (127 - ?n) 0) 56 ?l = Some b" "length b = 128" "take 64 b = ?b1"
      using 3 two_blocks [OF len length_replicate] unfolding b_def by blast+
    ultimately show ?thesis using False 1 2 t pl
      by (simp add: md5_end_def Let_def md5_hash_block_rfc)
  qed
qed


interpretation md5: stream_hash rfc_block "(0x67452301, 0xefcdab89, 0x98badcfe, 0x10325476)" le64 md5_result
  md5_ok md5_regs md5_pending md5_total md5_fresh "md5_hash config" "md5_end config" for config :: int
proof unfold_locales
  fix c assume "md5_fresh c"
  then show "md5_ok c \<and> md5_regs c = (0x67452301, 0xefcdab89, 0x98badcfe, 0x10325476) \<and>
      md5_pending c = [] \<and> md5_total c = 0"
    by (auto simp: md5_fresh_def md5_begin_def md5_ok_def md5_pending_def)
next
  fix c :: md5_ctx assume "md5_ok c"
  then show "length (md5_pending c) < 64" by (simp add: md5_ok_def md5_pending_def)
next
  fix c :: md5_ctx and d :: bytes assume ok: "md5_ok c"
  let ?c = "c\<lparr>md5_total := md5_total c + of_nat (length d)\<rparr>"
  from ok have "md5_ok ?c" by (simp add: md5_ok_def)
  from md5_loop_absorb [OF this, of config d]
  show "\<exists>c'. md5_hash config d c = Some c' \<and> md5_ok c' \<and>
      absorb rfc_block (md5_regs c) (md5_pending c @ d) = (md5_regs c', md5_pending c') \<and>
      md5_total c' = md5_total c + of_nat (length d)"
    by (auto simp: md5_hash_def md5_pending_def)
next
  fix c :: md5_ctx assume "md5_ok c"
  then show "md5_end config c = Some (md5_result (fst (absorb rfc_block (md5_regs c)
      (md5_pending c @ [0x80] @ replicate (pad_zeros (length (md5_pending c))) 0 @ le64 (8 * md5_total c)))))"
    by (rule md5_end_absorb)
qed


text \<open>
  C39. Each of the four bodies of \<open>md5_hash_block\<close> that \<open>CONFIG_MD5_SIZE_VS_SPEED\<close> selects, from the
  single loop with tables to the calls written out by hand, updates the context by the 64 operations of
  RFC 1321 on the block, and stays within the tables and the block.
\<close>

theorem md5_bodies_rfc:
  assumes "off + 64 \<le> length buf"
  shows "md5_hash_block config buf off ctx
    = Some (ctx\<lparr>md5_regs := rfc_block (md5_regs ctx) (take 64 (drop off buf))\<rparr>)"
  using assms by (rule md5_hash_block_rfc)

theorem md5_bodies_rfc_witness:
  "md5_hash_block 0 (replicate 128 0) 64 (md5_begin (replicate 128 1))
    = md5_hash_block 3 (replicate 128 0) 64 (md5_begin (replicate 128 1))"
  using md5_bodies_rfc [of 64 "replicate 128 0" 0 "md5_begin (replicate 128 1)"]
    md5_bodies_rfc [of 64 "replicate 128 0" 3 "md5_begin (replicate 128 1)"]
  by simp

text \<open>The digest of the string \<open>abc\<close> in the test suite of RFC 1321.\<close>

lemma md5_abc: "rfc_md5 [97, 98, 99] =
  [0x90, 0x01, 0x50, 0x98, 0x3c, 0xd2, 0x4f, 0xb0, 0xd6, 0x96, 0x3f, 0x7d, 0x28, 0xe1, 0x7f, 0x72]"
  by code_simp

end
