(* ===== verification/Sha1.thy ===== *)
theory Sha1
  imports Md5
begin

text \<open>
  The SHA-1 digest of \<open>libbb/sha1.c\<close>. The array \<open>wbuf\<close> of sixteen words is the list of its 64
  bytes; the accesses to its words load and store four bytes, little-endian as on the host. The
  reference is the description of the algorithm in FIPS 180.
\<close>

section \<open>The context and the compression\<close>

record sha1_ctx =
  sha1_count0 :: u32
  sha1_count1 :: u32
  sha1_hashv :: "u32 list"
  sha1_wbuf :: bytes

definition SHA1_BLOCK_SIZE :: nat where "SHA1_BLOCK_SIZE = 64"
definition SHA1_DIGEST_SIZE :: nat where "SHA1_DIGEST_SIZE = 20"
definition SHA1_MASK :: u32 where "SHA1_MASK = 63"

definition rotl32 :: "u32 \<Rightarrow> nat \<Rightarrow> u32" where
  "rotl32 x n = push_bit n x OR drop_bit (32 - n) x"

definition ch :: "u32 \<Rightarrow> u32 \<Rightarrow> u32 \<Rightarrow> u32" where
  "ch x y z = z XOR (x AND (y XOR z))"

definition parity3 :: "u32 \<Rightarrow> u32 \<Rightarrow> u32 \<Rightarrow> u32" where
  "parity3 x y z = x XOR y XOR z"

definition maj :: "u32 \<Rightarrow> u32 \<Rightarrow> u32 \<Rightarrow> u32" where
  "maj x y z = (x AND y) OR (z AND (x OR y))"

type_synonym sha1_regs = "u32 \<times> u32 \<times> u32 \<times> u32 \<times> u32"

definition rnd :: "(u32 \<Rightarrow> u32 \<Rightarrow> u32 \<Rightarrow> u32) \<Rightarrow> u32 \<Rightarrow> u32 list \<Rightarrow> sha1_regs \<Rightarrow> nat \<Rightarrow> sha1_regs option" where
  "rnd f k w = (\<lambda>(a, b, c, d, e) i. do {
     wi \<leftarrow> rd w i;
     Some (rotl32 a 5 + f b c d + e + k + wi, a, rotl32 b 30, c, d) })"

text \<open>The array \<open>w\<close>; the list is the part that is written.\<close>

definition sha1_expand :: "u32 list \<Rightarrow> nat \<Rightarrow> u32 list option" where
  "sha1_expand w i = do {
     w3 \<leftarrow> rd w (i - 3); w8 \<leftarrow> rd w (i - 8); w14 \<leftarrow> rd w (i - 14); w16 \<leftarrow> rd w (i - 16);
     Some (w @ [rotl32 (w3 XOR w8 XOR w14 XOR w16) 1]) }"

definition sha1_words :: "u32 list \<Rightarrow> u32 list option" where
  "sha1_words wbuf = foldM sha1_expand (map htonl wbuf) [16..<80]"

definition sha1_run :: "u32 list \<Rightarrow> sha1_regs \<Rightarrow> sha1_regs option" where
  "sha1_run w r = do {
     r \<leftarrow> foldM (rnd ch 0x5a827999 w) r [0..<20];
     r \<leftarrow> foldM (rnd parity3 0x6ed9eba1 w) r [20..<40];
     r \<leftarrow> foldM (rnd maj 0x8f1bbcdc w) r [40..<60];
     foldM (rnd parity3 0xca62c1d6 w) r [60..<80] }"

definition sha1_compile :: "sha1_ctx \<Rightarrow> sha1_ctx option" where
  "sha1_compile ctx = do {
     wbuf \<leftarrow> block_words (sha1_wbuf ctx) 0;
     w \<leftarrow> sha1_words wbuf;
     h0 \<leftarrow> rd (sha1_hashv ctx) 0; h1 \<leftarrow> rd (sha1_hashv ctx) 1; h2 \<leftarrow> rd (sha1_hashv ctx) 2;
     h3 \<leftarrow> rd (sha1_hashv ctx) 3; h4 \<leftarrow> rd (sha1_hashv ctx) 4;
     (a, b, c, d, e) \<leftarrow> sha1_run w (h0, h1, h2, h3, h4);
     Some (ctx\<lparr>sha1_hashv := [h0 + a, h1 + b, h2 + c, h3 + d, h4 + e]\<rparr>) }"

text \<open>The buffer is not initialised: \<open>junk\<close> is what it holds.\<close>

definition sha1_begin :: "bytes \<Rightarrow> sha1_ctx" where
  "sha1_begin junk = \<lparr>sha1_count0 = 0, sha1_count1 = 0,
     sha1_hashv = [0x67452301, 0xefcdab89, 0x98badcfe, 0x10325476, 0xc3d2e1f0], sha1_wbuf = junk\<rparr>"

section \<open>Feeding data\<close>

function sha1_loop :: "bytes \<Rightarrow> nat \<Rightarrow> nat \<Rightarrow> sha1_ctx \<Rightarrow> sha1_ctx option" where
  "sha1_loop sp pos freeb ctx =
     (if length sp \<ge> freeb then do {
        b \<leftarrow> wr_range (sha1_wbuf ctx) pos (take freeb sp);
        c \<leftarrow> sha1_compile (ctx\<lparr>sha1_wbuf := b\<rparr>);
        sha1_loop (drop freeb sp) 0 SHA1_BLOCK_SIZE c }
      else do {
        b \<leftarrow> wr_range (sha1_wbuf ctx) pos sp;
        Some (ctx\<lparr>sha1_wbuf := b\<rparr>) })"
  by pat_completeness auto
termination
  by (relation "measure (\<lambda>(sp, _, n, _). length sp + (if n = 0 then 1 else 0))")
    (auto simp: SHA1_BLOCK_SIZE_def)

declare sha1_loop.simps [simp del]

definition sha1_hash :: "bytes \<Rightarrow> sha1_ctx \<Rightarrow> sha1_ctx option" where
  "sha1_hash data ctx =
     (let pos = unat (sha1_count0 ctx AND SHA1_MASK);
          freeb = SHA1_BLOCK_SIZE - pos;
          len = of_nat (length data);
          n0 = sha1_count0 ctx + len;
          n1 = (if n0 < len then sha1_count1 ctx + 1 else sha1_count1 ctx)
      in sha1_loop data pos freeb (ctx\<lparr>sha1_count0 := n0, sha1_count1 := n1\<rparr>))"

section \<open>Finishing\<close>

definition store_word :: "bytes \<Rightarrow> nat \<Rightarrow> u32 \<Rightarrow> bytes option" where
  "store_word buf i w = wr_range buf (4 * i) (le32 w)"

definition sha1_mask :: "u32 list" where
  "sha1_mask = [0x00000000, 0x000000ff, 0x0000ffff, 0x00ffffff]"

definition sha1_bits :: "u32 list" where
  "sha1_bits = [0x00000080, 0x00008000, 0x00800000, 0x80000000]"

function sha1_zero :: "nat \<Rightarrow> bytes \<Rightarrow> bytes option" where
  "sha1_zero cnt buf =
     (if cnt < 14 then do { b \<leftarrow> store_word buf cnt 0; sha1_zero (cnt + 1) b } else Some buf)"
  by pat_completeness auto
termination
  by (relation "measure (\<lambda>(cnt, _). 14 - cnt)") auto

declare sha1_zero.simps [simp del]

definition sha1_result :: "u32 list \<Rightarrow> bytes option" where
  "sha1_result h = those (map (\<lambda>i. do { w \<leftarrow> rd h (i div 4); Some (ucast (drop_bit (8 * (3 - i mod 4)) w)) })
     [0..<SHA1_DIGEST_SIZE])"

text \<open>The twenty bytes written to \<open>resbuf\<close>.\<close>

definition sha1_end :: "sha1_ctx \<Rightarrow> bytes option" where
  "sha1_end ctx = do {
     let cnt = unat (sha1_count0 ctx AND SHA1_MASK);
     w \<leftarrow> load32 (sha1_wbuf ctx) (4 * (cnt div 4));
     m \<leftarrow> rd sha1_mask (cnt mod 4);
     b \<leftarrow> rd sha1_bits (cnt mod 4);
     buf \<leftarrow> store_word (sha1_wbuf ctx) (cnt div 4) ((w AND m) OR b);
     (cnt, ctx) \<leftarrow>
       (if cnt > SHA1_BLOCK_SIZE - 9 then do {
          buf \<leftarrow> (if cnt < 60 then store_word buf 15 0 else Some buf);
          ctx \<leftarrow> sha1_compile (ctx\<lparr>sha1_wbuf := buf\<rparr>);
          Some (0, ctx) }
        else Some (cnt div 4 + 1, ctx\<lparr>sha1_wbuf := buf\<rparr>));
     buf \<leftarrow> sha1_zero cnt (sha1_wbuf ctx);
     buf \<leftarrow> store_word buf 14 (htonl (push_bit 3 (sha1_count1 ctx) OR drop_bit 29 (sha1_count0 ctx)));
     buf \<leftarrow> store_word buf 15 (htonl (push_bit 3 (sha1_count0 ctx)));
     ctx \<leftarrow> sha1_compile (ctx\<lparr>sha1_wbuf := buf\<rparr>);
     sha1_result (sha1_hashv ctx) }"

section \<open>The algorithm of FIPS 180\<close>

definition fips_f :: "nat \<Rightarrow> u32 \<Rightarrow> u32 \<Rightarrow> u32 \<Rightarrow> u32" where
  "fips_f t x y z =
     (if t < 20 then (x AND y) XOR (NOT x AND z)
      else if 40 \<le> t \<and> t < 60 then (x AND y) XOR (x AND z) XOR (y AND z)
      else x XOR y XOR z)"

definition fips_K :: "nat \<Rightarrow> u32" where
  "fips_K t = (if t < 20 then 0x5a827999 else if t < 40 then 0x6ed9eba1
     else if t < 60 then 0x8f1bbcdc else 0xca62c1d6)"

text \<open>The words of a block, big-endian, and the message schedule.\<close>

definition be_words :: "bytes \<Rightarrow> u32 list" where
  "be_words b = map (\<lambda>i. u32_of_le (b ! (4 * i + 3)) (b ! (4 * i + 2)) (b ! (4 * i + 1)) (b ! (4 * i))) [0..<16]"

fun fips_W :: "bytes \<Rightarrow> nat \<Rightarrow> u32" where
  "fips_W b t =
     (if t < 16 then be_words b ! t
      else word_rotl 1 (fips_W b (t - 3) XOR fips_W b (t - 8) XOR fips_W b (t - 14) XOR fips_W b (t - 16)))"

declare fips_W.simps [simp del]

definition fips_step :: "bytes \<Rightarrow> sha1_regs \<Rightarrow> nat \<Rightarrow> sha1_regs" where
  "fips_step blk = (\<lambda>(a, b, c, d, e) t.
     (word_rotl 5 a + fips_f t b c d + e + fips_K t + fips_W blk t, a, word_rotl 30 b, c, d))"

definition fips_block :: "sha1_regs \<Rightarrow> bytes \<Rightarrow> sha1_regs" where
  "fips_block = (\<lambda>(h0, h1, h2, h3, h4) blk.
     let (a, b, c, d, e) = foldl (fips_step blk) (h0, h1, h2, h3, h4) [0..<80]
     in (h0 + a, h1 + b, h2 + c, h3 + d, h4 + e))"

definition be64 :: "u64 \<Rightarrow> bytes" where
  "be64 w = map (\<lambda>i. ucast (drop_bit (56 - 8 * i) w)) [0..<8]"

definition be32 :: "u32 \<Rightarrow> bytes" where
  "be32 w = [ucast (drop_bit 24 w), ucast (drop_bit 16 w), ucast (drop_bit 8 w), ucast w]"

definition fips_digest :: "sha1_regs \<Rightarrow> bytes" where
  "fips_digest = (\<lambda>(h0, h1, h2, h3, h4). be32 h0 @ be32 h1 @ be32 h2 @ be32 h3 @ be32 h4)"

abbreviation fips_H0 :: sha1_regs where
  "fips_H0 \<equiv> (0x67452301, 0xefcdab89, 0x98badcfe, 0x10325476, 0xc3d2e1f0)"

definition fips_sha1 :: "bytes \<Rightarrow> bytes" where
  "fips_sha1 m = fips_digest (md_hash fips_block fips_H0 be64 m)"

section \<open>The compression computes the algorithm\<close>

lemma rotl32_rotl: "0 < n \<Longrightarrow> n < 32 \<Longrightarrow> rotl32 x n = word_rotl n x"
  using CYCLIC_rotl by (simp add: rotl32_def CYCLIC_def)

lemma htonl_bytes [simp]: "htonl (u32_of_le a b c d) = u32_of_le d c b a"
  by (simp add: ntohl_def)

lemma be_words_htonl: "map htonl (le_words b) = be_words b"
  by (simp add: le_words_def be_words_def)

lemma length_be_words [simp]: "length (be_words b) = 16"
  by (simp add: be_words_def)

lemma sha1_functions:
  "t < 20 \<Longrightarrow> ch = fips_f t" "20 \<le> t \<Longrightarrow> t < 40 \<Longrightarrow> parity3 = fips_f t"
  "40 \<le> t \<Longrightarrow> t < 60 \<Longrightarrow> maj = fips_f t" "60 \<le> t \<Longrightarrow> parity3 = fips_f t"
  by (intro ext bit_word_eqI; auto simp: ch_def parity3_def maj_def fips_f_def bit_simps)+

lemma sha1_schedule:
  assumes "16 \<le> n"
  shows "foldM sha1_expand (be_words b) [16..<n] = Some (map (fips_W b) [0..<n])"
  using assms
proof (induction n rule: nat_induct_at_least)
  case base
  have "be_words b = map (fips_W b) [0..<16]"
    by (rule nth_equalityI) (simp_all add: fips_W.simps)
  then show ?case by simp
next
  case (Suc n)
  have "rd (map (fips_W b) [0..<n]) (n - k) = Some (fips_W b (n - k))" if "0 < k" "k \<le> 16" for k
    using Suc.hyps that by (simp add: rd_def)
  then have "sha1_expand (map (fips_W b) [0..<n]) n = Some (map (fips_W b) [0..<Suc n])"
    using Suc.hyps by (simp add: sha1_expand_def rotl32_rotl fips_W.simps [of b n])
  with Suc show ?case by (simp add: foldM_append)
qed

text \<open>The array \<open>w\<close> holds the schedule of the block.\<close>

definition schedule_of :: "bytes \<Rightarrow> u32 list \<Rightarrow> bool" where
  "schedule_of b w \<longleftrightarrow> (\<forall>t < 80. rd w t = Some (fips_W b t))"

lemma sha1_words_schedule: "\<exists>w. sha1_words (le_words b) = Some w \<and> schedule_of b w"
proof -
  have "sha1_words (le_words b) = Some (map (fips_W b) [0..<80])"
    unfolding sha1_words_def be_words_htonl by (rule sha1_schedule) simp
  moreover have "schedule_of b (map (fips_W b) [0..<n])" if "n = 80" for n
    using that by (simp add: schedule_of_def rd_def)
  ultimately show ?thesis by blast
qed

lemma sha1_rounds:
  assumes w: "schedule_of b w" and n: "n \<le> 80"
    and f: "\<And>t. m \<le> t \<Longrightarrow> t < n \<Longrightarrow> f = fips_f t" and k: "\<And>t. m \<le> t \<Longrightarrow> t < n \<Longrightarrow> k = fips_K t"
  shows "foldM (rnd f k w) r [m..<n] = Some (foldl (fips_step b) r [m..<n])"
proof (rule foldM_total)
  fix r t assume "t \<in> set [m..<n]"
  then have t: "m \<le> t" "t < n" by simp_all
  then have "rd w t = Some (fips_W b t)" using w n by (simp add: schedule_of_def)
  then show "rnd f k w r t = Some (fips_step b r t)"
    using f [OF t] k [OF t] by (cases r) (simp add: rnd_def fips_step_def rotl32_rotl)
qed

lemma sha1_rounds_append: "[0..<80] = [0..<20] @ [20..<40] @ [40..<60] @ [60..<80::nat]"
  by code_simp

lemma sha1_run_fips:
  assumes w: "schedule_of b w"
  shows "sha1_run w r = Some (foldl (fips_step b) r [0..<80])"
proof -
  have "foldM (rnd ch 0x5a827999 w) r [0..<20] = Some (foldl (fips_step b) r [0..<20])" for r
    by (rule sha1_rounds [OF w]) (simp_all add: sha1_functions(1) fips_K_def)
  moreover have "foldM (rnd parity3 0x6ed9eba1 w) r [20..<40] = Some (foldl (fips_step b) r [20..<40])" for r
    by (rule sha1_rounds [OF w]) (simp_all add: sha1_functions(2) fips_K_def)
  moreover have "foldM (rnd maj 0x8f1bbcdc w) r [40..<60] = Some (foldl (fips_step b) r [40..<60])" for r
    by (rule sha1_rounds [OF w]) (simp_all add: sha1_functions(3) fips_K_def)
  moreover have "foldM (rnd parity3 0xca62c1d6 w) r [60..<80] = Some (foldl (fips_step b) r [60..<80])" for r
    by (rule sha1_rounds [OF w]) (simp_all add: sha1_functions(4) fips_K_def)
  ultimately show ?thesis by (simp only: sha1_run_def bind.bind_lunit sha1_rounds_append foldl_append)
qed

definition sha1_chain :: "sha1_ctx \<Rightarrow> sha1_regs" where
  "sha1_chain ctx = (let h = sha1_hashv ctx in (h ! 0, h ! 1, h ! 2, h ! 3, h ! 4))"

definition sha1_buffers :: "sha1_ctx \<Rightarrow> bool" where
  "sha1_buffers ctx \<longleftrightarrow> length (sha1_hashv ctx) = 5 \<and> length (sha1_wbuf ctx) = 64"

lemma sha1_compile_fips:
  assumes "sha1_buffers ctx"
  shows "\<exists>ctx'. sha1_compile ctx = Some ctx' \<and> sha1_buffers ctx' \<and> sha1_wbuf ctx' = sha1_wbuf ctx \<and>
    sha1_count0 ctx' = sha1_count0 ctx \<and> sha1_count1 ctx' = sha1_count1 ctx \<and>
    sha1_chain ctx' = fips_block (sha1_chain ctx) (sha1_wbuf ctx)"
proof -
  obtain h0 h1 h2 h3 h4 where h: "sha1_hashv ctx = [h0, h1, h2, h3, h4]"
    using assms by (auto simp: sha1_buffers_def length_Suc_conv numeral_eq_Suc)
  obtain a b c d e where r: "foldl (fips_step (sha1_wbuf ctx)) (h0, h1, h2, h3, h4) [0..<80] = (a, b, c, d, e)"
    by (metis prod_cases5)
  have "sha1_compile ctx = Some (ctx\<lparr>sha1_hashv := [h0 + a, h1 + b, h2 + c, h3 + d, h4 + e]\<rparr>)"
  proof -
    have w: "block_words (sha1_wbuf ctx) 0 = Some (le_words (sha1_wbuf ctx))"
      using assms block_words_in_bounds [of 0 "sha1_wbuf ctx"] by (simp add: sha1_buffers_def)
    have hs: "rd (sha1_hashv ctx) 0 = Some h0" "rd (sha1_hashv ctx) 1 = Some h1" "rd (sha1_hashv ctx) 2 = Some h2"
      "rd (sha1_hashv ctx) 3 = Some h3" "rd (sha1_hashv ctx) 4 = Some h4"
      using h by (simp_all add: rd_def)
    obtain ws where ws: "sha1_words (le_words (sha1_wbuf ctx)) = Some ws" "schedule_of (sha1_wbuf ctx) ws"
      using sha1_words_schedule by blast
    show ?thesis
      unfolding sha1_compile_def w hs ws(1) bind.bind_lunit sha1_run_fips [OF ws(2)] r by simp
  qed
  moreover have "sha1_chain ctx = (h0, h1, h2, h3, h4)" using h by (simp add: sha1_chain_def)
  ultimately show ?thesis
    using assms unfolding fips_block_def by (simp only: case_prod_conv r Let_def) (simp add: sha1_buffers_def sha1_chain_def)
qed


section \<open>Streams\<close>

definition sha1_pos :: "sha1_ctx \<Rightarrow> nat" where
  "sha1_pos ctx = unat (sha1_count0 ctx AND SHA1_MASK)"

definition sha1_pending :: "sha1_ctx \<Rightarrow> bytes" where
  "sha1_pending ctx = take (sha1_pos ctx) (sha1_wbuf ctx)"

definition sha1_total :: "sha1_ctx \<Rightarrow> u64" where
  "sha1_total ctx = of_nat (unat (sha1_count1 ctx) * 2 ^ 32 + unat (sha1_count0 ctx))"

lemma sha1_mask_mod: "unat (w AND SHA1_MASK) = unat w mod 64"
proof -
  have "SHA1_MASK = mask 6" by (simp add: SHA1_MASK_def mask_eq_exp_minus_1)
  then have "w AND SHA1_MASK = take_bit 6 w" by (simp only: take_bit_eq_mask)
  moreover have "unat (take_bit 6 w) = take_bit 6 (unat w)" by (rule unsigned_take_bit_eq)
  ultimately show ?thesis by (simp add: take_bit_eq_mod)
qed

lemma sha1_pos_less [simp]: "sha1_pos ctx < 64"
  by (simp add: sha1_pos_def sha1_mask_mod)

lemma sha1_pos_add: "unat ((w + of_nat n) AND SHA1_MASK) = (unat (w AND SHA1_MASK) + n) mod 64"
proof -
  have "unat (w + of_nat n) mod 64 = ((unat w + n) mod 2 ^ 32) mod 64"
    by (simp add: unat_word_ariths unat_of_nat mod_simps)
  also have "\<dots> = (unat w + n) mod 64" by (rule mod_mod_cancel) simp
  finally show ?thesis by (simp add: sha1_mask_mod mod_simps)
qed

lemma sha1_carry:
  assumes "n < 2 ^ 32"
  shows "(of_nat (unat (if c0 + of_nat n < (of_nat n :: u32) then c1 + 1 else c1) * 2 ^ 32
      + unat (c0 + of_nat n)) :: u64)
    = of_nat (unat (c1 :: u32) * 2 ^ 32 + unat c0) + of_nat n"
proof -
  have n: "unat (of_nat n :: u32) = n" using assms by (simp add: unat_of_nat)
  have c0: "unat c0 < 2 ^ 32" using unsigned_less [of c0] by simp
  show ?thesis
  proof (cases "unat c0 + n < 2 ^ 32")
    case True
    then have s: "unat (c0 + of_nat n) = unat c0 + n" by (simp add: unat_word_ariths n)
    then have "\<not> c0 + of_nat n < (of_nat n :: u32)" by (simp add: word_less_nat_alt n)
    with s show ?thesis by simp
  next
    case False
    then have s: "unat (c0 + of_nat n) = unat c0 + n - 2 ^ 32"
      using assms c0 by (simp add: unat_word_ariths n le_mod_geq)
    then have "c0 + of_nat n < (of_nat n :: u32)" using c0 assms False by (simp add: word_less_nat_alt n)
    moreover have "(of_nat (unat (c1 + 1) * 2 ^ 32 + (unat c0 + n - 2 ^ 32)) :: u64)
        = of_nat (unat c1 * 2 ^ 32 + unat c0) + of_nat n"
    proof (cases "c1 = - 1")
      case True
      have "unat (- 1 :: u32) = 2 ^ 32 - 1" by (simp add: unsigned_minus_1_eq_mask mask_eq_exp_minus_1)
      then have "unat c1 * 2 ^ 32 + unat c0 + n = unat c0 + n - 2 ^ 32 + 2 ^ 64"
        using True False by simp
      then have "(of_nat (unat c1 * 2 ^ 32 + unat c0 + n) :: u64) = of_nat (unat c0 + n - 2 ^ 32) + of_nat (2 ^ 64)"
        by (simp only: of_nat_add)
      moreover have "(of_nat (2 ^ 64) :: u64) = 0" by simp
      ultimately show ?thesis using True by simp
    next
      case False
      then have "unat (c1 + 1) = unat c1 + 1" by (rule unat_plus_1)
      then have "unat (c1 + 1) * 2 ^ 32 + (unat c0 + n - 2 ^ 32) = unat c1 * 2 ^ 32 + unat c0 + n"
        using \<open>\<not> unat c0 + n < 2 ^ 32\<close> by simp
      then show ?thesis by (simp only: of_nat_add)
    qed
    ultimately show ?thesis using s by simp
  qed
qed


lemma sha1_loop_absorb:
  assumes "sha1_buffers ctx" "pos < 64"
  shows "\<exists>ctx'. sha1_loop sp pos (64 - pos) ctx = Some ctx' \<and> sha1_buffers ctx' \<and>
    sha1_count0 ctx' = sha1_count0 ctx \<and> sha1_count1 ctx' = sha1_count1 ctx \<and>
    absorb fips_block (sha1_chain ctx) (take pos (sha1_wbuf ctx) @ sp)
      = (sha1_chain ctx', take ((pos + length sp) mod 64) (sha1_wbuf ctx'))"
  using assms
proof (induction "length sp" arbitrary: sp pos ctx rule: less_induct)
  case less
  let ?p = "take pos (sha1_wbuf ctx)"
  have len: "length (sha1_wbuf ctx) = 64" using less.prems by (simp add: sha1_buffers_def)
  show ?case
  proof (cases "64 - pos \<le> length sp")
    case True
    let ?b = "?p @ take (64 - pos) sp"
    have b: "length ?b = 64" using True less.prems len by simp
    have w: "wr_range (sha1_wbuf ctx) pos (take (64 - pos) sp) = Some ?b"
      using True less.prems len by (simp add: wr_range_def)
    have "sha1_buffers (ctx\<lparr>sha1_wbuf := ?b\<rparr>)" using less.prems b by (simp add: sha1_buffers_def)
    from sha1_compile_fips [OF this] obtain c where c: "sha1_compile (ctx\<lparr>sha1_wbuf := ?b\<rparr>) = Some c"
      "sha1_buffers c" "sha1_count0 c = sha1_count0 ctx" "sha1_count1 c = sha1_count1 ctx"
      "sha1_chain c = fips_block (sha1_chain ctx) ?b"
      by (auto simp: sha1_chain_def)
    have "sha1_loop sp pos (64 - pos) ctx = sha1_loop (drop (64 - pos) sp) 0 64 c"
      using True w c(1) by (subst sha1_loop.simps) (simp add: SHA1_BLOCK_SIZE_def)
    moreover have "absorb fips_block (sha1_chain ctx) (?p @ sp) = absorb fips_block (sha1_chain c) (drop (64 - pos) sp)"
      using absorb_block [OF b, of fips_block "sha1_chain ctx" "drop (64 - pos) sp"] c(5) by simp
    moreover have "(0 + length (drop (64 - pos) sp)) mod 64 = (pos + length sp) mod 64"
    proof -
      have "pos + length sp = length (drop (64 - pos) sp) + 64" using True less.prems by simp
      then show ?thesis by (simp only: mod_add_self2) simp
    qed
    moreover have "length (drop (64 - pos) sp) < length sp" using True less.prems by simp
    moreover note less.hyps [OF this c(2), of 0]
    ultimately show ?thesis using c by auto
  next
    case False
    let ?b = "?p @ sp @ drop (pos + length sp) (sha1_wbuf ctx)"
    have w: "wr_range (sha1_wbuf ctx) pos sp = Some ?b"
      using False len by (simp add: wr_range_def)
    have "sha1_loop sp pos (64 - pos) ctx = Some (ctx\<lparr>sha1_wbuf := ?b\<rparr>)"
      using False w by (subst sha1_loop.simps) simp
    moreover have "length (?p @ sp) < 64" using False len by simp
    moreover have "take ((pos + length sp) mod 64) ?b = ?p @ sp" using False len by simp
    moreover have "sha1_buffers (ctx\<lparr>sha1_wbuf := ?b\<rparr>)" using less.prems False by (simp add: sha1_buffers_def)
    ultimately show ?thesis by (simp add: sha1_chain_def)
  qed
qed

lemma sha1_hash_absorb:
  assumes "sha1_buffers ctx" "length d < 2 ^ 32"
  shows "\<exists>ctx'. sha1_hash d ctx = Some ctx' \<and> sha1_buffers ctx' \<and>
    absorb fips_block (sha1_chain ctx) (sha1_pending ctx @ d) = (sha1_chain ctx', sha1_pending ctx') \<and>
    sha1_total ctx' = sha1_total ctx + of_nat (length d)"
proof -
  let ?n0 = "sha1_count0 ctx + of_nat (length d)"
  let ?n1 = "if ?n0 < of_nat (length d) then sha1_count1 ctx + 1 else sha1_count1 ctx"
  let ?c = "ctx\<lparr>sha1_count0 := ?n0, sha1_count1 := ?n1\<rparr>"
  have "sha1_buffers ?c" using assms(1) by (simp add: sha1_buffers_def)
  from sha1_loop_absorb [OF this sha1_pos_less, of d ctx] obtain c' where c':
    "sha1_loop d (sha1_pos ctx) (64 - sha1_pos ctx) ?c = Some c'" "sha1_buffers c'"
    "sha1_count0 c' = ?n0" "sha1_count1 c' = ?n1"
    "absorb fips_block (sha1_chain ctx) (sha1_pending ctx @ d)
      = (sha1_chain c', take ((sha1_pos ctx + length d) mod 64) (sha1_wbuf c'))"
    by (auto simp: sha1_chain_def sha1_pending_def)
  have "sha1_pos c' = (sha1_pos ctx + length d) mod 64"
    by (simp add: sha1_pos_def c'(3) sha1_pos_add)
  moreover have "sha1_total c' = sha1_total ctx + of_nat (length d)"
    unfolding sha1_total_def c'(3,4) by (rule sha1_carry [OF assms(2)])
  moreover have "sha1_hash d ctx = Some c'"
    using c'(1) by (simp add: sha1_hash_def Let_def sha1_pos_def SHA1_BLOCK_SIZE_def)
  ultimately show ?thesis using c' by (auto simp: sha1_pending_def)
qed


section \<open>The padding\<close>

lemma u32_of_le_and: "u32_of_le a b c d AND u32_of_le a' b' c' d'
    = u32_of_le (a AND a') (b AND b') (c AND c') (d AND d')"
  and u32_of_le_or: "u32_of_le a b c d OR u32_of_le a' b' c' d'
    = u32_of_le (a OR a') (b OR b') (c OR c') (d OR d')"
  by (intro bit_word_eqI; auto simp: u32_of_le_def bit_simps dest: bit_imp_le_length)+

lemma sha1_mask_bytes:
  "(0x00000000 :: u32) = u32_of_le 0 0 0 0" "(0x000000ff :: u32) = u32_of_le 0xff 0 0 0"
  "(0x0000ffff :: u32) = u32_of_le 0xff 0xff 0 0" "(0x00ffffff :: u32) = u32_of_le 0xff 0xff 0xff 0"
  "(0x00000080 :: u32) = u32_of_le 0x80 0 0 0" "(0x00008000 :: u32) = u32_of_le 0 0x80 0 0"
  "(0x00800000 :: u32) = u32_of_le 0 0 0x80 0" "(0x80000000 :: u32) = u32_of_le 0 0 0 0x80"
  by code_simp+

lemma and_ff_byte [simp]: "(b :: byte) AND 0xff = b"
proof -
  have "(0xff :: byte) = - 1" by simp
  then show ?thesis by (simp only: and.right_neutral)
qed

lemma le32_u32_of_le [simp]: "le32 (u32_of_le a b c d) = [a, b, c, d]"
  by (simp add: le32_def)

lemma sha1_pad_bytes:
  assumes "k < 4"
  shows "\<exists>m v. rd sha1_mask k = Some m \<and> rd sha1_bits k = Some v \<and>
    le32 ((u32_of_le a b c d AND m) OR v) = take k [a, b, c, d] @ 0x80 # replicate (3 - k) 0"
proof -
  consider "k = 0" | "k = 1" | "k = 2" | "k = 3" using assms by linarith
  then show ?thesis
    by cases (simp_all add: rd_def sha1_mask_def sha1_bits_def, simp_all only: sha1_mask_bytes u32_of_le_and u32_of_le_or, simp_all add: numeral_2_eq_2 numeral_3_eq_3)
qed


lemma store_word_in_bounds:
  "4 * i + 4 \<le> length buf \<Longrightarrow> store_word buf i w = Some (take (4 * i) buf @ le32 w @ drop (4 * i + 4) buf)"
  by (simp add: store_word_def wr_range_def)

lemma take_four: "4 \<le> length xs \<Longrightarrow> take 4 xs = [xs ! 0, xs ! 1, xs ! 2, xs ! 3]"
  by (cases xs; cases "tl xs"; cases "tl (tl xs)"; cases "tl (tl (tl xs))")
    (auto simp: numeral_2_eq_2 numeral_3_eq_3)

text \<open>The word with the end mark: the rest of the word is cleared.\<close>

lemma sha1_mark:
  assumes "length buf = 64" "n < 64"
  shows "\<exists>w m v. load32 buf (4 * (n div 4)) = Some w \<and> rd sha1_mask (n mod 4) = Some m \<and>
    rd sha1_bits (n mod 4) = Some v \<and>
    store_word buf (n div 4) ((w AND m) OR v)
      = Some (take n buf @ 0x80 # replicate (3 - n mod 4) 0 @ drop (4 * (n div 4) + 4) buf)"
proof -
  let ?q = "4 * (n div 4)" and ?k = "n mod 4"
  have q: "?q + 4 \<le> 64" "n = ?q + ?k" "?k < 4" using assms(2) by auto
  let ?x = "buf ! ?q" and ?y = "buf ! (?q + 1)" and ?z = "buf ! (?q + 2)" and ?u = "buf ! (?q + 3)"
  have "load32 buf ?q = Some (u32_of_le ?x ?y ?z ?u)"
    using q assms(1) by (simp add: load32_def rd_def)
  moreover obtain m v where mv: "rd sha1_mask ?k = Some m" "rd sha1_bits ?k = Some v"
    "le32 ((u32_of_le ?x ?y ?z ?u AND m) OR v) = take ?k [?x, ?y, ?z, ?u] @ 0x80 # replicate (3 - ?k) 0"
    using sha1_pad_bytes [OF q(3)] by blast
  moreover have "take n buf = take ?q buf @ take ?k [?x, ?y, ?z, ?u]"
  proof -
    have "take 4 (drop ?q buf) = [?x, ?y, ?z, ?u]"
      using q(1) assms(1) take_four [of "drop ?q buf"] by simp
    then have "take ?k (drop ?q buf) = take ?k [?x, ?y, ?z, ?u]"
      using q(3) by (metis min.absorb1 less_imp_le take_take)
    then show ?thesis by (metis q(2) take_add)
  qed
  moreover have "store_word buf (n div 4) ((u32_of_le ?x ?y ?z ?u AND m) OR v)
      = Some (take ?q buf @ (take ?k [?x, ?y, ?z, ?u] @ 0x80 # replicate (3 - ?k) 0) @ drop (?q + 4) buf)"
    unfolding mv(3) [symmetric] using q(1) assms(1) by (simp add: store_word_in_bounds)
  ultimately show ?thesis by auto
qed

lemma le32_0 [simp]: "le32 0 = replicate 4 0"
  by (simp add: le32_def numeral_eq_Suc)

lemma sha1_zero_fill:
  assumes "length buf = 64" "n \<le> 14"
  shows "sha1_zero n buf = Some (take (4 * n) buf @ replicate (56 - 4 * n) 0 @ drop 56 buf)"
  using assms
proof (induction "14 - n" arbitrary: n buf)
  case 0
  then have "n = 14" by simp
  then show ?case by (simp add: sha1_zero.simps [of 14])
next
  case (Suc d)
  let ?b = "take (4 * n) buf @ replicate 4 0 @ drop (4 * n + 4) buf"
  have n: "n < 14" using Suc by simp
  have "sha1_zero n buf = sha1_zero (n + 1) ?b"
    using n Suc.prems store_word_in_bounds [of n buf 0] by (subst sha1_zero.simps) simp
  also have "\<dots> = Some (take (4 * (n + 1)) ?b @ replicate (56 - 4 * (n + 1)) 0 @ drop 56 ?b)"
    using Suc n by (intro Suc.hyps) auto
  also have "take (4 * (n + 1)) ?b = take (4 * n) buf @ replicate 4 0" using n Suc.prems by simp
  also have "drop 56 ?b = drop 56 buf" using n Suc.prems by (simp add: drop_drop)
  also have "replicate (56 - 4 * n) (0::byte) = replicate 4 0 @ replicate (56 - 4 * (n + 1)) 0"
    using n by (simp flip: replicate_add)
  then have "(take (4 * n) buf @ replicate 4 0) @ replicate (56 - 4 * (n + 1)) 0 @ drop 56 buf
      = take (4 * n) buf @ replicate (56 - 4 * n) 0 @ drop 56 buf" by simp
  finally show ?case .
qed

lemma store_two_words:
  assumes "length buf = 64"
  shows "store_word buf 14 x \<bind> (\<lambda>b. store_word b 15 y) = Some (take 56 buf @ le32 x @ le32 y)"
  using assms by (simp add: store_word_in_bounds)

lemma le32_htonl: "le32 (htonl x) = be32 x"
  by (simp add: ntohl_def be32_def)


lemma sha1_total_bits:
  "(of_nat (unat (c1 :: u32) * 2 ^ 32 + unat (c0 :: u32)) :: u64) = push_bit 32 (ucast c1) OR ucast c0"
proof -
  have "(of_nat (unat c1 * 2 ^ 32 + unat c0) :: u64) = push_bit 32 (ucast c1) + ucast c0"
    by (simp add: push_bit_eq_mult)
  also have "\<dots> = push_bit 32 (ucast c1) OR ucast c0"
    by (rule disjunctive_add_eq_or) (auto simp: bit_eq_iff bit_simps dest: bit_imp_le_length)
  finally show ?thesis .
qed

lemma sha1_length_bytes:
  "be32 (push_bit 3 c1 OR drop_bit 29 c0) @ be32 (push_bit 3 c0)
    = be64 (8 * of_nat (unat (c1 :: u32) * 2 ^ 32 + unat (c0 :: u32)))"
proof -
  have "8 * of_nat (unat c1 * 2 ^ 32 + unat c0) = (push_bit 3 (push_bit 32 (ucast c1) OR ucast c0) :: u64)"
    unfolding sha1_total_bits by (simp add: push_bit_eq_mult)
  moreover have "be64 w = [ucast (drop_bit 56 w), ucast (drop_bit 48 w), ucast (drop_bit 40 w), ucast (drop_bit 32 w),
      ucast (drop_bit 24 w), ucast (drop_bit 16 w), ucast (drop_bit 8 w), ucast w]" for w
    by (simp add: be64_def upt_rec)
  moreover have hi: "(ucast (drop_bit j (push_bit 3 c1 OR drop_bit 29 c0)) :: byte)
      = ucast (drop_bit (j + 32) (push_bit 3 (push_bit 32 (ucast c1) OR ucast c0) :: u64))" if "j \<le> 24" for j
    by (rule bit_word_eqI) (use that in \<open>auto simp: bit_simps add.assoc add.left_commute dest: bit_imp_le_length\<close>)
  moreover have lo: "(ucast (drop_bit j (push_bit 3 c0)) :: byte)
      = ucast (drop_bit j (push_bit 3 (push_bit 32 (ucast c1) OR ucast c0) :: u64))" if "j \<le> 24" for j
    by (rule bit_word_eqI) (use that in \<open>auto simp: bit_simps dest: bit_imp_le_length\<close>)
  ultimately show ?thesis
    using hi [of 0] hi [of 8] hi [of 16] hi [of 24] lo [of 0] lo [of 8] lo [of 16] lo [of 24]
    by (simp add: be32_def)
qed

lemma sha1_result_digest:
  assumes "sha1_buffers ctx"
  shows "sha1_result (sha1_hashv ctx) = Some (fips_digest (sha1_chain ctx))"
proof -
  obtain h0 h1 h2 h3 h4 where h: "sha1_hashv ctx = [h0, h1, h2, h3, h4]"
    using assms by (auto simp: sha1_buffers_def length_Suc_conv numeral_eq_Suc)
  have "[0..<SHA1_DIGEST_SIZE] = [0, 1, 2, 3, 4, 5, 6, 7, 8, 9, 10, 11, 12, 13, 14, 15, 16, 17, 18, 19]"
    by code_simp
  then show ?thesis
    by (simp add: sha1_result_def h sha1_chain_def fips_digest_def be32_def rd_def)
qed

text \<open>The end of \<open>sha1_end\<close>, with the buffer \<open>b\<close> that the zeros are written to.\<close>

lemma sha1_last_block:
  assumes "sha1_buffers ctx" "n \<le> 14"
    and blk: "blk = take (4 * n) (sha1_wbuf ctx) @ replicate (56 - 4 * n) 0 @ be64 (8 * sha1_total ctx)"
  shows "do {
     buf \<leftarrow> sha1_zero n (sha1_wbuf ctx);
     buf \<leftarrow> store_word buf 14 (htonl (push_bit 3 (sha1_count1 ctx) OR drop_bit 29 (sha1_count0 ctx)));
     buf \<leftarrow> store_word buf 15 (htonl (push_bit 3 (sha1_count0 ctx)));
     ctx \<leftarrow> sha1_compile (ctx\<lparr>sha1_wbuf := buf\<rparr>);
     sha1_result (sha1_hashv ctx) }
   = Some (fips_digest (fips_block (sha1_chain ctx) blk))"
proof -
  let ?z = "take (4 * n) (sha1_wbuf ctx) @ replicate (56 - 4 * n) 0 @ drop 56 (sha1_wbuf ctx)"
  let ?x = "htonl (push_bit 3 (sha1_count1 ctx) OR drop_bit 29 (sha1_count0 ctx))"
  let ?y = "htonl (push_bit 3 (sha1_count0 ctx))"
  have len: "length (sha1_wbuf ctx) = 64" using assms(1) by (simp add: sha1_buffers_def)
  have z: "sha1_zero n (sha1_wbuf ctx) = Some ?z" by (rule sha1_zero_fill [OF len assms(2)])
  have "length ?z = 64" using len assms(2) by simp
  moreover have "take 56 ?z @ le32 ?x @ le32 ?y = blk"
    using len assms(2) sha1_length_bytes [of "sha1_count1 ctx" "sha1_count0 ctx"]
    by (simp add: le32_htonl blk sha1_total_def)
  ultimately have s: "store_word ?z 14 ?x \<bind> (\<lambda>b. store_word b 15 ?y) = Some blk"
    by (metis store_two_words)
  have "length blk = 64" using len assms(2) by (simp add: blk be64_def)
  then have "sha1_buffers (ctx\<lparr>sha1_wbuf := blk\<rparr>)" using assms(1) by (simp add: sha1_buffers_def)
  from sha1_compile_fips [OF this] obtain c where c: "sha1_compile (ctx\<lparr>sha1_wbuf := blk\<rparr>) = Some c"
    "sha1_buffers c" "sha1_chain c = fips_block (sha1_chain ctx) blk"
    by (auto simp: sha1_chain_def)
  show ?thesis
    unfolding z bind.bind_lunit Option.bind_assoc [symmetric] s
    by (simp add: c sha1_result_digest)
qed


definition sha1_tail :: "nat \<Rightarrow> sha1_ctx \<Rightarrow> bytes option" where
  "sha1_tail n ctx = do {
     buf \<leftarrow> sha1_zero n (sha1_wbuf ctx);
     buf \<leftarrow> store_word buf 14 (htonl (push_bit 3 (sha1_count1 ctx) OR drop_bit 29 (sha1_count0 ctx)));
     buf \<leftarrow> store_word buf 15 (htonl (push_bit 3 (sha1_count0 ctx)));
     ctx \<leftarrow> sha1_compile (ctx\<lparr>sha1_wbuf := buf\<rparr>);
     sha1_result (sha1_hashv ctx) }"

lemma sha1_end_marked:
  assumes "length (sha1_wbuf ctx) = 64" "n = sha1_pos ctx"
    "buf = take n (sha1_wbuf ctx) @ 0x80 # replicate (3 - n mod 4) 0 @ drop (4 * (n div 4) + 4) (sha1_wbuf ctx)"
  shows "sha1_end ctx =
    (if n > 55 then do {
       buf \<leftarrow> (if n < 60 then store_word buf 15 0 else Some buf);
       ctx \<leftarrow> sha1_compile (ctx\<lparr>sha1_wbuf := buf\<rparr>);
       sha1_tail 0 ctx }
     else sha1_tail (n div 4 + 1) (ctx\<lparr>sha1_wbuf := buf\<rparr>))"
proof -
  have "n < 64" using assms(2) by simp
  then obtain w m v where s: "load32 (sha1_wbuf ctx) (4 * (n div 4)) = Some w" "rd sha1_mask (n mod 4) = Some m"
    "rd sha1_bits (n mod 4) = Some v" "store_word (sha1_wbuf ctx) (n div 4) ((w AND m) OR v) = Some buf"
    using sha1_mark [OF assms(1), of n] assms(3) by auto
  then show ?thesis
    unfolding sha1_end_def sha1_pos_def [symmetric] assms(2) [symmetric] SHA1_BLOCK_SIZE_def Let_def
    by (auto simp: sha1_tail_def Option.bind_assoc intro!: Option.bind_cong)
qed

lemma sha1_two_blocks:
  assumes len: "length w = 64" and n: "55 < n" "n < 64" and p: "length p = n"
  shows "(if n < 60 then store_word (p @ 0x80 # replicate (3 - n mod 4) 0 @ drop (4 * (n div 4) + 4) w) 15 0
      else Some (p @ 0x80 # replicate (3 - n mod 4) 0 @ drop (4 * (n div 4) + 4) w))
    = Some (p @ 0x80 # replicate (63 - n) 0)"
proof (cases "n < 60")
  case True
  have d: "n div 4 = 14" using n True by simp
  have r: "63 - n = (3 - n mod 4) + 4" using n True by presburger
  let ?x = "p @ 0x80 # replicate (3 - n mod 4) 0"
  have x: "length ?x = 60" using p r True by simp
  have "wr_range (?x @ drop 60 w @ []) (length ?x) (replicate 4 0) = Some (?x @ replicate 4 0 @ [])"
    using len by (intro wr_range_append) simp
  moreover have "replicate (63 - n) (0::byte) = replicate (3 - n mod 4) 0 @ replicate 4 0"
    unfolding r by (rule replicate_add)
  ultimately show ?thesis using x True d by (simp add: store_word_def)
next
  case False
  have "n div 4 = 15" using n False by simp
  moreover have "63 - n = 3 - n mod 4" using n False by presburger
  ultimately show ?thesis using False len by simp
qed

lemma sha1_one_block:
  assumes n: "n \<le> 55" and p: "length p = n"
  shows "p @ 0x80 # replicate (55 - n) 0 @ l
    = take (4 * (n div 4 + 1)) (p @ 0x80 # replicate (3 - n mod 4) 0 @ rest)
      @ replicate (56 - 4 * (n div 4 + 1)) 0 @ (l :: bytes)"
proof -
  let ?x = "p @ 0x80 # replicate (3 - n mod 4) 0"
  have "n + Suc (3 - n mod 4) = 4 * (n div 4 + 1)" by presburger
  then have "length ?x = 4 * (n div 4 + 1)" using p by (simp only: length_append length_Cons length_replicate)
  then have "take (4 * (n div 4 + 1)) (?x @ rest) = ?x" by (metis append_eq_conv_conj)
  moreover have r: "55 - n = (3 - n mod 4) + (56 - 4 * (n div 4 + 1))" using n by presburger
  have "replicate (55 - n) (0::byte) = replicate (3 - n mod 4) 0 @ replicate (56 - 4 * (n div 4 + 1)) 0"
    unfolding r by (rule replicate_add)
  ultimately show ?thesis by simp
qed

lemma sha1_end_absorb:
  assumes ok: "sha1_buffers ctx"
  shows "sha1_end ctx = Some (fips_digest (fst (absorb fips_block (sha1_chain ctx)
    (sha1_pending ctx @ [0x80] @ replicate (pad_zeros (length (sha1_pending ctx))) 0 @ be64 (8 * sha1_total ctx)))))"
proof -
  define n where "n = sha1_pos ctx"
  let ?l = "be64 (8 * sha1_total ctx)" and ?p = "sha1_pending ctx"
  have len: "length (sha1_wbuf ctx) = 64" and n: "n < 64" using ok by (auto simp: sha1_buffers_def n_def)
  have p: "take n (sha1_wbuf ctx) = ?p" "length ?p = n" using len n by (simp_all add: sha1_pending_def n_def)
  define buf where "buf = ?p @ 0x80 # replicate (3 - n mod 4) 0 @ drop (4 * (n div 4) + 4) (sha1_wbuf ctx)"
  have q: "n = 4 * (n div 4) + n mod 4" "n mod 4 < 4" by simp_all
  have bl: "length buf = 64" using len n p q by (simp add: buf_def)
  note E = sha1_end_marked [OF len n_def, unfolded p(1), OF buf_def]
  show ?thesis
  proof (cases "n > 55")
    case True
    let ?b1 = "?p @ 0x80 # replicate (63 - n) 0" and ?b2 = "replicate 56 0 @ ?l"
    have "(if n < 60 then store_word buf 15 0 else Some buf) = Some ?b1"
      unfolding buf_def by (rule sha1_two_blocks [OF len True n p(2)])
    moreover have b1: "length ?b1 = 64" using p n by simp
    then have "sha1_buffers (ctx\<lparr>sha1_wbuf := ?b1\<rparr>)" using ok by (simp add: sha1_buffers_def)
    from sha1_compile_fips [OF this] obtain c where c: "sha1_compile (ctx\<lparr>sha1_wbuf := ?b1\<rparr>) = Some c"
      "sha1_buffers c" "sha1_chain c = fips_block (sha1_chain ctx) ?b1" "sha1_total c = sha1_total ctx"
      by (auto simp: sha1_chain_def sha1_total_def)
    moreover have "sha1_tail 0 c = Some (fips_digest (fips_block (sha1_chain c) ?b2))"
      unfolding sha1_tail_def using c(4) by (intro sha1_last_block [OF c(2)]) simp_all
    moreover have "pad_zeros n = 63 - n + 56" using True n by (simp add: pad_zeros_cases)
    then have "?p @ [0x80] @ replicate (pad_zeros n) 0 @ ?l = ?b1 @ ?b2"
      by (simp add: replicate_add)
    then have "absorb fips_block (sha1_chain ctx) (?p @ [0x80] @ replicate (pad_zeros n) 0 @ ?l)
        = (fips_block (fips_block (sha1_chain ctx) ?b1) ?b2, [])"
      using b1 by (simp only: absorb_block) (simp add: be64_def)
    ultimately show ?thesis unfolding E p(2) using True by simp
  next
    case False
    let ?b = "?p @ 0x80 # replicate (55 - n) 0 @ ?l"
    have b: "length ?b = 64" using False p by (simp add: be64_def)
    have "sha1_buffers (ctx\<lparr>sha1_wbuf := buf\<rparr>)" using ok bl by (simp add: sha1_buffers_def)
    moreover have "?b = take (4 * (n div 4 + 1)) buf @ replicate (56 - 4 * (n div 4 + 1)) 0 @ ?l"
      using sha1_one_block [OF _ p(2)] False by (simp add: buf_def)
    ultimately have "sha1_tail (n div 4 + 1) (ctx\<lparr>sha1_wbuf := buf\<rparr>) = Some (fips_digest (fips_block (sha1_chain ctx) ?b))"
      unfolding sha1_tail_def
      using sha1_last_block [of "ctx\<lparr>sha1_wbuf := buf\<rparr>" "n div 4 + 1" ?b] False
      by (simp add: sha1_total_def sha1_chain_def)
    moreover have "pad_zeros n = 55 - n" using False by (simp add: pad_zeros_cases)
    then have "absorb fips_block (sha1_chain ctx) (?p @ [0x80] @ replicate (pad_zeros n) 0 @ ?l)
        = (fips_block (sha1_chain ctx) ?b, [])"
      using absorb_last_block [OF b] by simp
    ultimately show ?thesis unfolding E p(2) using False by simp
  qed
qed


definition sha1_fresh :: "sha1_ctx \<Rightarrow> bool" where
  "sha1_fresh ctx \<longleftrightarrow> (\<exists>junk. length junk = 64 \<and> ctx = sha1_begin junk)"

interpretation sha1: stream_hash fips_block fips_H0 be64 fips_digest
  sha1_buffers sha1_chain sha1_pending sha1_total sha1_fresh sha1_hash sha1_end
proof unfold_locales
  fix c assume "sha1_fresh c"
  then show "sha1_buffers c \<and> sha1_chain c = fips_H0 \<and> sha1_pending c = [] \<and> sha1_total c = 0"
    by (auto simp: sha1_fresh_def sha1_begin_def sha1_buffers_def sha1_chain_def sha1_pending_def
        sha1_pos_def sha1_total_def)
next
  fix c assume "sha1_buffers c"
  then show "length (sha1_pending c) < 64" by (simp add: sha1_pending_def min.strict_coboundedI2)
qed (use sha1_hash_absorb sha1_end_absorb in blast)+

end
