(* ===== verification/Hash_Sum.thy ===== *)
theory Hash_Sum
  imports Sha1
begin

text \<open>
  The applets \<open>md5sum\<close> and \<open>sha1sum\<close> (\<open>coreutils/md5_sha1_sum.c\<close>). A file is the list of the results
  of \<open>read\<close>, with whether it ends in the result 0 or in an error. The descriptor of the standard
  input and the stream \<open>stdin\<close> that a list of digests can be read from are two inputs. Uninitialised
  memory holds the bytes of an argument \<open>junk\<close>. The options are parsed by \<open>bb_getopt_ulflags\<close>, whose
  result is an argument. Undefined behaviour is the error \<open>Hs_undefined\<close>.
\<close>

section \<open>Hexadecimal output\<close>

text \<open>\<open>snprintf(buf + off, n, ...)\<close> for the text \<open>s\<close>, without its result, the length of \<open>s\<close>.\<close>

definition snprintf_at :: "bytes \<Rightarrow> nat \<Rightarrow> nat \<Rightarrow> bytes \<Rightarrow> bytes option" where
  "snprintf_at buf off n s = (if n = 0 then Some buf else wr_range buf off (take (n - 1) s @ [0]))"

definition hex_digit :: "nat \<Rightarrow> byte" where
  "hex_digit d = (if d < 10 then 48 + of_nat d else 87 + of_nat d)"

definition hex02 :: "byte \<Rightarrow> bytes" where
  "hex02 b = [hex_digit (unat b div 16), hex_digit (unat b mod 16)]"

definition hex_step :: "bytes \<Rightarrow> nat \<Rightarrow> bytes \<times> nat \<Rightarrow> nat \<Rightarrow> (bytes \<times> nat) option" where
  "hex_step hash_value mx = (\<lambda>(hex_value, len) x. do {
     v \<leftarrow> rd hash_value x;
     hex_value \<leftarrow> snprintf_at hex_value len (mx - len) (hex02 v);
     Some (hex_value, len + length (hex02 v)) })"

definition hash_bin_to_hex :: "(nat \<Rightarrow> byte) \<Rightarrow> bytes \<Rightarrow> nat \<Rightarrow> bytes option" where
  "hash_bin_to_hex junk hash_value hash_length = do {
     let mx = hash_length * 2 + 2;
     (hex_value, _) \<leftarrow> foldM (hex_step hash_value mx) (map junk [0..<mx], 0) [0..<hash_length];
     Some hex_value }"

section \<open>The digest of a file\<close>

datatype hash_algo = HASH_SHA1 | HASH_MD5

type_synonym reads = "bytes list \<times> bool"

text \<open>The files that can be opened, the lists of digests, and whether closing a list succeeds.\<close>

record hash_env =
  hs_config :: int
  hs_junk :: "nat \<Rightarrow> byte"
  hs_open :: "bytes \<Rightarrow> reads option"
  hs_list :: "bytes \<Rightarrow> bytes option"
  hs_stdin_list :: bytes
  hs_fclose_ok :: bool

datatype hs_error = Hs_undefined | Silent_without_check | Warn_without_check | One_argument_only
  | List_not_opened | List_not_closed

definition defined :: "'a option \<Rightarrow> hs_error + 'a" where
  "defined x = (case x of None \<Rightarrow> Inl Hs_undefined | Some v \<Rightarrow> Inr v)"

text \<open>The part of \<open>hash_file\<close> behind \<open>open\<close>: the string, or \<open>NULL\<close> after an error of \<open>read\<close>.\<close>

definition hash_reads :: "hash_env \<Rightarrow> hash_algo \<Rightarrow> reads \<Rightarrow> bytes option option" where
  "hash_reads e algo = (\<lambda>(counts, eof). do {
     r \<leftarrow> (case algo of
       HASH_MD5 \<Rightarrow> do {
         c \<leftarrow> foldM (\<lambda>c d. md5_hash (hs_config e) d c) (md5_begin (map (hs_junk e) [0..<128])) counts;
         if eof then do { h \<leftarrow> md5_end (hs_config e) c; Some (Some (h, 16)) } else Some None }
     | HASH_SHA1 \<Rightarrow> do {
         c \<leftarrow> foldM (\<lambda>c d. sha1_hash d c) (sha1_begin (map (hs_junk e) [0..<64])) counts;
         if eof then do { h \<leftarrow> sha1_end c; Some (Some (h, 20)) } else Some None });
     case r of
       None \<Rightarrow> Some None
     | Some (in_buf, hash_len) \<Rightarrow> do {
         hex \<leftarrow> hash_bin_to_hex (hs_junk e) in_buf hash_len;
         Some (Some (c_str hex)) } })"

text \<open>\<open>stdin\<close> is what can still be read from the descriptor.\<close>

definition hash_file :: "hash_env \<Rightarrow> hash_algo \<Rightarrow> bytes \<Rightarrow> reads \<Rightarrow> (bytes option \<times> reads) option" where
  "hash_file e algo filename stdin =
     (if filename = [45] then do { v \<leftarrow> hash_reads e algo stdin; Some (v, ([], snd stdin)) }
      else case hs_open e filename of
        None \<Rightarrow> Some (None, stdin)
      | Some f \<Rightarrow> do { v \<leftarrow> hash_reads e algo f; Some (v, stdin) })"

section \<open>The applet\<close>

definition FLAG_SILENT :: u32 where "FLAG_SILENT = 1"
definition FLAG_CHECK :: u32 where "FLAG_CHECK = 2"
definition FLAG_WARN :: u32 where "FLAG_WARN = 4"

text \<open>What is printed, and the messages; those of \<open>open\<close> are left out.\<close>

datatype hs_event = Print bytes | Invalid_format | Did_not_match nat nat

text \<open>The first two blanks of a line: the part in front of them and the part behind them.\<close>

fun strstr_blanks :: "bytes \<Rightarrow> (bytes \<times> bytes) option" where
  "strstr_blanks (a # b # s) =
     (if a = 32 \<and> b = 32 then Some ([], s)
      else map_option (\<lambda>(l, r). (a # l, r)) (strstr_blanks (b # s)))"
| "strstr_blanks _ = None"

text \<open>The state of the loop over the lines: \<open>count_total\<close>, \<open>count_failed\<close>, \<open>return_value\<close>.\<close>

record check_state =
  ck_total :: nat
  ck_failed :: nat
  ck_return :: int
  ck_events :: "hs_event list"
  ck_stdin :: reads

definition check_fail :: "hs_event list \<Rightarrow> check_state \<Rightarrow> check_state" where
  "check_fail ev s = s\<lparr>ck_failed := ck_failed s + 1, ck_return := 1, ck_events := ck_events s @ ev\<rparr>"

definition check_line :: "hash_env \<Rightarrow> hash_algo \<Rightarrow> u32 \<Rightarrow> bytes \<Rightarrow> check_state \<Rightarrow> check_state option" where
  "check_line e algo flags line s0 =
     (let s = s0\<lparr>ck_total := ck_total s0 + 1\<rparr> in
      case strstr_blanks line of
        None \<Rightarrow> Some (check_fail (if flags AND FLAG_WARN \<noteq> 0 then [Invalid_format] else []) s)
      | Some (digest, name) \<Rightarrow> do {
          (hash_value, stdin) \<leftarrow> hash_file e algo name (ck_stdin s);
          let s = s\<lparr>ck_stdin := stdin\<rparr>;
          let verbose = (flags AND FLAG_SILENT = 0);
          Some (if hash_value = Some digest
            then s\<lparr>ck_events := ck_events s @ (if verbose then [Print (name @ str_bytes '': OK'' @ [10])] else [])\<rparr>
            else check_fail (if verbose then [Print (name @ str_bytes '': FAILED'' @ [10])] else []) s) })"

function check_lines :: "hash_env \<Rightarrow> hash_algo \<Rightarrow> u32 \<Rightarrow> bytes \<Rightarrow> check_state \<Rightarrow> check_state option" where
  "check_lines e algo flags f s =
     (case bb_get_chomped_line_from_file f of
        None \<Rightarrow> Some s
      | Some (line, rest) \<Rightarrow> do { s \<leftarrow> check_line e algo flags line s; check_lines e algo flags rest s })"
  by pat_completeness auto
termination
  by (relation "measure (\<lambda>(_, _, _, f, _). length f)") (auto dest: chomped_line_shorter)

declare check_lines.simps [simp del]

text \<open>The loop over the files: \<open>return_value\<close>, what is printed, and the standard input.\<close>

definition sum_one :: "hash_env \<Rightarrow> hash_algo \<Rightarrow> int \<times> hs_event list \<times> reads \<Rightarrow> bytes \<Rightarrow> (int \<times> hs_event list \<times> reads) option" where
  "sum_one e algo = (\<lambda>(rv, ev, stdin) file_ptr. do {
     (hash_value, stdin) \<leftarrow> hash_file e algo file_ptr stdin;
     Some (case hash_value of
       None \<Rightarrow> (1, ev, stdin)
     | Some h \<Rightarrow> (rv, ev @ [Print (h @ [32, 32] @ file_ptr @ [10])], stdin)) })"

text \<open>
  \<open>check\<close> is the option of the build for \<open>-c\<close>; without it no option is parsed and the flags count as
  zero. The arguments are those behind the options.
\<close>

definition hash_files :: "bool \<Rightarrow> hash_env \<Rightarrow> hash_algo \<Rightarrow> u32 \<Rightarrow> bytes list \<Rightarrow> reads \<Rightarrow> hs_error + (hs_event list \<times> int)" where
  "hash_files check e algo flags0 args stdin =
     (let flags = (if check then flags0 else 0);
          args = (if args = [] then [[45]] else args)
      in if flags AND FLAG_CHECK = 0 \<and> flags AND FLAG_SILENT \<noteq> 0 then Inl Silent_without_check
      else if flags AND FLAG_CHECK = 0 \<and> flags AND FLAG_WARN \<noteq> 0 then Inl Warn_without_check
      else if flags AND FLAG_CHECK \<noteq> 0 then
        (case args of
           [file_ptr] \<Rightarrow>
             bind_res (if file_ptr = [45] then Inr (hs_stdin_list e)
                       else case hs_list e file_ptr of None \<Rightarrow> Inl List_not_opened | Some f \<Rightarrow> Inr f) (\<lambda>f.
             bind_res (defined (check_lines e algo flags f \<lparr>ck_total = 0, ck_failed = 0, ck_return = 0,
                 ck_events = [], ck_stdin = stdin\<rparr>)) (\<lambda>s.
             if file_ptr \<noteq> [45] \<and> \<not> hs_fclose_ok e then Inl List_not_closed
             else Inr (ck_events s @ (if ck_failed s \<noteq> 0 \<and> flags AND FLAG_SILENT = 0
                 then [Did_not_match (ck_failed s) (ck_total s)] else []), ck_return s)))
         | _ \<Rightarrow> Inl One_argument_only)
      else bind_res (defined (foldM (sum_one e algo) (0, [], stdin) args)) (\<lambda>(rv, ev, _). Inr (ev, rv)))"

definition md5sum_main :: "bool \<Rightarrow> hash_env \<Rightarrow> u32 \<Rightarrow> bytes list \<Rightarrow> reads \<Rightarrow> hs_error + (hs_event list \<times> int)" where
  "md5sum_main check e flags args stdin = hash_files check e HASH_MD5 flags args stdin"

definition sha1sum_main :: "bool \<Rightarrow> hash_env \<Rightarrow> u32 \<Rightarrow> bytes list \<Rightarrow> reads \<Rightarrow> hs_error + (hs_event list \<times> int)" where
  "sha1sum_main check e flags args stdin = hash_files check e HASH_SHA1 flags args stdin"

section \<open>The digest of a file is that of its contents\<close>

definition hash_spec :: "hash_algo \<Rightarrow> bytes \<Rightarrow> bytes" where
  "hash_spec algo m = (case algo of HASH_MD5 \<Rightarrow> rfc_md5 m | HASH_SHA1 \<Rightarrow> fips_sha1 m)"

definition hex_string :: "bytes \<Rightarrow> bytes" where
  "hex_string b = concat (map hex02 b)"

lemma length_hex_string [simp]: "length (hex_string b) = 2 * length b"
  by (induction b) (simp_all add: hex_string_def hex02_def)

lemma hex_digit_range: "d < 16 \<Longrightarrow> hex_digit d \<noteq> 0 \<and> hex_digit d \<noteq> 10 \<and> hex_digit d \<noteq> 32"
proof -
  assume "d < 16"
  moreover have "\<forall>d \<in> set [0..<16]. hex_digit d \<noteq> 0 \<and> hex_digit d \<noteq> 10 \<and> hex_digit d \<noteq> 32"
    by code_simp
  ultimately show ?thesis by simp
qed

lemma hex_string_chars: "\<forall>c \<in> set (hex_string b). c \<noteq> 0 \<and> c \<noteq> 10 \<and> c \<noteq> 32"
proof -
  have "unat v div 16 < 16" for v :: byte using unat_byte_bound [of v] by linarith
  then show ?thesis by (auto simp: hex_string_def hex02_def hex_digit_range)
qed

text \<open>The buffer of \<open>hash_bin_to_hex\<close> is large enough for every character and the zero.\<close>

lemma hex_loop:
  assumes "n \<le> length h"
  shows "\<exists>rest. foldM (hex_step h (length h * 2 + 2)) (map junk [0..<length h * 2 + 2], 0) [0..<n]
    = Some (hex_string (take n h) @ rest, 2 * n) \<and> length rest = (length h - n) * 2 + 2 \<and>
      (0 < n \<longrightarrow> hd rest = 0)"
  using assms
proof (induction n)
  case 0
  then show ?case by (simp add: hex_string_def del: upt_Suc)
next
  case (Suc n)
  then obtain rest where r: "foldM (hex_step h (length h * 2 + 2)) (map junk [0..<length h * 2 + 2], 0) [0..<n]
      = Some (hex_string (take n h) @ rest, 2 * n)" "length rest = (length h - n) * 2 + 2"
    by auto
  obtain x y z rest' where xyz: "rest = [x, y, z] @ rest'" "length rest' = (length h - Suc n) * 2 + 1"
    using r(2) Suc.prems by (cases rest; cases "tl rest"; cases "tl (tl rest)") auto
  have "length h * 2 + 2 - 2 * n - 1 \<ge> 2" using Suc.prems by simp
  then have "take (length h * 2 + 2 - 2 * n - 1) (hex02 (h ! n)) = hex02 (h ! n)" by (simp add: hex02_def)
  moreover have "length (hex_string (take n h)) = 2 * n" using Suc.prems by simp
  moreover have "wr_range (hex_string (take n h) @ [x, y, z] @ rest') (length (hex_string (take n h))) (hex02 (h ! n) @ [0])
      = Some (hex_string (take n h) @ (hex02 (h ! n) @ [0]) @ rest')"
    by (rule wr_range_append) (simp add: hex02_def)
  ultimately have "hex_step h (length h * 2 + 2) (hex_string (take n h) @ rest, 2 * n) n
      = Some (hex_string (take (Suc n) h) @ 0 # rest', 2 * Suc n)"
    using Suc.prems xyz(1)
    by (simp add: hex_step_def snprintf_at_def rd_in_bounds take_Suc_conv_app_nth hex_string_def hex02_def)
  with r(1) xyz(2) show ?case by (simp add: foldM_append)
qed

lemma takeWhile_stop: "\<forall>c \<in> set s. P c \<Longrightarrow> \<not> P z \<Longrightarrow> takeWhile P (s @ z # r) = s"
  by (simp add: takeWhile_append)

lemma hash_bin_to_hex_string:
  assumes "h \<noteq> []"
  shows "\<exists>b. hash_bin_to_hex junk h (length h) = Some b \<and> c_str b = hex_string h"
proof -
  from hex_loop [of "length h" h junk] assms obtain rest where
    r: "foldM (hex_step h (length h * 2 + 2)) (map junk [0..<length h * 2 + 2], 0) [0..<length h]
      = Some (hex_string h @ rest, 2 * length h)" "length rest = 2" "hd rest = 0"
    by auto
  then obtain z where "rest = 0 # z" by (cases rest) auto
  then have "c_str (hex_string h @ rest) = hex_string h"
    using hex_string_chars [of h] by (simp add: c_str_def takeWhile_stop)
  with r(1) show ?thesis by (simp add: hash_bin_to_hex_def)
qed


text \<open>The chunks that a \<open>read\<close> into the buffer of 4096 bytes can return.\<close>

definition good_reads :: "bytes list \<Rightarrow> bool" where
  "good_reads ds \<longleftrightarrow> (\<forall>d \<in> set ds. d \<noteq> [] \<and> length d \<le> 4096)"

lemma good_reads_size: "good_reads ds \<Longrightarrow> \<forall>d \<in> set ds. length d < 2 ^ 32"
  by (auto simp: good_reads_def intro: le_less_trans)

lemma hash_spec_length:
  "length (hash_spec algo m) = (case algo of HASH_MD5 \<Rightarrow> 16 | HASH_SHA1 \<Rightarrow> 20)"
  by (cases algo) (simp_all add: hash_spec_def rfc_md5_def md5_result_def fips_sha1_def fips_digest_def
      be32_def split: prod.split)

lemma hash_spec_nonempty: "hash_spec algo m \<noteq> []"
  using hash_spec_length [of algo m] by (cases algo) auto

lemma md5_fresh_begin: "md5_fresh (md5_begin (map junk [0..<128]))"
  unfolding md5_fresh_def by (rule exI [of _ "map junk [0..<128]"]) simp

lemma sha1_fresh_begin: "sha1_fresh (sha1_begin (map junk [0..<64]))"
  unfolding sha1_fresh_def by (rule exI [of _ "map junk [0..<64]"]) simp

lemma hash_reads_digest:
  assumes "good_reads ds"
  shows "hash_reads e algo (ds, True) = Some (Some (hex_string (hash_spec algo (concat ds))))"
proof -
  have "foldM (\<lambda>c d. md5_hash (hs_config e) d c) (md5_begin (map (hs_junk e) [0..<128])) ds \<bind> md5_end (hs_config e)
      = Some (hash_spec HASH_MD5 (concat ds))"
    using md5.stream_correct [OF md5_fresh_begin good_reads_size [OF assms]]
    by (simp only: hash_spec_def rfc_md5_def hash_algo.case)
  moreover have "foldM (\<lambda>c d. sha1_hash d c) (sha1_begin (map (hs_junk e) [0..<64])) ds \<bind> sha1_end
      = Some (hash_spec HASH_SHA1 (concat ds))"
    using sha1.stream_correct [OF sha1_fresh_begin good_reads_size [OF assms]]
    by (simp only: hash_spec_def fips_sha1_def hash_algo.case)
  moreover obtain b where "hash_bin_to_hex (hs_junk e) (hash_spec algo (concat ds)) (length (hash_spec algo (concat ds))) = Some b"
    "c_str b = hex_string (hash_spec algo (concat ds))"
    using hash_bin_to_hex_string [OF hash_spec_nonempty] by blast
  ultimately show ?thesis
    using hash_spec_length [of algo "concat ds"]
    by (cases algo) (auto simp: hash_reads_def bind_eq_Some_conv simp del: upt_Suc)
qed

text \<open>
  C16. The digest that \<open>md5sum\<close> and \<open>sha1sum\<close> print for a file is the digest that RFC 1321 and
  FIPS 180 define for its contents, whatever sizes the single calls of \<open>read\<close> return, for every
  choice of the option \<open>CONFIG_MD5_SIZE_VS_SPEED\<close> and whatever uninitialised memory holds; no array
  of the program is overrun.
\<close>

theorem hash_file_digest:
  assumes "hs_open e name = Some (ds, True)" "good_reads ds" "name \<noteq> [45]"
  shows "hash_file e algo name stdin = Some (Some (hex_string (hash_spec algo (concat ds))), stdin)"
  using assms by (simp add: hash_file_def hash_reads_digest)

text \<open>A file \<open>a\<close> with the contents \<open>abc\<close>, read in two pieces, and a file \<open>b  c\<close> that is empty.\<close>

definition hash_example :: hash_env where
  "hash_example = \<lparr>hs_config = 2, hs_junk = (\<lambda>_. 7),
     hs_open = [[97] \<mapsto> ([[97], [98, 99]], True), [98, 32, 32, 99] \<mapsto> ([], True)],
     hs_list = Map.empty, hs_stdin_list = [], hs_fclose_ok = True\<rparr>"

theorem hash_file_digest_witness:
  "hash_file hash_example HASH_MD5 [97] ([], True)
    = Some (Some (str_bytes ''900150983cd24fb0d6963f7d28e17f72''), ([], True))"
proof -
  have "hex_string (hash_spec HASH_MD5 (concat [[97], [98, 99]])) = str_bytes ''900150983cd24fb0d6963f7d28e17f72''"
    unfolding hash_spec_def by (simp only: hash_algo.case concat.simps append.simps md5_abc) code_simp
  then show ?thesis
    using hash_file_digest [of hash_example "[97]" "[[97], [98, 99]]" HASH_MD5 "([], True)"]
    by (simp add: hash_example_def good_reads_def)
qed

lemma hash_file_contents:
  assumes "hs_open e name = Some (ds, True)" "good_reads ds" "name \<noteq> [45]"
  shows "hash_file e algo name stdin = Some (Some (hex_string (hash_spec algo (concat ds))), stdin)"
  using assms by (simp add: hash_file_def hash_reads_digest)

section \<open>A list of digests is accepted by the check\<close>

lemma strstr_blanks_hex:
  assumes "\<forall>c \<in> set h. c \<noteq> 32"
  shows "strstr_blanks (h @ [32, 32] @ name) = Some (h, name)"
  using assms
proof (induction h)
  case (Cons a h)
  then have "strstr_blanks (a # h @ [32, 32] @ name) = map_option (\<lambda>(l, r). (a # l, r)) (strstr_blanks (h @ [32, 32] @ name))"
    by (cases h) auto
  with Cons show ?case by simp
qed simp

text \<open>A file whose name can stand in a line of the list, and that can be read.\<close>

definition listable :: "hash_env \<Rightarrow> bytes \<Rightarrow> bool" where
  "listable e name \<longleftrightarrow> (\<forall>c \<in> set name. c \<noteq> 0 \<and> c \<noteq> 10) \<and> name \<noteq> [45] \<and>
     (case hs_open e name of Some (ds, True) \<Rightarrow> good_reads ds | _ \<Rightarrow> False)"

definition contents :: "hash_env \<Rightarrow> bytes \<Rightarrow> bytes" where
  "contents e name = (case hs_open e name of Some (ds, _) \<Rightarrow> concat ds | None \<Rightarrow> [])"

definition digest_line :: "hash_env \<Rightarrow> hash_algo \<Rightarrow> bytes \<Rightarrow> bytes" where
  "digest_line e algo name = hex_string (hash_spec algo (contents e name)) @ [32, 32] @ name"

lemma listable_hash:
  assumes "listable e name"
  shows "hash_file e algo name stdin = Some (Some (hex_string (hash_spec algo (contents e name))), stdin)"
  using assms hash_file_contents [of e name _ algo stdin]
  by (auto simp: listable_def contents_def split: option.splits bool.splits)

lemma sum_listable:
  assumes "\<forall>n \<in> set names. listable e n"
  shows "foldM (sum_one e algo) (rv, ev, stdin) names
    = Some (rv, ev @ map (\<lambda>n. Print (digest_line e algo n @ [10])) names, stdin)"
  using assms
proof (induction names arbitrary: ev)
  case (Cons n names)
  then show ?case by (simp add: sum_one_def listable_hash digest_line_def)
qed simp

lemma check_listable:
  assumes "listable e name" "flags AND FLAG_SILENT = 0"
  shows "check_line e algo flags (digest_line e algo name) s
    = Some (s\<lparr>ck_total := ck_total s + 1, ck_events := ck_events s @ [Print (name @ str_bytes '': OK'' @ [10])]\<rparr>)"
proof -
  have "strstr_blanks (digest_line e algo name) = Some (hex_string (hash_spec algo (contents e name)), name)"
    unfolding digest_line_def using hex_string_chars by (intro strstr_blanks_hex) auto
  with assms listable_hash [of e name algo] show ?thesis by (simp add: check_line_def Let_def)
qed

lemma check_lines_listable:
  assumes "\<forall>n \<in> set names. listable e n" "flags AND FLAG_SILENT = 0"
  shows "check_lines e algo flags (concat (map (\<lambda>n. digest_line e algo n @ [10]) names)) s
    = Some (s\<lparr>ck_total := ck_total s + length names,
        ck_events := ck_events s @ map (\<lambda>n. Print (n @ str_bytes '': OK'' @ [10])) names\<rparr>)"
  using assms(1)
proof (induction names arbitrary: s)
  case Nil
  then show ?case by (simp add: check_lines.simps [of _ _ _ "[]"] bb_get_chomped_line_from_file_def)
next
  case (Cons n names)
  have "\<forall>c \<in> set (digest_line e algo n). c \<noteq> 0 \<and> c \<noteq> 10"
    using Cons.prems hex_string_chars by (auto simp: digest_line_def listable_def)
  then have "bb_get_chomped_line_from_file (digest_line e algo n @ 10 # concat (map (\<lambda>n. digest_line e algo n @ [10]) names))
      = Some (digest_line e algo n, concat (map (\<lambda>n. digest_line e algo n @ [10]) names))"
    by (rule chomped_line)
  moreover note check_listable [of e n flags algo s] Cons assms(2)
  ultimately show ?case
    by (simp add: check_lines.simps [of _ _ _ "digest_line e algo n @ _"])
qed

text \<open>
  C38. What the applet prints for a list of files is accepted by its option \<open>-c\<close>: for names
  without zero and newline, and files that can be read, the run on the list of what the first run has
  printed reports \<open>OK\<close> for each file, in order, and returns 0.
\<close>

theorem checksums_round_trip:
  assumes "names \<noteq> []" "\<forall>n \<in> set names. listable e n" "lname \<noteq> [45]" "hs_fclose_ok e"
  shows "\<exists>lines. hash_files True e algo 0 names stdin = Inr (map Print lines, 0) \<and>
    hash_files True (e\<lparr>hs_list := (hs_list e)(lname \<mapsto> concat lines)\<rparr>) algo FLAG_CHECK [lname] stdin
      = Inr (map (\<lambda>n. Print (n @ str_bytes '': OK'' @ [10])) names, 0)"
proof (intro exI conjI)
  let ?lines = "map (\<lambda>n. digest_line e algo n @ [10]) names"
  let ?e = "e\<lparr>hs_list := (hs_list e)(lname \<mapsto> concat ?lines)\<rparr>"
  show "hash_files True e algo 0 names stdin = Inr (map Print ?lines, 0)"
    using assms(1) sum_listable [OF assms(2)] by (simp add: hash_files_def defined_def)
  have "listable ?e n = listable e n" "digest_line ?e algo n = digest_line e algo n" for n
    by (simp_all add: listable_def digest_line_def contents_def)
  then have "check_lines ?e algo FLAG_CHECK (concat ?lines) s = Some (s\<lparr>ck_total := ck_total s + length names,
      ck_events := ck_events s @ map (\<lambda>n. Print (n @ str_bytes '': OK'' @ [10])) names\<rparr>)" for s
    using check_lines_listable [of names ?e FLAG_CHECK algo s] assms(2)
    by (simp add: FLAG_CHECK_def FLAG_SILENT_def)
  with assms(3,4) show "hash_files True ?e algo FLAG_CHECK [lname] stdin
      = Inr (map (\<lambda>n. Print (n @ str_bytes '': OK'' @ [10])) names, 0)"
    by (simp add: hash_files_def defined_def FLAG_CHECK_def FLAG_SILENT_def)
qed


theorem checksums_round_trip_witness:
  "\<exists>lines. hash_files True hash_example HASH_SHA1 0 [[97], [98, 32, 32, 99]] ([], True) = Inr (map Print lines, 0) \<and>
    hash_files True (hash_example\<lparr>hs_list := (hs_list hash_example)([108] \<mapsto> concat lines)\<rparr>) HASH_SHA1 FLAG_CHECK [[108]] ([], True)
      = Inr ([Print (str_bytes ''a: OK'' @ [10]), Print (str_bytes ''b  c: OK'' @ [10])], 0)"
proof -
  have "map (\<lambda>n. Print (n @ str_bytes '': OK'' @ [10])) [[97], [98, 32, 32, 99]]
      = [Print (str_bytes ''a: OK'' @ [10]), Print (str_bytes ''b  c: OK'' @ [10])]"
    by code_simp
  moreover have "\<forall>n \<in> set [[97], [98, 32, 32, 99]]. listable hash_example n" "hs_fclose_ok hash_example"
    by (simp_all add: listable_def hash_example_def good_reads_def)
  ultimately show ?thesis
    using checksums_round_trip [of "[[97], [98, 32, 32, 99]]" hash_example "[108]" HASH_SHA1 "([], True)"]
    by (simp only:) simp
qed

section \<open>Errors\<close>

text \<open>A file that cannot be opened, or whose reading fails, has no digest.\<close>

lemma hash_file_not_opened:
  "hs_open e name = None \<Longrightarrow> name \<noteq> [45] \<Longrightarrow> hash_file e algo name stdin = Some (None, stdin)"
  by (simp add: hash_file_def)

lemma hash_file_read_error:
  assumes "hs_open e name = Some (ds, False)" "good_reads ds" "name \<noteq> [45]"
  shows "hash_file e algo name stdin = Some (None, stdin)"
proof -
  obtain c where "foldM (\<lambda>c d. md5_hash (hs_config e) d c) (md5_begin (map (hs_junk e) [0..<128])) ds = Some c"
    using md5.stream_defined [OF md5_fresh_begin good_reads_size [OF assms(2)]] by blast
  moreover obtain c' where "foldM (\<lambda>c d. sha1_hash d c) (sha1_begin (map (hs_junk e) [0..<64])) ds = Some c'"
    using sha1.stream_defined [OF sha1_fresh_begin good_reads_size [OF assms(2)]] by blast
  ultimately show ?thesis
    using assms by (cases algo) (simp_all add: hash_file_def hash_reads_def del: upt_Suc)
qed

text \<open>
  The state of a check: the lines that fail are counted, and the return value is 0 exactly when
  there is none.
\<close>

definition check_consistent :: "check_state \<Rightarrow> bool" where
  "check_consistent s \<longleftrightarrow> ck_failed s \<le> ck_total s \<and> ck_return s = (if ck_failed s = 0 then 0 else 1)"

lemma check_line_consistent:
  "check_line e algo flags line s = Some s' \<Longrightarrow> check_consistent s \<Longrightarrow> check_consistent s'"
  by (auto simp: check_line_def check_fail_def check_consistent_def Let_def bind_eq_Some_conv
      split: option.splits if_splits prod.splits)

lemma check_lines_consistent:
  "check_lines e algo flags f s = Some s' \<Longrightarrow> check_consistent s \<Longrightarrow> check_consistent s'"
proof (induction e algo flags f s rule: check_lines.induct)
  case (1 e algo flags f s)
  show ?case
  proof (cases "bb_get_chomped_line_from_file f")
    case None
    with 1 show ?thesis by (simp add: check_lines.simps [of e algo flags f s])
  next
    case (Some p)
    obtain line rest where p: "p = (line, rest)" by force
    with 1(2) Some obtain s1 where s1: "check_line e algo flags line s = Some s1"
      "check_lines e algo flags rest s1 = Some s'"
      by (auto simp: check_lines.simps [of e algo flags f s] bind_eq_Some_conv)
    from 1(1) [OF Some p [symmetric] s1(1) s1(2) check_line_consistent [OF s1(1) 1(3)]] show ?thesis .
  qed
qed

end
