(* ===== verification/Cksum.thy ===== *)
theory Cksum
  imports C_Lib
begin

text \<open>
  The checksums of \<open>coreutils/cksum.c\<close> and \<open>coreutils/sum.c\<close>, with the table of \<open>libbb/crc32.c\<close>. A
  stream is the list of the pieces that are read, with whether it ends regularly or in an error. An
  \<open>int\<close> or \<open>long\<close> has 32 bits.
\<close>

section \<open>The table of the CRC\<close>

definition crc_polynomial :: "bool \<Rightarrow> u32" where
  "crc_polynomial endian = (if endian then 0x04c11db7 else 0xedb88320)"

definition crc_shift :: "bool \<Rightarrow> u32 \<Rightarrow> u32" where
  "crc_shift endian c =
     (if endian
      then (if c AND 0x80000000 \<noteq> 0 then push_bit 1 c XOR crc_polynomial endian else push_bit 1 c)
      else (if c AND 1 \<noteq> 0 then drop_bit 1 c XOR crc_polynomial endian else drop_bit 1 c))"

definition bb_crc32_filltable :: "bool \<Rightarrow> u32 list" where
  "bb_crc32_filltable endian =
     map (\<lambda>i. (crc_shift endian ^^ 8) (if endian then push_bit 24 (of_nat i) else of_nat i)) [0..<256]"

section \<open>\<open>cksum\<close>\<close>

type_synonym pieces = "bytes list \<times> bool"

datatype ck_error = Ck_length_overflow | Ck_null_stream | Ck_table_overrun

text \<open>The update of \<open>crc\<close> with the low byte of \<open>v\<close>.\<close>

definition crc_update :: "u32 list \<Rightarrow> u32 \<Rightarrow> u32 \<Rightarrow> u32 option" where
  "crc_update crc32_table crc v = do {
     t \<leftarrow> rd crc32_table (unat ((drop_bit 24 crc XOR v) AND 0xff));
     Some (push_bit 8 crc XOR t) }"

text \<open>One turn of the loop over \<open>fread\<close>: \<open>length\<close> is a \<open>long\<close>, whose overflow is undefined.\<close>

definition cksum_piece :: "u32 list \<Rightarrow> ck_error + (u32 \<times> nat) \<Rightarrow> bytes \<Rightarrow> ck_error + (u32 \<times> nat)" where
  "cksum_piece crc32_table st buf = bind_res st (\<lambda>(crc, len).
     if int (len + length buf) \<ge> 2 ^ 31 then Inl Ck_length_overflow
     else case foldM (crc_update crc32_table) crc (map ucast buf) of
       None \<Rightarrow> Inl Ck_table_overrun
     | Some crc \<Rightarrow> Inr (crc, len + length buf))"

text \<open>The loop that shifts the length out.\<close>

function cksum_length :: "u32 list \<Rightarrow> u32 \<Rightarrow> nat \<Rightarrow> u32 option" where
  "cksum_length crc32_table crc len =
     (if len = 0 then Some crc
      else do { crc \<leftarrow> crc_update crc32_table crc (of_nat len); cksum_length crc32_table crc (len div 256) })"
  by pat_completeness auto
termination
  by (relation "measure (\<lambda>(_, _, n). n)") auto

declare cksum_length.simps [simp del]

text \<open>The checksum and the size of a stream; an error of \<open>fread\<close> ends the loop as the end does.\<close>

definition cksum_stream :: "pieces \<Rightarrow> ck_error + (u32 \<times> nat)" where
  "cksum_stream = (\<lambda>(bufs, _).
     let crc32_table = bb_crc32_filltable True in
     bind_res (foldl (cksum_piece crc32_table) (Inr (0, 0)) bufs) (\<lambda>(crc, filesize).
       case cksum_length crc32_table crc filesize of
         None \<Rightarrow> Inl Ck_table_overrun
       | Some crc \<Rightarrow> Inr (crc XOR 0xffffffff, filesize)))"

text \<open>
  \<open>bb_wfopen_input\<close>: the standard input for an empty name and for \<open>-\<close>. \<open>stdin\<close> is \<open>None\<close> once the
  stream is closed.
\<close>

definition bb_wfopen_input :: "(bytes \<Rightarrow> pieces option) \<Rightarrow> pieces option \<Rightarrow> bytes \<Rightarrow> pieces option" where
  "bb_wfopen_input open_file stdin name = (if name = [] \<or> name = [45] then stdin else open_file name)"

text \<open>\<open>fread\<close> on a null or closed stream is undefined.\<close>

fun cksum_files :: "(bytes \<Rightarrow> pieces option) \<Rightarrow> pieces option \<Rightarrow> bytes list \<Rightarrow> bytes \<Rightarrow> ck_error + bytes" where
  "cksum_files open_file stdin [] out = Inr out"
| "cksum_files open_file stdin (name # names) out =
     (case bb_wfopen_input open_file stdin name of
        None \<Rightarrow> Inl Ck_null_stream
      | Some f \<Rightarrow> bind_res (cksum_stream f) (\<lambda>(crc, filesize).
          cksum_files open_file (if name = [] \<or> name = [45] then None else stdin) names
            (out @ dec (unat crc) @ [32] @ dec filesize @ [32] @ name @ [10])))"

definition cksum_main :: "(bytes \<Rightarrow> pieces option) \<Rightarrow> pieces \<Rightarrow> bytes list \<Rightarrow> ck_error + bytes" where
  "cksum_main open_file stdin args =
     (if args = [] then bind_res (cksum_stream stdin) (\<lambda>(crc, filesize).
        Inr (dec (unat crc) @ [32] @ dec filesize @ [10]))
      else cksum_files open_file (Some stdin) args [])"

section \<open>\<open>sum\<close>\<close>

definition bsd_step :: "u32 \<Rightarrow> byte \<Rightarrow> u32" where
  "bsd_step checksum c =
     (let checksum = drop_bit 1 checksum + push_bit 15 (checksum AND 1);
          checksum = checksum + ucast c
      in checksum AND 0xffff)"

text \<open>Left padding to a width.\<close>

definition pad_left :: "nat \<Rightarrow> byte \<Rightarrow> bytes \<Rightarrow> bytes" where
  "pad_left w c s = replicate (w - length s) c @ s"

text \<open>
  A file that is opened: its pieces and whether it can be closed. The state is the standard input
  and \<open>have_read_stdin\<close>; the result is what is printed, and the value.
\<close>

type_synonym sum_state = "pieces \<times> bool"
type_synonym sum_open = "bytes \<Rightarrow> (pieces \<times> bool) option"

definition IS_STDIN :: "bytes \<Rightarrow> bool" where
  "IS_STDIN s \<longleftrightarrow> s = [45]"

definition sum_source :: "sum_open \<Rightarrow> sum_state \<Rightarrow> bytes \<Rightarrow> (pieces \<times> bool) option \<times> sum_state" where
  "sum_source open_file st file =
     (if IS_STDIN file then (Some (fst st, True), (([], snd (fst st)), True)) else (open_file file, st))"

text \<open>The number of bytes is an \<open>uintmax_t\<close>, of 64 bits.\<close>

definition sum_blocks :: "nat \<Rightarrow> 64 word \<Rightarrow> nat" where
  "sum_blocks n total_bytes = unat ((total_bytes + (of_nat n - 1)) div of_nat n)"

definition bsd_sum_file :: "sum_open \<Rightarrow> bytes \<Rightarrow> nat \<Rightarrow> sum_state \<Rightarrow> (bytes \<times> bool) \<times> sum_state" where
  "bsd_sum_file open_file file print_name st =
     (case sum_source open_file st file of
        (None, st) \<Rightarrow> (([], False), st)
      | (Some ((bufs, eof), close_ok), st) \<Rightarrow>
          let data = concat bufs; checksum = foldl bsd_step 0 data in
          if \<not> eof \<or> \<not> close_ok then (([], False), st)
          else ((pad_left 5 48 (dec (unat checksum)) @ [32]
              @ pad_left 5 32 (dec (sum_blocks 1024 (of_nat (length data)))) @ [32]
              @ (if print_name > 1 then file else []) @ [10], True), st))"

text \<open>The bytes of a buffer are added from its end to its start.\<close>

definition sysv_buf :: "u32 \<Rightarrow> bytes \<Rightarrow> u32" where
  "sysv_buf s buf = foldl (\<lambda>s c. s + ucast c) s (rev buf)"

definition sysv_fold :: "u32 \<Rightarrow> u32" where
  "sysv_fold s =
     (let r = (s AND 0xffff) + drop_bit 16 (s AND 0xffffffff)
      in (r AND 0xffff) + drop_bit 16 r)"

definition sysv_sum_file :: "sum_open \<Rightarrow> bytes \<Rightarrow> nat \<Rightarrow> sum_state \<Rightarrow> (bytes \<times> bool) \<times> sum_state" where
  "sysv_sum_file open_file file print_name st =
     (case sum_source open_file st file of
        (None, st) \<Rightarrow> (([], False), st)
      | (Some ((bufs, eof), close_ok), st) \<Rightarrow>
          let s = foldl sysv_buf 0 bufs in
          if \<not> eof \<or> \<not> close_ok then (([], False), st)
          else ((dec (unat (sysv_fold s)) @ [32]
              @ dec (sum_blocks 512 (of_nat (length (concat bufs)))) @ [32]
              @ (if print_name \<noteq> 0 then file else []) @ [10], True), st))"

text \<open>
  The flags are 1 for \<open>-s\<close> and 2 for \<open>-r\<close>; \<open>close_stdin\<close> is whether closing the standard input succeeds.
  The result is \<open>None\<close> when the program ends with the message about it, otherwise what is printed and
  whether the program succeeds.
\<close>

definition sum_step :: "(bytes \<Rightarrow> nat \<Rightarrow> sum_state \<Rightarrow> (bytes \<times> bool) \<times> sum_state) \<Rightarrow> (bytes \<times> bool) \<times> sum_state
    \<Rightarrow> bytes \<Rightarrow> (bytes \<times> bool) \<times> sum_state" where
  "sum_step sum_func = (\<lambda>((out, ok), st) file.
     let ((o1, ok1), st) = sum_func file 1 st in ((out @ o1, ok \<and> ok1), st))"

definition sum_main :: "sum_open \<Rightarrow> pieces \<Rightarrow> bool \<Rightarrow> u32 \<Rightarrow> bytes list \<Rightarrow> (bytes \<times> bool) option" where
  "sum_main open_file stdin close_stdin flags args =
     (let f0 = bsd_sum_file open_file;
          f1 = (if flags AND 1 \<noteq> 0 then sysv_sum_file open_file else f0);
          sum_func = (if flags AND 2 \<noteq> 0 then bsd_sum_file open_file else f1);
          (res, st) = (if args = [] then sum_func [45] 0 (stdin, False)
                       else foldl (sum_step sum_func) (([], True), (stdin, False)) args)
      in if snd st \<and> \<not> close_stdin then None else Some res)"

section \<open>The CRC is the remainder of a division of polynomials\<close>

text \<open>
  A polynomial over the field with two elements is the list of its coefficients, the highest
  first. The remainder of the division by the generator \<open>x^32 + ...\<close>: a leading coefficient of a
  polynomial of degree at least 32 is cancelled by subtracting a multiple of the generator.
\<close>

definition generator :: "bool list" where
  "generator = map (bit (0x04c11db7 :: u32)) (rev [0..<32])"

definition xor_prefix :: "bool list \<Rightarrow> bool list \<Rightarrow> bool list" where
  "xor_prefix g m = map2 (\<noteq>) g (take (length g) m) @ drop (length g) m"

function poly_rem :: "bool list \<Rightarrow> bool list" where
  "poly_rem m =
     (if length m \<le> 32 then m
      else poly_rem (if hd m then xor_prefix generator (tl m) else tl m))"
  by pat_completeness auto
termination
  by (relation "measure length") (auto simp: xor_prefix_def generator_def)

declare poly_rem.simps [simp del]

definition bits32 :: "u32 \<Rightarrow> bool list" where
  "bits32 w = map (bit w) (rev [0..<32])"

definition bits8 :: "byte \<Rightarrow> bool list" where
  "bits8 b = map (bit b) (rev [0..<8])"

definition message_bits :: "bytes \<Rightarrow> bool list" where
  "message_bits m = concat (map bits8 m)"

text \<open>The bytes of the length, the lowest first, without leading zeros.\<close>

fun length_bytes :: "nat \<Rightarrow> bytes" where
  "length_bytes n = (if n = 0 then [] else of_nat n # length_bytes (n div 256))"

declare length_bytes.simps [simp del]

definition cksum_spec :: "bytes \<Rightarrow> bool list" where
  "cksum_spec m = poly_rem (message_bits (m @ length_bytes (length m)) @ replicate 32 False)"

text \<open>The shift register that the table stands for.\<close>

definition crc_bit :: "u32 \<Rightarrow> bool \<Rightarrow> u32" where
  "crc_bit c b = (if bit c 31 \<noteq> b then push_bit 1 c XOR 0x04c11db7 else push_bit 1 c)"

lemma top_bit: "(c :: u32) AND 0x80000000 \<noteq> 0 \<longleftrightarrow> bit c 31"
proof -
  have "(0x80000000 :: u32) = push_bit 31 1" by simp
  then show ?thesis
    by (simp only: and_exp_eq_0_iff_not_bit push_bit_of_1 not_not)
qed

lemma crc_shift_eq: "crc_shift True c = crc_bit c False"
  by (simp add: crc_shift_def crc_bit_def top_bit crc_polynomial_def)

lemma crc_shift_xor: "crc_shift True (x XOR y) = crc_shift True x XOR crc_shift True y"
  by (auto simp: crc_shift_eq crc_bit_def bit_xor_iff xor.assoc xor.commute xor.left_commute)

lemma crc_shifts_xor: "(crc_shift True ^^ n) (x XOR y) = (crc_shift True ^^ n) x XOR (crc_shift True ^^ n) y"
  by (induction n) (simp_all add: crc_shift_xor)


text \<open>Eight shifts of a register whose high byte is zero, and of a register with a byte added to the high byte.\<close>

lemma crc_shift_low: "\<not> bit c 31 \<Longrightarrow> crc_shift True c = push_bit 1 c"
  by (simp add: crc_shift_eq crc_bit_def)

lemma crc_shifts_low:
  assumes "\<forall>j < n. \<not> bit c (31 - j)" "n \<le> 32"
  shows "(crc_shift True ^^ n) c = push_bit n c"
  using assms
proof (induction n)
  case (Suc n)
  have "\<not> bit (push_bit n c) 31"
    using Suc.prems by (auto simp: bit_simps)
  with Suc show ?case by (simp add: crc_shift_low push_bit_push_bit)
qed simp

lemma crc_table_step:
  "(crc_shift True ^^ 8) (c XOR push_bit 24 v)
    = push_bit 8 c XOR (crc_shift True ^^ 8) (push_bit 24 (drop_bit 24 c XOR v))"
proof -
  let ?lo = "take_bit 24 c" and ?hi = "push_bit 24 (drop_bit 24 c XOR v)"
  have "c XOR push_bit 24 v = ?lo XOR ?hi"
  proof (rule bit_word_eqI)
    fix n assume "n < LENGTH(32)"
    then show "bit (c XOR push_bit 24 v) n = bit (?lo XOR ?hi) n"
      by (cases "n < 24") (auto simp: bit_simps)
  qed
  moreover have "(crc_shift True ^^ 8) ?lo = push_bit 8 ?lo"
    by (rule crc_shifts_low) (auto simp: bit_simps)
  moreover have "push_bit 8 ?lo = push_bit 8 c"
    by (rule bit_word_eqI) (auto simp: bit_simps)
  ultimately show ?thesis by (simp add: crc_shifts_xor)
qed

lemma crc_bit_inject: "crc_bit c (bit w 31) = crc_shift True (c XOR w) XOR push_bit 1 w"
  by (auto simp: crc_shift_eq crc_bit_def bit_xor_iff push_bit_xor xor.assoc xor.commute xor.left_commute)

lemma crc_bits_inject:
  "n \<le> 32 \<Longrightarrow> foldl crc_bit c (map (\<lambda>i. bit w (31 - i)) [0..<n]) = (crc_shift True ^^ n) (c XOR w) XOR push_bit n w"
proof (induction n)
  case (Suc n)
  have "bit w (31 - n) = bit (push_bit n w) 31" using Suc.prems by (simp add: bit_simps)
  with Suc show ?case
    by (simp add: crc_bit_inject xor.assoc push_bit_push_bit)
qed (simp add: xor.assoc)

lemma crc_bits8: "foldl crc_bit c (bits8 b) = (crc_shift True ^^ 8) (c XOR push_bit 24 (ucast b))"
proof -
  let ?w = "push_bit 24 (ucast b) :: u32"
  have "bits8 b = map (\<lambda>i. bit ?w (31 - i)) [0..<8]"
  proof -
    have "rev [0..<8] = map (\<lambda>i. 7 - i :: nat) [0..<8]" by code_simp
    moreover have "bit b (7 - i) = bit ?w (31 - i)" if "i < 8" for i
      using that by (auto simp: bit_simps)
    ultimately show ?thesis unfolding bits8_def by (simp only: map_map o_def) (intro map_cong; simp)
  qed
  moreover have "push_bit 8 ?w = 0" by (rule bit_word_eqI) (auto simp: bit_simps dest: bit_imp_le_length)
  ultimately show ?thesis by (simp only: crc_bits_inject) simp
qed

lemma crc_index:
  "unat ((v :: u32) AND 0xff) < 256" "push_bit 24 (v AND 0xff) = push_bit 24 v"
proof -
  have m: "v AND 0xff = take_bit 8 v"
    by (simp add: take_bit_eq_mask mask_eq_exp_minus_1)
  have "unat (take_bit 8 v) = take_bit 8 (unat v)" by (rule unsigned_take_bit_eq)
  then show "unat (v AND 0xff) < 256" unfolding m using take_bit_nat_less_exp [of 8 "unat v"] by simp
  show "push_bit 24 (v AND 0xff) = push_bit 24 v"
    unfolding m by (rule bit_word_eqI) (auto simp: bit_simps)
qed

text \<open>The table lookup is eight steps of the shift register.\<close>

lemma crc_update_bits:
  "crc_update (bb_crc32_filltable True) crc v = Some (foldl crc_bit crc (bits8 (ucast v)))"
proof -
  let ?i = "(drop_bit 24 crc XOR v) AND 0xff"
  have "rd (bb_crc32_filltable True) (unat ?i) = Some ((crc_shift True ^^ 8) (push_bit 24 (of_nat (unat ?i))))"
    using crc_index(1) [of "drop_bit 24 crc XOR v"] unfolding bb_crc32_filltable_def
    by (simp only: rd_def length_map length_upt) simp
  also have "push_bit 24 (of_nat (unat ?i)) = push_bit 24 (drop_bit 24 crc XOR v)"
  proof -
    have "of_nat (unat ?i) = ?i" by simp
    then show ?thesis by (simp only: crc_index(2))
  qed
  finally have "crc_update (bb_crc32_filltable True) crc v = Some ((crc_shift True ^^ 8) (crc XOR push_bit 24 v))"
    by (simp only: crc_update_def bind.bind_lunit crc_table_step)
  moreover have "push_bit 24 (ucast (ucast v :: byte)) = push_bit 24 v"
    by (rule bit_word_eqI) (auto simp: bit_simps)
  ultimately show ?thesis by (simp only: crc_bits8)
qed


section \<open>The register holds the remainder\<close>

lemma xor_prefix_append:
  "length g \<le> length m \<Longrightarrow> xor_prefix g (m @ z) = xor_prefix g m @ z"
  by (simp add: xor_prefix_def)

lemma xor_prefix_snoc:
  "length g < length m \<Longrightarrow> xor_prefix (g @ [False]) m = xor_prefix g m"
  by (simp add: xor_prefix_def take_Suc_conv_app_nth Cons_nth_drop_Suc)

lemma xor_prefix_zero: "n \<le> length m \<Longrightarrow> xor_prefix (replicate n False) m = m"
proof -
  assume n: "n \<le> length m"
  then have "map2 (\<noteq>) (replicate n False) (take n m) = take n m"
    by (intro nth_equalityI) auto
  with n show ?thesis by (simp add: xor_prefix_def)
qed

lemma length_xor_prefix [simp]: "length g \<le> length m \<Longrightarrow> length (xor_prefix g m) = length m"
  by (simp add: xor_prefix_def)

lemma length_bits32 [simp]: "length (bits32 w) = 32"
  by (simp add: bits32_def)

lemma bits32_Cons: "bits32 w = bit w 31 # tl (bits32 w)"
proof -
  have "rev [0..<32] = 31 # rev [0..<31::nat]" by code_simp
  then show ?thesis by (simp add: bits32_def)
qed

lemma bits32_push: "bits32 (push_bit 1 w) = tl (bits32 w) @ [False]"
proof -
  have r: "rev [0..<32] = map (\<lambda>i. i + 1) (rev [0..<31]) @ [0::nat]" "rev [0..<32] = 31 # rev [0..<31::nat]"
    by code_simp+
  have "bits32 (push_bit 1 w) = map (bit (push_bit 1 w)) (map (\<lambda>i. i + 1) (rev [0..<31]) @ [0])"
    unfolding bits32_def r(1) ..
  also have "\<dots> = map (bit w) (rev [0..<31]) @ [False]"
    unfolding map_append map_map o_def by (auto simp only: bit_push_bit_iff) (auto simp: bit_0)
  also have "map (bit w) (rev [0..<31]) = tl (bits32 w)" by (simp only: bits32_def r(2) list.map list.sel)
  finally show ?thesis .
qed

lemma bits32_xor: "bits32 (v XOR w) = map2 (\<noteq>) (bits32 v) (bits32 w)"
  by (simp only: bits32_def zip_map_map map_map) (simp add: zip_same_conv_map bit_xor_iff o_def)

lemma xor_prefix_xor:
  "length g = length h \<Longrightarrow> length g \<le> length m \<Longrightarrow> xor_prefix g (xor_prefix h m) = xor_prefix (map2 (\<noteq>) g h) m"
  by (auto simp: xor_prefix_def intro!: nth_equalityI)

lemma generator_bits: "generator = bits32 0x04c11db7"
  by (simp only: generator_def bits32_def)

text \<open>Dividing what the register and the rest of the message stand for.\<close>

lemma poly_rem_register:
  "poly_rem (xor_prefix (bits32 c) (ms @ replicate 32 False)) = bits32 (foldl crc_bit c ms)"
proof (induction ms arbitrary: c)
  case Nil
  have "xor_prefix (bits32 c) (replicate 32 False) = bits32 c"
    by (auto simp: xor_prefix_def intro!: nth_equalityI)
  then show ?case by (simp add: poly_rem.simps)
next
  case (Cons b ms)
  let ?z = "ms @ replicate 32 False"
  have x: "xor_prefix (bits32 c) ((b # ms) @ replicate 32 False)
      = (bit c 31 \<noteq> b) # xor_prefix (bits32 (push_bit 1 c)) ?z"
  proof -
    have "xor_prefix (tl (bits32 c) @ [False]) ?z = xor_prefix (tl (bits32 c)) ?z"
      by (rule xor_prefix_snoc) simp
    moreover have "xor_prefix (bit c 31 # tl (bits32 c)) (b # ?z) = (bit c 31 \<noteq> b) # xor_prefix (tl (bits32 c)) ?z"
      by (simp add: xor_prefix_def)
    ultimately show ?thesis by (metis append_Cons bits32_Cons bits32_push)
  qed
  have "poly_rem (xor_prefix (bits32 c) ((b # ms) @ replicate 32 False))
      = poly_rem (if bit c 31 \<noteq> b then xor_prefix generator (xor_prefix (bits32 (push_bit 1 c)) ?z)
          else xor_prefix (bits32 (push_bit 1 c)) ?z)"
    unfolding x by (subst poly_rem.simps) simp
  also have "\<dots> = poly_rem (xor_prefix (bits32 (crc_bit c b)) ?z)"
  proof (cases "bit c 31 \<noteq> b")
    case True
    have "map2 (\<noteq>) generator (bits32 (push_bit 1 c)) = bits32 (push_bit 1 c XOR 0x04c11db7)"
      unfolding generator_bits by (metis bits32_xor xor.commute)
    with True show ?thesis
      by (simp only: crc_bit_def if_True) (subst xor_prefix_xor; simp add: generator_bits)
  next
    case False
    then show ?thesis by (simp only: crc_bit_def if_False)
  qed
  finally show ?case by (simp add: Cons)
qed


lemma poly_rem_message: "poly_rem (ms @ replicate 32 False) = bits32 (foldl crc_bit 0 ms)"
proof -
  have "bits32 0 = replicate 32 False" by code_simp
  then have "xor_prefix (bits32 0) (ms @ replicate 32 False) = ms @ replicate 32 False"
    by (simp add: xor_prefix_zero)
  then show ?thesis using poly_rem_register [of 0 ms] by simp
qed

lemma crc_bytes:
  "foldM (crc_update (bb_crc32_filltable True)) crc (map ucast (m :: bytes)) = Some (foldl crc_bit crc (message_bits m))"
proof (induction m arbitrary: crc)
  case (Cons b m)
  have "(ucast (ucast b :: u32) :: byte) = b" by (rule bit_word_eqI) (auto simp: bit_simps)
  with Cons show ?case by (simp add: crc_update_bits message_bits_def)
qed (simp add: message_bits_def)

lemma ucast_of_nat_byte: "(ucast (of_nat n :: u32) :: byte) = of_nat n"
  by (rule bit_word_eqI) (auto simp: bit_simps)

lemma cksum_length_bits:
  "cksum_length (bb_crc32_filltable True) crc n = Some (foldl crc_bit crc (message_bits (length_bytes n)))"
proof (induction n arbitrary: crc rule: less_induct)
  case (less n)
  show ?case
  proof (cases "n = 0")
    case False
    then have "cksum_length (bb_crc32_filltable True) crc n
        = cksum_length (bb_crc32_filltable True) (foldl crc_bit crc (bits8 (of_nat n))) (n div 256)"
      by (subst cksum_length.simps) (simp add: crc_update_bits ucast_of_nat_byte)
    with less [of "n div 256"] False show ?thesis
      by (simp add: length_bytes.simps [of n] message_bits_def)
  qed (simp add: cksum_length.simps length_bytes.simps message_bits_def)
qed

lemma cksum_pieces:
  assumes "int (len + length (concat bufs)) < 2 ^ 31"
  shows "foldl (cksum_piece (bb_crc32_filltable True)) (Inr (crc, len)) bufs
    = Inr (foldl crc_bit crc (message_bits (concat bufs)), len + length (concat bufs))"
  using assms
proof (induction bufs arbitrary: crc len)
  case (Cons b bufs)
  then have "cksum_piece (bb_crc32_filltable True) (Inr (crc, len)) b
      = Inr (foldl crc_bit crc (message_bits b), len + length b)"
    by (simp add: cksum_piece_def crc_bytes)
  with Cons show ?case by (simp add: message_bits_def add.assoc)
qed (simp add: message_bits_def)

text \<open>
  C15. The checksum of \<open>cksum\<close> is the one POSIX defines: the complement of the remainder of the
  division of the message, followed by the bytes of its length and 32 zeros, as a polynomial over
  the field with two elements, by the generator of the table. It does not depend on the pieces the
  stream is read in, and no access leaves the table.
\<close>

theorem cksum_posix:
  assumes "length (concat bufs) < 2 ^ 31"
  shows "\<exists>crc. cksum_stream (bufs, eof) = Inr (crc, length (concat bufs)) \<and>
    bits32 (NOT crc) = cksum_spec (concat bufs)"
proof -
  let ?m = "concat bufs"
  let ?crc = "foldl crc_bit 0 (message_bits (?m @ length_bytes (length ?m)))"
  have "int (0 + length ?m) < 2 ^ 31" using assms by simp
  from cksum_pieces [OF this, of 0]
  have "cksum_stream (bufs, eof) = Inr (?crc XOR 0xffffffff, length ?m)"
    by (simp add: cksum_stream_def Let_def cksum_length_bits message_bits_def)
  moreover have "NOT (?crc XOR 0xffffffff) = ?crc"
  proof -
    have "(0xffffffff :: u32) = - 1" by simp
    then show ?thesis by (simp only:) (rule bit_word_eqI; simp add: bit_simps)
  qed
  ultimately show ?thesis by (simp add: cksum_spec_def poly_rem_message)
qed


theorem cksum_posix_witness:
  "\<exists>crc. cksum_stream ([[49, 50], [51]], True) = Inr (crc, 3) \<and> bits32 (NOT crc) = cksum_spec [49, 50, 51]"
  using cksum_posix [of "[[49, 50], [51]]" True] by (simp add: numeral_3_eq_3)

text \<open>A file that cannot be opened: the program goes on to read from the null stream.\<close>

lemma cksum_missing_file:
  "open_file name = None \<Longrightarrow> name \<notin> {[], [45]} \<Longrightarrow> cksum_main open_file stdin (name # names) = Inl Ck_null_stream"
  by (simp add: cksum_main_def bb_wfopen_input_def)

section \<open>The sums\<close>

text \<open>The BSD sum in 16-bit arithmetic: rotate to the right, and add.\<close>

definition bsd_spec :: "bytes \<Rightarrow> u16" where
  "bsd_spec data = foldl (\<lambda>c b. word_rotr 1 c + ucast b) 0 data"

lemma rotr_u16: "word_rotr 1 (c :: u16) = drop_bit 1 c OR push_bit 15 (c AND 1)"
proof (rule bit_word_eqI)
  fix n assume "n < LENGTH(16)"
  then have n: "n < 16" by simp
  show "bit (word_rotr 1 c) n = bit (drop_bit 1 c OR push_bit 15 (c AND 1)) n"
  proof (cases "n = 15")
    case True
    then show ?thesis by (auto simp: bit_simps and_one_eq bit_0 dest: bit_imp_le_length)
  next
    case False
    with n show ?thesis by (auto simp: bit_simps)
  qed
qed

lemma unat_add_small: "unat (x :: 'a::len word) + unat y < 2 ^ LENGTH('a) \<Longrightarrow> unat (x + y) = unat x + unat y"
  by (simp add: unat_word_ariths)

lemma low_bit: "(x :: 'a::len word) AND 1 = (if unat x mod 2 = 0 then 0 else 1)"
proof -
  have "odd x \<longleftrightarrow> unat x mod 2 \<noteq> 0"
  proof -
    have "bit (unat x) 0 \<longleftrightarrow> bit x 0" by (subst bit_unsigned_iff) simp
    then show ?thesis by (simp add: bit_0 even_iff_mod_2_eq_zero)
  qed
  then show ?thesis by (simp add: and_one_eq mod_2_eq_odd)
qed

lemma unat_half: "unat (drop_bit 1 (x :: 'a::len word)) = unat x div 2"
  by (subst unat_drop_bit_eq) (simp add: drop_bit_eq_div)

lemma unat_ucast_wide:
  assumes "LENGTH('b) \<le> LENGTH('a)"
  shows "unat (ucast (w :: 'b::len word) :: 'a::len word) = unat w"
proof -
  have "unat w < 2 ^ LENGTH('b)" by (rule unsigned_less)
  also have "(2::nat) ^ LENGTH('b) \<le> 2 ^ LENGTH('a)" using assms by simp
  finally show ?thesis by (simp add: unsigned_ucast_eq take_bit_nat_eq_self)
qed

lemma bsd_step_spec: "bsd_step (ucast (c :: u16)) b = ucast (word_rotr 1 c + ucast b)"
proof -
  let ?n = "unat c div 2 + (if unat c mod 2 = 0 then 0 else 32768)"
  have "unat c < 65536" using unsigned_less [of c] by simp
  then have n: "?n < 65536" by auto
  have u: "unat (ucast c :: u32) = unat c" by (rule unat_ucast_wide) simp
  have p: "unat (push_bit 15 (c AND 1)) = (if unat c mod 2 = 0 then 0 else 32768)"
    "unat (push_bit 15 ((ucast c :: u32) AND 1)) = (if unat c mod 2 = 0 then 0 else 32768)"
    unfolding low_bit u by simp_all
  have "drop_bit 1 c OR push_bit 15 (c AND 1) = drop_bit 1 c + push_bit 15 (c AND 1)"
    by (rule disjunctive_add_eq_or [symmetric]) (auto simp: bit_eq_iff bit_simps dest: bit_imp_le_length)
  then have "unat (word_rotr 1 c) = ?n"
    unfolding rotr_u16 using n unat_add_small [of "drop_bit 1 c" "push_bit 15 (c AND 1)"]
    by (simp only: unat_half p) simp
  moreover have "unat (ucast b :: u16) = unat b" by (rule unat_ucast_wide) simp
  ultimately have "unat (word_rotr 1 c + ucast b) = (?n + unat b) mod 65536"
    by (simp add: unat_word_ariths)
  moreover have "unat (bsd_step (ucast c) b) = (?n + unat b) mod 65536"
  proof -
    have b: "unat (ucast b :: u32) = unat b" by (rule unat_ucast_wide) simp
    have "unat (drop_bit 1 (ucast c) + push_bit 15 ((ucast c :: u32) AND 1)) = ?n"
      using n unat_add_small [of "drop_bit 1 (ucast c)" "push_bit 15 ((ucast c :: u32) AND 1)"]
      by (simp only: unat_half p u) simp
    then have "unat (drop_bit 1 (ucast c) + push_bit 15 ((ucast c :: u32) AND 1) + ucast b) = ?n + unat b"
      using n b unat_byte_bound [of b] by (subst unat_add_small) (simp_all del: unat_byte_bound)
    moreover have "x AND 0xffff = take_bit 16 x" for x :: u32
      by (simp add: take_bit_eq_mask mask_eq_exp_minus_1)
    moreover have "unat (take_bit 16 x) = unat x mod 65536" for x :: u32
      by (subst unsigned_take_bit_eq) (simp add: take_bit_eq_mod)
    ultimately show ?thesis unfolding bsd_step_def Let_def by (simp only:)
  qed
  moreover have "unat (ucast w :: u32) = unat w" for w :: u16 by (rule unat_ucast_wide) simp
  ultimately show ?thesis by (metis unsigned_word_eqI)
qed


lemma bsd_sum_spec: "foldl bsd_step (ucast (c :: u16)) data = ucast (foldl (\<lambda>c b. word_rotr 1 c + ucast b) c data)"
  by (induction data arbitrary: c) (simp_all add: bsd_step_spec)

text \<open>
  The BSD checksum, computed in an \<open>int\<close> with a mask, is the 16-bit sum that rotates the
  register to the right by one bit before each byte is added.
\<close>

lemma bsd_sum_rotates: "foldl bsd_step 0 data = ucast (bsd_spec data)"
  using bsd_sum_spec [of 0 data] by (simp add: bsd_spec_def)

text \<open>The System V sum: the sum of all bytes, reduced modulo \<open>65535\<close> with 65535 for the other multiples.\<close>

lemma sysv_buf_sum: "sysv_buf s buf = s + of_nat (sum_list (map unat buf))"
proof -
  have f: "foldl (\<lambda>s c. s + ucast c) s xs = s + of_nat (sum_list (map unat xs))" for s :: u32 and xs :: bytes
    by (induction xs arbitrary: s) (simp_all add: add.assoc)
  have "sum_list (map unat (rev buf)) = sum_list (map unat buf)"
    by (simp flip: rev_map)
  then show ?thesis unfolding sysv_buf_def f by (simp only:)
qed

lemma sysv_bufs_sum: "foldl sysv_buf s bufs = s + of_nat (sum_list (map unat (concat bufs)))"
  by (induction bufs arbitrary: s) (simp_all add: sysv_buf_sum add.assoc)

definition sysv_spec :: "nat \<Rightarrow> nat" where
  "sysv_spec n = (if n = 0 then 0 else if n mod 65535 = 0 then 65535 else n mod 65535)"

lemma unat_low_half: "unat ((s :: u32) AND 0xffff) = unat s mod 65536"
proof -
  have "s AND 0xffff = take_bit 16 s" by (simp add: take_bit_eq_mask mask_eq_exp_minus_1)
  moreover have "unat (take_bit 16 s) = unat s mod 65536"
    by (subst unsigned_take_bit_eq) (simp add: take_bit_eq_mod)
  ultimately show ?thesis by (simp only:)
qed

lemma unat_high_half: "unat (drop_bit 16 (s :: u32)) = unat s div 65536"
  by (subst unat_drop_bit_eq) (simp add: drop_bit_eq_div)

lemma unat_halves: "unat ((s AND 0xffff) + drop_bit 16 s) = unat s mod 65536 + unat (s :: u32) div 65536"
proof -
  have "unat s < 2 ^ LENGTH(32)" by (rule unsigned_less)
  then have "unat s div 65536 < 65536" by simp
  moreover have "unat s mod 65536 < 65536" by simp
  ultimately have "unat s mod 65536 + unat s div 65536 < 2 ^ LENGTH(32)" by simp
  then show ?thesis
    using unat_add_small [of "s AND 0xffff" "drop_bit 16 s"] by (simp only: unat_low_half unat_high_half)
qed

lemma sysv_fold_nat:
  "unat (sysv_fold s) = (let r = unat s mod 65536 + unat s div 65536 in r mod 65536 + r div 65536)"
proof -
  have "s AND 0xffffffff = s"
  proof -
    have "(0xffffffff :: u32) = - 1" by simp
    then show ?thesis by (simp only: and.right_neutral)
  qed
  then show ?thesis by (simp only: sysv_fold_def Let_def unat_halves)
qed

lemma sysv_fold_spec: "unat (sysv_fold s) = sysv_spec (unat s)"
proof -
  define h l where "h = unat s div 65536" and "l = unat s mod 65536"
  have "unat s < 2 ^ LENGTH(32)" by (rule unsigned_less)
  then have hl: "h < 65536" "l < 65536" "unat s = 65535 * h + (l + h)"
    by (simp_all add: h_def l_def)
  have "(65535 * h + (l + h)) mod 65535 = (l + h) mod 65535" by (rule mod_mult_self4)
  then have m: "unat s mod 65535 = (l + h) mod 65535" by (simp only: hl(3))
  have "(l + h) mod 65536 + (l + h) div 65536 = sysv_spec (unat s)"
  proof (cases "l + h < 65536")
    case True
    with hl m show ?thesis by (cases "l + h = 65535") (auto simp: sysv_spec_def)
  next
    case False
    then have "(l + h) mod 65536 = l + h - 65536" "(l + h) div 65536 = 1" "(l + h) mod 65535 = (l + h - 65535) mod 65535"
      using hl by (auto simp: le_mod_geq div_if)
    with False hl m show ?thesis by (cases "l + h = 131070") (auto simp: sysv_spec_def)
  qed
  then show ?thesis unfolding sysv_fold_nat Let_def h_def l_def .
qed

text \<open>
  The System V checksum of the pieces of a file is the sum of its bytes modulo 65535, where a
  positive multiple of 65535 counts as 65535; the order in which the program adds the bytes of a
  piece, from the end to the start, makes no difference. The sum of the bytes must not exceed the
  range of an \<open>unsigned int\<close>.
\<close>

lemma sysv_sum_modulo:
  assumes "sum_list (map unat (concat bufs)) < 2 ^ 32"
  shows "unat (sysv_fold (foldl sysv_buf 0 bufs)) = sysv_spec (sum_list (map unat (concat bufs)))"
proof -
  have "unat (of_nat (sum_list (map unat (concat bufs))) :: u32) = sum_list (map unat (concat bufs))"
    using assms by (simp add: unat_of_nat take_bit_nat_eq_self)
  then show ?thesis by (simp only: sysv_fold_spec sysv_bufs_sum add_0)
qed

lemma sysv_sum_modulo_example:
  "unat (sysv_fold (foldl sysv_buf 0 [[1, 2], [255]])) = 258"
  using sysv_sum_modulo [of "[[1, 2], [255]]"] by (simp add: sysv_spec_def)

end
