(* ===== verification/Crond_Field.thy ===== *)
theory Crond_Field
  imports C_Lib
begin

text \<open>
  The parser of the time fields of a crontab (\<open>ParseField\<close> of \<open>miscutils/crond.c\<close>) and what a field means. A
  pointer into a line is the rest of the string, which is empty at the terminating zero. The array
  keeps its size; a write outside of it and the overflow of an \<open>int\<close> are \<open>None\<close>.
\<close>

section \<open>The time fields of a line\<close>

definition DowAry :: "string list" where
  "DowAry = [''sun'', ''mon'', ''tue'', ''wed'', ''thu'', ''fri'', ''sat'',
     ''Sun'', ''Mon'', ''Tue'', ''Wed'', ''Thu'', ''Fri'', ''Sat'']"

definition MonAry :: "string list" where
  "MonAry = [''jan'', ''feb'', ''mar'', ''apr'', ''may'', ''jun'',
     ''jul'', ''aug'', ''sep'', ''oct'', ''nov'', ''dec'',
     ''Jan'', ''Feb'', ''Mar'', ''Apr'', ''May'', ''Jun'',
     ''Jul'', ''Aug'', ''Sep'', ''Oct'', ''Nov'', ''Dec'']"

definition field_blank :: "char \<Rightarrow> bool" where
  "field_blank c \<longleftrightarrow> c = CHR '' '' \<or> c = CHR 0x09 \<or> c = CHR 0x0A"

definition at_blank :: "string \<Rightarrow> bool" where
  "at_blank ptr \<longleftrightarrow> ptr \<noteq> [] \<and> field_blank (hd ptr)"

definition starts :: "char \<Rightarrow> string \<Rightarrow> bool" where
  "starts c ptr \<longleftrightarrow> ptr \<noteq> [] \<and> hd ptr = c"

text \<open>The remainder of C, with the sign of the dividend.\<close>

definition c_rem :: "int \<Rightarrow> int \<Rightarrow> int" where
  "c_rem a m = (if a < 0 then - ((- a) mod m) else a mod m)"

definition wr_int :: "bool list \<Rightarrow> int \<Rightarrow> bool list option" where
  "wr_int ary i = (if 0 \<le> i \<and> i < int (length ary) then Some (ary[nat i := True]) else None)"

text \<open>The first name that the text starts with: its index and the rest.\<close>

fun find_name :: "string list \<Rightarrow> int \<Rightarrow> string \<Rightarrow> (int \<times> string) option" where
  "find_name [] i ptr = None"
| "find_name (n # names) i ptr =
     (if take (length n) ptr = n then Some (i, drop (length n) ptr) else find_name names (i + 1) ptr)"

text \<open>A number, a name or a star: the new \<open>n1\<close>, \<open>n2\<close> and pointer, or nothing when \<open>skip\<close> stays 0.\<close>

definition field_value :: "int \<Rightarrow> int \<Rightarrow> string list \<Rightarrow> int \<Rightarrow> int \<Rightarrow> string \<Rightarrow> (int \<times> int \<times> string) option" where
  "field_value modvalue off names n1 n2 ptr =
     (if starts (CHR ''*'') ptr then Some (0, modvalue - 1, tl ptr)
      else if ptr \<noteq> [] \<and> isdigit (hd ptr) then
        (case strtol 10 ptr of (v, ptr) \<Rightarrow> if n1 < 0 then Some (v + off, n2, ptr) else Some (n1, v + off, ptr))
      else case find_name names 0 ptr of
        None \<Rightarrow> None
      | Some (i, ptr) \<Rightarrow> if n1 < 0 then Some (i, n2, ptr) else Some (n1, i, ptr))"

text \<open>
  The loop that fills the array; \<open>None\<close> inside is the end by \<open>failsafe\<close>, which counts down to 0.
\<close>

fun fill :: "nat \<Rightarrow> bool list \<Rightarrow> int \<Rightarrow> int \<Rightarrow> int \<Rightarrow> int \<Rightarrow> int \<Rightarrow> bool list option option" where
  "fill 0 ary modvalue n1 n2 s0 skip = Some None"
| "fill (Suc failsafe) ary modvalue n1 n2 s0 skip =
     (let n1 = c_rem (n1 + 1) modvalue in
      if s0 - 1 < - (2 ^ 31) then None
      else do {
        (ary, s0) \<leftarrow> (if s0 - 1 = 0 then do { a \<leftarrow> wr_int ary (c_rem n1 modvalue); Some (a, skip) }
                      else Some (ary, s0 - 1));
        if n1 = n2 then Some (Some ary) else fill failsafe ary modvalue n1 n2 s0 skip })"

declare fill.simps [simp del]

text \<open>The part behind a value: a range goes on, otherwise the array is filled.\<close>

datatype field_next = Failed | Again int int string | Filled "bool list" string

definition field_fill :: "bool list \<Rightarrow> int \<Rightarrow> int \<Rightarrow> int \<Rightarrow> string \<Rightarrow> field_next option" where
  "field_fill ary modvalue n1 n2 ptr =
     (if starts (CHR ''-'') ptr \<and> n2 < 0 then Some (Again n1 n2 (tl ptr))
      else
        let n2 = (if n2 < 0 then n1 else n2);
            (skip, ptr) = (if starts (CHR ''/'') ptr then strtol 10 (tl ptr) else (1, ptr))
        in do {
          r \<leftarrow> fill 1024 ary modvalue (n1 - 1) n2 1 skip;
          Some (case r of None \<Rightarrow> Failed | Some ary \<Rightarrow> Filled ary ptr) })"

lemma find_name_shorter: "find_name names i ptr = Some (j, ptr') \<Longrightarrow> length ptr' \<le> length ptr"
  by (induction names i ptr rule: find_name.induct) (auto split: if_splits)

lemma field_value_shorter:
  "field_value modvalue off names n1 n2 ptr = Some (m1, m2, ptr') \<Longrightarrow> length ptr' \<le> length ptr"
  using strtol_shorter [of 10 ptr]
  by (auto simp: field_value_def split: if_splits option.splits prod.splits dest: find_name_shorter)

lemma field_fill_shorter:
  "field_fill ary modvalue n1 n2 ptr = Some (Again m1 m2 ptr') \<Longrightarrow> length ptr' < length ptr"
  "field_fill ary modvalue n1 n2 ptr = Some (Filled ary' ptr') \<Longrightarrow> length ptr' \<le> length ptr"
proof -
  show "field_fill ary modvalue n1 n2 ptr = Some (Again m1 m2 ptr') \<Longrightarrow> length ptr' < length ptr"
    by (auto simp: field_fill_def starts_def Let_def bind_eq_Some_conv split: if_splits prod.splits option.splits)
  show "field_fill ary modvalue n1 n2 ptr = Some (Filled ary' ptr') \<Longrightarrow> length ptr' \<le> length ptr"
    using strtol_shorter [of 10 "tl ptr"]
    by (simp add: field_fill_def Let_def split: if_split_asm prod.split_asm Option.bind_split_asm option.split_asm)
qed

text \<open>The loop over the text of a field; \<open>None\<close> inside is the null pointer of an error.\<close>

function field_loop :: "int \<Rightarrow> int \<Rightarrow> string list \<Rightarrow> bool list \<Rightarrow> int \<Rightarrow> int \<Rightarrow> string \<Rightarrow> (bool list \<times> string) option option" where
  "field_loop modvalue off names ary n1 n2 ptr =
     (if at_blank ptr then Some (Some (ary, ptr))
      else case field_value modvalue off names n1 n2 ptr of
        None \<Rightarrow> Some None
      | Some (n1, n2, ptr1) \<Rightarrow> do {
          r \<leftarrow> field_fill ary modvalue n1 n2 ptr1;
          case r of
            Failed \<Rightarrow> Some None
          | Again n1 n2 ptr2 \<Rightarrow> field_loop modvalue off names ary n1 n2 ptr2
          | Filled ary ptr2 \<Rightarrow>
              if \<not> starts (CHR '','') ptr2 then Some (Some (ary, ptr2))
              else field_loop modvalue off names ary (- 1) (- 1) (tl ptr2) })"
  by pat_completeness auto
termination
  by (relation "measure (\<lambda>(_, _, _, _, _, _, ptr). length ptr)")
    (auto dest!: field_value_shorter field_fill_shorter simp: starts_def simp flip: length_greater_0_conv)

declare field_loop.simps [simp del]

definition ParseField :: "bool list \<Rightarrow> int \<Rightarrow> int \<Rightarrow> string list \<Rightarrow> string \<Rightarrow> (bool list \<times> string) option option" where
  "ParseField ary modvalue off names ptr = do {
     r \<leftarrow> field_loop modvalue off names ary (- 1) (- 1) ptr;
     Some (case r of
       None \<Rightarrow> None
     | Some (ary, ptr) \<Rightarrow> if at_blank ptr then Some (ary, dropWhile field_blank ptr) else None) }"

section \<open>What a field means\<close>

text \<open>
  The text of a field: ranges, single values and the star, with an optional step, separated by
  commas. A number \<open>n\<close> of the text stands for the index \<open>n + off\<close>.
\<close>

datatype cron_range = Star | Single nat | Range nat nat

type_synonym cron_item = "cron_range \<times> nat option"

fun range_text :: "cron_range \<Rightarrow> string" where
  "range_text Star = ''*''"
| "range_text (Single n) = dstr n"
| "range_text (Range a b) = dstr a @ ''-'' @ dstr b"

definition item_text :: "cron_item \<Rightarrow> string" where
  "item_text = (\<lambda>(r, step). range_text r @ (case step of None \<Rightarrow> [] | Some k \<Rightarrow> ''/'' @ dstr k))"

fun field_text :: "cron_item list \<Rightarrow> string" where
  "field_text [] = []"
| "field_text [i] = item_text i"
| "field_text (i # is) = item_text i @ '','' @ field_text is"

text \<open>The first and the last index of a range, which may run over the end of the array.\<close>

fun range_ends :: "int \<Rightarrow> int \<Rightarrow> cron_range \<Rightarrow> int \<times> int" where
  "range_ends m off Star = (0, m - 1)"
| "range_ends m off (Single n) = (int n + off, int n + off)"
| "range_ends m off (Range a b) = (int a + off, int b + off)"

definition item_ok :: "int \<Rightarrow> int \<Rightarrow> cron_item \<Rightarrow> bool" where
  "item_ok m off = (\<lambda>(r, step).
     (let (a, b) = range_ends m off r in 0 \<le> a \<and> a < m \<and> 0 \<le> b \<and> b < m) \<and>
     (case step of None \<Rightarrow> True | Some k \<Rightarrow> 0 < k \<and> k < 2 ^ 31))"

text \<open>Every \<open>k\<close>-th index of the range, from its first one.\<close>

definition item_index :: "int \<Rightarrow> int \<Rightarrow> cron_item \<Rightarrow> int \<Rightarrow> bool" where
  "item_index m off = (\<lambda>(r, step) i.
     let (a, b) = range_ends m off r; k = (case step of None \<Rightarrow> 1 | Some k \<Rightarrow> int k)
     in 0 \<le> i \<and> i < m \<and> (i - a) mod m \<le> (b - a) mod m \<and> k dvd (i - a) mod m)"

definition marked :: "bool list \<Rightarrow> int \<Rightarrow> bool" where
  "marked ary i \<longleftrightarrow> 0 \<le> i \<and> i < int (length ary) \<and> ary ! nat i"

lemma c_rem_pos: "0 \<le> a \<Longrightarrow> c_rem a m = a mod m"
  by (simp add: c_rem_def)

lemma marked_update:
  "0 \<le> x \<Longrightarrow> x < int (length ary) \<Longrightarrow> marked (ary[nat x := True]) i \<longleftrightarrow> i = x \<or> marked ary i"
  by (auto simp: marked_def nth_list_update nat_eq_iff)

text \<open>
  The loop from index \<open>x\<close>, \<open>d\<close> steps in front of its end, when \<open>s0 - 1\<close> more indices are skipped.
\<close>

lemma fill_step:
  assumes "0 \<le> x" "x < m" "int (length ary) = m" "c_rem (n1 + 1) m = x" "1 \<le> s0" "s0 \<le> skip"
  shows "\<exists>ary' s'. fill (Suc f) ary m n1 n2 s0 skip =
      (if x = n2 then Some (Some ary') else fill f ary' m x n2 s' skip) \<and>
    length ary' = length ary \<and> (\<forall>i. marked ary' i \<longleftrightarrow> marked ary i \<or> s0 = 1 \<and> i = x) \<and>
    s' = (if s0 = 1 then skip else s0 - 1)"
proof (cases "s0 = 1")
  case True
  have "c_rem x m = x" using assms by (simp add: c_rem_pos)
  then have "wr_int ary (c_rem x m) = Some (ary[nat x := True])" using assms by (simp add: wr_int_def)
  with True assms show ?thesis
    by (intro exI [of _ "ary[nat x := True]"] exI [of _ skip]) (auto simp: fill.simps Let_def marked_update)
next
  case False
  with assms show ?thesis
    by (intro exI [of _ ary] exI [of _ "s0 - 1"]) (simp add: fill.simps Let_def)
qed

definition step_hit :: "int \<Rightarrow> int \<Rightarrow> int \<Rightarrow> int \<Rightarrow> nat \<Rightarrow> int \<Rightarrow> bool" where
  "step_hit m skip x s0 d i \<longleftrightarrow> (\<exists>j \<le> d. s0 \<le> int j + 1 \<and> skip dvd int j + 1 - s0 \<and> i = (x + int j) mod m)"

lemma ex_le_Suc: "(\<exists>j \<le> Suc d. P j) \<longleftrightarrow> P 0 \<or> (\<exists>j \<le> d. P (Suc j))"
  by (metis Suc_le_mono le0 not0_implies_Suc)

lemma step_hit_Suc:
  assumes "0 \<le> x" "x < m" "1 \<le> s0" "s0 \<le> skip"
  shows "step_hit m skip x s0 (Suc d) i \<longleftrightarrow> s0 = 1 \<and> i = x \<or>
    step_hit m skip ((x + 1) mod m) (if s0 = 1 then skip else s0 - 1) d i"
proof -
  have *: "(s0 \<le> int (Suc j) + 1 \<and> skip dvd int (Suc j) + 1 - s0 \<and> i = (x + int (Suc j)) mod m) \<longleftrightarrow>
      ((if s0 = 1 then skip else s0 - 1) \<le> int j + 1 \<and> skip dvd int j + 1 - (if s0 = 1 then skip else s0 - 1) \<and>
        i = ((x + 1) mod m + int j) mod m)" for j
  proof -
    have "((x + 1) mod m + int j) mod m = (x + int (Suc j)) mod m" by (simp add: mod_simps algebra_simps)
    moreover have "skip dvd int j + 1 \<longleftrightarrow> skip \<le> int j + 1 \<and> skip dvd int j + 1 - skip"
      using zdvd_imp_le [of skip "int j + 1"] dvd_add_right_iff [of skip skip "int j + 1 - skip"] by auto
    ultimately show ?thesis by (auto simp: algebra_simps)
  qed
  have "(s0 \<le> int 0 + 1 \<and> skip dvd int 0 + 1 - s0 \<and> i = (x + int 0) mod m) \<longleftrightarrow> s0 = 1 \<and> i = x"
    using assms by auto
  then show ?thesis unfolding step_hit_def ex_le_Suc * by (simp only:)
qed

lemma fill_marks:
  assumes "0 \<le> x" "x < m" "int (length ary) = m" "c_rem (n1 + 1) m = x"
    "n2 = (x + int d) mod m" "int d < m" "d < f" "1 \<le> s0" "s0 \<le> skip"
  shows "\<exists>ary'. fill f ary m n1 n2 s0 skip = Some (Some ary') \<and> length ary' = length ary \<and>
    (\<forall>i. marked ary' i \<longleftrightarrow> marked ary i \<or> step_hit m skip x s0 d i)"
  using assms
proof (induction d arbitrary: f x n1 ary s0)
  case 0
  then obtain g where g: "f = Suc g" by (cases f) auto
  have "n2 = x" using 0 by simp
  moreover have "step_hit m skip x s0 0 i \<longleftrightarrow> s0 = 1 \<and> i = x" for i
    using 0 by (auto simp: step_hit_def)
  ultimately show ?case using fill_step [of x m ary n1 s0 skip g n2] 0 g by auto
next
  case (Suc d)
  then obtain g where g: "f = Suc g" "d < g" by (cases f) auto
  from fill_step [of x m ary n1 s0 skip g n2] Suc.prems obtain ary1 s1 where 1:
    "fill f ary m n1 n2 s0 skip = (if x = n2 then Some (Some ary1) else fill g ary1 m x n2 s1 skip)"
    "length ary1 = length ary" "\<forall>i. marked ary1 i \<longleftrightarrow> marked ary i \<or> s0 = 1 \<and> i = x"
    "s1 = (if s0 = 1 then skip else s0 - 1)"
    using g by auto
  have "x \<noteq> n2"
  proof
    assume "x = n2"
    then have "(x + int (Suc d)) mod m = x mod m" using Suc.prems by simp
    then have "m dvd int (Suc d)" by (simp add: mod_eq_dvd_iff)
    with Suc.prems show False using zdvd_imp_le [of m "int (Suc d)"] by auto
  qed
  moreover have "\<exists>ary'. fill g ary1 m x n2 s1 skip = Some (Some ary') \<and> length ary' = length ary1 \<and>
      (\<forall>i. marked ary' i \<longleftrightarrow> marked ary1 i \<or> step_hit m skip ((x + 1) mod m) s1 d i)"
    using Suc.prems 1(2,4) g
    by (intro Suc.IH) (auto simp: c_rem_pos mod_simps algebra_simps)
  ultimately show ?case
    using 1 step_hit_Suc [of x m s0 skip d] Suc.prems by auto
qed

lemma step_hit_item:
  assumes "0 \<le> a" "a < m" "d = nat ((b - a) mod m)"
  shows "step_hit m k a 1 d i \<longleftrightarrow> 0 \<le> i \<and> i < m \<and> (i - a) mod m \<le> (b - a) mod m \<and> k dvd (i - a) mod m"
proof
  have m: "0 < m" using assms by simp
  then have d: "int d = (b - a) mod m" using assms by simp
  show "0 \<le> i \<and> i < m \<and> (i - a) mod m \<le> (b - a) mod m \<and> k dvd (i - a) mod m" if "step_hit m k a 1 d i"
  proof -
    from that obtain j where j: "j \<le> d" "k dvd int j" "i = (a + int j) mod m" by (auto simp: step_hit_def)
    have "int j < m" using j(1) d m by (metis le_less_trans of_nat_le_iff pos_mod_bound)
    then have "(i - a) mod m = int j" using j(3) by (simp add: mod_simps)
    with j d m show ?thesis by simp
  qed
  assume i: "0 \<le> i \<and> i < m \<and> (i - a) mod m \<le> (b - a) mod m \<and> k dvd (i - a) mod m"
  let ?j = "nat ((i - a) mod m)"
  have "int ?j = (i - a) mod m" using m by simp
  moreover have "(a + (i - a) mod m) mod m = i" using i by (simp add: mod_simps)
  ultimately show "step_hit m k a 1 d i"
    unfolding step_hit_def using i d by (intro exI [of _ ?j]) (simp add: nat_le_iff)
qed

text \<open>The characters that can follow an item.\<close>

definition item_end :: "string \<Rightarrow> bool" where
  "item_end r \<longleftrightarrow> at_blank r \<or> starts (CHR '','') r"

lemma item_end_char:
  assumes "item_end r"
  shows "r \<noteq> []" "\<not> digit_val (hd r) < 10" "\<not> starts (CHR ''-'') r" "\<not> starts (CHR ''/'') r"
  using assms by (auto simp: item_end_def at_blank_def starts_def field_blank_def digit_val_def)

definition step_text :: "nat option \<Rightarrow> string" where
  "step_text step = (case step of None \<Rightarrow> [] | Some k \<Rightarrow> ''/'' @ dstr k)"

lemma step_text_char:
  assumes "item_end r"
  shows "step_text step @ r \<noteq> []" "\<not> digit_val (hd (step_text step @ r)) < 10" "\<not> starts (CHR ''-'') (step_text step @ r)"
  using item_end_char [OF assms] by (auto simp: step_text_def starts_def digit_val_def split: option.split)

lemma field_fill_item:
  assumes m: "int (length ary) = m" "m \<le> 1024" and ab: "0 \<le> a" "a < m" "0 \<le> b" "b < m"
    and k: "case step of None \<Rightarrow> True | Some k \<Rightarrow> 0 < k \<and> k < 2 ^ 31" and r: "item_end r"
    and n2: "n2 = b \<or> n2 < 0 \<and> b = a"
  shows "\<exists>ary'. field_fill ary m a n2 (step_text step @ r) = Some (Filled ary' r) \<and> length ary' = length ary \<and>
    (\<forall>i. marked ary' i \<longleftrightarrow> marked ary i \<or> 0 \<le> i \<and> i < m \<and> (i - a) mod m \<le> (b - a) mod m \<and>
      (case step of None \<Rightarrow> 1 | Some k \<Rightarrow> int k) dvd (i - a) mod m)"
proof -
  let ?k = "case step of None \<Rightarrow> 1 | Some k \<Rightarrow> int k" and ?d = "nat ((b - a) mod m)"
  have mpos: "0 < m" using ab by simp
  have s: "(if starts (CHR ''/'') (step_text step @ r) then strtol 10 (tl (step_text step @ r)) else (1, step_text step @ r))
      = (?k, r)"
    using item_end_char [OF r] strtol_decimal [of _ r] k
    by (auto simp: step_text_def starts_def split: option.splits)
  have "int ?d = (b - a) mod m" "(b - a) mod m < m" using mpos by simp_all
  moreover from this have "?d < 1024" using m(2) by linarith
  moreover have "(a + (b - a) mod m) mod m = b" using ab by (simp add: mod_simps)
  moreover have "1 \<le> ?k" using k by (auto split: option.splits)
  ultimately obtain ary' where a: "fill 1024 ary m (a - 1) b 1 ?k = Some (Some ary')" "length ary' = length ary"
    "\<forall>i. marked ary' i \<longleftrightarrow> marked ary i \<or> step_hit m ?k a 1 ?d i"
    using fill_marks [of a m ary "a - 1" b ?d 1024 1 ?k] ab m by (auto simp: c_rem_pos)
  have "field_fill ary m a n2 (step_text step @ r) = Some (Filled ary' r)"
    using step_text_char [OF r, of step] n2 ab a(1) s by (auto simp: field_fill_def Let_def)
  with a(2,3) show ?thesis
    by (intro exI [of _ ary']) (simp only: step_hit_item [OF ab(1,2) refl] simp_thms)
qed

lemma field_value_number:
  assumes "n < 2 ^ 31" "s \<noteq> []" "\<not> digit_val (hd s) < 10"
  shows "field_value m off names n1 n2 (dstr n @ s) =
    Some (if n1 < 0 then (int n + off, n2, s) else (n1, int n + off, s))"
    "\<not> at_blank (dstr n @ s)"
proof -
  obtain c r where c: "dstr n = c # r" "isdigit c" using dstr_props [of n] by (cases "dstr n") auto
  have "\<not> starts (CHR ''*'') (dstr n @ s)" using c by (auto simp: starts_def isdigit_def)
  then show "field_value m off names n1 n2 (dstr n @ s) =
      Some (if n1 < 0 then (int n + off, n2, s) else (n1, int n + off, s))"
    using c strtol_decimal [of n s] assms by (simp add: field_value_def)
  show "\<not> at_blank (dstr n @ s)" using c by (auto simp: at_blank_def field_blank_def isdigit_def)
qed

text \<open>One item of a field.\<close>

lemma field_loop_item:
  assumes m: "int (length ary) = m" "m \<le> 1024" and off: "off \<in> {0, - 1}" and ok: "item_ok m off it"
    and r: "item_end r"
  shows "\<exists>ary'. length ary' = length ary \<and>
    (\<forall>i. marked ary' i \<longleftrightarrow> marked ary i \<or> item_index m off it i) \<and>
    field_loop m off names ary (- 1) (- 1) (item_text it @ r) =
      (if starts (CHR '','') r then field_loop m off names ary' (- 1) (- 1) (tl r) else Some (Some (ary', r)))"
proof -
  obtain rg step where it: "it = (rg, step)" by force
  obtain a b where ab: "range_ends m off rg = (a, b)" by force
  have ok': "0 \<le> a" "a < m" "0 \<le> b" "b < m" "case step of None \<Rightarrow> True | Some k \<Rightarrow> 0 < k \<and> k < 2 ^ 31"
    using ok ab by (auto simp: item_ok_def it)
  let ?s = "step_text step @ r"
  note s = step_text_char [OF r, of step]
  have idx: "item_index m off it i \<longleftrightarrow> 0 \<le> i \<and> i < m \<and> (i - a) mod m \<le> (b - a) mod m \<and>
      (case step of None \<Rightarrow> 1 | Some k \<Rightarrow> int k) dvd (i - a) mod m" for i
    by (simp add: item_index_def it ab)
  have num: "n < 2 ^ 31" if "int n + off < m" for n using that m(2) off by auto
  define n2 where "n2 = (case rg of Single _ \<Rightarrow> - 1 | _ \<Rightarrow> b)"
  have "n2 = b \<or> n2 < 0 \<and> b = a" using ab by (cases rg) (auto simp: n2_def)
  from field_fill_item [OF m ok' r this] obtain ary' where a': "length ary' = length ary"
    "\<forall>i. marked ary' i \<longleftrightarrow> marked ary i \<or> item_index m off it i"
    "field_fill ary m a n2 ?s = Some (Filled ary' r)"
    unfolding idx by blast
  have itx: "item_text it @ r = range_text rg @ ?s"
    by (simp add: item_text_def it step_text_def)
  have last: "field_loop m off names ary n1 k ptr =
      (if starts (CHR '','') r then field_loop m off names ary' (- 1) (- 1) (tl r) else Some (Some (ary', r)))"
    if "\<not> at_blank ptr" "field_value m off names n1 k ptr = Some (a, n2, ?s)" for n1 k ptr
    using that a'(3) by (simp add: field_loop.simps [of m off names ary n1 k ptr])
  have "field_loop m off names ary (- 1) (- 1) (range_text rg @ ?s) =
      (if starts (CHR '','') r then field_loop m off names ary' (- 1) (- 1) (tl r) else Some (Some (ary', r)))"
  proof (cases rg)
    case Star
    then show ?thesis using ab
      by (intro last) (auto simp: n2_def at_blank_def field_blank_def field_value_def starts_def)
  next
    case (Single n)
    then have "n < 2 ^ 31" using ab ok' num [of n] by simp
    then show ?thesis using Single ab field_value_number [OF _ s(1,2)]
      by (intro last) (simp_all add: n2_def)
  next
    case (Range x y)
    then have xy: "x < 2 ^ 31" "y < 2 ^ 31" "a = int x + off" "b = int y + off"
      using ab ok' num [of x] num [of y] by simp_all
    let ?y = "CHR ''-'' # dstr y @ ?s"
    have y: "?y \<noteq> []" "\<not> digit_val (hd ?y) < 10" by (simp_all add: digit_val_def)
    have "field_fill ary m a (- 1) ?y = Some (Again a (- 1) (dstr y @ ?s))"
      by (simp add: field_fill_def starts_def)
    then have "field_loop m off names ary (- 1) (- 1) (dstr x @ ?y) = field_loop m off names ary a (- 1) (dstr y @ ?s)"
      using field_value_number(1) [OF xy(1) y, of m off names "- 1" "- 1"] field_value_number(2) [OF xy(1) y] xy(3)
      by (simp add: field_loop.simps [of m off names ary "- 1" "- 1" "dstr x @ ?y"])
    also have "\<dots> = (if starts (CHR '','') r then field_loop m off names ary' (- 1) (- 1) (tl r) else Some (Some (ary', r)))"
      using field_value_number [OF xy(2) s(1,2)] Range xy ok'(1) by (intro last) (simp_all add: n2_def)
    finally show ?thesis using Range by simp
  qed
  with a' itx show ?thesis by auto
qed

lemma field_loop_items:
  assumes "int (length ary) = m" "m \<le> 1024" "off \<in> {0, - 1}" "is \<noteq> []" "\<forall>it \<in> set is. item_ok m off it" "at_blank r"
  shows "\<exists>ary'. field_loop m off names ary (- 1) (- 1) (field_text is @ r) = Some (Some (ary', r)) \<and>
    length ary' = length ary \<and> (\<forall>i. marked ary' i \<longleftrightarrow> marked ary i \<or> (\<exists>it \<in> set is. item_index m off it i))"
  using assms(1,4,5)
proof (induction "is" arbitrary: ary rule: field_text.induct)
  case 1
  then show ?case by simp
next
  case (2 it)
  have "\<not> starts (CHR '','') r" "item_end r"
    using assms(6) by (auto simp: at_blank_def starts_def field_blank_def item_end_def)
  then show ?case using field_loop_item [of ary m off it r names] assms(2,3) 2 by auto
next
  case (3 it it2 rest)
  let ?r = "CHR '','' # field_text (it2 # rest) @ r"
  have "item_end ?r" "starts (CHR '','') ?r" by (simp_all add: item_end_def starts_def)
  with field_loop_item [of ary m off it ?r names] 3(2,4) assms(2,3) obtain ary1 where 1:
    "length ary1 = length ary" "\<forall>i. marked ary1 i \<longleftrightarrow> marked ary i \<or> item_index m off it i"
    "field_loop m off names ary (- 1) (- 1) (item_text it @ ?r)
      = field_loop m off names ary1 (- 1) (- 1) (field_text (it2 # rest) @ r)"
    by auto
  from 3(1) [of ary1] 3(2,4) 1(1) obtain ary' where
    "field_loop m off names ary1 (- 1) (- 1) (field_text (it2 # rest) @ r) = Some (Some (ary', r))"
    "length ary' = length ary1"
    "\<forall>i. marked ary' i \<longleftrightarrow> marked ary1 i \<or> (\<exists>it \<in> set (it2 # rest). item_index m off it i)"
    by auto
  with 1 show ?case by auto
qed

text \<open>
  C37. The parser of a time field of a crontab accepts every list of values, ranges and stars with
  steps in the range of the field, followed by a blank; it marks in the array exactly the indices the
  list denotes, where a range may run over the end to the start, and returns the pointer behind the
  blanks. The counter against endless loops never strikes on such a field, and all writes are within
  the array.
\<close>

theorem ParseField_marks:
  assumes "int (length ary) = m" "m \<le> 1024" "off \<in> {0, - 1}"
    "is \<noteq> []" "\<forall>it \<in> set is. item_ok m off it" "field_blank c"
  shows "\<exists>ary'. ParseField ary m off names (field_text is @ c # rest) = Some (Some (ary', dropWhile field_blank rest)) \<and>
    length ary' = length ary \<and> (\<forall>i. marked ary' i \<longleftrightarrow> marked ary i \<or> (\<exists>it \<in> set is. item_index m off it i))"
  using field_loop_items [OF assms(1-5), of "c # rest" names] assms(6)
  by (auto simp: ParseField_def at_blank_def)

theorem ParseField_marks_witness:
  "\<exists>ary'. ParseField (replicate 60 False) 60 0 [] (field_text [(Range 50 10, Some 15)] @ CHR '' '' # ''x'') = Some (Some (ary', ''x'')) \<and>
    marked ary' 50 \<and> marked ary' 5 \<and> \<not> marked ary' 10"
proof -
  have "dropWhile field_blank ''x'' = ''x''" by code_simp
  moreover have "\<not> marked (replicate 60 False) i" for i by (auto simp: marked_def)
  ultimately obtain ary' where
    "ParseField (replicate 60 False) 60 0 [] (field_text [(Range 50 10, Some 15)] @ CHR '' '' # ''x'') = Some (Some (ary', ''x''))"
    "\<forall>i. marked ary' i \<longleftrightarrow> item_index 60 0 (Range 50 10, Some 15) i"
    using ParseField_marks [of "replicate 60 False" 60 0 "[(Range 50 10, Some 15)]" "CHR '' ''" "[]" "''x''"]
    by (auto simp: item_ok_def field_blank_def)
  then show ?thesis by (intro exI [of _ ary']) (simp add: item_index_def)
qed

section \<open>Fields that are not accepted\<close>

text \<open>An end of a range that is not an index of the array is never met, and the counter strikes.\<close>

lemma fill_never:
  assumes "0 < m" "int (length ary) = m" "0 \<le> n1 + 1" "m \<le> n2" "1 \<le> s0" "s0 \<le> skip"
  shows "fill f ary m n1 n2 s0 skip = Some None"
  using assms
proof (induction f arbitrary: ary n1 s0)
  case 0
  then show ?case by (simp add: fill.simps)
next
  case (Suc f)
  let ?x = "(n1 + 1) mod m"
  have x: "0 \<le> ?x" "?x < m" "c_rem (n1 + 1) m = ?x" using Suc.prems by (simp_all add: c_rem_pos)
  from fill_step [OF x(1,2) Suc.prems(2) x(3) Suc.prems(5,6), of f n2] obtain ary' s' where
    "fill (Suc f) ary m n1 n2 s0 skip = (if ?x = n2 then Some (Some ary') else fill f ary' m ?x n2 s' skip)"
    "length ary' = length ary" "s' = (if s0 = 1 then skip else s0 - 1)" by blast
  moreover have "fill f ary' m ?x n2 s' skip = Some None"
    using Suc.prems x calculation(2,3) by (intro Suc.IH) auto
  ultimately show ?case using x Suc.prems by simp
qed

lemma field_too_large:
  assumes v: "field_value m off names (- 1) (- 1) ptr = Some (v, - 1, r)" "\<not> at_blank ptr" "m \<le> v" "0 < m"
    and r: "r \<noteq> []" "\<not> starts (CHR ''-'') r" "\<not> starts (CHR ''/'') r" and ary: "int (length ary) = m"
  shows "ParseField ary m off names ptr = Some None"
proof -
  have "fill 1024 ary m (v - 1) v 1 1 = Some None" using v ary by (intro fill_never) auto
  then have "field_fill ary m v (- 1) r = Some Failed" using r by (simp add: field_fill_def)
  then show ?thesis using v by (simp add: ParseField_def field_loop.simps [of m off names ary "- 1" "- 1" ptr])
qed

text \<open>A number above the range of the field is rejected.\<close>

lemma number_too_large_rejected:
  assumes "n < 2 ^ 31" "m \<le> int n + off" "0 < m" "int (length ary) = m" "field_blank c"
  shows "ParseField ary m off names (dstr n @ c # rest) = Some None"
proof -
  have c: "\<not> digit_val c < 10" "c \<noteq> CHR ''-''" "c \<noteq> CHR ''/''"
    using assms(5) by (auto simp: field_blank_def digit_val_def)
  show ?thesis
    using assms c field_value_number(1) [OF assms(1), of "c # rest" m off names "- 1" "- 1"]
      field_value_number(2) [OF assms(1), of "c # rest"]
    by (intro field_too_large [where v = "int n + off" and r = "c # rest"]) (auto simp: starts_def)
qed

text \<open>
  The tables contain the names with a capital letter, but their positions are not indices of the
  arrays: a line with such a name is rejected.
\<close>

lemma capital_names_rejected:
  "\<forall>n \<in> set (drop 7 DowAry). ParseField (replicate 7 False) 7 0 DowAry (n @ '' x'') = Some None"
  "\<forall>n \<in> set (drop 12 MonAry). ParseField (replicate 12 False) 12 (- 1) MonAry (n @ '' x'') = Some None"
proof -
  have 1: "\<forall>n \<in> set (drop 7 DowAry). case field_value 7 0 DowAry (- 1) (- 1) (n @ '' x'') of
      Some (v, w, r) \<Rightarrow> 7 \<le> v \<and> w = - 1 \<and> r = '' x'' \<and> \<not> at_blank (n @ '' x'') | None \<Rightarrow> False"
    by code_simp
  have 2: "\<forall>n \<in> set (drop 12 MonAry). case field_value 12 (- 1) MonAry (- 1) (- 1) (n @ '' x'') of
      Some (v, w, r) \<Rightarrow> 12 \<le> v \<and> w = - 1 \<and> r = '' x'' \<and> \<not> at_blank (n @ '' x'') | None \<Rightarrow> False"
    by code_simp
  have x: "ParseField ary m off names (n @ '' x'') = Some None"
    if "case field_value m off names (- 1) (- 1) (n @ '' x'') of
      Some (v, w, r) \<Rightarrow> m \<le> v \<and> w = - 1 \<and> r = '' x'' \<and> \<not> at_blank (n @ '' x'') | None \<Rightarrow> False"
      "0 < m" "int (length ary) = m" for ary m off names n
    using that field_too_large [of m off names "n @ '' x''" _ "'' x''" ary]
    by (auto simp: starts_def split: option.splits)
  show "\<forall>n \<in> set (drop 7 DowAry). ParseField (replicate 7 False) 7 0 DowAry (n @ '' x'') = Some None"
    using 1 by (intro ballI x) simp_all
  show "\<forall>n \<in> set (drop 12 MonAry). ParseField (replicate 12 False) 12 (- 1) MonAry (n @ '' x'') = Some None"
    using 2 by (intro ballI x) simp_all
qed

text \<open>
  A month 0 in a crontab makes the parser write in front of the array of the months: in the
  structure of the line this is the entry of the 31st day.
\<close>

lemma month_zero_overrun:
  assumes "field_blank c"
  shows "ParseField ary 12 (- 1) names (CHR ''0'' # c # rest) = None"
proof -
  have c: "\<not> digit_val c < 10" "c \<noteq> CHR ''-''" "c \<noteq> CHR ''/''"
    using assms by (auto simp: field_blank_def digit_val_def)
  have d: "CHR ''0'' # c # rest = dstr 0 @ c # rest" by (simp add: dstr_simps char_of_codes)
  have "fill 1024 ary 12 (- 2) (- 1) 1 1 = None"
    by (simp add: fill.simps(2) [of 1023, simplified] c_rem_def wr_int_def)
  then have "field_fill ary 12 (- 1) (- 1) (c # rest) = None" using c by (simp add: field_fill_def starts_def)
  then show ?thesis
    unfolding d ParseField_def
    using field_value_number(1) [of 0 "c # rest" 12 "- 1" names "- 1" "- 1"] field_value_number(2) [of 0 "c # rest"] c
    by (simp add: field_loop.simps [of 12 "- 1" names ary "- 1" "- 1" "dstr 0 @ c # rest"])
qed

lemma month_zero_overrun_example: "ParseField (replicate 12 False) 12 (- 1) MonAry ''0 * /bin/x'' = None"
  using month_zero_overrun [of "CHR '' ''"] by (simp add: field_blank_def)

section \<open>The array keeps its size\<close>

lemma fill_length: "fill f ary m n1 n2 s0 skip = Some (Some ary') \<Longrightarrow> length ary' = length ary"
proof (induction f arbitrary: ary n1 s0)
  case (Suc f)
  let ?n = "c_rem (n1 + 1) m"
  from Suc.prems obtain a s where "(if s0 - 1 = 0 then do { a \<leftarrow> wr_int ary (c_rem ?n m); Some (a, skip) }
      else Some (ary, s0 - 1)) = Some (a, s)"
    and a: "(if ?n = n2 then Some (Some a) else fill f a m ?n n2 s skip) = Some (Some ary')"
    unfolding fill.simps Let_def by (auto simp: bind_eq_Some_conv split: if_split_asm)
  then have "length a = length ary" by (auto simp: wr_int_def bind_eq_Some_conv split: if_split_asm)
  with a Suc.IH [of a ?n s] show ?case by (simp split: if_split_asm)
qed (simp add: fill.simps)

lemma field_fill_length: "field_fill ary m n1 n2 ptr = Some (Filled ary' ptr') \<Longrightarrow> length ary' = length ary"
  by (auto simp: field_fill_def Let_def split: if_split_asm prod.split_asm Option.bind_split_asm option.split_asm
    dest: fill_length)

lemma field_loop_length:
  "field_loop m off names ary n1 n2 ptr = Some (Some (ary', ptr')) \<Longrightarrow> length ary' = length ary"
proof (induction m off names ary n1 n2 ptr rule: field_loop.induct)
  case (1 m off names ary n1 n2 ptr)
  note unfold = field_loop.simps [of m off names ary n1 n2 ptr]
  show ?case
  proof (cases "at_blank ptr")
    case False
    with 1(3) obtain v w p where v: "field_value m off names n1 n2 ptr = Some (v, w, p)"
      by (auto simp: unfold split: option.split_asm)
    with False 1(3) obtain r where r: "field_fill ary m v w p = Some r"
      by (auto simp: unfold split: Option.bind_split_asm)
    show ?thesis
    proof (cases r)
      case Failed
      then show ?thesis using 1(3) False v r by (simp add: unfold)
    next
      case (Again a b q)
      then show ?thesis using 1(1) [OF False v refl refl r Again] 1(3) False v r by (simp add: unfold)
    next
      case (Filled a q)
      then have "length a = length ary" using r field_fill_length by simp
      then show ?thesis
        using 1(2) [OF False v refl refl r Filled] 1(3) False v r Filled by (auto simp: unfold split: if_split_asm)
    qed
  qed (use 1(3) in \<open>simp add: unfold\<close>)
qed

lemma ParseField_length: "ParseField ary m off names ptr = Some (Some (ary', ptr')) \<Longrightarrow> length ary' = length ary"
  by (auto simp: ParseField_def split: Option.bind_split_asm option.split_asm prod.split_asm if_split_asm dest: field_loop_length)

end
