(* ===== verification/Crond.thy ===== *)
theory Crond
  imports Crond_Field
begin

text \<open>
  The daemon \<open>crond\<close> (\<open>miscutils/crond.c\<close>): the lines of a crontab, the database of crontabs, and the main
  loop with the jobs it starts and collects. A null pointer that is used, like the overflow of a
  \<open>time_t\<close>, is \<open>None\<close>. The results of system calls, the clock and \<open>localtime\<close> are inputs; what is
  logged is left out.
\<close>

section \<open>The database\<close>

record CronLine =
  cl_Shell :: string
  cl_Pid :: int
  cl_MailFlag :: bool
  cl_MailPos :: int
  cl_Mins :: "bool list"
  cl_Hrs :: "bool list"
  cl_Days :: "bool list"
  cl_Mons :: "bool list"
  cl_Dow :: "bool list"

record CronFile =
  cf_LineBase :: "CronLine list"
  cf_User :: string
  cf_Ready :: bool
  cf_Running :: bool
  cf_Deleted :: bool

type_synonym FileBase = "CronFile list"

definition MAXLINES :: nat where "MAXLINES = 256"
definition DaemonUid :: int where "DaemonUid = 0"

section \<open>A line of a crontab\<close>

definition FixDayDow :: "CronLine \<Rightarrow> CronLine" where
  "FixDayDow line =
     (let weekUsed = (False \<in> set (cl_Dow line));
          daysUsed = (False \<in> set (cl_Days line));
          line = (if weekUsed \<and> \<not> daysUsed
                  then line\<lparr>cl_Days := replicate (length (cl_Days line)) False\<rparr> else line)
      in if daysUsed \<and> \<not> weekUsed
         then line\<lparr>cl_Dow := replicate (length (cl_Dow line)) False\<rparr> else line)"

definition zero_line :: CronLine where
  "zero_line = \<lparr>cl_Shell = [], cl_Pid = 0, cl_MailFlag = False, cl_MailPos = 0,
     cl_Mins = replicate 60 False, cl_Hrs = replicate 24 False, cl_Days = replicate 32 False,
     cl_Mons = replicate 12 False, cl_Dow = replicate 7 False\<rparr>"

text \<open>A call with the null pointer returns the null pointer.\<close>

definition next_field :: "bool list \<Rightarrow> int \<Rightarrow> int \<Rightarrow> string list \<Rightarrow> string option \<Rightarrow> (bool list \<times> string option) option" where
  "next_field ary modvalue off names ptr =
     (case ptr of
        None \<Rightarrow> Some (ary, None)
      | Some p \<Rightarrow> do {
          r \<leftarrow> ParseField ary modvalue off names p;
          Some (case r of None \<Rightarrow> (ary, None) | Some (ary, p) \<Rightarrow> (ary, Some p)) })"

text \<open>The line that is entered for a text, if its fields are accepted.\<close>

definition parse_line :: "string \<Rightarrow> CronLine option option" where
  "parse_line buf = do {
     (mins, ptr) \<leftarrow> next_field (replicate 60 False) 60 0 [] (Some buf);
     (hrs, ptr) \<leftarrow> next_field (replicate 24 False) 24 0 [] ptr;
     (days, ptr) \<leftarrow> next_field (replicate 32 False) 32 0 [] ptr;
     (mons, ptr) \<leftarrow> next_field (replicate 12 False) 12 (- 1) MonAry ptr;
     (dow, ptr) \<leftarrow> next_field (replicate 7 False) 7 0 DowAry ptr;
     Some (case ptr of
       None \<Rightarrow> None
     | Some p \<Rightarrow>
         Some ((FixDayDow (zero_line\<lparr>cl_Mins := mins, cl_Hrs := hrs, cl_Days := days, cl_Mons := mons,
           cl_Dow := dow\<rparr>))\<lparr>cl_Shell := p\<rparr>)) }"

section \<open>Reading crontabs\<close>

definition trim :: "string \<Rightarrow> string" where
  "trim s =
     (let s = rev (dropWhile isspace (rev (cstring s)))
      in dropWhile (\<lambda>c. c \<in> {CHR '' '', CHR 0x0A, CHR 0x0D, CHR 0x09, CHR 0x0B}) s)"

text \<open>The loop over the lines of a file, with the two counters as integers.\<close>

function crontab_lines :: "string \<Rightarrow> int \<Rightarrow> int \<Rightarrow> CronLine list \<Rightarrow> CronLine list option" where
  "crontab_lines f maxLines maxEntries acc =
     (case fgets 1024 f of
        None \<Rightarrow> Some acc
      | Some (buf, rest) \<Rightarrow>
          if maxLines - 1 = 0 then Some acc
          else
            let buf = trim buf in
            if buf = [] \<or> hd buf = CHR ''#'' then crontab_lines rest (maxLines - 1) maxEntries acc
            else if maxEntries - 1 = 0 then Some acc
            else do {
              r \<leftarrow> parse_line buf;
              crontab_lines rest (maxLines - 1) (maxEntries - 1)
                (case r of None \<Rightarrow> acc | Some line \<Rightarrow> acc @ [line]) })"
  by pat_completeness auto
termination
  by (relation "measure (\<lambda>(f, _). length f)") (auto dest: fgets_shorter)

declare crontab_lines.simps [simp del]

text \<open>
  The lines of a file that are kept when its entry is deleted are those of running jobs. When the
  name is the one of a file of the list itself, the first that is not marked, it is freed together
  with this file and compared further on: \<open>owned\<close> is then what the freed memory reads as.
\<close>

fun DeleteFile :: "string option \<Rightarrow> string \<Rightarrow> FileBase \<Rightarrow> FileBase" where
  "DeleteFile owned userName [] = []"
| "DeleteFile owned userName (file # files) =
     (if cf_User file = userName then
        let lines = filter (\<lambda>l. cl_Pid l > 0) (cf_LineBase file)
        in if lines = [] then
             (case owned of
                Some freed \<Rightarrow> if cf_Deleted file then DeleteFile owned userName files else DeleteFile None freed files
              | None \<Rightarrow> DeleteFile None userName files)
           else file\<lparr>cf_Running := True, cf_Deleted := True, cf_LineBase := lines\<rparr>
             # DeleteFile (if cf_Deleted file then owned else None) userName files
      else file # DeleteFile owned userName files)"

text \<open>
  A file that can be opened and examined: its owner and its text. A null pointer as the name, which
  \<open>strtok\<close> gives for an empty line, is undefined.
\<close>

definition SynchronizeFile :: "(string \<Rightarrow> (int \<times> string) option) \<Rightarrow> string option \<Rightarrow> FileBase \<Rightarrow> FileBase option" where
  "SynchronizeFile src fileName fb =
     (case fileName of
        None \<Rightarrow> None
      | Some name \<Rightarrow>
          let maxEntries = (if name = ''root'' then 65535 else int MAXLINES);
              fb = DeleteFile None name fb
          in case src name of
               None \<Rightarrow> Some fb
             | Some (uid, text) \<Rightarrow>
                 if uid \<noteq> DaemonUid then Some fb
                 else do {
                   lines \<leftarrow> crontab_lines text (maxEntries * 10) maxEntries [];
                   Some (\<lparr>cf_LineBase = lines, cf_User = name, cf_Ready = False, cf_Running = False,
                     cf_Deleted = False\<rparr> # fb) })"

text \<open>The file \<open>cron.update\<close>, if there is one.\<close>

function update_lines :: "(string \<Rightarrow> (int \<times> string) option) \<Rightarrow> string \<Rightarrow> FileBase \<Rightarrow> FileBase option" where
  "update_lines src f fb =
     (case fgets 256 f of
        None \<Rightarrow> Some fb
      | Some (buf, rest) \<Rightarrow> do {
          fb \<leftarrow> SynchronizeFile src
            (map_option fst (strtok ('' '' @ [CHR 0x09, CHR 0x0D, CHR 0x0A]) (cstring buf))) fb;
          update_lines src rest fb })"
  by pat_completeness auto
termination
  by (relation "measure (\<lambda>(_, f, _). length f)") (auto dest: fgets_shorter)

declare update_lines.simps [simp del]

definition CheckUpdates :: "(string \<Rightarrow> (int \<times> string) option) \<Rightarrow> string option \<Rightarrow> FileBase \<Rightarrow> FileBase option" where
  "CheckUpdates src update fb = (case update of None \<Rightarrow> Some fb | Some f \<Rightarrow> update_lines src f fb)"

text \<open>The loop that deletes the database starts over at every file that is not marked.\<close>

definition undeleted :: "FileBase \<Rightarrow> nat" where
  "undeleted fb = length (filter (\<lambda>f. \<not> cf_Deleted f) fb)"

lemma DeleteFile_undeleted_le: "undeleted (DeleteFile owned u fb) \<le> undeleted fb"
  by (induction owned u fb rule: DeleteFile.induct)
    (auto simp: undeleted_def Let_def intro: le_SucI split: option.split if_splits)

lemma DeleteFile_undeleted_less:
  "dropWhile cf_Deleted fb = f # fs \<Longrightarrow> undeleted (DeleteFile owned (cf_User f) fb) < undeleted fb"
proof (induction fb arbitrary: owned)
  case (Cons g fb)
  show ?case
  proof (cases "cf_Deleted g")
    case True
    with Cons show ?thesis by (auto simp: undeleted_def Let_def split: option.split)
  next
    case False
    with Cons.prems have "f = g" by simp
    with False show ?thesis
      using DeleteFile_undeleted_le [of None _ fb]
      by (auto simp: undeleted_def Let_def less_Suc_eq_le split: option.split)
  qed
qed simp

function delete_all :: "(string \<Rightarrow> string) \<Rightarrow> FileBase \<Rightarrow> FileBase" where
  "delete_all freed fb =
     (case dropWhile cf_Deleted fb of
        [] \<Rightarrow> fb
      | file # _ \<Rightarrow> delete_all freed (DeleteFile (Some (freed (cf_User file))) (cf_User file) fb))"
  by pat_completeness auto
termination
  by (relation "measure (\<lambda>(_, fb). undeleted fb)") (auto intro: DeleteFile_undeleted_less)

declare delete_all.simps [simp del]

datatype cron_error = Cron_undefined | No_directory

text \<open>
  The directory: \<open>None\<close> when \<open>chdir\<close> or \<open>opendir\<close> fails, which ends the program. \<open>getpwnam\<close> is whether the
  user is known.
\<close>

definition SynchronizeDir :: "(string \<Rightarrow> (int \<times> string) option) \<Rightarrow> (string \<Rightarrow> bool) \<Rightarrow> (string \<Rightarrow> string)
    \<Rightarrow> string list option \<Rightarrow> FileBase \<Rightarrow> cron_error + FileBase" where
  "SynchronizeDir src getpwnam freed dir fb =
     (case dir of
        None \<Rightarrow> Inl No_directory
      | Some names \<Rightarrow>
          case foldM (\<lambda>fb name.
              if CHR ''.'' \<in> set name then Some fb
              else if getpwnam name then SynchronizeFile src (Some name) fb else Some fb)
            (delete_all freed fb) names of
            None \<Rightarrow> Inl Cron_undefined
          | Some fb \<Rightarrow> Inr fb)"

section \<open>Finding the jobs that are due\<close>

record tm =
  tm_min :: nat
  tm_hour :: nat
  tm_mday :: nat
  tm_mon :: nat
  tm_wday :: nat

text \<open>The condition is evaluated from left to right.\<close>

definition job_due :: "tm \<Rightarrow> CronLine \<Rightarrow> bool option" where
  "job_due tp line = do {
     m \<leftarrow> rd (cl_Mins line) (tm_min tp);
     if \<not> m then Some False else do {
       h \<leftarrow> rd (cl_Hrs line) (tm_hour tp);
       if \<not> h then Some False else do {
         d \<leftarrow> rd (cl_Days line) (tm_mday tp);
         w \<leftarrow> (if d then Some True else rd (cl_Dow line) (tm_wday tp));
         if \<not> w then Some False else rd (cl_Mons line) (tm_mon tp) } } }"

text \<open>The inner loop over the lines of a file: the lines and the number of jobs that are armed.\<close>

fun test_lines :: "tm \<Rightarrow> CronLine list \<Rightarrow> (CronLine list \<times> nat) option" where
  "test_lines tp [] = Some ([], 0)"
| "test_lines tp (line # lines) = do {
     due \<leftarrow> job_due tp line;
     (ls, n) \<leftarrow> test_lines tp lines;
     Some (if due \<and> cl_Pid line = 0 then (line\<lparr>cl_Pid := - 1\<rparr> # ls, n + 1) else (line # ls, n)) }"

definition test_file :: "tm \<Rightarrow> CronFile \<Rightarrow> (CronFile \<times> nat) option" where
  "test_file tp f =
     (if cf_Deleted f then Some (f, 0)
      else do {
        (ls, n) \<leftarrow> test_lines tp (cf_LineBase f);
        Some (f\<lparr>cf_LineBase := ls, cf_Ready := cf_Ready f \<or> n > 0\<rparr>, n) })"

fun test_files :: "tm \<Rightarrow> FileBase \<Rightarrow> (FileBase \<times> nat) option" where
  "test_files tp [] = Some ([], 0)"
| "test_files tp (f # fs) = do {
     (f, n) \<leftarrow> test_file tp f;
     (fs, m) \<leftarrow> test_files tp fs;
     Some (f # fs, n + m) }"

text \<open>The loop over the minutes; a \<open>time_t\<close> has 32 bits, and its overflow is undefined.\<close>

function test_loop :: "(int \<Rightarrow> tm) \<Rightarrow> int \<Rightarrow> int \<Rightarrow> int \<Rightarrow> FileBase \<Rightarrow> (FileBase \<times> nat) option" where
  "test_loop localtime t1 t2 t fb =
     (if t \<le> t2 then do {
        (fb, n) \<leftarrow> (if t > t1 then test_files (localtime t) fb else Some (fb, 0));
        if t + 60 \<ge> 2 ^ 31 then None
        else do {
          (fb, m) \<leftarrow> test_loop localtime t1 t2 (t + 60) fb;
          Some (fb, n + m) } }
      else Some (fb, 0))"
  by pat_completeness auto
termination
  by (relation "measure (\<lambda>(_, _, t2, t, _). nat (t2 + 60 - t))") auto

declare test_loop.simps [simp del]

definition TestJobs :: "(int \<Rightarrow> tm) \<Rightarrow> int \<Rightarrow> int \<Rightarrow> FileBase \<Rightarrow> (FileBase \<times> nat) option" where
  "TestJobs localtime t1 t2 fb = test_loop localtime t1 t2 (t1 - c_rem t1 60) fb"

section \<open>Starting and collecting jobs\<close>

text \<open>
  \<open>sendmail\<close> is the option of the build. Creating the mail file of a user gives the size of its header;
  \<open>mail_new\<close> is whether the mail file of a finished job passes the tests of \<open>EndJob\<close>; \<open>wait4\<close> is the
  result of the call for a process. The results of \<open>fork\<close> in the parent are a list that is consumed.
\<close>

record cron_sys =
  sendmail :: bool
  mail_open :: "string \<Rightarrow> int option"
  mail_new :: "string \<Rightarrow> int \<Rightarrow> int \<Rightarrow> bool"
  wait4 :: "int \<Rightarrow> int"

datatype cron_event = Run string string int | Mail string int

definition next_fork :: "int list \<Rightarrow> int \<times> int list" where
  "next_fork forks = (case forks of [] \<Rightarrow> (- 1, []) | pid # r \<Rightarrow> (pid, r))"

text \<open>The parent's side of \<open>ForkJob\<close>.\<close>

definition ForkJob :: "CronLine \<Rightarrow> int list \<Rightarrow> CronLine \<times> int list" where
  "ForkJob line forks =
     (let (pid, forks) = next_fork forks
      in (line\<lparr>cl_Pid := (if pid < 0 then 0 else pid)\<rparr>, forks))"

definition RunJob :: "cron_sys \<Rightarrow> string \<Rightarrow> CronLine \<Rightarrow> int list \<Rightarrow> CronLine \<times> int list" where
  "RunJob sys user line forks =
     (if sendmail sys then
        let line = line\<lparr>cl_Pid := 0, cl_MailFlag := False\<rparr>;
            line = (case mail_open sys user of
                      None \<Rightarrow> line
                    | Some pos \<Rightarrow> line\<lparr>cl_MailFlag := True, cl_MailPos := pos\<rparr>)
        in ForkJob line forks
      else
        let (pid, forks) = next_fork forks
        in (line\<lparr>cl_Pid := (if pid < 0 then 0 else pid)\<rparr>, forks))"

definition EndJob :: "cron_sys \<Rightarrow> string \<Rightarrow> CronLine \<Rightarrow> int list \<Rightarrow> CronLine \<times> int list" where
  "EndJob sys user line forks =
     (if \<not> sendmail sys then (line\<lparr>cl_Pid := 0\<rparr>, forks)
      else if cl_Pid line \<le> 0 then (line\<lparr>cl_Pid := 0\<rparr>, forks)
      else
        let pid = cl_Pid line; l = line\<lparr>cl_Pid := 0\<rparr>
        in if \<not> cl_MailFlag l then (l, forks)
           else
             let l = l\<lparr>cl_MailFlag := False\<rparr>
             in if mail_new sys user pid (cl_MailPos l) then ForkJob l forks else (l, forks))"

text \<open>
  The loops over the lines return the lines, what is started, the new flags of the file and the rest
  of the results of \<open>fork\<close>.
\<close>

fun run_lines :: "cron_sys \<Rightarrow> string \<Rightarrow> CronLine list \<Rightarrow> int list \<Rightarrow> CronLine list \<times> cron_event list \<times> bool \<times> bool \<times> int list" where
  "run_lines sys user [] forks = ([], [], False, False, forks)"
| "run_lines sys user (line # lines) forks =
     (if cl_Pid line < 0 then
        let (l, forks) = RunJob sys user line forks;
            (ls, ev, ready, running, forks) = run_lines sys user lines forks
        in (l # ls, (if cl_Pid l > 0 then Run user (cl_Shell l) (cl_Pid l) # ev else ev),
            cl_Pid l < 0 \<or> ready, cl_Pid l > 0 \<or> running, forks)
      else
        let (ls, ev, ready, running, forks) = run_lines sys user lines forks
        in (line # ls, ev, ready, running, forks))"

fun RunJobs :: "cron_sys \<Rightarrow> FileBase \<Rightarrow> int list \<Rightarrow> FileBase \<times> cron_event list \<times> int list" where
  "RunJobs sys [] forks = ([], [], forks)"
| "RunJobs sys (f # fs) forks =
     (if cf_Ready f then
        let (ls, ev, ready, running, forks) = run_lines sys (cf_User f) (cf_LineBase f) forks;
            (fs, ev', forks) = RunJobs sys fs forks
        in (f\<lparr>cf_LineBase := ls, cf_Ready := ready, cf_Running := cf_Running f \<or> running\<rparr> # fs, ev @ ev', forks)
      else let (fs, ev, forks) = RunJobs sys fs forks in (f # fs, ev, forks))"

definition check_job :: "cron_sys \<Rightarrow> string \<Rightarrow> CronLine \<Rightarrow> int list \<Rightarrow> CronLine \<times> cron_event list \<times> bool \<times> int list" where
  "check_job sys user line forks =
     (if cl_Pid line > 0 then
        let r = wait4 sys (cl_Pid line)
        in if r < 0 \<or> r = cl_Pid line then
             let (l, forks) = EndJob sys user line forks
             in (l, if cl_Pid l > 0 then [Mail user (cl_Pid l)] else [], cl_Pid l \<noteq> 0, forks)
           else (line, [], r = 0, forks)
      else (line, [], False, forks))"

fun check_jobs :: "cron_sys \<Rightarrow> string \<Rightarrow> CronLine list \<Rightarrow> int list \<Rightarrow> CronLine list \<times> cron_event list \<times> bool \<times> int list" where
  "check_jobs sys user [] forks = ([], [], False, forks)"
| "check_jobs sys user (line # lines) forks =
     (let (l, ev, running, forks) = check_job sys user line forks;
          (ls, ev', running', forks) = check_jobs sys user lines forks
      in (l # ls, ev @ ev', running \<or> running', forks))"

fun CheckJobs :: "cron_sys \<Rightarrow> FileBase \<Rightarrow> int list \<Rightarrow> FileBase \<times> cron_event list \<times> nat \<times> int list" where
  "CheckJobs sys [] forks = ([], [], 0, forks)"
| "CheckJobs sys (f # fs) forks =
     (let (f, ev, forks) =
        (if cf_Running f then
           let (ls, ev, running, forks) = check_jobs sys (cf_User f) (cf_LineBase f) forks
           in (f\<lparr>cf_LineBase := ls, cf_Running := running\<rparr>, ev, forks)
         else (f, [], forks));
          (fs, ev', n, forks) = CheckJobs sys fs forks
      in (f # fs, ev @ ev', (if cf_Running f then 1 else 0) + n, forks))"

section \<open>The main loop\<close>

record crond_state =
  FileBase_of :: FileBase
  t1_of :: int
  rescan :: int
  sleep_time :: int

text \<open>What a turn finds: the crontabs, the directory, the file \<open>cron.update\<close> and the time after sleeping.\<close>

record cron_input =
  ci_src :: "string \<Rightarrow> (int \<times> string) option"
  ci_getpwnam :: "string \<Rightarrow> bool"
  ci_freed :: "string \<Rightarrow> string"
  ci_dir :: "string list option"
  ci_update :: "string option"
  ci_t2 :: int
  ci_sys :: cron_sys
  ci_forks :: "int list"

definition crond_update :: "cron_input \<Rightarrow> crond_state \<Rightarrow> cron_error + crond_state" where
  "crond_update i s =
     (let n = rescan s - 1
      in bind_res (if n = 0 then SynchronizeDir (ci_src i) (ci_getpwnam i) (ci_freed i) (ci_dir i) (FileBase_of s)
                   else Inr (FileBase_of s)) (\<lambda>fb.
         case CheckUpdates (ci_src i) (ci_update i) fb of
           None \<Rightarrow> Inl Cron_undefined
         | Some fb \<Rightarrow> Inr (s\<lparr>FileBase_of := fb, rescan := (if n = 0 then 60 else n)\<rparr>)))"

definition crond_turn :: "(int \<Rightarrow> tm) \<Rightarrow> cron_input \<Rightarrow> crond_state \<Rightarrow> cron_error + (crond_state \<times> cron_event list)" where
  "crond_turn localtime i s =
     bind_res (crond_update i s) (\<lambda>s.
       let t2 = ci_t2 i; dt = t2 - t1_of s in
       if dt < - 60 * 60 \<or> dt > 60 * 60 then Inr (s\<lparr>t1_of := t2\<rparr>, [])
       else if dt > 0 then
         case TestJobs localtime (t1_of s) t2 (FileBase_of s) of
           None \<Rightarrow> Inl Cron_undefined
         | Some (fb, _) \<Rightarrow>
             let (fb, ev, forks) = RunJobs (ci_sys i) fb (ci_forks i);
                 (fb, ev', n, _) = CheckJobs (ci_sys i) fb forks
             in Inr (s\<lparr>FileBase_of := fb, sleep_time := (if n > 0 then 10 else 60), t1_of := t2\<rparr>, ev @ ev')
       else Inr (s, []))"

text \<open>The seconds that a turn sleeps first, and the state in front of the loop at time \<open>t1\<close>.\<close>

definition sleep_secs :: "int \<Rightarrow> int \<Rightarrow> int" where
  "sleep_secs st now = (st + 1) - c_rem now st"

definition crond_start :: "cron_input \<Rightarrow> int \<Rightarrow> cron_error + crond_state" where
  "crond_start i t1 =
     bind_res (SynchronizeDir (ci_src i) (ci_getpwnam i) (ci_freed i) (ci_dir i) []) (\<lambda>fb.
       Inr \<lparr>FileBase_of = fb, t1_of = t1, rescan = 60, sleep_time = 60\<rparr>)"

section \<open>The jobs that are due\<close>

text \<open>A line matches a time when minute, hour and month are marked, and the day of the month or of the week is.\<close>

definition due_at :: "CronLine \<Rightarrow> tm \<Rightarrow> bool" where
  "due_at l tp \<longleftrightarrow> cl_Mins l ! tm_min tp \<and> cl_Hrs l ! tm_hour tp \<and>
     (cl_Days l ! tm_mday tp \<or> cl_Dow l ! tm_wday tp) \<and> cl_Mons l ! tm_mon tp"

definition line_ok :: "CronLine \<Rightarrow> bool" where
  "line_ok l \<longleftrightarrow> length (cl_Mins l) = 60 \<and> length (cl_Hrs l) = 24 \<and> length (cl_Days l) = 32 \<and>
     length (cl_Mons l) = 12 \<and> length (cl_Dow l) = 7"

text \<open>The ranges that the C standard gives for the fields of \<open>localtime\<close>.\<close>

definition tm_ok :: "tm \<Rightarrow> bool" where
  "tm_ok tp \<longleftrightarrow> tm_min tp < 60 \<and> tm_hour tp < 24 \<and> tm_mday tp < 32 \<and> tm_mon tp < 12 \<and> tm_wday tp < 7"

lemma job_due_ok: "line_ok l \<Longrightarrow> tm_ok tp \<Longrightarrow> job_due tp l = Some (due_at l tp)"
  by (auto simp: job_due_def line_ok_def tm_ok_def rd_def due_at_def)

text \<open>Arming the idle jobs that satisfy a condition, as a map over the database.\<close>

definition arm_line :: "(CronLine \<Rightarrow> bool) \<Rightarrow> CronLine \<Rightarrow> CronLine" where
  "arm_line D l = (if cl_Pid l = 0 \<and> D l then l\<lparr>cl_Pid := - 1\<rparr> else l)"

definition arms :: "(CronLine \<Rightarrow> bool) \<Rightarrow> CronFile \<Rightarrow> nat" where
  "arms D f = (if cf_Deleted f then 0 else length (filter (\<lambda>l. cl_Pid l = 0 \<and> D l) (cf_LineBase f)))"

definition arm_file :: "(CronLine \<Rightarrow> bool) \<Rightarrow> CronFile \<Rightarrow> CronFile" where
  "arm_file D f = (if cf_Deleted f then f
     else f\<lparr>cf_LineBase := map (arm_line D) (cf_LineBase f), cf_Ready := cf_Ready f \<or> arms D f > 0\<rparr>)"

definition lines_ok :: "FileBase \<Rightarrow> bool" where
  "lines_ok fb \<longleftrightarrow> (\<forall>f \<in> set fb. \<forall>l \<in> set (cf_LineBase f). line_ok l)"

lemma test_lines_arm:
  "\<forall>l \<in> set ls. line_ok l \<Longrightarrow> tm_ok tp \<Longrightarrow>
    test_lines tp ls = Some (map (arm_line (\<lambda>l. due_at l tp)) ls, length (filter (\<lambda>l. cl_Pid l = 0 \<and> due_at l tp) ls))"
  by (induction ls) (auto simp: job_due_ok arm_line_def)

lemma test_files_arm:
  "lines_ok fb \<Longrightarrow> tm_ok tp \<Longrightarrow>
    test_files tp fb = Some (map (arm_file (\<lambda>l. due_at l tp)) fb, sum_list (map (arms (\<lambda>l. due_at l tp)) fb))"
  by (induction fb) (auto simp: lines_ok_def test_file_def test_lines_arm arm_file_def arms_def)

text \<open>A condition that does not look at the process.\<close>

definition pid_free :: "(CronLine \<Rightarrow> bool) \<Rightarrow> bool" where
  "pid_free D \<longleftrightarrow> (\<forall>l p. D (l\<lparr>cl_Pid := p\<rparr>) = D l)"

lemma arm_line_twice: "pid_free D \<Longrightarrow> pid_free E \<Longrightarrow> arm_line E (arm_line D l) = arm_line (\<lambda>l. D l \<or> E l) l"
  by (auto simp: arm_line_def pid_free_def)

lemma arms_twice:
  assumes "pid_free D" "pid_free E"
  shows "arms D f + arms E (arm_file D f) = arms (\<lambda>l. D l \<or> E l) f"
proof -
  have "length (filter (\<lambda>l. cl_Pid l = 0 \<and> D l) ls) + length (filter (\<lambda>l. cl_Pid l = 0 \<and> E l) (map (arm_line D) ls))
      = length (filter (\<lambda>l. cl_Pid l = 0 \<and> (D l \<or> E l)) ls)" for ls
    by (induction ls) (auto simp: arm_line_def)
  then show ?thesis by (simp add: arms_def arm_file_def)
qed

lemma arm_file_twice:
  assumes "pid_free D" "pid_free E"
  shows "arm_file E (arm_file D f) = arm_file (\<lambda>l. D l \<or> E l) f"
proof (cases "cf_Deleted f")
  case False
  define n where "n = arms E (arm_file D f)"
  have "arm_file E (arm_file D f) = (arm_file D f)\<lparr>cf_LineBase := map (arm_line E) (cf_LineBase (arm_file D f)),
      cf_Ready := cf_Ready (arm_file D f) \<or> 0 < n\<rparr>"
    using False unfolding arm_file_def [of E] n_def by (simp add: arm_file_def)
  also have "\<dots> = f\<lparr>cf_LineBase := map (arm_line E) (map (arm_line D) (cf_LineBase f)),
      cf_Ready := cf_Ready f \<or> 0 < arms D f + n\<rparr>"
    using False by (auto simp: arm_file_def)
  also have "\<dots> = f\<lparr>cf_LineBase := map (arm_line (\<lambda>l. D l \<or> E l)) (cf_LineBase f),
      cf_Ready := cf_Ready f \<or> 0 < arms (\<lambda>l. D l \<or> E l) f\<rparr>"
    unfolding n_def arms_twice [OF assms] map_map o_def arm_line_twice [OF assms] ..
  finally show ?thesis using False by (simp add: arm_file_def)
qed (simp add: arm_file_def)

lemma arm_file_none: "(\<And>l. \<not> D l) \<Longrightarrow> arm_file D f = f" "(\<And>l. \<not> D l) \<Longrightarrow> arms D f = 0"
  by (auto simp: arm_file_def arm_line_def arms_def map_idI)

lemma arm_lines_ok: "lines_ok fb \<Longrightarrow> lines_ok (map (arm_file D) fb)"
  by (auto simp: lines_ok_def arm_file_def arm_line_def line_ok_def)

definition due_between :: "(int \<Rightarrow> tm) \<Rightarrow> int \<Rightarrow> int \<Rightarrow> CronLine \<Rightarrow> bool" where
  "due_between localtime t1 t2 l \<longleftrightarrow> (\<exists>t. t1 < t \<and> t \<le> t2 \<and> 60 dvd t \<and> due_at l (localtime t))"

lemma pid_free_due: "pid_free (\<lambda>l. due_at l tp)" "pid_free (due_between localtime t1 t2)"
  by (simp_all add: pid_free_def due_between_def due_at_def)

lemma minute_after: "60 dvd (t :: int) \<Longrightarrow> 60 dvd u \<Longrightarrow> t - 60 < u \<longleftrightarrow> t \<le> u"
  by (elim dvdE) auto

text \<open>The loop from the minute \<open>t\<close> on.\<close>

lemma test_loop_arm:
  assumes "60 dvd t" "t1 < t + 60" "lines_ok fb" "\<And>t. tm_ok (localtime t)" "t2 + 60 < 2 ^ 31"
  shows "test_loop localtime t1 t2 t fb =
    Some (map (arm_file (due_between localtime (max t1 (t - 60)) t2)) fb,
      sum_list (map (arms (due_between localtime (max t1 (t - 60)) t2)) fb))"
  using assms
proof (induction localtime t1 t2 t fb rule: test_loop.induct)
  case (1 localtime t1 t2 t fb)
  show ?case
  proof (cases "t \<le> t2")
    case False
    have "\<not> due_between localtime (max t1 (t - 60)) t2 l" for l
    proof
      assume "due_between localtime (max t1 (t - 60)) t2 l"
      then obtain u where "t - 60 < u" "u \<le> t2" "60 dvd u" by (auto simp: due_between_def)
      with False minute_after [OF "1.prems"(1), of u] show False by simp
    qed
    with False show ?thesis
      by (subst test_loop.simps) (simp add: arm_file_none map_idI)
  next
    case True
    let ?D = "\<lambda>l. t1 < t \<and> due_at l (localtime t)" and ?E = "due_between localtime (max t1 t) t2"
    have free: "pid_free ?D" "pid_free ?E" using pid_free_due(2) by (simp_all add: pid_free_def due_at_def)
    have split: "due_between localtime (max t1 (t - 60)) t2 = (\<lambda>l. ?D l \<or> ?E l)"
    proof (rule ext)
      fix l
      have "max t1 (t - 60) < u \<and> u \<le> t2 \<and> 60 dvd u \<and> due_at l (localtime u) \<longleftrightarrow>
          t1 < t \<and> due_at l (localtime t) \<and> u = t \<or> max t1 t < u \<and> u \<le> t2 \<and> 60 dvd u \<and> due_at l (localtime u)" for u
        using minute_after [OF "1.prems"(1), of u] "1.prems"(1) True by (cases "60 dvd u") auto
      then show "due_between localtime (max t1 (t - 60)) t2 l \<longleftrightarrow> ?D l \<or> ?E l"
        unfolding due_between_def by (simp only: ex_disj_distrib) simp
    qed
    have first: "(if t1 < t then test_files (localtime t) fb else Some (fb, 0))
        = Some (map (arm_file ?D) fb, sum_list (map (arms ?D) fb))"
      using test_files_arm [OF "1.prems"(3) "1.prems"(4)] by (auto simp: arm_file_none map_idI)
    have "test_loop localtime t1 t2 (t + 60) (map (arm_file ?D) fb)
        = Some (map (arm_file ?E) (map (arm_file ?D) fb), sum_list (map (arms ?E) (map (arm_file ?D) fb)))"
      using "1.IH" [OF True first refl _ _ _ arm_lines_ok [OF "1.prems"(3)] "1.prems"(4,5)] "1.prems"(1,2,5) True by simp
    with first True "1.prems"(5) show ?thesis
      unfolding split
      by (subst test_loop.simps) (simp add: o_def arm_file_twice [OF free] arms_twice [OF free] flip: sum_list_addf)
  qed
qed

text \<open>
  Looking for jobs arms exactly the idle jobs of the files that are not deleted that match some
  full minute after the last look and not after the new one, each once however many of these minutes
  it matches; jobs that run or are already armed and deleted files stay as they are, and the result is
  the number of the jobs that are armed.
\<close>

lemma TestJobs_arm:
  assumes "0 \<le> t1" "t2 + 60 < 2 ^ 31" "lines_ok fb" "\<And>t. tm_ok (localtime t)"
  shows "TestJobs localtime t1 t2 fb = Some (map (arm_file (due_between localtime t1 t2)) fb,
    sum_list (map (arms (due_between localtime t1 t2)) fb))"
proof -
  have "60 dvd t1 - t1 mod 60" "t1 < (t1 - t1 mod 60) + 60" "max t1 (t1 - t1 mod 60 - 60) = t1"
    using assms(1) by (auto simp: max_def)
  then show ?thesis
    using test_loop_arm [of "t1 - t1 mod 60" t1 fb localtime t2] assms by (simp add: TestJobs_def c_rem_pos)
qed

definition clock_example :: "int \<Rightarrow> tm" where
  "clock_example t = \<lparr>tm_min = nat (t div 60 mod 60), tm_hour = nat (t div 3600 mod 24), tm_mday = 1, tm_mon = 0, tm_wday = 4\<rparr>"

lemma clock_example_ok: "tm_ok (clock_example t)"
proof -
  have "t div 60 mod 60 < 60" "t div 3600 mod 24 < 24" by simp_all
  then show ?thesis unfolding tm_ok_def clock_example_def by (simp only: nat_less_iff tm.simps) simp
qed

definition line_example :: CronLine where
  "line_example = zero_line\<lparr>cl_Shell := ''job'', cl_Mins := (replicate 60 False)[2 := True],
     cl_Hrs := replicate 24 True, cl_Days := replicate 32 True, cl_Mons := replicate 12 True,
     cl_Dow := replicate 7 True\<rparr>"

definition file_example :: "CronLine list \<Rightarrow> CronFile" where
  "file_example ls = \<lparr>cf_LineBase = ls, cf_User = ''root'', cf_Ready = False, cf_Running = False, cf_Deleted = False\<rparr>"

lemma due_example: "due_between clock_example 61 121 line_example"
  by (auto simp: due_between_def due_at_def clock_example_def line_example_def zero_line_def intro!: exI [of _ 120])

lemma TestJobs_arm_example:
  "TestJobs clock_example 61 121 [file_example [line_example]] =
    Some ([(file_example [line_example\<lparr>cl_Pid := - 1\<rparr>])\<lparr>cf_Ready := True\<rparr>], 1)"
proof -
  have "lines_ok [file_example [line_example]]"
    by (simp add: lines_ok_def file_example_def line_ok_def line_example_def zero_line_def)
  moreover have "cl_Pid line_example = 0" by (simp add: line_example_def zero_line_def)
  ultimately show ?thesis
    using TestJobs_arm [of 61 121 "[file_example [line_example]]" clock_example] clock_example_ok due_example
    by (simp add: arm_file_def arms_def arm_line_def file_example_def)
qed

section \<open>The invariant of the database\<close>

text \<open>
  Between two turns: the arrays of a line have their sizes, no job is armed, and a file with a running
  job is marked as running. While jobs are started, a file with an armed job is marked as ready.
\<close>

definition file_inv :: "CronFile \<Rightarrow> bool" where
  "file_inv f \<longleftrightarrow> \<not> cf_Ready f \<and>
     (\<forall>l \<in> set (cf_LineBase f). line_ok l \<and> 0 \<le> cl_Pid l \<and> (0 < cl_Pid l \<longrightarrow> cf_Running f))"

definition armed_inv :: "CronFile \<Rightarrow> bool" where
  "armed_inv f \<longleftrightarrow>
     (\<forall>l \<in> set (cf_LineBase f). line_ok l \<and> (cl_Pid l < 0 \<longrightarrow> cf_Ready f) \<and> (0 < cl_Pid l \<longrightarrow> cf_Running f))"

lemma arm_file_inv: "file_inv f \<Longrightarrow> armed_inv (arm_file D f)"
proof (cases "cf_Deleted f")
  case False
  assume f: "file_inv f"
  have "0 < arms D f" if "l \<in> set (cf_LineBase f)" "cl_Pid l = 0" "D l" for l
    using that False by (auto simp: arms_def filter_empty_conv)
  with f False show ?thesis
    by (auto simp: armed_inv_def file_inv_def arm_file_def arm_line_def line_ok_def split: if_splits)
qed (auto simp: armed_inv_def file_inv_def arm_file_def)

lemma line_ok_update [simp]:
  "line_ok (l\<lparr>cl_Pid := p\<rparr>) = line_ok l" "line_ok (l\<lparr>cl_MailFlag := b\<rparr>) = line_ok l"
  "line_ok (l\<lparr>cl_MailPos := p\<rparr>) = line_ok l" "line_ok (l\<lparr>cl_Shell := c\<rparr>) = line_ok l"
  by (simp_all add: line_ok_def)

lemma RunJob_props:
  assumes "RunJob sys u l forks = (l', forks')"
  shows "0 \<le> cl_Pid l'" "line_ok l' = line_ok l"
  using assms by (auto simp: RunJob_def ForkJob_def Let_def split: if_splits option.splits prod.splits)

lemma EndJob_props:
  assumes "EndJob sys u l forks = (l', forks')"
  shows "0 \<le> cl_Pid l'" "line_ok l' = line_ok l"
  using assms by (auto simp: EndJob_def ForkJob_def Let_def split: if_splits prod.splits)

lemma run_lines_pids:
  "run_lines sys u ls forks = (ls', ev, ready, running, forks') \<Longrightarrow> \<not> ready \<and> (\<forall>l \<in> set ls'. 0 \<le> cl_Pid l)"
  by (induction sys u ls forks arbitrary: ls' ev ready running forks' rule: run_lines.induct)
    (auto simp: Let_def split: prod.splits if_splits dest: RunJob_props(1))

lemma run_lines_ok:
  "run_lines sys u ls forks = (ls', ev, ready, running, forks') \<Longrightarrow> \<forall>l \<in> set ls. line_ok l \<Longrightarrow> \<forall>l \<in> set ls'. line_ok l"
  by (induction sys u ls forks arbitrary: ls' ev ready running forks' rule: run_lines.induct)
    (auto simp: Let_def split: prod.splits if_splits dest: RunJob_props(2))

lemma run_lines_running:
  "run_lines sys u ls forks = (ls', ev, ready, running, forks') \<Longrightarrow> \<forall>l \<in> set ls. 0 < cl_Pid l \<longrightarrow> b \<Longrightarrow>
    \<forall>l \<in> set ls'. 0 < cl_Pid l \<longrightarrow> b \<or> running"
  by (induction sys u ls forks arbitrary: ls' ev ready running forks' rule: run_lines.induct)
    (auto simp: Let_def split: prod.splits if_splits)

lemma RunJobs_inv:
  "RunJobs sys fb forks = (fb', ev, forks') \<Longrightarrow> \<forall>f \<in> set fb. armed_inv f \<Longrightarrow> \<forall>f \<in> set fb'. file_inv f"
proof (induction sys fb forks arbitrary: fb' ev forks' rule: RunJobs.induct)
  case (2 sys f fs forks)
  show ?case
  proof (cases "cf_Ready f")
    case True
    obtain ls' e ready running k where r: "run_lines sys (cf_User f) (cf_LineBase f) forks = (ls', e, ready, running, k)"
      using prod_cases5 by blast
    obtain fs' e' k' where rs: "RunJobs sys fs k = (fs', e', k')" using prod_cases3 by blast
    have "file_inv (f\<lparr>cf_LineBase := ls', cf_Ready := ready, cf_Running := cf_Running f \<or> running\<rparr>)"
      using run_lines_pids [OF r] run_lines_ok [OF r] run_lines_running [OF r, of "cf_Running f"] 2(4)
      by (auto simp: file_inv_def armed_inv_def)
    moreover have "\<forall>g \<in> set fs'. file_inv g" using 2(1) [OF True r [symmetric] refl refl refl refl rs] 2(4) by simp
    ultimately show ?thesis using 2(3) True r rs by auto
  next
    case False
    then have "file_inv f" using 2(4) by (force simp: file_inv_def armed_inv_def)
    moreover obtain fs' e' k' where rs: "RunJobs sys fs forks = (fs', e', k')" using prod_cases3 by blast
    ultimately show ?thesis using 2(2) [OF False rs] 2(3,4) False by auto
  qed
qed simp

text \<open>\<open>wait4\<close> for one process without waiting fails, gives 0 or the process.\<close>

definition sys_ok :: "cron_sys \<Rightarrow> bool" where
  "sys_ok sys \<longleftrightarrow> (\<forall>p > 0. wait4 sys p \<le> 0 \<or> wait4 sys p = p)"

lemma check_job_inv:
  assumes "check_job sys u l forks = (l', ev, running, forks')" "sys_ok sys" "line_ok l" "0 \<le> cl_Pid l"
  shows "line_ok l' \<and> 0 \<le> cl_Pid l' \<and> (0 < cl_Pid l' \<longrightarrow> running)"
proof -
  have "wait4 sys (cl_Pid l) < 0 \<or> wait4 sys (cl_Pid l) = 0 \<or> wait4 sys (cl_Pid l) = cl_Pid l" if "0 < cl_Pid l"
    using assms(2) that by (force simp: sys_ok_def)
  then show ?thesis
    using assms(1,3,4) by (auto simp: check_job_def Let_def split: prod.splits if_splits dest: EndJob_props)
qed

lemma check_jobs_inv:
  "check_jobs sys u ls forks = (ls', ev, running, forks') \<Longrightarrow> sys_ok sys \<Longrightarrow>
    \<forall>l \<in> set ls. line_ok l \<and> 0 \<le> cl_Pid l \<Longrightarrow>
    \<forall>l \<in> set ls'. line_ok l \<and> 0 \<le> cl_Pid l \<and> (0 < cl_Pid l \<longrightarrow> running)"
proof (induction sys u ls forks arbitrary: ls' ev running forks' rule: check_jobs.induct)
  case (2 sys u l ls forks)
  obtain m e r k where m: "check_job sys u l forks = (m, e, r, k)" using prod_cases4 by blast
  obtain ms e' r' k' where ms: "check_jobs sys u ls k = (ms, e', r', k')" using prod_cases4 by blast
  have "\<forall>l \<in> set ms. line_ok l \<and> 0 \<le> cl_Pid l \<and> (0 < cl_Pid l \<longrightarrow> r')"
    using 2(1) [OF m [symmetric] refl refl refl ms] 2(3,4) by simp
  then show ?case using check_job_inv [OF m] 2(2-4) m ms by auto
qed simp

lemma CheckJobs_inv:
  "CheckJobs sys fb forks = (fb', ev, n, forks') \<Longrightarrow> sys_ok sys \<Longrightarrow> \<forall>f \<in> set fb. file_inv f \<Longrightarrow> \<forall>f \<in> set fb'. file_inv f"
proof (induction sys fb forks arbitrary: fb' ev n forks' rule: CheckJobs.induct)
  case (2 sys f fs forks)
  obtain ls' e running k where c: "check_jobs sys (cf_User f) (cf_LineBase f) forks = (ls', e, running, k)"
    using prod_cases4 by blast
  have "file_inv (f\<lparr>cf_LineBase := ls', cf_Running := running\<rparr>)"
    using check_jobs_inv [OF c 2(3)] 2(4) by (simp add: file_inv_def)
  then show ?case using 2 c by (auto simp: Let_def split: prod.splits if_splits)
qed simp

text \<open>The user of a file and its mark do not change when jobs are armed, started and collected.\<close>

definition owners :: "FileBase \<Rightarrow> (string \<times> bool) list" where
  "owners fb = map (\<lambda>f. (cf_User f, cf_Deleted f)) fb"

lemma owners_step:
  "owners (map (arm_file D) fb) = owners fb"
  "RunJobs sys fb forks = (fb', ev, forks') \<Longrightarrow> owners fb' = owners fb"
  "CheckJobs sys fb forks = (fb', ev', n, forks') \<Longrightarrow> owners fb' = owners fb"
proof -
  show "owners (map (arm_file D) fb) = owners fb" by (simp add: owners_def arm_file_def)
  show "RunJobs sys fb forks = (fb', ev, forks') \<Longrightarrow> owners fb' = owners fb"
    by (induction sys fb forks arbitrary: fb' ev forks' rule: RunJobs.induct)
      (auto simp: owners_def Let_def split: prod.splits if_splits)
  show "CheckJobs sys fb forks = (fb', ev', n, forks') \<Longrightarrow> owners fb' = owners fb"
    by (induction sys fb forks arbitrary: fb' ev' n forks' rule: CheckJobs.induct)
      (auto simp: owners_def Let_def split: prod.splits if_splits)
qed

text \<open>A user has at most one file that is not marked as deleted.\<close>

definition active :: "FileBase \<Rightarrow> string list" where
  "active fb = map fst (filter (\<lambda>(_, deleted). \<not> deleted) (owners fb))"

definition base_inv :: "FileBase \<Rightarrow> bool" where
  "base_inv fb \<longleftrightarrow> (\<forall>f \<in> set fb. file_inv f) \<and> distinct (active fb)"

lemma active_Cons [simp]: "active [] = []" "active (f # fs) = (if cf_Deleted f then active fs else cf_User f # active fs)"
  by (simp_all add: active_def owners_def)

lemma DeleteFile_inv:
  "\<forall>f \<in> set fb. file_inv f \<Longrightarrow> \<forall>f \<in> set (DeleteFile owned u fb). file_inv f"
proof (induction owned u fb rule: DeleteFile.induct)
  case (2 owned u f fs)
  have "file_inv (f\<lparr>cf_Running := True, cf_Deleted := True, cf_LineBase := filter (\<lambda>l. cl_Pid l > 0) (cf_LineBase f)\<rparr>)"
    using 2 by (simp add: file_inv_def)
  with 2 show ?case by (simp add: Let_def split: option.split)
qed simp

lemma DeleteFile_active_subset: "x \<in> set (active (DeleteFile owned u fb)) \<Longrightarrow> x \<in> set (active fb)"
proof (induction fb arbitrary: owned u)
  case (Cons f fs)
  from Cons.prems show ?case
    by (auto simp: Let_def split: option.split_asm if_split_asm dest!: Cons.IH)
qed simp

lemma DeleteFile_active_distinct: "distinct (active fb) \<Longrightarrow> distinct (active (DeleteFile owned u fb))"
proof (induction fb arbitrary: owned u)
  case (Cons f fs)
  from Cons.prems have "distinct (active fs)" by (simp split: if_split_asm)
  from Cons.IH [OF this] Cons.prems show ?case
    by (auto simp: Let_def split: option.split dest: DeleteFile_active_subset)
qed simp

lemma DeleteFile_gone: "u \<notin> set (active (DeleteFile None u fb))"
  by (induction fb) (simp_all add: Let_def)

lemma DeleteFile_base: "base_inv fb \<Longrightarrow> base_inv (DeleteFile owned u fb)"
  using DeleteFile_inv [of fb owned u] DeleteFile_active_distinct [of fb owned u] by (simp add: base_inv_def)

lemma delete_all_base: "base_inv fb \<Longrightarrow> base_inv (delete_all freed fb)"
  by (induction freed fb rule: delete_all.induct)
    (subst delete_all.simps, auto split: list.split intro: DeleteFile_base)

text \<open>A line that is read is idle.\<close>

definition line_new :: "CronLine \<Rightarrow> bool" where
  "line_new l \<longleftrightarrow> line_ok l \<and> cl_Pid l = 0"

lemma next_field_length: "next_field ary m off names ptr = Some (ary', ptr') \<Longrightarrow> length ary' = length ary"
  by (auto simp: next_field_def split: option.split_asm Option.bind_split_asm prod.split_asm dest: ParseField_length)

lemma FixDayDow_ok: "line_ok (FixDayDow l) = line_ok l" "cl_Pid (FixDayDow l) = cl_Pid l"
  by (simp_all add: FixDayDow_def Let_def line_ok_def)

lemma zero_line_ok:
  "length m = 60 \<Longrightarrow> length h = 24 \<Longrightarrow> length d = 32 \<Longrightarrow> length n = 12 \<Longrightarrow> length w = 7 \<Longrightarrow>
    line_new (zero_line\<lparr>cl_Mins := m, cl_Hrs := h, cl_Days := d, cl_Mons := n, cl_Dow := w\<rparr>)"
  by (simp add: line_new_def line_ok_def zero_line_def)

lemma parse_line_new: "parse_line buf = Some (Some l) \<Longrightarrow> line_new l"
  by (simp add: parse_line_def split: Option.bind_split_asm prod.split_asm option.split_asm)
    (use zero_line_ok in \<open>auto simp: line_new_def FixDayDow_ok dest!: next_field_length\<close>)

lemma next_field_blank: "next_field ary m off names ptr = Some (ary', Some ptr') \<Longrightarrow> \<not> at_blank ptr'"
  by (auto simp: next_field_def ParseField_def at_blank_def hd_dropWhile
    split: option.split_asm Option.bind_split_asm prod.split_asm if_split_asm)

text \<open>
  C35. A line that is accepted has arrays of the declared sizes, is idle, has no mail pending and a
  command without leading blanks. All days of the month are marked only when all days of the week are
  marked too, and the other way round: an unrestricted field does not override a restricted one.
\<close>

theorem parse_line_type:
  assumes "parse_line buf = Some (Some l)"
  shows "length (cl_Mins l) = 60 \<and> length (cl_Hrs l) = 24 \<and> length (cl_Days l) = 32 \<and> length (cl_Mons l) = 12 \<and>
    length (cl_Dow l) = 7 \<and> cl_Pid l = 0 \<and> \<not> cl_MailFlag l \<and> \<not> at_blank (cl_Shell l) \<and>
    (set (cl_Days l) = {True} \<longrightarrow> False \<notin> set (cl_Dow l)) \<and> (set (cl_Dow l) = {True} \<longrightarrow> False \<notin> set (cl_Days l))"
proof -
  have "line_new l" using assms by (rule parse_line_new)
  moreover from assms obtain mins hrs days mons dow p where
    l: "l = (FixDayDow (zero_line\<lparr>cl_Mins := mins, cl_Hrs := hrs, cl_Days := days, cl_Mons := mons, cl_Dow := dow\<rparr>))\<lparr>cl_Shell := p\<rparr>"
    and "\<not> at_blank p"
    by (auto simp: parse_line_def split: Option.bind_split_asm prod.split_asm option.split_asm
      dest: next_field_blank)
  ultimately show ?thesis
    by (auto simp: line_new_def line_ok_def FixDayDow_def Let_def zero_line_def split: if_split_asm)
qed

lemma crontab_lines_new:
  "crontab_lines f maxLines maxEntries acc = Some ls \<Longrightarrow> \<forall>l \<in> set acc. line_new l \<Longrightarrow> \<forall>l \<in> set ls. line_new l"
proof (induction f maxLines maxEntries acc rule: crontab_lines.induct)
  case (1 f maxLines maxEntries acc)
  note unfold = crontab_lines.simps [of f maxLines maxEntries acc]
  show ?case
  proof (cases "fgets 1024 f")
    case (Some br)
    obtain buf rest where br: "br = (buf, rest)" by (cases br)
    let ?skip = "trim buf = [] \<or> hd (trim buf) = CHR ''#''"
    have "crontab_lines f maxLines maxEntries acc = Some acc" if "maxLines - 1 = 0 \<or> \<not> ?skip \<and> maxEntries - 1 = 0"
      using that Some br by (subst unfold) (auto simp: Let_def)
    then consider (stop) "crontab_lines f maxLines maxEntries acc = Some acc"
      | (blank) "maxLines - 1 \<noteq> 0" ?skip | (line) "maxLines - 1 \<noteq> 0" "\<not> ?skip" "maxEntries - 1 \<noteq> 0" by blast
    then show ?thesis
    proof cases
      case blank
      then show ?thesis using 1(1) [OF Some br [symmetric] blank(1) refl blank(2)] 1(3,4) Some br by (simp add: unfold Let_def)
    next
      case line
      then obtain r where r: "parse_line (trim buf) = Some r"
        using 1(3) Some br by (auto simp: unfold Let_def split: Option.bind_split_asm)
      have "\<forall>l \<in> set (case r of None \<Rightarrow> acc | Some line \<Rightarrow> acc @ [line]). line_new l"
        using 1(4) parse_line_new r by (auto split: option.split)
      then show ?thesis
        using 1(2) [OF Some br [symmetric] line(1) refl line(2,3) r] 1(3) line r Some br by (simp add: unfold Let_def)
    qed (use 1(3,4) in simp)
  qed (use 1(3,4) in \<open>simp add: unfold\<close>)
qed

text \<open>The operations that change the database under a name, and the contract they share.\<close>

locale base_op =
  fixes change :: "'a \<Rightarrow> FileBase \<Rightarrow> FileBase option"
  assumes keeps: "change x fb = Some fb' \<Longrightarrow> base_inv fb \<Longrightarrow> base_inv fb'"
begin

lemma foldM_keeps: "foldM (\<lambda>fb x. change x fb) fb xs = Some fb' \<Longrightarrow> base_inv fb \<Longrightarrow> base_inv fb'"
  by (induction xs arbitrary: fb) (auto split: Option.bind_split_asm dest: keeps)

end

lemma SynchronizeFile_base: "SynchronizeFile src name fb = Some fb' \<Longrightarrow> base_inv fb \<Longrightarrow> base_inv fb'"
proof -
  assume s: "SynchronizeFile src name fb = Some fb'" and "base_inv fb"
  from s obtain u where u: "name = Some u" by (cases name) (simp_all add: SynchronizeFile_def)
  have d: "base_inv (DeleteFile None u fb)" by (rule DeleteFile_base) fact
  have "base_inv (\<lparr>cf_LineBase = ls, cf_User = u, cf_Ready = False, cf_Running = False, cf_Deleted = False\<rparr> # DeleteFile None u fb)"
    if "\<forall>l \<in> set ls. line_new l" for ls
    using d that DeleteFile_gone [of u fb] by (auto simp: base_inv_def file_inv_def line_new_def)
  with s d u show ?thesis
    by (auto simp: SynchronizeFile_def Let_def split: option.split_asm prod.split_asm if_split_asm Option.bind_split_asm
      dest: crontab_lines_new)
qed

interpretation syncf: base_op "SynchronizeFile src" for src
  by unfold_locales (rule SynchronizeFile_base)

interpretation scan: base_op "\<lambda>name fb. if CHR ''.'' \<in> set name then Some fb
    else if getpwnam name then SynchronizeFile src (Some name) fb else Some fb" for src getpwnam
  by unfold_locales (auto split: if_split_asm dest: syncf.keeps)

lemma update_lines_base: "update_lines src f fb = Some fb' \<Longrightarrow> base_inv fb \<Longrightarrow> base_inv fb'"
proof (induction src f fb rule: update_lines.induct)
  case (1 src f fb)
  note unfold = update_lines.simps [of src f fb]
  show ?case
  proof (cases "fgets 256 f")
    case (Some br)
    obtain buf rest where br: "br = (buf, rest)" by (cases br)
    obtain fb1 where fb1: "SynchronizeFile src
        (map_option fst (strtok ('' '' @ [CHR 0x09, CHR 0x0D, CHR 0x0A]) (cstring buf))) fb = Some fb1"
      using 1(2) Some br by (auto simp: unfold split: Option.bind_split_asm)
    show ?thesis
      using 1(1) [OF Some br [symmetric] fb1] syncf.keeps [OF fb1] 1(2,3) Some br fb1 by (simp add: unfold)
  qed (use 1(2,3) in \<open>simp add: unfold\<close>)
qed

interpretation upd: base_op "update_lines src" for src
  by unfold_locales (rule update_lines_base)

lemma SynchronizeDir_base: "SynchronizeDir src getpwnam freed dir fb = Inr fb' \<Longrightarrow> base_inv fb \<Longrightarrow> base_inv fb'"
  by (auto simp: SynchronizeDir_def split: option.split_asm dest: scan.foldM_keeps delete_all_base)

section \<open>The daemon\<close>

definition state_inv :: "crond_state \<Rightarrow> bool" where
  "state_inv s \<longleftrightarrow> base_inv (FileBase_of s) \<and> 0 \<le> t1_of s \<and> 0 < rescan s \<and> rescan s \<le> 60 \<and> sleep_time s \<in> {10, 60}"

text \<open>What a turn relies on: \<open>wait4\<close>, and a clock in front of the last minute of 2038.\<close>

definition input_ok :: "cron_input \<Rightarrow> bool" where
  "input_ok i \<longleftrightarrow> sys_ok (ci_sys i) \<and> 0 \<le> ci_t2 i \<and> ci_t2 i + 60 < 2 ^ 31"

lemma base_lines_ok: "base_inv fb \<Longrightarrow> lines_ok fb"
  by (simp add: base_inv_def lines_ok_def file_inv_def)

lemma crond_update_inv: "crond_update i s = Inr s' \<Longrightarrow> state_inv s \<Longrightarrow> state_inv s' \<and> t1_of s' = t1_of s"
proof -
  assume u: "crond_update i s = Inr s'" and s: "state_inv s"
  let ?b = "if rescan s - 1 = 0 then SynchronizeDir (ci_src i) (ci_getpwnam i) (ci_freed i) (ci_dir i) (FileBase_of s)
    else Inr (FileBase_of s)"
  from u obtain fb where fb: "?b = Inr fb" unfolding crond_update_def Let_def bind_res_def by (cases ?b) simp_all
  have b: "base_inv fb" using fb s SynchronizeDir_base by (auto simp: state_inv_def split: if_split_asm)
  from u fb obtain fb' where fb': "CheckUpdates (ci_src i) (ci_update i) fb = Some fb'"
    and s': "s' = s\<lparr>FileBase_of := fb', rescan := (if rescan s - 1 = 0 then 60 else rescan s - 1)\<rparr>"
    unfolding crond_update_def Let_def bind_res_def by (auto split: option.split_asm)
  have "base_inv fb'" using fb' b upd.keeps by (auto simp: CheckUpdates_def split: option.split_asm)
  with s s' show ?thesis by (auto simp: state_inv_def)
qed

text \<open>The jobs of a database that satisfy a condition, with their users, and what starting them shows.\<close>

definition due_jobs :: "(CronLine \<Rightarrow> bool) \<Rightarrow> FileBase \<Rightarrow> (string \<times> string) list" where
  "due_jobs D fb = concat (map (\<lambda>f. if cf_Deleted f then []
     else map (\<lambda>l. (cf_User f, cl_Shell l)) (filter (\<lambda>l. cl_Pid l = 0 \<and> D l) (cf_LineBase f))) fb)"

definition started :: "(string \<times> string) list \<Rightarrow> int list \<Rightarrow> cron_event list" where
  "started jobs pids = concat (map2 (\<lambda>(u, c) p. if 0 < p then [Run u c p] else []) jobs pids)"

lemma started_append: "started (xs @ ys) pids = started xs pids @ started ys (drop (length xs) pids)"
proof -
  have "zip xs (take (length xs) pids) = zip xs pids"
    by (metis append_Nil2 take_all_iff dual_order.refl take_zip take_map length_zip min.cobounded1 zip_append1)
  then show ?thesis by (simp add: started_def zip_append1)
qed

lemma started_simps:
  "started [] pids = []" "started jobs [] = []"
  "started ((u, c) # jobs) (p # pids) = (if 0 < p then Run u c p # started jobs pids else started jobs pids)"
  by (simp_all add: started_def)

text \<open>Each armed job takes one result of \<open>fork\<close>; it is idle again when there is no new process.\<close>

lemma RunJob_fork:
  "\<exists>l'. RunJob sys u l forks = (l', tl forks) \<and> cl_Pid l' = max 0 (fst (next_fork forks)) \<and> cl_Shell l' = cl_Shell l"
  by (cases forks) (auto simp: RunJob_def ForkJob_def next_fork_def Let_def split: option.split)

lemma run_lines_due:
  "\<forall>l \<in> set ls. 0 \<le> cl_Pid l \<Longrightarrow>
    \<exists>ls' running. run_lines sys u (map (arm_line D) ls) forks = (ls',
      started (map (\<lambda>l. (u, cl_Shell l)) (filter (\<lambda>l. cl_Pid l = 0 \<and> D l) ls)) forks, False, running,
      drop (length (filter (\<lambda>l. cl_Pid l = 0 \<and> D l) ls)) forks)"
proof (induction ls arbitrary: forks)
  case (Cons l ls)
  show ?case
  proof (cases "cl_Pid l = 0 \<and> D l")
    case True
    obtain l' where l': "RunJob sys u (l\<lparr>cl_Pid := - 1\<rparr>) forks = (l', tl forks)"
        "cl_Pid l' = max 0 (fst (next_fork forks))" "cl_Shell l' = cl_Shell l"
      using RunJob_fork [of sys u "l\<lparr>cl_Pid := - 1\<rparr>" forks] by auto
    show ?thesis
      using True l' Cons.IH [of "tl forks"] Cons.prems
      by (cases forks) (auto simp: arm_line_def started_simps next_fork_def split: prod.split)
  next
    case False
    with Cons.IH [of forks] Cons.prems show ?thesis by (auto simp: arm_line_def split: prod.split)
  qed
qed (auto simp: started_simps)

lemma RunJobs_due:
  "\<forall>f \<in> set fb. file_inv f \<Longrightarrow>
    \<exists>fb'. RunJobs sys (map (arm_file D) fb) forks = (fb', started (due_jobs D fb) forks, drop (length (due_jobs D fb)) forks)"
proof (induction fb arbitrary: forks)
  case (Cons f fb)
  let ?js = "filter (\<lambda>l. cl_Pid l = 0 \<and> D l) (cf_LineBase f)"
  have ready: "\<not> cf_Ready f" and pids: "\<forall>l \<in> set (cf_LineBase f). 0 \<le> cl_Pid l"
    using Cons.prems(1) by (simp_all add: file_inv_def)
  show ?case
  proof (cases "cf_Deleted f \<or> ?js = []")
    case True
    then have "\<not> cf_Ready (arm_file D f)" "due_jobs D (f # fb) = due_jobs D fb"
      using ready by (auto simp: arm_file_def arms_def due_jobs_def)
    then show ?thesis using Cons.IH [of forks] Cons.prems by auto
  next
    case False
    then have r: "cf_Ready (arm_file D f)" "cf_User (arm_file D f) = cf_User f"
        "cf_LineBase (arm_file D f) = map (arm_line D) (cf_LineBase f)"
      and j: "due_jobs D (f # fb) = map (\<lambda>l. (cf_User f, cl_Shell l)) ?js @ due_jobs D fb"
      by (auto simp: arm_file_def arms_def due_jobs_def)
    obtain ls' running where l: "run_lines sys (cf_User f) (map (arm_line D) (cf_LineBase f)) forks =
        (ls', started (map (\<lambda>l. (cf_User f, cl_Shell l)) ?js) forks, False, running, drop (length ?js) forks)"
      using run_lines_due [OF pids, of sys "cf_User f" D forks] by auto
    obtain fb' where "RunJobs sys (map (arm_file D) fb) (drop (length ?js) forks) = (fb',
        started (due_jobs D fb) (drop (length ?js) forks), drop (length (due_jobs D fb)) (drop (length ?js) forks))"
      using Cons.IH [of "drop (length ?js) forks"] Cons.prems by auto
    with r l j show ?thesis by (simp add: started_append add.commute)
  qed
qed (simp add: due_jobs_def started_simps)

definition is_mail :: "cron_event \<Rightarrow> bool" where
  "is_mail e \<longleftrightarrow> (case e of Mail _ _ \<Rightarrow> True | Run _ _ _ \<Rightarrow> False)"

lemma check_jobs_mail: "check_jobs sys u ls forks = (ls', ev, running, forks') \<Longrightarrow> \<forall>e \<in> set ev. is_mail e"
proof (induction sys u ls forks arbitrary: ls' ev running forks' rule: check_jobs.induct)
  case (2 sys u l ls forks)
  obtain m e r k where m: "check_job sys u l forks = (m, e, r, k)" using prod_cases4 by blast
  obtain ms e' r' k' where ms: "check_jobs sys u ls k = (ms, e', r', k')" using prod_cases4 by blast
  have "\<forall>x \<in> set e. is_mail x" using m by (auto simp: check_job_def Let_def is_mail_def split: if_split_asm prod.split_asm)
  then show ?case using 2(1) [OF m [symmetric] refl refl refl ms] 2(2) m ms by auto
qed simp

lemma CheckJobs_mail: "CheckJobs sys fb forks = (fb', ev, n, forks') \<Longrightarrow> \<forall>e \<in> set ev. is_mail e"
  by (induction sys fb forks arbitrary: fb' ev n forks' rule: CheckJobs.induct)
    (auto simp: Let_def split: prod.splits if_splits dest: check_jobs_mail)

lemma crond_turn_cases:
  assumes inv: "state_inv s" and "input_ok i" "\<And>t. tm_ok (localtime t)" "crond_update i s = Inr s1"
    and D: "D = due_between localtime (t1_of s) (ci_t2 i)" and dt: "dt = ci_t2 i - t1_of s"
    and run: "RunJobs (ci_sys i) (map (arm_file D) (FileBase_of s1)) (ci_forks i) = (fb, ev, forks)"
    and check: "CheckJobs (ci_sys i) fb forks = (fb', ev', n, forks')"
  shows "crond_turn localtime i s = Inr
    (if dt < - 3600 \<or> 3600 < dt then (s1\<lparr>t1_of := ci_t2 i\<rparr>, [])
     else if 0 < dt then (s1\<lparr>FileBase_of := fb', sleep_time := (if 0 < n then 10 else 60), t1_of := ci_t2 i\<rparr>, ev @ ev')
     else (s1, []))"
proof -
  have s1: "state_inv s1" "t1_of s1 = t1_of s" using crond_update_inv assms(4) inv by auto
  have "TestJobs localtime (t1_of s1) (ci_t2 i) (FileBase_of s1) = Some (map (arm_file D) (FileBase_of s1),
      sum_list (map (arms D) (FileBase_of s1)))"
    using s1 assms(2,3) base_lines_ok by (simp add: TestJobs_arm D state_inv_def input_ok_def)
  then show ?thesis
    using s1 run check by (simp add: crond_turn_def assms(4) bind_res_def Let_def dt)
qed

lemma crond_turn_inv:
  assumes inv: "state_inv s" and i: "input_ok i" "\<And>t. tm_ok (localtime t)" and t: "crond_turn localtime i s = Inr (s', ev)"
  shows "state_inv s'"
proof -
  from t obtain s1 where s1: "crond_update i s = Inr s1"
    by (cases "crond_update i s") (simp_all add: crond_turn_def bind_res_def)
  have s1i: "state_inv s1" using crond_update_inv s1 inv by auto
  let ?D = "due_between localtime (t1_of s) (ci_t2 i)"
  obtain fb e k where r: "RunJobs (ci_sys i) (map (arm_file ?D) (FileBase_of s1)) (ci_forks i) = (fb, e, k)"
    using prod_cases3 by blast
  obtain fb' e' n k' where c: "CheckJobs (ci_sys i) fb k = (fb', e', n, k')" using prod_cases4 by blast
  have "\<forall>f \<in> set fb. file_inv f"
    using RunJobs_inv [OF r] s1i arm_file_inv by (auto simp: state_inv_def base_inv_def)
  then have "\<forall>f \<in> set fb'. file_inv f" using CheckJobs_inv [OF c] i by (simp add: input_ok_def)
  moreover have "active fb' = active (FileBase_of s1)"
    using owners_step(1,2) r owners_step(3) [OF c] by (metis active_def)
  ultimately have "base_inv fb'" using s1i by (simp add: state_inv_def base_inv_def)
  with crond_turn_cases [OF inv i s1 refl refl r c] t s1i i show ?thesis
    by (auto simp: state_inv_def input_ok_def split: if_split_asm)
qed

text \<open>The states at the start of a turn.\<close>

inductive crond_reach :: "(int \<Rightarrow> tm) \<Rightarrow> crond_state \<Rightarrow> bool" for localtime where
  start: "crond_start i t1 = Inr s \<Longrightarrow> 0 \<le> t1 \<Longrightarrow> crond_reach localtime s"
| turn: "crond_reach localtime s \<Longrightarrow> input_ok i \<Longrightarrow> crond_turn localtime i s = Inr (s', ev) \<Longrightarrow> crond_reach localtime s'"

lemma crond_start_inv: "crond_start i t1 = Inr s \<Longrightarrow> 0 \<le> t1 \<Longrightarrow> state_inv s"
proof -
  have "base_inv []" by (simp add: base_inv_def)
  then show "crond_start i t1 = Inr s \<Longrightarrow> 0 \<le> t1 \<Longrightarrow> state_inv s"
    using SynchronizeDir_base by (auto simp: crond_start_def bind_res_def state_inv_def split: sum.split_asm)
qed

lemma reach_state_inv: "crond_reach localtime s \<Longrightarrow> (\<And>t. tm_ok (localtime t)) \<Longrightarrow> state_inv s"
  by (induction rule: crond_reach.induct) (blast intro: crond_start_inv crond_turn_inv)+

text \<open>
  C12. Whatever crontabs, updates of \<open>cron.update\<close>, failures of system calls and clock changes crond
  meets, at the start of every turn no job is armed, a file with a running job is marked as running,
  so that its end will be noticed, a user has at most one file that is not marked as deleted, and the
  arrays of all lines have the sizes their readers rely on.
\<close>

theorem crond_invariant:
  assumes "crond_reach localtime s" "\<And>t. tm_ok (localtime t)"
  shows "(\<forall>f \<in> set (FileBase_of s). \<not> cf_Ready f \<and>
      (\<forall>l \<in> set (cf_LineBase f). line_ok l \<and> 0 \<le> cl_Pid l \<and> (0 < cl_Pid l \<longrightarrow> cf_Running f))) \<and>
    distinct (map cf_User (filter (\<lambda>f. \<not> cf_Deleted f) (FileBase_of s))) \<and>
    0 < rescan s \<and> rescan s \<le> 60 \<and> sleep_time s \<in> {10, 60}"
  using reach_state_inv [OF assms]
  by (auto simp: state_inv_def base_inv_def file_inv_def active_def owners_def filter_map o_def)

text \<open>
  C11. After at most an hour a turn starts exactly the idle jobs of the files that are not deleted that
  match a full minute after the last turn and not after this one: each is tried once, in the order of
  the files and their lines, with the process number that \<open>fork\<close> gives, and is dropped when \<open>fork\<close>
  fails; a job that still runs is not started again. All further processes are for mail. When the
  clock went on by more than an hour, or backwards, the turn starts nothing. The next turn takes up
  where this one ended, except that the last time is kept when the clock was set back by up to an hour.
\<close>

theorem crond_turn_runs:
  assumes "crond_reach localtime s" "\<And>t. tm_ok (localtime t)" "input_ok i" "crond_update i s = Inr s1"
    "jobs = due_jobs (due_between localtime (t1_of s) (ci_t2 i)) (FileBase_of s1)" "dt = ci_t2 i - t1_of s"
  shows "\<exists>s' mails. crond_turn localtime i s =
      Inr (s', if 0 < dt \<and> dt \<le> 3600 then started jobs (ci_forks i) @ mails else []) \<and>
    (\<forall>e \<in> set mails. is_mail e) \<and> t1_of s' = (if - 3600 \<le> dt \<and> dt \<le> 0 then t1_of s else ci_t2 i)"
proof -
  have inv: "state_inv s" by (rule reach_state_inv [OF assms(1,2)])
  then have s1: "\<forall>f \<in> set (FileBase_of s1). file_inv f" "t1_of s1 = t1_of s"
    using crond_update_inv assms(4) by (auto simp: state_inv_def base_inv_def)
  from RunJobs_due [OF this(1)] obtain fb where
    r: "RunJobs (ci_sys i) (map (arm_file (due_between localtime (t1_of s) (ci_t2 i))) (FileBase_of s1)) (ci_forks i)
      = (fb, started jobs (ci_forks i), drop (length jobs) (ci_forks i))"
    unfolding assms(5) by blast
  obtain fb' e' n k' where c: "CheckJobs (ci_sys i) fb (drop (length jobs) (ci_forks i)) = (fb', e', n, k')"
    using prod_cases4 by blast
  note turn = crond_turn_cases [OF inv assms(3,2,4) refl assms(6) r c]
  consider "dt < - 3600 \<or> 3600 < dt" | "0 < dt" "dt \<le> 3600" | "- 3600 \<le> dt" "dt \<le> 0" by linarith
  then show ?thesis
    using turn CheckJobs_mail [OF c] s1(2) by cases auto
qed

text \<open>
  A job whose process cannot be created is not armed any more: the branch of \<open>RunJobs\<close> that marks its
  file as ready again is never taken.
\<close>

lemma failed_job_dropped:
  "RunJobs sys [f\<lparr>cf_LineBase := [l\<lparr>cl_Pid := - 1\<rparr>], cf_Ready := True\<rparr>] [] = (fb, ev, forks) \<Longrightarrow>
    ev = [] \<and> (\<exists>l'. cf_LineBase (hd fb) = [l'] \<and> cl_Pid l' = 0 \<and> \<not> cf_Ready (hd fb))"
  by (auto simp: RunJob_def ForkJob_def next_fork_def Let_def split: if_split_asm option.split_asm)

text \<open>A blank line in \<open>cron.update\<close> compares a null pointer.\<close>

lemma blank_update_undefined: "CheckUpdates src (Some [CHR 0x0A]) fb = None"
proof -
  have "fgets 256 [CHR 0x0A] = Some ([CHR 0x0A], [])" by code_simp
  moreover have "map_option fst (strtok ('' '' @ [CHR 0x09, CHR 0x0D, CHR 0x0A]) (cstring [CHR 0x0A])) = None" by code_simp
  ultimately show ?thesis
    by (simp add: CheckUpdates_def update_lines.simps [of src "[CHR 0x0A]"] SynchronizeFile_def)
qed

section \<open>An example\<close>

text \<open>The crontab of root has the one line \<open>2 * * * * job\<close>.\<close>

definition input_example :: "int \<Rightarrow> cron_input" where
  "input_example t2 = \<lparr>ci_src = (\<lambda>n. if n = ''root'' then Some (0, ''2 * * * * job'' @ [CHR 0x0A]) else None),
     ci_getpwnam = (\<lambda>_. True), ci_freed = (\<lambda>_. []), ci_dir = Some [''root''], ci_update = None, ci_t2 = t2,
     ci_sys = \<lparr>sendmail = False, mail_open = (\<lambda>_. None), mail_new = (\<lambda>_ _ _. False), wait4 = (\<lambda>_. 0)\<rparr>,
     ci_forks = [77, 78]\<rparr>"

definition state_example :: crond_state where
  "state_example = \<lparr>FileBase_of = [file_example [line_example]], t1_of = 61, rescan = 60, sleep_time = 60\<rparr>"

lemma start_example: "crond_start (input_example 121) 61 = Inr state_example"
  by code_simp

theorem parse_line_type_witness: "\<not> cl_MailFlag line_example \<and> length (cl_Days line_example) = 32"
proof -
  have "parse_line ''2 * * * * job'' = Some (Some line_example)" by code_simp
  from parse_line_type [OF this] show ?thesis by blast
qed

lemma reach_example: "crond_reach clock_example state_example"
  using start_example by (rule crond_reach.start) simp

theorem crond_invariant_witness:
  "distinct (map cf_User (filter (\<lambda>f. \<not> cf_Deleted f) (FileBase_of state_example))) \<and> rescan state_example \<le> 60"
  using crond_invariant [OF reach_example clock_example_ok] by simp

lemma update_example: "crond_update (input_example t2) state_example = Inr (state_example\<lparr>rescan := 59\<rparr>)"
  by code_simp

theorem crond_turn_runs_witness:
  "(\<exists>s' mails. crond_turn clock_example (input_example 121) state_example =
      Inr (s', [Run ''root'' ''job'' 77] @ mails) \<and> (\<forall>e \<in> set mails. is_mail e) \<and> t1_of s' = 121) \<and>
   (\<exists>s'. crond_turn clock_example (input_example 3662) state_example = Inr (s', []) \<and> t1_of s' = 3662)"
proof -
  let ?D = "due_between clock_example 61 121"
  have l: "cl_Pid line_example = 0" "cl_Shell line_example = ''job''" by code_simp+
  have t: "t1_of state_example = 61" "ci_t2 (input_example t2) = t2" "ci_forks (input_example t2) = [77, 78]"
      "FileBase_of (state_example\<lparr>rescan := 59\<rparr>) = [file_example [line_example]]" for t2
    by (simp_all add: state_example_def input_example_def)
  have j: "due_jobs ?D [file_example [line_example]] = [(''root'', ''job'')]"
    using due_example l by (simp add: due_jobs_def file_example_def)
  have i: "input_ok (input_example t2)" if "0 \<le> t2" "t2 \<le> 3662" for t2
    using that by (simp add: input_ok_def sys_ok_def input_example_def)
  note turn = crond_turn_runs [OF reach_example clock_example_ok i update_example refl refl, unfolded t]
  show ?thesis
    using turn [of 121] turn [of 3662] by (auto simp: j started_def)
qed

lemma sleep_secs_next:
  "0 < st \<Longrightarrow> 0 \<le> now \<Longrightarrow> 2 \<le> sleep_secs st now \<and> sleep_secs st now \<le> st + 1 \<and> (now + sleep_secs st now) mod st = 1 mod st"
proof -
  assume "0 < st" "0 \<le> now"
  then have "now + sleep_secs st now = 1 + (now div st + 1) * st"
    by (simp add: sleep_secs_def c_rem_pos algebra_simps minus_div_mult_eq_mod [symmetric])
  then have "(now + sleep_secs st now) mod st = 1 mod st" by simp
  moreover have "0 \<le> now mod st" "now mod st < st" using \<open>0 < st\<close> by simp_all
  ultimately show ?thesis using \<open>0 \<le> now\<close> unfolding sleep_secs_def by (simp only: c_rem_pos) linarith
qed

end
