(* ===== verification/Xgetularg.thy ===== *)
theory Xgetularg
  imports C_Lib
begin

text \<open>
  Numbers on the command line (\<open>libbb/xgetularg.c\<close>): \<open>None\<close> is the end of the program with the usage
  message. An \<open>unsigned long\<close> has 32 bits; \<open>strtoul\<close> sets \<open>errno\<close> for larger numbers.
\<close>

type_synonym suffix_mult = "string \<times> nat"

definition ULONG_MAX :: nat where "ULONG_MAX = 2 ^ 32 - 1"

text \<open>The loop over the suffixes: the end pointer and the number behind a match.\<close>

fun apply_suffix :: "suffix_mult list \<Rightarrow> string \<Rightarrow> nat \<Rightarrow> (string \<times> nat) option" where
  "apply_suffix [] e r = Some (e, r)"
| "apply_suffix ((suffix, mult) # suffixes) e r =
     (if suffix = e then
        if ULONG_MAX div mult < r then None else Some (tl e, r * mult)
      else apply_suffix suffixes e r)"

definition bb_xgetularg_bnd_sfx :: "string \<Rightarrow> nat \<Rightarrow> nat \<Rightarrow> nat \<Rightarrow> suffix_mult list \<Rightarrow> nat option" where
  "bb_xgetularg_bnd_sfx arg base lower upper suffixes =
     (if arg \<noteq> [] \<and> (hd arg = CHR ''-'' \<or> isspace (hd arg)) then None
      else case scan_num base arg of
        None \<Rightarrow> None
      | Some (neg, r, e) \<Rightarrow>
          if ULONG_MAX < r then None
          else do {
            (e, r) \<leftarrow> apply_suffix suffixes e r;
            if e \<noteq> [] \<or> r < lower \<or> upper < r then None else Some r })"

definition bb_xgetularg_bnd :: "string \<Rightarrow> nat \<Rightarrow> nat \<Rightarrow> nat \<Rightarrow> nat option" where
  "bb_xgetularg_bnd arg base lower upper = bb_xgetularg_bnd_sfx arg base lower upper []"

definition bb_xgetularg10_bnd :: "string \<Rightarrow> nat \<Rightarrow> nat \<Rightarrow> nat option" where
  "bb_xgetularg10_bnd arg lower upper = bb_xgetularg_bnd arg 10 lower upper"

definition bb_xgetularg10 :: "string \<Rightarrow> nat option" where
  "bb_xgetularg10 arg = bb_xgetularg10_bnd arg 0 ULONG_MAX"

definition LONG_MAX :: int where "LONG_MAX = 2 ^ 31 - 1"
definition LONG_MIN :: int where "LONG_MIN = - (2 ^ 31)"

text \<open>The number is assigned to a \<open>long\<close>: \<open>2 ^ 31\<close> wraps around to the smallest number, and so does its negation.\<close>

definition bb_xgetlarg_bnd_sfx :: "string \<Rightarrow> nat \<Rightarrow> int \<Rightarrow> int \<Rightarrow> suffix_mult list \<Rightarrow> int option" where
  "bb_xgetlarg_bnd_sfx arg base lower upper suffixes =
     (let neg = (arg \<noteq> [] \<and> hd arg = CHR ''-'');
          skip = (neg \<and> \<not> (tl arg \<noteq> [] \<and> hd (tl arg) = CHR ''+''));
          p = (if skip then tl arg else arg);
          u = (if skip then nat LONG_MAX + 1 else nat LONG_MAX)
      in case bb_xgetularg_bnd_sfx p base 0 u suffixes of
           None \<Rightarrow> None
         | Some r \<Rightarrow>
             let r = (if neg then - int r else int r)
             in if r < lower \<or> upper < r then None else Some r)"

definition bb_xgetlarg10_sfx :: "string \<Rightarrow> suffix_mult list \<Rightarrow> int option" where
  "bb_xgetlarg10_sfx arg suffixes = bb_xgetlarg_bnd_sfx arg 10 LONG_MIN LONG_MAX suffixes"

section \<open>Reading numbers\<close>

lemma scan_num_decimal: "r = [] \<or> \<not> digit_val (hd r) < 10 \<Longrightarrow> scan_num 10 (dstr n @ r) = Some (False, n, r)"
proof -
  assume r: "r = [] \<or> \<not> digit_val (hd r) < 10"
  note d = dstr_props [of n]
  obtain c s where s: "dstr n = c # s" using d by (cases "dstr n") auto
  have c: "isdigit c" using d s by simp
  then have "dropWhile isspace (dstr n @ r) = dstr n @ r" "strip_sign (dstr n @ r) = (False, dstr n @ r)"
    using s by (auto simp: isspace_def isdigit_def strip_sign_def)
  moreover have "takeWhile (\<lambda>c. digit_val c < 10) (dstr n @ r) = dstr n"
    using d r by (cases r) (auto simp: takeWhile_append takeWhile_eq_all_conv)
  ultimately show ?thesis using d by (simp add: scan_num_def strip_base_def)
qed

lemma dstr_start: "dstr n \<noteq> []" "hd (dstr n @ r) \<noteq> CHR ''-''" "\<not> isspace (hd (dstr n @ r))"
proof -
  show "dstr n \<noteq> []" using dstr_props [of n] by simp
  then have "isdigit (hd (dstr n @ r))" using dstr_props [of n] by simp
  then show "hd (dstr n @ r) \<noteq> CHR ''-''" "\<not> isspace (hd (dstr n @ r))" by (auto simp: isdigit_def isspace_def)
qed

text \<open>The text of a number within the bounds is read as this number, and one outside is refused.\<close>

lemma xgetularg10_decimal:
  assumes "upper \<le> ULONG_MAX"
  shows "bb_xgetularg10_bnd (dstr n) lower upper = (if lower \<le> n \<and> n \<le> upper then Some n else None)"
  using assms scan_num_decimal [of "[]" n] dstr_start(2,3) [of n "[]"] dstr_start(1) [of n]
  by (auto simp: bb_xgetularg10_bnd_def bb_xgetularg_bnd_def bb_xgetularg_bnd_sfx_def)

lemma xgetularg10_bounds: "bb_xgetularg10_bnd arg lower upper = Some n \<Longrightarrow> lower \<le> n \<and> n \<le> upper"
  by (auto simp: bb_xgetularg10_bnd_def bb_xgetularg_bnd_def bb_xgetularg_bnd_sfx_def
    split: if_split_asm option.split_asm prod.split_asm)

text \<open>A suffix of one letter multiplies the number; the rest of a longer one is refused.\<close>

lemma suffix_one_letter:
  assumes "\<not> digit_val c < 10" "n * mult \<le> ULONG_MAX" "0 < mult" "n \<le> ULONG_MAX" "lower \<le> n * mult" "n * mult \<le> upper"
  shows "bb_xgetularg_bnd_sfx (dstr n @ [c]) 10 lower upper [([c], mult)] = Some (n * mult)"
proof -
  have "n \<le> ULONG_MAX div mult" using assms by (simp add: less_eq_div_iff_mult_less_eq)
  then show ?thesis
    using assms scan_num_decimal [of "[c]" n] dstr_start(2,3) [of n "[c]"] dstr_start(1) [of n] by (simp add: bb_xgetularg_bnd_sfx_def)
qed

lemma suffix_two_letters:
  assumes "\<not> digit_val c < 10"
  shows "bb_xgetularg_bnd_sfx (dstr n @ [c, d]) 10 lower upper [([c, d], mult)] = None"
  using assms scan_num_decimal [of "[c, d]" n] dstr_start(2,3) [of n "[c, d]"] dstr_start(1) [of n] by (simp add: bb_xgetularg_bnd_sfx_def)

end
