(* ===== verification/Cal.thy ===== *)
theory Cal
  imports Xgetularg "HOL-Library.Signed_Division"
begin

text \<open>
  The calendar \<open>cal\<close> (\<open>coreutils/cal.c\<close>). Buffers are lists of characters with a terminating zero; \<open>None\<close>
  is an access outside of them or a string without its end. The names of months and days are those
  \<open>strftime\<close> gives; \<open>julian\<close> is the option \<open>-j\<close>, which numbers the days of the year.
\<close>

section \<open>The days of a month\<close>

definition THURSDAY :: int where "THURSDAY = 4"
definition SATURDAY :: int where "SATURDAY = 6"
definition FIRST_MISSING_DAY :: int where "FIRST_MISSING_DAY = 639787"
definition NUMBER_MISSING_DAYS :: int where "NUMBER_MISSING_DAYS = 11"
definition MAXDAYS :: nat where "MAXDAYS = 42"
definition SPACE :: int where "SPACE = - 1"

lemmas cal_consts = THURSDAY_def SATURDAY_def FIRST_MISSING_DAY_def NUMBER_MISSING_DAYS_def MAXDAYS_def SPACE_def

definition days_in_month :: "int list" where
  "days_in_month = [0, 31, 28, 31, 30, 31, 30, 31, 31, 30, 31, 30, 31]"

definition sep1752 :: "int list" where
  "sep1752 = [1, 2, 14, 15, 16, 17, 18, 19, 20, 21, 22, 23, 24, 25, 26, 27, 28, 29, 30]"

definition is_leap_year :: "int \<Rightarrow> bool" where
  "is_leap_year yr =
     (if yr \<le> 1752 then yr mod 4 = 0 else yr mod 4 = 0 \<and> yr mod 100 \<noteq> 0 \<or> yr mod 400 = 0)"

definition centuries_since_1700 :: "int \<Rightarrow> int" where
  "centuries_since_1700 yr = (if yr > 1700 then yr div 100 - 17 else 0)"

definition quad_centuries_since_1700 :: "int \<Rightarrow> int" where
  "quad_centuries_since_1700 yr = (if yr > 1600 then (yr - 1600) div 400 else 0)"

definition leap_years_since_year_1 :: "int \<Rightarrow> int" where
  "leap_years_since_year_1 yr = yr div 4 - centuries_since_1700 yr + quad_centuries_since_1700 yr"

text \<open>The loop for the first day of a month in the year, and the two that fill the array.\<close>

fun day_in_year :: "nat \<Rightarrow> int \<Rightarrow> int option" where
  "day_in_year 0 day = Some day"
| "day_in_year (Suc i) day = do { d \<leftarrow> rd days_in_month i; day_in_year i (day + d) }"

definition sep_days :: "int \<Rightarrow> int list \<Rightarrow> int list option" where
  "sep_days j_offset days =
     foldM (\<lambda>days oday. do { d \<leftarrow> rd sep1752 oday; wr days (oday + 2) (d + j_offset) }) days [0..<length sep1752]"

fun put_days :: "nat \<Rightarrow> nat \<Rightarrow> int \<Rightarrow> int list \<Rightarrow> int list option" where
  "put_days 0 dw day days = Some days"
| "put_days (Suc dm) dw day days = do { days \<leftarrow> wr days dw day; put_days dm (dw + 1) (day + 1) days }"

definition day_in_week :: "int \<Rightarrow> int \<Rightarrow> int" where
  "day_in_week year day =
     (let temp = (year - 1) * 365 + leap_years_since_year_1 (year - 1) + day
      in if temp < FIRST_MISSING_DAY then (temp - 1 + SATURDAY) mod 7
         else if temp \<ge> FIRST_MISSING_DAY + NUMBER_MISSING_DAYS then (temp - 1 + SATURDAY - NUMBER_MISSING_DAYS) mod 7
         else THURSDAY)"

definition day_array :: "bool \<Rightarrow> nat \<Rightarrow> int \<Rightarrow> int list option" where
  "day_array julian month year =
     (let days = replicate MAXDAYS SPACE in
      if month = 9 \<and> year = 1752 then sep_days (of_bool julian * 244) days
      else do {
        day \<leftarrow> day_in_year month (if month > 2 \<and> is_leap_year year then 2 else 1);
        let dw = day_in_week year day;
        dm \<leftarrow> rd days_in_month month;
        let dm = (if month = 2 \<and> is_leap_year year then dm + 1 else dm);
        put_days (nat dm) (nat dw) (if julian then day else 1) days })"

section \<open>Text\<close>

definition DAY_LEN :: nat where "DAY_LEN = 3"
definition J_DAY_LEN :: nat where "J_DAY_LEN = DAY_LEN + 1"
definition WEEK_LEN :: nat where "WEEK_LEN = 20"
definition J_WEEK_LEN :: nat where "J_WEEK_LEN = WEEK_LEN + 7"
definition HEAD_SEP :: nat where "HEAD_SEP = 2"

definition digit :: "int \<Rightarrow> char" where
  "digit d = char_of (nat d + 48)"

text \<open>One turn of the loop over the days of a week: the buffer and the pointer.\<close>

definition build_day :: "bool \<Rightarrow> string \<times> nat \<Rightarrow> int \<Rightarrow> (string \<times> nat) option" where
  "build_day julian = (\<lambda>(buf, p) day.
     if day \<noteq> SPACE then do {
       (buf, p, day) \<leftarrow>
         (if julian then
            if day \<ge> 100 then do {
              buf \<leftarrow> wr buf (p + 1) (CHR ''0'');
              buf \<leftarrow> wr buf p (digit (day div 100));
              Some (buf, p + 1, day mod 100) }
            else Some (buf, p + 1, day)
          else Some (buf, p, day));
       buf \<leftarrow> (if day div 10 > 0 then wr buf p (digit (day div 10)) else Some buf);
       buf \<leftarrow> wr buf (p + 1) (digit (day mod 10));
       Some (buf, p + 3) }
     else Some (buf, p + DAY_LEN + of_bool julian))"

definition build_row :: "bool \<Rightarrow> string \<Rightarrow> nat \<Rightarrow> int list \<Rightarrow> (string \<times> nat) option" where
  "build_row julian buf p dp = do {
     buf \<leftarrow> wr_range buf p (replicate ((of_bool julian + DAY_LEN) * 7) (CHR '' ''));
     foldM (build_day julian) (buf, p) dp }"

text \<open>The buffer, which is cut behind the last character that is not a space, and the line.\<close>

definition trim_trailing_spaces_and_print :: "string \<Rightarrow> (string \<times> string) option" where
  "trim_trailing_spaces_and_print buf =
     (if CHR 0x00 \<notin> set buf then None
      else
        let s = cstring buf; t = rev (dropWhile isspace (rev s))
        in if t = [] then Some (buf, s @ [CHR 0x0A])
           else Some (buf[length t := CHR 0x00], t @ [CHR 0x0A]))"

text \<open>The conversion \<open>%*s\<close>, with the width as an argument.\<close>

definition fmt_width :: "int \<Rightarrow> string \<Rightarrow> string" where
  "fmt_width w s =
     (if w < 0 then s @ replicate (nat (- w) - length s) (CHR '' '') else replicate (nat w - length s) (CHR '' '') @ s)"

definition center :: "string \<Rightarrow> int \<Rightarrow> int \<Rightarrow> string" where
  "center str len separate =
     (let n = int (length str); len = len - n
      in fmt_width (len sdiv 2 + n) str @ fmt_width (len sdiv 2 + len smod 2 + separate) [])"

definition blank_string :: "string \<Rightarrow> nat \<Rightarrow> string option" where
  "blank_string buf buflen = do {
     buf \<leftarrow> wr_range buf 0 (replicate buflen (CHR '' ''));
     wr buf (buflen - 1) (CHR 0x00) }"

text \<open>The contents of an array that is not initialised; the code writes before it reads.\<close>

definition uninit :: "nat \<Rightarrow> string" where
  "uninit n = replicate n (CHR ''?'')"

definition day_heading :: "bool \<Rightarrow> string \<Rightarrow> nat \<times> string \<Rightarrow> string option" where
  "day_heading julian buf = (\<lambda>(i, name).
     wr_range buf (i * (3 + of_bool julian) + of_bool julian) (take 2 (name @ [CHR 0x00, CHR 0x00])))"

definition day_headings :: "bool \<Rightarrow> string list \<Rightarrow> string option" where
  "day_headings julian day_names = do {
     buf \<leftarrow> blank_string (uninit 28) (28 - 7 + 7 * of_bool julian);
     foldM (day_heading julian) buf (zip [0..<7] day_names) }"

definition sprintf_to :: "string \<Rightarrow> string \<Rightarrow> string option" where
  "sprintf_to buf s = wr_range buf 0 (s @ [CHR 0x00])"

section \<open>A month\<close>

definition month_row :: "bool \<Rightarrow> int list \<Rightarrow> string \<times> string \<Rightarrow> nat \<Rightarrow> (string \<times> string) option" where
  "month_row julian days = (\<lambda>(lineout, out) row. do {
     dp \<leftarrow> rd_range days (row * 7) 7;
     (lineout, p) \<leftarrow> build_row julian lineout 0 dp;
     lineout \<leftarrow> wr lineout p (CHR 0x00);
     (lineout, line) \<leftarrow> trim_trailing_spaces_and_print lineout;
     Some (lineout, out @ line) })"

definition print_month :: "bool \<Rightarrow> string list \<Rightarrow> string \<Rightarrow> nat \<Rightarrow> nat \<Rightarrow> string option" where
  "print_month julian month_names headings month year = do {
     days \<leftarrow> day_array julian month (int year);
     name \<leftarrow> rd month_names (month - 1);
     let title = name @ '' '' @ dstr year;
     lineout \<leftarrow> sprintf_to (uninit 30) title;
     (lineout, out) \<leftarrow> foldM (month_row julian days)
       (lineout, fmt_width ((7 * of_bool julian + int WEEK_LEN - int (length title)) sdiv 2) [] @ title @ [CHR 0x0A]
         @ cstring headings @ [CHR 0x0A]) [0..<6];
     Some out }"

section \<open>A year\<close>

definition year_cell :: "bool \<Rightarrow> int list list \<Rightarrow> nat \<Rightarrow> nat \<Rightarrow> nat \<Rightarrow> string \<Rightarrow> nat \<Rightarrow> string option" where
  "year_cell julian days week_len month row lineout which_cal = do {
     d \<leftarrow> rd days (month + which_cal);
     dp \<leftarrow> rd_range d row 7;
     (lineout, _) \<leftarrow> build_row julian lineout (which_cal * (week_len + 2)) dp;
     Some lineout }"

definition year_row :: "bool \<Rightarrow> int list list \<Rightarrow> nat \<Rightarrow> nat \<Rightarrow> string \<times> string \<Rightarrow> nat \<Rightarrow> (string \<times> string) option" where
  "year_row julian days week_len month = (\<lambda>(lineout, out) row. do {
     lineout \<leftarrow> foldM (year_cell julian days week_len month (row * 7)) lineout [0..<3 - of_bool julian];
     (lineout, line) \<leftarrow> trim_trailing_spaces_and_print lineout;
     Some (lineout, out @ line) })"

definition year_months :: "bool \<Rightarrow> string list \<Rightarrow> string \<Rightarrow> int list list \<Rightarrow> nat \<Rightarrow> string \<times> string \<Rightarrow> nat \<Rightarrow> (string \<times> string) option" where
  "year_months julian month_names headings days week_len = (\<lambda>(lineout, out) month. do {
     n0 \<leftarrow> rd month_names month;
     n1 \<leftarrow> (if julian then Some [] else do { n \<leftarrow> rd month_names (month + 1); Some (center n (int week_len) (int HEAD_SEP)) });
     n2 \<leftarrow> rd month_names (month + 2 - of_bool julian);
     let out = out @ center n0 (int week_len) (int HEAD_SEP) @ n1 @ center n2 (int week_len) 0
       @ [CHR 0x0A] @ cstring headings @ fmt_width (int HEAD_SEP) [] @ cstring headings
       @ (if julian then [] else fmt_width (int HEAD_SEP) [] @ cstring headings) @ [CHR 0x0A];
     foldM (year_row julian days week_len month) (lineout, out) [0..<6] })"

definition print_year :: "bool \<Rightarrow> string list \<Rightarrow> string \<Rightarrow> nat \<Rightarrow> string option" where
  "print_year julian month_names headings year = do {
     lineout \<leftarrow> sprintf_to (uninit 80) (dstr year);
     let out = center (cstring lineout) (if julian then int (J_WEEK_LEN * 2 + HEAD_SEP) else int (WEEK_LEN * 3 + HEAD_SEP * 2)) 0
       @ [CHR 0x0A, CHR 0x0A];
     days \<leftarrow> foldM (\<lambda>days i. do { d \<leftarrow> day_array julian (i + 1) (int year); Some (days @ [d]) }) [] [0..<12];
     lineout \<leftarrow> blank_string lineout 80;
     let week_len = (if julian then J_WEEK_LEN else WEEK_LEN);
     (lineout, out) \<leftarrow> foldM (year_months julian month_names headings days week_len) (lineout, out)
       (if julian then [0, 2, 4, 6, 8, 10] else [0, 3, 6, 9]);
     Some out }"

section \<open>The program\<close>

datatype cal_error = Cal_undefined | Cal_usage

record cal_env =
  month_names_of :: "string list"
  day_names_of :: "string list"
  now_year :: nat
  now_month :: nat

text \<open>The month, 0 for the whole year, and the year.\<close>

definition cal_args :: "cal_env \<Rightarrow> bool \<Rightarrow> string list \<Rightarrow> (nat \<times> nat) option" where
  "cal_args env whole_year args =
     (case args of
        [] \<Rightarrow> Some (if whole_year then 0 else now_month env, now_year env)
      | [y] \<Rightarrow> do { year \<leftarrow> bb_xgetularg10_bnd y 1 9999; Some (0, year) }
      | [m, y] \<Rightarrow> do { month \<leftarrow> bb_xgetularg10_bnd m 1 12; year \<leftarrow> bb_xgetularg10_bnd y 1 9999; Some (month, year) }
      | _ \<Rightarrow> None)"

definition cal_main :: "cal_env \<Rightarrow> bool \<Rightarrow> bool \<Rightarrow> string list \<Rightarrow> cal_error + string" where
  "cal_main env julian whole_year args =
     (case cal_args env whole_year args of
        None \<Rightarrow> Inl Cal_usage
      | Some (month, year) \<Rightarrow>
          case do {
            headings \<leftarrow> day_headings julian (day_names_of env);
            if month \<noteq> 0 then print_month julian (month_names_of env) headings month year
            else print_year julian (month_names_of env) headings year } of
            None \<Rightarrow> Inl Cal_undefined
          | Some out \<Rightarrow> Inr out)"

section \<open>The calendar that is meant\<close>

text \<open>
  The calendar of Great Britain: leap years of the Julian calendar up to 1752, in whose September
  the days 3 to 13 are missing, and of the Gregorian calendar from then on. The first day of the
  year 1 was a Saturday.
\<close>

definition month_days :: "nat \<Rightarrow> nat \<Rightarrow> nat" where
  "month_days y m =
     (if y = 1752 \<and> m = 9 then 19
      else if m = 2 then
        if 4 dvd y \<and> (y \<le> 1752 \<or> \<not> 100 dvd y \<or> 400 dvd y) then 29 else 28
      else if m \<in> {4, 6, 9, 11} then 30 else 31)"

definition days_to_month :: "nat \<Rightarrow> nat \<Rightarrow> int" where
  "days_to_month y m = int (sum_list (map (month_days y) [1..<m]))"

fun days_to_year :: "nat \<Rightarrow> int" where
  "days_to_year 0 = 0"
| "days_to_year (Suc y) = days_to_year y + days_to_month (Suc y) 13"

definition weekday :: "nat \<Rightarrow> nat \<Rightarrow> int" where
  "weekday y m = (SATURDAY + days_to_year (y - 1) + days_to_month y m) mod 7"

text \<open>
  The number that is shown for the \<open>k\<close>-th day of a month: the missing days have numbers, also when the
  days of the year are counted.
\<close>

definition day_name :: "nat \<Rightarrow> nat \<Rightarrow> nat \<Rightarrow> int" where
  "day_name y m k = (if y = 1752 \<and> m = 9 \<and> 2 \<le> k then int k + 12 else int k + 1)"

definition year_offset :: "nat \<Rightarrow> nat \<Rightarrow> int" where
  "year_offset y m = days_to_month y m + (if y = 1752 \<and> 9 < m then 11 else 0)"

definition calendar :: "bool \<Rightarrow> nat \<Rightarrow> nat \<Rightarrow> int list" where
  "calendar julian m y =
     (let w = nat (weekday y m); n = month_days y m
      in replicate w SPACE @ map (\<lambda>k. day_name y m k + (if julian then year_offset y m else 0)) [0..<n]
         @ replicate (MAXDAYS - w - n) SPACE)"

lemma upt_month: "[1..<13] = [1, 2, 3, 4, 5, 6, 7, 8, 9, 10, 11, 12]" by code_simp

definition leap_days :: "nat \<Rightarrow> int" where
  "leap_days y = (if is_leap_year (int y) then 1 else 0)"

lemma leap_dvd: "4 dvd y \<and> (y \<le> 1752 \<or> \<not> 100 dvd y \<or> 400 dvd y) \<longleftrightarrow> is_leap_year (int y)"
proof -
  have "400 dvd y \<Longrightarrow> 4 dvd y" using dvd_trans [of 4 400 y] by simp
  moreover have "k dvd y \<longleftrightarrow> int y mod int k = 0" for k by presburger
  from this [of 4] this [of 100] this [of 400] have "4 dvd y \<longleftrightarrow> int y mod 4 = 0" "100 dvd y \<longleftrightarrow> int y mod 100 = 0"
    "400 dvd y \<longleftrightarrow> int y mod 400 = 0" by simp_all
  ultimately show ?thesis unfolding is_leap_year_def by auto
qed

lemma month_days_leap:
  "month_days y m = (if y = 1752 \<and> m = 9 then 19 else if m = 2 then if is_leap_year (int y) then 29 else 28
     else if m \<in> {4, 6, 9, 11} then 30 else 31)"
  unfolding month_days_def leap_dvd ..

lemma leap_1752 [simp]: "is_leap_year 1752" by (simp add: is_leap_year_def)

lemma year_length: "days_to_month y 13 = (if y = 1752 then 355 else 365 + leap_days y)"
  unfolding days_to_month_def upt_month
  by (simp add: month_days_leap leap_days_def)

lemma div_step: "(int n + 1) div int k = int n div int k + (if (int n + 1) mod int k = 0 then 1 else 0)"
proof -
  have "int (Suc n div k) = int (n div k) + (if int (Suc n mod k) = 0 then 1 else 0)" by (simp add: div_Suc)
  then show ?thesis unfolding of_nat_div of_nat_mod of_nat_Suc by (simp add: add.commute)
qed

text \<open>The formulas for the leap years count the days since the year 1.\<close>

lemma leap_years_step:
  assumes "1752 \<le> n"
  shows "leap_years_since_year_1 (int n + 1) = leap_years_since_year_1 (int n) + leap_days (Suc n)"
proof -
  have 4: "(int n + 1) div 4 = int n div 4 + (if (int n + 1) mod 4 = 0 then 1 else 0)" using div_step [of n 4] by simp
  have 100: "(int n + 1) div 100 = int n div 100 + (if (int n + 1) mod 100 = 0 then 1 else 0)" using div_step [of n 100] by simp
  have sn: "int (Suc n) = int n + 1" by simp
  obtain k where k: "n = 1600 + k" using assms le_Suc_ex [of 1600 n] by auto
  have "(int k + 1 + 4 * 400) mod 400 = (int k + 1) mod 400" by (rule mod_mult_self1)
  then have 400: "(int n + 1 - 1600) div 400 = (int n - 1600) div 400 + (if (int n + 1) mod 400 = 0 then 1 else 0)"
    using div_step [of k 400] k by (simp add: add.commute add.left_commute)
  have "(int n + 1) mod 400 = 0 \<Longrightarrow> (int n + 1) mod 100 = 0" "(int n + 1) mod 100 = 0 \<Longrightarrow> (int n + 1) mod 4 = 0"
    using dvd_trans [of 100 400 "int n + 1"] dvd_trans [of 4 100 "int n + 1"] by (auto simp: dvd_eq_mod_eq_0)
  then have l: "leap_days (Suc n) = (if (int n + 1) mod 4 = 0 then 1 else 0) - (if (int n + 1) mod 100 = 0 then 1 else 0)
      + (if (int n + 1) mod 400 = 0 then 1 else 0)"
    using assms unfolding leap_days_def is_leap_year_def sn by auto
  have "1700 < int n + 1" "1700 < int n" "1600 < int n + 1" "1600 < int n" using assms by linarith+
  then show ?thesis
    unfolding leap_years_since_year_1_def centuries_since_1700_def quad_centuries_since_1700_def
    by (simp only: if_True 4 100 400 l)
qed

lemma days_to_year_closed:
  "days_to_year n = 365 * int n + leap_years_since_year_1 (int n) - (if 1752 \<le> n then 11 else 0)"
proof (induction n)
  case 0
  show ?case by (simp add: leap_years_since_year_1_def centuries_since_1700_def quad_centuries_since_1700_def)
next
  case (Suc n)
  have early: "leap_years_since_year_1 (int m) = int m div 4" if "m \<le> 1752" for m
    using that by (auto simp: leap_years_since_year_1_def centuries_since_1700_def quad_centuries_since_1700_def)
  consider "Suc n < 1752" | "n = 1751" | "1752 \<le> n" by linarith
  then show ?case
  proof cases
    case 1
    have "int (Suc n) div 4 = int n div 4 + leap_days (Suc n)"
      using div_step [of n 4] 1 by (simp add: leap_days_def is_leap_year_def add.commute)
    with 1 Suc early [of "Suc n"] show ?thesis by (simp add: early year_length)
  next
    case 2
    have "days_to_year (Suc n) = days_to_year n + 355" using 2 by (simp only: days_to_year.simps year_length) simp
    with 2 Suc early [of 1751] early [of 1752] show ?thesis by simp
  next
    case 3
    with Suc leap_years_step [OF 3] show ?thesis by (simp add: year_length add.commute)
  qed
qed

lemma put_days_map:
  "dw + dm \<le> length days \<Longrightarrow>
    put_days dm dw day days = Some (take dw days @ map (\<lambda>k. day + int k) [0..<dm] @ drop (dw + dm) days)"
proof (induction dm arbitrary: dw day days)
  case (Suc dm)
  then have "wr days dw day = Some (take dw days @ day # drop (Suc dw) days)"
    by (simp add: wr_def upd_conv_take_nth_drop)
  moreover have "map (\<lambda>k. day + int k) [0..<Suc dm] = day # map (\<lambda>k. day + 1 + int k) [0..<dm]"
    by (simp add: upt_conv_Cons map_Suc_upt [symmetric] del: upt_Suc)
  ultimately show ?case using Suc.prems Suc.IH [of "dw + 1" "take dw days @ day # drop (Suc dw) days" "day + 1"] by (simp add: add.commute)
qed simp

text \<open>The table of the months in the code and the months of the calendar.\<close>

lemma month_cases:
  assumes "1 \<le> m" "m \<le> 12"
  obtains "m = (1 :: nat)" | "m = 2" | "m = 3" | "m = 4" | "m = 5" | "m = 6" | "m = 7" | "m = 8" | "m = 9" | "m = 10" | "m = 11" | "m = 12"
proof -
  have "m = 1 \<or> m = 2 \<or> m = 3 \<or> m = 4 \<or> m = 5 \<or> m = 6 \<or> m = 7 \<or> m = 8 \<or> m = 9 \<or> m = 10 \<or> m = 11 \<or> m = 12"
    using assms by presburger
  then show ?thesis using that by blast
qed

lemma day_in_year_numeral:
  "day_in_year (numeral n) day = do { d \<leftarrow> rd days_in_month (pred_numeral n); day_in_year (pred_numeral n) (day + d) }"
  by (simp add: numeral_eq_Suc)

lemma upt_months: "[1..<m] = (if 1 < m then 1 # [2..<m] else [])"
  by (simp add: upt_conv_Cons numeral_2_eq_2)

lemma days_to_month_eval: "days_to_month y m = int (sum_list (map (month_days y) (if 1 < m then 1 # [2..<m] else [])))"
  unfolding days_to_month_def upt_months [symmetric] ..

lemma day_in_year_month:
  assumes "1 \<le> m" "m \<le> 12"
  shows "day_in_year m (if 2 < m \<and> is_leap_year (int y) then 2 else 1) = Some (year_offset y m + 1)"
  using assms
  by (cases rule: month_cases)
    (simp_all add: days_in_month_def rd_def year_offset_def days_to_month_eval month_days_leap day_in_year_numeral)

lemma days_to_month_bounds:
  assumes "1 \<le> m" "m \<le> 12"
  shows "0 \<le> days_to_month y m" "days_to_month y m \<le> 335"
    "y = 1752 \<Longrightarrow> m < 9 \<Longrightarrow> days_to_month y m \<le> 213" "y = 1752 \<Longrightarrow> 9 < m \<Longrightarrow> 263 \<le> days_to_month y m"
  using assms
  by (cases rule: month_cases, simp_all add: days_to_month_eval month_days_leap)+

lemma days_to_year_mono: "a \<le> b \<Longrightarrow> days_to_year a \<le> days_to_year b"
  by (rule lift_Suc_mono_le [of days_to_year]) (simp_all add: year_length leap_days_def)

lemma days_to_year_1752: "days_to_year 1750 = 639187" "days_to_year 1751 = 639552" "days_to_year 1752 = 639907"
  by (simp_all add: days_to_year_closed leap_years_since_year_1_def centuries_since_1700_def quad_centuries_since_1700_def)

lemma day_in_week_weekday:
  assumes m: "1 \<le> m" "m \<le> 12" and y: "1 \<le> y" and "\<not> (y = 1752 \<and> m = 9)"
  shows "day_in_week (int y) (year_offset y m + 1) = weekday y m"
proof -
  let ?D = "days_to_year (y - 1) + days_to_month y m"
  have y1: "int y - 1 = int (y - 1)" using y by simp
  have temp: "(int y - 1) * 365 + leap_years_since_year_1 (int y - 1) + (year_offset y m + 1)
      = ?D + 1 + (if 1753 \<le> y \<or> y = 1752 \<and> 9 < m then 11 else 0)"
    unfolding y1 days_to_year_closed year_offset_def using y by auto
  show ?thesis
  proof (cases "1753 \<le> y \<or> y = 1752 \<and> 9 < m")
    case True
    have "639798 \<le> ?D + 12"
    proof (cases "1753 \<le> y")
      case True
      then have "1752 \<le> y - 1" by simp
      from days_to_year_mono [OF this] show ?thesis using days_to_month_bounds(1) [OF m, of y] days_to_year_1752 by linarith
    next
      case False
      with True show ?thesis using days_to_month_bounds(4) [OF m, of y] days_to_year_1752 by auto
    qed
    with True show ?thesis
      unfolding day_in_week_def Let_def temp weekday_def by (simp add: cal_consts add.commute add.left_commute)
  next
    case False
    have "?D + 1 < 639787"
    proof (cases "y = 1752")
      case True
      with False show ?thesis using days_to_month_bounds(3) [OF m, of y] days_to_year_1752 assms(4) by simp
    next
      case y: False
      with False have "y - 1 \<le> 1750" by linarith
      from days_to_year_mono [OF this] show ?thesis
        using days_to_month_bounds(2) [OF m, of y] days_to_year_1752 by linarith
    qed
    then show ?thesis
      unfolding day_in_week_def Let_def temp weekday_def if_not_P [OF False] by (simp add: cal_consts add.commute add.left_commute)
  qed
qed

lemma weekday_bounds: "0 \<le> weekday y m" "weekday y m < 7"
  by (simp_all add: weekday_def)

lemma month_days_bounds: "month_days y m \<le> 31" by (simp add: month_days_def)

text \<open>The table of the code, and the months that the calendar has.\<close>

lemma days_in_month_leap:
  assumes "1 \<le> m" "m \<le> 12" "\<not> (y = 1752 \<and> m = 9)"
  shows "\<exists>dm. rd days_in_month m = Some dm \<and> nat (if m = 2 \<and> is_leap_year (int y) then dm + 1 else dm) = month_days y m"
  using assms(1,2)
  by (cases rule: month_cases) (use assms(3) in \<open>simp_all add: days_in_month_def rd_def month_days_leap\<close>)

lemma day_array_calendar:
  assumes m: "1 \<le> m" "m \<le> 12" and y: "1 \<le> y"
  shows "day_array julian m (int y) = Some (calendar julian m y)"
proof (cases "y = 1752 \<and> m = 9")
  case True
  have d: "days_to_month 1752 9 = 244" by (simp add: days_to_month_eval month_days_leap)
  have w: "weekday 1752 9 = 2" "month_days 1752 9 = 19" "year_offset 1752 9 = 244"
    by (simp_all add: weekday_def d days_to_year_1752 SATURDAY_def month_days_def year_offset_def)
  have "sep_days 244 (replicate MAXDAYS SPACE) = Some (replicate 2 SPACE @ map (\<lambda>k. day_name 1752 9 k + 244) [0..<19]
      @ replicate (MAXDAYS - 2 - 19) SPACE)"
    "sep_days 0 (replicate MAXDAYS SPACE) = Some (replicate 2 SPACE @ map (\<lambda>k. day_name 1752 9 k + 0) [0..<19]
      @ replicate (MAXDAYS - 2 - 19) SPACE)"
    by code_simp+
  with True w show ?thesis
    by (cases julian) (simp_all add: day_array_def calendar_def)
next
  case False
  let ?w = "nat (weekday y m)" and ?n = "month_days y m"
  obtain dm where dm: "rd days_in_month m = Some dm" "nat (if m = 2 \<and> is_leap_year (int y) then dm + 1 else dm) = ?n"
    using days_in_month_leap [OF m False] by blast
  have wn: "?w + ?n \<le> 42" using weekday_bounds [of y m] month_days_bounds [of y m] by linarith
  have "(if julian then year_offset y m + 1 else 1) + int k = day_name y m k + (if julian then year_offset y m else 0)" for k
    using False by (auto simp: day_name_def)
  moreover have "day_array julian m (int y) = put_days ?n ?w (if julian then year_offset y m + 1 else 1) (replicate MAXDAYS SPACE)"
    using False day_in_year_month [OF m, of y] dm day_in_week_weekday [OF m y False]
    by (auto simp: day_array_def Let_def)
  ultimately show ?thesis
    using wn by (simp add: put_days_map calendar_def Let_def cal_consts min_def)
qed

section \<open>The text of a week\<close>

text \<open>A day takes three characters, and four when the days of the year are counted.\<close>

definition day_text :: "bool \<Rightarrow> int \<Rightarrow> string" where
  "day_text julian d =
     (let tens = (\<lambda>d. if 0 < d div 10 then digit (d div 10) else CHR '' '')
      in if d = SPACE then replicate (3 + of_bool julian) (CHR '' '')
         else if \<not> julian then [tens d, digit (d mod 10), CHR '' '']
         else if 100 \<le> d then [digit (d div 100), digit (d mod 100 div 10), digit (d mod 10), CHR '' '']
         else [CHR '' '', tens d, digit (d mod 10), CHR '' ''])"

definition week_text :: "bool \<Rightarrow> int list \<Rightarrow> string" where
  "week_text julian dp = concat (map (day_text julian) dp)"

lemma length_day_text: "length (day_text julian d) = 3 + of_bool julian"
  by (simp add: day_text_def Let_def)

lemma length_week_text: "length (week_text julian dp) = (3 + of_bool julian) * length dp"
  by (induction dp) (simp_all add: week_text_def length_day_text)

lemma wr_append_Suc [simp]: "wr (xs @ a # y # ys) (Suc (length xs)) v = Some (xs @ a # v # ys)"
  by (simp add: wr_def list_update_append)

lemma wr_append_Suc2 [simp]: "wr (xs @ a # b # y # ys) (Suc (Suc (length xs))) v = Some (xs @ a # b # v # ys)"
  by (simp add: wr_def list_update_append)

lemma build_day_text:
  assumes "d = SPACE \<or> 0 \<le> d"
  shows "build_day julian (pre @ replicate (3 + of_bool julian) (CHR '' '') @ rest, length pre) d =
    Some (pre @ day_text julian d @ rest, length pre + 3 + of_bool julian)"
proof (cases "d = SPACE")
  case True
  then show ?thesis by (simp add: build_day_def day_text_def DAY_LEN_def)
next
  case False
  note run = build_day_def day_text_def Let_def numeral_3_eq_3 numeral_2_eq_2
  show ?thesis
  proof (cases "julian \<and> 100 \<le> d")
    case True
    define t where "t = d mod 100 div 10"
    have t: "t = 0 \<or> 0 < t" using pos_imp_zdiv_nonneg_iff [of 10 "d mod 100"] unfolding t_def by force
    have "digit 0 = CHR ''0''" by code_simp
    then show ?thesis using True False t by (elim disjE) (simp_all add: run mod_mod_cancel flip: t_def)
  next
    case False
    define t where "t = d div 10"
    show ?thesis
      using False \<open>d \<noteq> SPACE\<close> by (cases julian; cases "0 < t") (simp_all add: run flip: t_def)
  qed
qed

lemma build_days_text:
  "\<forall>d \<in> set dp. d = SPACE \<or> 0 \<le> d \<Longrightarrow>
    foldM (build_day julian) (pre @ replicate ((3 + of_bool julian) * length dp) (CHR '' '') @ rest, length pre) dp =
      Some (pre @ week_text julian dp @ rest, length pre + (3 + of_bool julian) * length dp)"
proof (induction dp arbitrary: pre)
  case (Cons d dp)
  have "pre @ replicate ((3 + of_bool julian) * length (d # dp)) (CHR '' '') @ rest =
      pre @ replicate (3 + of_bool julian) (CHR '' '') @ replicate ((3 + of_bool julian) * length dp) (CHR '' '') @ rest"
    by (simp add: replicate_add)
  with Cons.IH [of "pre @ day_text julian d"] Cons.prems build_day_text [of d julian pre]
  show ?case by (simp add: length_day_text week_text_def algebra_simps)
qed (simp add: week_text_def)

lemma build_row_text:
  assumes "length dp = 7" "\<forall>d \<in> set dp. d = SPACE \<or> 0 \<le> d" "length old = (3 + of_bool julian) * 7"
  shows "build_row julian (pre @ old @ rest) (length pre) dp =
    Some (pre @ week_text julian dp @ rest, length pre + (3 + of_bool julian) * 7)"
  using build_days_text [OF assms(2), of julian pre rest] assms
  by (simp add: build_row_def DAY_LEN_def add.commute)

text \<open>A line that is printed loses its trailing spaces, unless it has nothing else.\<close>

definition trimmed :: "string \<Rightarrow> string" where
  "trimmed s = (let t = rev (dropWhile isspace (rev s)) in if t = [] then s else t)"

lemma cstring_append: "CHR 0x00 \<notin> set s \<Longrightarrow> cstring (s @ CHR 0x00 # r) = s"
  by (induction s) (auto simp: cstring_def)

lemma trim_print:
  assumes "CHR 0x00 \<notin> set s"
  shows "trim_trailing_spaces_and_print (s @ CHR 0x00 # r) =
    Some (s[length (trimmed s) := CHR 0x00] @ CHR 0x00 # r, trimmed s @ [CHR 0x0A])"
proof -
  let ?t = "rev (dropWhile isspace (rev s))"
  have "length ?t \<le> length s" using length_dropWhile_le [of isspace "rev s"] by simp
  then have "(s @ CHR 0x00 # r)[length ?t := CHR 0x00] = s[length ?t := CHR 0x00] @ CHR 0x00 # r"
    by (auto simp: list_update_append list_update_beyond)
  then show ?thesis
    using cstring_append [OF assms, of r] by (auto simp: trim_trailing_spaces_and_print_def trimmed_def Let_def list_update_beyond)
qed

text \<open>The character in front of the cut is not a space.\<close>

lemma trimmed_last:
  assumes "length (trimmed s) < length s"
  shows "0 < length (trimmed s) \<and> \<not> isspace (s ! (length (trimmed s) - 1))"
proof -
  let ?d = "dropWhile isspace (rev s)"
  have d: "?d \<noteq> []" "trimmed s = rev ?d" using assms by (auto simp: trimmed_def Let_def split: if_splits)
  have "rev s = takeWhile isspace (rev s) @ ?d" by simp
  then have "s = rev ?d @ rev (takeWhile isspace (rev s))" by (metis rev_append rev_rev_ident)
  then have "s ! (length ?d - 1) = rev ?d ! (length ?d - 1)"
    using d(1) by (metis diff_less length_greater_0_conv length_rev less_numeral_extra(1) nth_append)
  also have "\<dots> = hd ?d" using d(1) by (simp add: rev_nth hd_conv_nth)
  finally show ?thesis using d hd_dropWhile [of isspace "rev s"] by simp
qed

section \<open>The output\<close>

definition week_of :: "bool \<Rightarrow> nat \<Rightarrow> nat \<Rightarrow> nat \<Rightarrow> int list" where
  "week_of julian m y r = take 7 (drop (r * 7) (calendar julian m y))"

definition day_ok :: "int \<Rightarrow> bool" where
  "day_ok d \<longleftrightarrow> d = SPACE \<or> 0 \<le> d \<and> d < 1000"

lemma length_calendar: "length (calendar julian m y) = 42"
  using weekday_bounds [of y m] month_days_bounds [of y m] by (simp add: calendar_def Let_def MAXDAYS_def)

lemma calendar_days:
  assumes "1 \<le> m" "m \<le> 12"
  shows "\<forall>d \<in> set (calendar julian m y). day_ok d"
proof -
  have "day_ok (day_name y m k + (if julian then year_offset y m else 0))" if "k < month_days y m" for k
    using that month_days_bounds [of y m] days_to_month_bounds(1,2) [OF assms, of y]
    by (auto simp: day_ok_def day_name_def year_offset_def)
  moreover have "day_ok SPACE" by (simp add: day_ok_def)
  ultimately show ?thesis by (auto simp: calendar_def Let_def)
qed

lemma week_props:
  assumes "1 \<le> m" "m \<le> 12" "r < 6"
  shows "rd_range (calendar julian m y) (r * 7) 7 = Some (week_of julian m y r)"
    "length (week_of julian m y r) = 7" "\<forall>d \<in> set (week_of julian m y r). day_ok d"
  using assms length_calendar [of julian m y] calendar_days [OF assms(1,2), of julian y]
  by (auto simp: rd_range_def week_of_def dest: in_set_takeD in_set_dropD)

lemma digit_not_zero: "0 \<le> d \<Longrightarrow> d < 200 \<Longrightarrow> digit d \<noteq> CHR 0x00"
proof
  assume "0 \<le> d" "d < 200" "digit d = CHR 0x00"
  then have "of_char (digit d) = (0 :: nat)" by simp
  then show False using \<open>0 \<le> d\<close> \<open>d < 200\<close> by (simp add: digit_def)
qed

lemma day_text_no_zero: "day_ok d \<Longrightarrow> CHR 0x00 \<notin> set (day_text julian d)"
proof -
  assume d: "day_ok d"
  show ?thesis
  proof (cases "d = SPACE")
    case True
    then show ?thesis by (simp add: day_text_def)
  next
    case False
    then have r: "0 \<le> d" "d < 1000" using d by (simp_all add: day_ok_def)
    have "digit (d div 100) \<noteq> CHR 0x00" "digit (d mod 100 div 10) \<noteq> CHR 0x00" "digit (d mod 10) \<noteq> CHR 0x00"
      "digit (d div 10) \<noteq> CHR 0x00"
      by (rule digit_not_zero; use r in \<open>simp add: div_int_pos_iff\<close>)+
    then show ?thesis using False r by (auto simp: day_text_def Let_def)
  qed
qed

lemma week_text_no_zero: "\<forall>d \<in> set dp. day_ok d \<Longrightarrow> CHR 0x00 \<notin> set (week_text julian dp)"
  using day_text_no_zero by (auto simp: week_text_def)

lemma day_ok_nonneg: "day_ok d \<Longrightarrow> d = SPACE \<or> 0 \<le> d"
  by (auto simp: day_ok_def)

lemma month_row_text:
  assumes m: "1 \<le> m" "m \<le> 12" "r < 6" and l: "length lineout = 30"
  shows "\<exists>lineout'. month_row julian (calendar julian m y) (lineout, out) r =
    Some (lineout', out @ trimmed (week_text julian (week_of julian m y r)) @ [CHR 0x0A]) \<and> length lineout' = 30"
proof -
  note w = week_props [OF m, of julian y]
  let ?n = "(3 + of_bool julian) * 7 :: nat" and ?t = "week_text julian (week_of julian m y r)"
  have n: "?n < 30" by simp
  have t: "length ?t = ?n" using w by (simp add: length_week_text)
  have "build_row julian ([] @ take ?n lineout @ drop ?n lineout) (length ([] :: string)) (week_of julian m y r)
      = Some ([] @ ?t @ drop ?n lineout, length ([] :: string) + ?n)"
    using w day_ok_nonneg l n by (intro build_row_text) auto
  then have b: "build_row julian lineout 0 (week_of julian m y r) = Some (?t @ drop ?n lineout, ?n)" by simp
  obtain c where "drop ?n lineout = c # drop (Suc ?n) lineout" using n l by (metis Cons_nth_drop_Suc)
  then have "wr (?t @ drop ?n lineout) ?n (CHR 0x00) = Some (?t @ CHR 0x00 # drop (Suc ?n) lineout)"
    using wr_append [of ?t c "drop (Suc ?n) lineout"] t by simp
  with trim_print [OF week_text_no_zero [OF w(3)], of julian "drop (Suc ?n) lineout"]
  show ?thesis using w b t l n by (simp add: month_row_def)
qed

lemma month_rows_text:
  assumes m: "1 \<le> m" "m \<le> 12" and "\<forall>r \<in> set rows. r < 6" "length lineout = 30"
  shows "\<exists>lineout'. foldM (month_row julian (calendar julian m y)) (lineout, out) rows =
    Some (lineout', out @ concat (map (\<lambda>r. trimmed (week_text julian (week_of julian m y r)) @ [CHR 0x0A]) rows))"
  using assms(3,4)
proof (induction rows arbitrary: lineout out)
  case (Cons r rows)
  obtain lineout' where "month_row julian (calendar julian m y) (lineout, out) r =
      Some (lineout', out @ trimmed (week_text julian (week_of julian m y r)) @ [CHR 0x0A])" "length lineout' = 30"
    using month_row_text [OF m, of r lineout julian y out] Cons.prems by auto
  with Cons.IH [of lineout' "out @ trimmed (week_text julian (week_of julian m y r)) @ [CHR 0x0A]"] Cons.prems
  show ?case by auto
qed simp

lemma length_dstr: "n < 10000 \<Longrightarrow> length (dstr n) \<le> 4"
  using length_dec [of n 4] by (simp add: dstr_def)

lemma print_month_text:
  assumes m: "1 \<le> m" "m \<le> 12" and y: "1 \<le> y" "y \<le> 9999" and n: "length names = 12" "length (names ! (m - 1)) \<le> 24"
    and t: "title = names ! (m - 1) @ '' '' @ dstr y"
  shows "print_month julian names headings m y = Some
    (fmt_width ((7 * of_bool julian + 20 - int (length title)) sdiv 2) [] @ title @ [CHR 0x0A] @ cstring headings @ [CHR 0x0A]
     @ concat (map (\<lambda>r. trimmed (week_text julian (week_of julian m y r)) @ [CHR 0x0A]) [0..<6]))"
proof -
  have "length title + 1 \<le> 30" using n t length_dstr [of y] y by simp
  then have "\<exists>l. sprintf_to (uninit 30) title = Some l \<and> length l = 30"
    by (simp add: sprintf_to_def wr_range_def uninit_def)
  then obtain lineout where l: "sprintf_to (uninit 30) title = Some lineout" "length lineout = 30" by blast
  have r: "rd names (m - 1) = Some (names ! (m - 1))" using m n by (simp add: rd_def)
  let ?head = "fmt_width ((7 * of_bool julian + int 20 - int (length title)) sdiv 2) [] @ title @ [CHR 0x0A] @ cstring headings @ [CHR 0x0A]"
  from month_rows_text [OF m, of "[0..<6]" lineout julian y ?head] l obtain lineout' where
    "foldM (month_row julian (calendar julian m y)) (lineout, ?head) [0..<6] = Some (lineout',
      ?head @ concat (map (\<lambda>r. trimmed (week_text julian (week_of julian m y r)) @ [CHR 0x0A]) [0..<6]))" by auto
  then show ?thesis
    unfolding print_month_def day_array_calendar [OF m y(1)] r Option.bind.simps Let_def t [symmetric] WEEK_LEN_def l(1)
    by simp
qed

section \<open>The rows of a year\<close>

text \<open>A row: the weeks of neighbouring months, each with a space behind it, and the rest of the line.\<close>

definition joined :: "string list \<Rightarrow> nat \<Rightarrow> string" where
  "joined ts f = concat (map (\<lambda>t. t @ '' '') ts) @ replicate f (CHR '' '')"

lemma joined_simps: "joined [] f = replicate f (CHR '' '')" "joined (t # ts) f = t @ CHR '' '' # joined ts f"
  by (simp_all add: joined_def)

lemma joined_cut:
  assumes "\<forall>t \<in> set ts. length t = n \<and> 0 < n \<and> t ! (n - 1) = CHR '' ''"
    and "k < length (joined ts f) \<Longrightarrow> 0 < k \<and> \<not> isspace (joined ts f ! (k - 1))"
  shows "\<exists>ts'. (joined ts f)[k := c] = joined ts' f \<and> length ts' = length ts \<and> (\<forall>t \<in> set ts'. length t = n)"
  using assms
proof (induction ts arbitrary: k)
  case Nil
  have "\<not> k < f"
  proof
    assume "k < f"
    with Nil(2) show False by (simp add: joined_simps isspace_def)
  qed
  then show ?case by (simp add: joined_simps list_update_beyond)
next
  case (Cons t ts)
  have t: "length t = n" "0 < n" "t ! (n - 1) = CHR '' ''" using Cons.prems(1) by simp_all
  consider "k < n" | "k = n" | "k = Suc n" | "Suc n < k" by linarith
  then show ?case
  proof cases
    case 1
    then show ?thesis using t Cons.prems(1)
      by (intro exI [of _ "t[k := c] # ts"]) (auto simp: joined_simps list_update_append)
  next
    case 2
    then show ?thesis using t Cons.prems(2) by (auto simp: joined_simps nth_append isspace_def)
  next
    case 3
    show ?thesis
    proof (cases "k < length (joined (t # ts) f)")
      case True
      with Cons.prems(2) 3 t show ?thesis by (auto simp: joined_simps nth_append isspace_def)
    next
      case False
      then show ?thesis using t Cons.prems(1) by (intro exI [of _ "t # ts"]) (auto simp: list_update_beyond)
    qed
  next
    case 4
    then obtain j where j: "k = Suc n + j" "0 < j" by (metis less_imp_add_positive)
    have "j < length (joined ts f) \<Longrightarrow> 0 < j \<and> \<not> isspace (joined ts f ! (j - 1))"
    proof -
      assume "j < length (joined ts f)"
      then have "\<not> isspace (joined (t # ts) f ! (k - 1))" using Cons.prems(2) j t by (simp add: joined_simps)
      moreover have "joined (t # ts) f ! (k - 1) = joined ts f ! (j - 1)"
        using j t by (cases j) (simp_all add: joined_simps nth_append)
      ultimately show ?thesis using j by simp
    qed
    with Cons.IH [of j] Cons.prems(1) obtain ts' where
      "(joined ts f)[j := c] = joined ts' f" "length ts' = length ts" "\<forall>t \<in> set ts'. length t = n" by auto
    then show ?thesis using t j
      by (intro exI [of _ "t # ts'"]) (simp add: joined_simps list_update_append)
  qed
qed

lemma joined_put: "joined (ts1 @ t # ts2) f = concat (map (\<lambda>t. t @ '' '') ts1) @ t @ CHR '' '' # joined ts2 f"
  by (simp add: joined_def)

lemma length_joined_start: "\<forall>t \<in> set ts. length t = n \<Longrightarrow> length (concat (map (\<lambda>t. t @ '' '') ts)) = length ts * (n + 1)"
  by (induction ts) simp_all

text \<open>The calendars of a year, and the widths of a row.\<close>

definition year_days :: "bool \<Rightarrow> nat \<Rightarrow> int list list" where
  "year_days julian y = map (\<lambda>i. calendar julian (i + 1) y) [0..<12]"

abbreviation cell_width :: "bool \<Rightarrow> nat" where "cell_width julian \<equiv> (3 + of_bool julian) * 7"

lemma year_cell_text:
  assumes "i + j < 12" "r < 6" "j < length ts" "\<forall>t \<in> set ts. length t = cell_width julian"
    "week_len + 2 = cell_width julian + 1"
  shows "year_cell julian (year_days julian y) week_len i (r * 7) (joined ts f @ rest) j =
    Some (joined (ts[j := week_text julian (week_of julian (i + j + 1) y r)]) f @ rest)"
proof -
  let ?w = "week_of julian (i + j + 1) y r"
  note w = week_props [of "i + j + 1" r julian y]
  have d: "rd (year_days julian y) (i + j) = Some (calendar julian (i + j + 1) y)"
    using assms(1) by (simp add: year_days_def rd_def)
  have ts: "ts = take j ts @ ts ! j # drop (Suc j) ts" using assms(3) by (rule id_take_nth_drop)
  have "length (concat (map (\<lambda>t. t @ '' '') (take j ts))) = length (take j ts) * (cell_width julian + 1)"
    by (rule length_joined_start) (use assms(4) in \<open>blast dest: in_set_takeD\<close>)
  moreover have "length (take j ts) = j" using assms(3) by simp
  ultimately have l: "length (concat (map (\<lambda>t. t @ '' '') (take j ts))) = j * (week_len + 2)"
    unfolding assms(5) by metis
  have j: "joined ts f @ rest = concat (map (\<lambda>t. t @ '' '') (take j ts)) @ ts ! j @ (CHR '' '' # joined (drop (Suc j) ts) f @ rest)"
    by (subst ts) (simp add: joined_put)
  have w1: "rd_range (calendar julian (i + j + 1) y) (r * 7) 7 = Some ?w" using w(1) assms(1,2) by simp
  have b: "build_row julian (joined ts f @ rest) (j * (week_len + 2)) ?w = Some (concat (map (\<lambda>t. t @ '' '') (take j ts))
      @ week_text julian ?w @ (CHR '' '' # joined (drop (Suc j) ts) f @ rest), j * (week_len + 2) + cell_width julian)"
    unfolding j l [symmetric] using w assms day_ok_nonneg by (intro build_row_text) auto
  show ?thesis
    unfolding year_cell_def d Option.bind.simps w1 b prod.case
    using assms(3) by (simp add: upd_conv_take_nth_drop joined_put)
qed

lemma year_cells_text:
  assumes "i + length ts \<le> 12" "r < 6" "\<forall>t \<in> set ts. length t = cell_width julian" "week_len + 2 = cell_width julian + 1"
    "n \<le> length ts"
  shows "foldM (year_cell julian (year_days julian y) week_len i (r * 7)) (joined ts f @ rest) [0..<n] =
    Some (joined (map (\<lambda>j. week_text julian (week_of julian (i + j + 1) y r)) [0..<n] @ drop n ts) f @ rest)"
  using assms(5)
proof (induction n)
  case (Suc n)
  let ?ts = "map (\<lambda>j. week_text julian (week_of julian (i + j + 1) y r)) [0..<n] @ drop n ts"
  have w: "length (week_text julian (week_of julian (i + j + 1) y r)) = cell_width julian" if "j < n" for j
    using that Suc.prems assms(1,2) week_props(2) [of "i + j + 1" r julian y] by (simp add: length_week_text)
  have "year_cell julian (year_days julian y) week_len i (r * 7) (joined ?ts f @ rest) n =
      Some (joined (?ts[n := week_text julian (week_of julian (i + n + 1) y r)]) f @ rest)"
    using Suc.prems assms w by (intro year_cell_text) (auto dest: in_set_dropD)
  moreover have "?ts[n := week_text julian (week_of julian (i + n + 1) y r)]
      = map (\<lambda>j. week_text julian (week_of julian (i + j + 1) y r)) [0..<Suc n] @ drop (Suc n) ts"
    using Suc.prems by (simp add: list_update_append Cons_nth_drop_Suc [symmetric])
  ultimately show ?case using Suc by (simp add: foldM_append)
qed simp

text \<open>The row of the months \<open>i + 1\<close> to \<open>i + n\<close>.\<close>

definition year_line :: "bool \<Rightarrow> nat \<Rightarrow> nat \<Rightarrow> nat \<Rightarrow> string" where
  "year_line julian y i r =
     (let n = (if julian then 2 else 3)
      in joined (map (\<lambda>j. week_text julian (week_of julian (i + j + 1) y r)) [0..<n]) (79 - n * (cell_width julian + 1)))"

definition row_buffer :: "bool \<Rightarrow> string \<Rightarrow> bool" where
  "row_buffer julian lineout \<longleftrightarrow> (\<exists>ts. length ts = 3 - of_bool julian \<and> (\<forall>t \<in> set ts. length t = cell_width julian) \<and>
     lineout = joined ts (79 - length ts * (cell_width julian + 1)) @ [CHR 0x00])"

lemma week_text_last:
  assumes "length dp = 7" "\<forall>d \<in> set dp. day_ok d"
  shows "week_text julian dp ! (cell_width julian - 1) = CHR '' ''"
proof -
  obtain d ds where dp: "dp = ds @ [d]" using assms(1) by (cases dp rule: rev_cases) auto
  have l: "length (week_text julian ds) = (3 + of_bool julian) * 6" using assms(1) dp by (simp add: length_week_text)
  have "day_text julian d ! (2 + of_bool julian) = CHR '' ''" by (auto simp: day_text_def Let_def)
  moreover have "cell_width julian - 1 = length (week_text julian ds) + (2 + of_bool julian)" using l by simp
  moreover have "week_text julian dp = week_text julian ds @ day_text julian d" using dp by (simp add: week_text_def)
  ultimately show ?thesis by (simp only: nth_append_length_plus)
qed

lemma year_row_text:
  assumes "i + 3 \<le> 12 + of_bool julian" "r < 6" "row_buffer julian lineout" "week_len + 2 = cell_width julian + 1"
  shows "\<exists>lineout'. year_row julian (year_days julian y) week_len i (lineout, out) r =
    Some (lineout', out @ trimmed (year_line julian y i r) @ [CHR 0x0A]) \<and> row_buffer julian lineout'"
proof -
  let ?n = "3 - of_bool julian :: nat"
  let ?f = "79 - ?n * (cell_width julian + 1)"
  let ?ts = "map (\<lambda>j. week_text julian (week_of julian (i + j + 1) y r)) [0..<?n]"
  obtain ts where ts: "length ts = ?n" "\<forall>t \<in> set ts. length t = cell_width julian" "lineout = joined ts ?f @ [CHR 0x00]"
    using assms(3) by (auto simp: row_buffer_def)
  have in3: "i + ?n \<le> 12" using assms(1) by (cases julian) simp_all
  have cells: "foldM (year_cell julian (year_days julian y) week_len i (r * 7)) lineout [0..<?n] = Some (joined ?ts ?f @ [CHR 0x00])"
    using year_cells_text [of i ts r julian week_len ?n y ?f "[CHR 0x00]"] ts assms(2,4) in3 by simp
  have line: "joined ?ts ?f = year_line julian y i r" by (cases julian) (simp_all add: year_line_def)
  have w: "length (week_of julian (i + j + 1) y r) = 7" "\<forall>d \<in> set (week_of julian (i + j + 1) y r). day_ok d" if "j < ?n" for j
    using week_props(2,3) [of "i + j + 1" r julian y] that in3 assms(2) by auto
  have "CHR 0x00 \<notin> set (joined ?ts ?f)" using week_text_no_zero [OF w(2)] by (auto simp: joined_def)
  from trim_print [OF this, of "[]"]
  have t: "trim_trailing_spaces_and_print (joined ?ts ?f @ [CHR 0x00]) =
      Some ((joined ?ts ?f)[length (trimmed (joined ?ts ?f)) := CHR 0x00] @ [CHR 0x00], trimmed (joined ?ts ?f) @ [CHR 0x0A])" .
  have "\<forall>t \<in> set ?ts. length t = cell_width julian \<and> 0 < cell_width julian \<and> t ! (cell_width julian - 1) = CHR '' ''"
    using w week_text_last by (auto simp: length_week_text)
  from joined_cut [OF this trimmed_last, of ?f "CHR 0x00"] obtain ts' where
    "(joined ?ts ?f)[length (trimmed (joined ?ts ?f)) := CHR 0x00] = joined ts' ?f" "length ts' = ?n"
    "\<forall>t \<in> set ts'. length t = cell_width julian" by auto
  then show ?thesis
    using cells t unfolding line by (auto simp: year_row_def row_buffer_def intro!: exI [of _ ts'])
qed

lemma year_rows_text:
  assumes "i + 3 \<le> 12 + of_bool julian" "week_len + 2 = cell_width julian + 1"
    and "\<forall>r \<in> set rows. r < 6" "row_buffer julian lineout"
  shows "\<exists>lineout'. foldM (year_row julian (year_days julian y) week_len i) (lineout, out) rows =
    Some (lineout', out @ concat (map (\<lambda>r. trimmed (year_line julian y i r) @ [CHR 0x0A]) rows)) \<and> row_buffer julian lineout'"
  using assms(3,4)
proof (induction rows arbitrary: lineout out)
  case (Cons r rows)
  obtain lineout' where l: "year_row julian (year_days julian y) week_len i (lineout, out) r =
      Some (lineout', out @ trimmed (year_line julian y i r) @ [CHR 0x0A])" "row_buffer julian lineout'"
    using year_row_text [OF assms(1) _ _ assms(2), of r lineout y out] Cons.prems by auto
  then show ?case
    using Cons.IH [of lineout' "out @ trimmed (year_line julian y i r) @ [CHR 0x0A]"] Cons.prems by auto
qed simp

text \<open>The titles and headings over the months \<open>i + 1\<close> to \<open>i + 3\<close>, and \<open>i + 2\<close> when the days of the year are counted.\<close>

definition months_head :: "bool \<Rightarrow> string list \<Rightarrow> string \<Rightarrow> nat \<Rightarrow> string" where
  "months_head julian names h i =
     (let c = (\<lambda>k sep. center (names ! (i + k)) (int (cell_width julian) - 1) sep)
      in if julian then c 0 2 @ c 1 0 @ [CHR 0x0A] @ h @ ''  '' @ h @ [CHR 0x0A]
         else c 0 2 @ c 1 2 @ c 2 0 @ [CHR 0x0A] @ h @ ''  '' @ h @ ''  '' @ h @ [CHR 0x0A])"

definition months_text :: "bool \<Rightarrow> string list \<Rightarrow> string \<Rightarrow> nat \<Rightarrow> nat \<Rightarrow> string" where
  "months_text julian names h y i =
     months_head julian names h i @ concat (map (\<lambda>r. trimmed (year_line julian y i r) @ [CHR 0x0A]) [0..<6])"

lemma year_months_text:
  assumes "i + 3 \<le> 12 + of_bool julian" "week_len + 2 = cell_width julian + 1" "row_buffer julian lineout" "length names = 12"
  shows "\<exists>lineout'. year_months julian names headings (year_days julian y) week_len (lineout, out) i =
    Some (lineout', out @ months_text julian names (cstring headings) y i) \<and> row_buffer julian lineout'"
proof -
  have n: "rd names (i + k) = Some (names ! (i + k))" if "k < 3 - of_bool julian" for k
    using that assms(1,4) by (cases julian) (simp_all add: rd_def)
  have w: "int week_len = int (cell_width julian) - 1" using assms(2) by simp
  have sp: "fmt_width 2 [] = ''  ''" by code_simp
  obtain lineout' where "foldM (year_row julian (year_days julian y) week_len i)
      (lineout, out @ months_head julian names (cstring headings) i) [0..<6] =
      Some (lineout', (out @ months_head julian names (cstring headings) i)
        @ concat (map (\<lambda>r. trimmed (year_line julian y i r) @ [CHR 0x0A]) [0..<6]))" "row_buffer julian lineout'"
    using year_rows_text [OF assms(1,2) _ assms(3), of "[0..<6]" y "out @ months_head julian names (cstring headings) i"]
    by auto
  moreover have "year_months julian names headings (year_days julian y) week_len (lineout, out) i =
      foldM (year_row julian (year_days julian y) week_len i) (lineout, out @ months_head julian names (cstring headings) i) [0..<6]"
    using n [of 0] n [of 1] n [of 2]
    by (cases julian) (simp_all add: year_months_def months_head_def sp w HEAD_SEP_def Let_def del: upt_Suc)
  ultimately show ?thesis by (auto simp: months_text_def)
qed

lemma year_groups_text:
  assumes "week_len + 2 = cell_width julian + 1" "length names = 12"
    and "\<forall>i \<in> set is. i + 3 \<le> 12 + of_bool julian" "row_buffer julian lineout"
  shows "\<exists>lineout'. foldM (year_months julian names headings (year_days julian y) week_len) (lineout, out) is =
    Some (lineout', out @ concat (map (months_text julian names (cstring headings) y) is))"
  using assms(3,4)
proof (induction "is" arbitrary: lineout out)
  case (Cons i "is")
  obtain lineout' where l: "year_months julian names headings (year_days julian y) week_len (lineout, out) i =
      Some (lineout', out @ months_text julian names (cstring headings) y i)" "row_buffer julian lineout'"
    using year_months_text [OF _ assms(1) _ assms(2), of i lineout headings y out] Cons.prems by auto
  then show ?case
    using Cons.IH [of lineout' "out @ months_text julian names (cstring headings) y i"] Cons.prems by auto
qed simp

lemma year_arrays:
  assumes "1 \<le> y" "n \<le> 12"
  shows "foldM (\<lambda>days i. do { d \<leftarrow> day_array julian (i + 1) (int y); Some (days @ [d]) }) [] [0..<n] =
    Some (map (\<lambda>i. calendar julian (i + 1) y) [0..<n])"
  using assms(2)
proof (induction n)
  case (Suc n)
  then show ?case using day_array_calendar [of "n + 1" y julian] assms(1) by (simp add: foldM_append)
qed simp

lemma dstr_no_zero: "CHR 0x00 \<notin> set (dstr n)"
proof
  assume "CHR 0x00 \<in> set (dstr n)"
  then have "isdigit (CHR 0x00)" using dstr_props [of n] by blast
  then show False by (simp add: isdigit_def)
qed

definition year_text :: "bool \<Rightarrow> string list \<Rightarrow> string \<Rightarrow> nat \<Rightarrow> string" where
  "year_text julian names h y =
     center (dstr y) (if julian then 56 else 64) 0 @ [CHR 0x0A, CHR 0x0A]
     @ concat (map (months_text julian names h y) (if julian then [0, 2, 4, 6, 8, 10] else [0, 3, 6, 9]))"

lemma print_year_text:
  assumes y: "1 \<le> y" "y \<le> 9999" and n: "length names = 12"
  shows "print_year julian names headings y = Some (year_text julian names (cstring headings) y)"
proof -
  let ?g = "if julian then [0, 2, 4, 6, 8, 10] else [0, 3, 6, 9] :: nat list"
  obtain l where l: "sprintf_to (uninit 80) (dstr y) = Some (dstr y @ CHR 0x00 # l)" "length (dstr y) + 1 + length l = 80"
    using length_dstr [of y] y by (simp add: sprintf_to_def wr_range_def uninit_def)
  have c: "cstring (dstr y @ CHR 0x00 # l) = dstr y" by (rule cstring_append [OF dstr_no_zero])
  let ?b = "replicate 79 (CHR '' '') @ [CHR 0x00]"
  have b: "blank_string (dstr y @ CHR 0x00 # l) 80 = Some ?b"
    using l(2) by (simp add: blank_string_def wr_range_def wr_def list_update_append numeral_eq_Suc)
  have "replicate 79 (CHR '' '') = joined (replicate 3 (replicate 21 (CHR '' ''))) 13"
    "replicate 79 (CHR '' '') = joined (replicate 2 (replicate 28 (CHR '' ''))) 21" by code_simp+
  then have "row_buffer julian ?b"
    unfolding row_buffer_def
    by (intro exI [of _ "replicate (3 - of_bool julian) (replicate (cell_width julian) (CHR '' ''))"]) (cases julian; simp)
  moreover have "\<forall>i \<in> set ?g. i + 3 \<le> 12 + of_bool julian" by simp
  moreover have w: "(if julian then J_WEEK_LEN else WEEK_LEN) + 2 = cell_width julian + 1"
    by (simp add: J_WEEK_LEN_def WEEK_LEN_def)
  ultimately obtain lineout' where
    "foldM (year_months julian names headings (year_days julian y) (if julian then J_WEEK_LEN else WEEK_LEN))
      (?b, center (dstr y) (if julian then 56 else 64) 0 @ [CHR 0x0A, CHR 0x0A]) ?g =
      Some (lineout', (center (dstr y) (if julian then 56 else 64) 0 @ [CHR 0x0A, CHR 0x0A])
        @ concat (map (months_text julian names (cstring headings) y) ?g))"
    using year_groups_text [OF w n, of ?g ?b headings y "center (dstr y) (if julian then 56 else 64) 0 @ [CHR 0x0A, CHR 0x0A]"]
    by blast
  moreover have "(if julian then int (J_WEEK_LEN * 2 + HEAD_SEP) else int (WEEK_LEN * 3 + HEAD_SEP * 2))
      = (if julian then 56 else 64)" by (simp add: J_WEEK_LEN_def WEEK_LEN_def HEAD_SEP_def)
  ultimately show ?thesis
    unfolding print_year_def l(1) Option.bind.simps Let_def c b year_arrays [OF y(1) order_refl]
    by (simp add: year_text_def year_days_def)
qed

section \<open>The program\<close>

text \<open>The headings are the first two letters of the days over their columns.\<close>

definition heading_text :: "bool \<Rightarrow> string list \<Rightarrow> string" where
  "heading_text julian names =
     butlast (concat (map (\<lambda>n. (if julian then '' '' else []) @ take 2 n @ '' '') names))"

definition name_ok :: "string \<Rightarrow> bool" where
  "name_ok n \<longleftrightarrow> 2 \<le> length n \<and> length n \<le> 24 \<and> CHR 0x00 \<notin> set n"

definition env_ok :: "cal_env \<Rightarrow> bool" where
  "env_ok env \<longleftrightarrow> length (month_names_of env) = 12 \<and> length (day_names_of env) = 7 \<and>
     (\<forall>n \<in> set (month_names_of env @ day_names_of env). name_ok n)"

lemma name_letters: "name_ok n \<Longrightarrow> \<exists>a b r. n = a # b # r \<and> a \<noteq> CHR 0x00 \<and> b \<noteq> CHR 0x00"
  by (cases n; cases "tl n") (auto simp: name_ok_def)

lemma day_headings_text:
  assumes "length names = 7" "\<forall>n \<in> set names. name_ok n"
  shows "\<exists>h. day_headings julian names = Some h \<and> cstring h = heading_text julian names"
proof -
  obtain n0 n1 n2 n3 n4 n5 n6 where n: "names = [n0, n1, n2, n3, n4, n5, n6]"
    using assms(1) by (auto simp: numeral_eq_Suc length_Suc_conv)
  obtain a0 b0 r0 where 0: "n0 = a0 # b0 # r0" "a0 \<noteq> CHR 0x00" "b0 \<noteq> CHR 0x00" using assms(2) n name_letters [of n0] by auto
  obtain a1 b1 r1 where 1: "n1 = a1 # b1 # r1" "a1 \<noteq> CHR 0x00" "b1 \<noteq> CHR 0x00" using assms(2) n name_letters [of n1] by auto
  obtain a2 b2 r2 where 2: "n2 = a2 # b2 # r2" "a2 \<noteq> CHR 0x00" "b2 \<noteq> CHR 0x00" using assms(2) n name_letters [of n2] by auto
  obtain a3 b3 r3 where 3: "n3 = a3 # b3 # r3" "a3 \<noteq> CHR 0x00" "b3 \<noteq> CHR 0x00" using assms(2) n name_letters [of n3] by auto
  obtain a4 b4 r4 where 4: "n4 = a4 # b4 # r4" "a4 \<noteq> CHR 0x00" "b4 \<noteq> CHR 0x00" using assms(2) n name_letters [of n4] by auto
  obtain a5 b5 r5 where 5: "n5 = a5 # b5 # r5" "a5 \<noteq> CHR 0x00" "b5 \<noteq> CHR 0x00" using assms(2) n name_letters [of n5] by auto
  obtain a6 b6 r6 where 6: "n6 = a6 # b6 # r6" "a6 \<noteq> CHR 0x00" "b6 \<noteq> CHR 0x00" using assms(2) n name_letters [of n6] by auto
  have "[0..<7] = [0, 1, 2, 3, 4, 5, 6]" by code_simp
  then show ?thesis
    using 0 1 2 3 4 5 6
    by (cases julian) (simp_all add: n day_headings_def day_heading_def blank_string_def uninit_def wr_range_def wr_def
      numeral_eq_Suc cstring_def heading_text_def)
qed

lemma print_month_names:
  assumes "env_ok env" "1 \<le> m" "m \<le> 12"
  shows "length (month_names_of env ! (m - 1)) \<le> 24" "length (month_names_of env) = 12"
  using assms nth_mem [of "m - 1" "month_names_of env"] by (auto simp: env_ok_def name_ok_def)

text \<open>
  C23. \<open>cal month year\<close> prints the month: a centred title, the headings, and six lines that are the weeks
  of the month in the calendar of Great Britain, with the change of 1752, each day under the heading
  of its day of the week. All accesses stay within the buffers.
\<close>

theorem cal_month:
  assumes "env_ok env" "1 \<le> m" "m \<le> 12" "1 \<le> y" "y \<le> 9999" "title = month_names_of env ! (m - 1) @ '' '' @ dstr y"
  shows "cal_main env julian whole_year [dstr m, dstr y] = Inr
    (fmt_width ((7 * of_bool julian + 20 - int (length title)) sdiv 2) [] @ title @ [CHR 0x0A]
     @ heading_text julian (day_names_of env) @ [CHR 0x0A]
     @ concat (map (\<lambda>r. trimmed (week_text julian (week_of julian m y r)) @ [CHR 0x0A]) [0..<6]))"
proof -
  obtain h where h: "day_headings julian (day_names_of env) = Some h" "cstring h = heading_text julian (day_names_of env)"
    using day_headings_text [of "day_names_of env" julian] assms(1) by (auto simp: env_ok_def)
  have "cal_args env whole_year [dstr m, dstr y] = Some (m, y)"
    using assms(2-5) by (simp add: cal_args_def xgetularg10_decimal ULONG_MAX_def)
  then show ?thesis
    using print_month_text [OF assms(2-5) print_month_names(2,1) [OF assms(1-3)] assms(6), of julian h] h assms(2)
    by (simp add: cal_main_def)
qed

text \<open>
  C36. \<open>cal year\<close> prints all months of the year, three or, with the days of the year, two of them beside each
  other: every line consists of the corresponding weeks of these months. The one buffer that is
  reused for all lines is in order for every line although the previous one was cut in it.
\<close>

theorem cal_year:
  assumes "env_ok env" "1 \<le> y" "y \<le> 9999"
  shows "cal_main env julian whole_year [dstr y] =
    Inr (year_text julian (month_names_of env) (heading_text julian (day_names_of env)) y)"
proof -
  obtain h where h: "day_headings julian (day_names_of env) = Some h" "cstring h = heading_text julian (day_names_of env)"
    using day_headings_text [of "day_names_of env" julian] assms(1) by (auto simp: env_ok_def)
  have "cal_args env whole_year [dstr y] = Some (0, y)"
    using assms(2,3) by (simp add: cal_args_def xgetularg10_decimal ULONG_MAX_def)
  then show ?thesis
    using print_year_text [OF assms(2,3) print_month_names(2) [OF assms(1)], of 1 julian h] h by (simp add: cal_main_def)
qed

section \<open>Examples\<close>

definition cal_example :: cal_env where
  "cal_example = \<lparr>month_names_of = [''January'', ''February'', ''March'', ''April'', ''May'', ''June'', ''July'', ''August'',
       ''September'', ''October'', ''November'', ''December''],
     day_names_of = [''Sun'', ''Mon'', ''Tue'', ''Wed'', ''Thu'', ''Fri'', ''Sat''], now_year = 2005, now_month = 12\<rparr>"

lemma cal_example_ok: "env_ok cal_example" by code_simp

lemma weekday_examples: "weekday 1752 9 = 2" "weekday 2000 1 = 6" "weekday 2005 12 = 4"
  by (simp_all add: weekday_def days_to_year_closed days_to_month_eval month_days_leap is_leap_year_def SATURDAY_def
    leap_years_since_year_1_def centuries_since_1700_def quad_centuries_since_1700_def)

theorem cal_month_witness:
  "\<exists>rest. cal_main cal_example False False [''9'', ''1752''] = Inr (''   September 1752'' @ [CHR 0x0A] @ ''Su Mo Tu We Th Fr Sa''
     @ [CHR 0x0A] @ ''       1  2 14 15 16'' @ [CHR 0x0A] @ rest)"
proof -
  have d: "dstr 9 = ''9''" "dstr 1752 = ''1752''" by code_simp+
  have "fmt_width ((7 * of_bool False + 20 - int (length ''September 1752'')) sdiv 2) [] = ''   ''" by code_simp
  moreover have "heading_text False (day_names_of cal_example) = ''Su Mo Tu We Th Fr Sa''" by code_simp
  moreover have "week_of False 9 1752 0 = [-1, -1, 1, 2, 14, 15, 16]"
    by (simp add: week_of_def calendar_def weekday_examples Let_def month_days_def day_name_def SPACE_def upt_conv_Cons numeral_2_eq_2)
  moreover have "trimmed (week_text False [-1, -1, 1, 2, 14, 15, 16]) = ''       1  2 14 15 16''" by code_simp
  moreover have "[0..<6] = 0 # [1..<6]" by code_simp
  moreover have "month_names_of cal_example ! (9 - 1) @ '' '' @ ''1752'' = ''September 1752''" by code_simp
  ultimately show ?thesis
    using cal_month [OF cal_example_ok, of 9 1752 "''September 1752''" False False, unfolded d] by simp
qed

theorem cal_year_witness: "\<exists>out. cal_main cal_example True True [''2005''] = Inr out"
proof -
  have "dstr 2005 = ''2005''" by code_simp
  then show ?thesis using cal_year [OF cal_example_ok, of 2005 True True] by simp
qed

text \<open>The day that the comment of the code calls the first missing one.\<close>

lemma first_missing_day: "days_to_year 1751 + days_to_month 1752 9 + 3 = 639799" "FIRST_MISSING_DAY = 639787"
  by (simp_all add: days_to_year_1752 days_to_month_eval month_days_leap FIRST_MISSING_DAY_def)

end
