(* ===== verification/Cut.thy ===== *)
theory Cut
  imports Xgetularg "HOL-Library.Multiset"
begin

text \<open>
  The applet \<open>cut\<close> (\<open>coreutils/cut.c\<close>). Lines are ls of bytes without the terminating zero. The result
  of the option parser and the opened files are inputs; \<open>qsort\<close> of the C library is a parameter, which
  may order lists with equal starts in any way. \<open>None\<close> is an access outside of an array.
\<close>

section \<open>The lists of positions\<close>

record cut_list =
  startpos :: int
  endpos :: int

definition BOL :: int where "BOL = 0"
definition EOL :: int where "EOL = 2 ^ 31 - 1"
definition NON_RANGE :: int where "NON_RANGE = - 1"

text \<open>\<open>strsep\<close> with one delimiter: the token, and the new pointer, which is null behind the last token.\<close>

definition strsep :: "'a \<Rightarrow> 'a list option \<Rightarrow> ('a list \<times> 'a list option) option" where
  "strsep d p =
     (case p of
        None \<Rightarrow> None
      | Some s \<Rightarrow>
          let tok = takeWhile (\<lambda>c. c \<noteq> d) s
          in Some (tok, if length tok < length s then Some (drop (length tok + 1) s) else None))"

datatype cut_error = Invalid_list | Missing_list | No_part | Two_parts | Delim_length | Suppress_part | Delim_part | Cut_undefined

text \<open>A number of a list, as an \<open>int\<close>.\<close>

definition list_number :: "string \<Rightarrow> cut_error + int" where
  "list_number ntok =
     (let (v, junk) = strtoul 10 ntok; s = sint v
      in if junk \<noteq> [] \<or> s < 0 then Inl Invalid_list else Inr s)"

definition parse_list :: "string \<Rightarrow> cut_error + cut_list" where
  "parse_list item =
     (case strsep (CHR ''-'') (Some item) of
        None \<Rightarrow> Inl Cut_undefined
      | Some (ntok, ltok) \<Rightarrow>
          bind_res (if ntok = [] then Inr BOL else bind_res (list_number ntok) (\<lambda>s. Inr (if s \<noteq> 0 then s - 1 else s))) (\<lambda>s.
          case strsep (CHR ''-'') ltok of
            None \<Rightarrow> Inr \<lparr>startpos = s, endpos = NON_RANGE\<rparr>
          | Some (ntok, ltok) \<Rightarrow>
              bind_res (if ntok = [] then Inr EOL
                        else bind_res (list_number ntok) (\<lambda>e.
                          let e = (if e = 0 then 2 ^ 31 - 1 else e) - 1 in Inr (if e = s then NON_RANGE else e))) (\<lambda>e.
              if ltok \<noteq> None then Inl Invalid_list else Inr \<lparr>startpos = s, endpos = e\<rparr>)))"

lemma strsep_shorter: "strsep d (Some s) = Some (tok, Some r) \<Longrightarrow> length r < length s"
  by (auto simp: strsep_def Let_def split: if_splits)

function list_loop :: "string option \<Rightarrow> cut_list list \<Rightarrow> cut_error + cut_list list" where
  "list_loop ls acc =
     (case strsep (CHR '','') ls of
        None \<Rightarrow> Inr acc
      | Some (ltok, ls) \<Rightarrow>
          if ltok = [] then list_loop ls acc
          else bind_res (parse_list ltok) (\<lambda>cl. list_loop ls (acc @ [cl])))"
  by pat_completeness auto
termination
proof (relation "measure (\<lambda>(ls, _). case ls of None \<Rightarrow> 0 | Some s \<Rightarrow> Suc (length s))")
  fix ls ls' :: "string option" and p ltok
  assume "strsep (CHR '','') ls = Some p" "(ltok, ls') = p"
  then have *: "(case ls' of None \<Rightarrow> 0 | Some s \<Rightarrow> Suc (length s)) < (case ls of None \<Rightarrow> 0 | Some s \<Rightarrow> Suc (length s))"
    by (cases ls; cases ls') (auto simp: strsep_def Let_def split: if_splits)
  show "((ls', acc), ls, acc) \<in> measure (\<lambda>(ls, _). case ls of None \<Rightarrow> 0 | Some s \<Rightarrow> Suc (length s))" for acc :: "cut_list list"
    using * by simp
  show "((ls', acc @ [cl]), ls, acc) \<in> measure (\<lambda>(ls, _). case ls of None \<Rightarrow> 0 | Some s \<Rightarrow> Suc (length s))"
    for acc :: "cut_list list" and cl
    using * by simp
qed simp

declare list_loop.simps [simp del]

definition parse_lists :: "(cut_list list \<Rightarrow> cut_list list) \<Rightarrow> string \<Rightarrow> cut_error + cut_list list" where
  "parse_lists qsort ls =
     bind_res (list_loop (Some ls) []) (\<lambda>cut_lists.
       if cut_lists = [] then Inl Missing_list else Inr (qsort cut_lists))"

section \<open>Characters of a line\<close>

text \<open>The inner loop: what was printed, and the output. The array \<open>printed\<close> is as long as the line.\<close>

function char_loop :: "bytes \<Rightarrow> int \<Rightarrow> nat \<Rightarrow> bool list \<times> bytes \<Rightarrow> (bool list \<times> bytes) option" where
  "char_loop line e l st =
     (if l < length line then do {
        p \<leftarrow> rd (fst st) l;
        st \<leftarrow> (if p then Some st else do { printed \<leftarrow> wr (fst st) l True; Some (printed, snd st @ [line ! l]) });
        if e = NON_RANGE \<or> e < int (l + 1) then Some st else char_loop line e (l + 1) st }
      else Some st)"
  by pat_completeness auto
termination by (relation "measure (\<lambda>(line, _, l, _). length line - l)") auto

declare char_loop.simps [simp del]

definition cut_line_by_chars :: "cut_list list \<Rightarrow> bytes \<Rightarrow> bytes option" where
  "cut_line_by_chars cut_lists line = do {
     (printed, out) \<leftarrow> foldM (\<lambda>st cl. char_loop line (endpos cl) (nat (startpos cl)) st) (replicate (length line) False, []) cut_lists;
     Some (out @ [10]) }"

section \<open>Fields of a line\<close>

record field_state =
  fs_line :: "bytes option"
  ndelim :: int
  nfields_printed :: nat
  fs_field :: "bytes option"
  fs_printed :: "bool list"
  fs_out :: bytes

function find_field :: "byte \<Rightarrow> int \<Rightarrow> field_state \<Rightarrow> field_state" where
  "find_field delim f s =
     (case strsep delim (fs_line s) of
        None \<Rightarrow> s
      | Some (field, line) \<Rightarrow>
          if ndelim s < f
          then find_field delim f (s\<lparr>fs_line := line, fs_field := Some field, ndelim := ndelim s + 1\<rparr>)
          else s)"
  by pat_completeness auto
termination
  by (relation "measure (\<lambda>(_, f, s). nat (f - ndelim s))") auto

declare find_field.simps [simp del]

definition print_field :: "byte \<Rightarrow> int \<Rightarrow> field_state \<Rightarrow> field_state option" where
  "print_field delim f s =
     (case fs_field s of
        Some field \<Rightarrow>
          if ndelim s = f then do {
            p \<leftarrow> rd (fs_printed s) (nat (ndelim s));
            if p then Some s
            else do {
              printed \<leftarrow> wr (fs_printed s) (nat (ndelim s)) True;
              Some (s\<lparr>fs_out := fs_out s @ (if nfields_printed s > 0 then [delim] else []) @ field,
                fs_printed := printed, nfields_printed := nfields_printed s + 1\<rparr>) } }
          else Some s
      | None \<Rightarrow> Some s)"

lemma find_field_stop: "fs_line (find_field delim f s) \<noteq> None \<Longrightarrow> f \<le> ndelim (find_field delim f s)"
proof (induction delim f s rule: find_field.induct)
  case (1 delim f s)
  note u = find_field.simps [of delim f s]
  from 1 show ?case
    by (cases "strsep delim (fs_line s)"; cases "fs_line s") (auto simp: u strsep_def Let_def split: prod.splits)
qed

text \<open>The loop over the fields of one list.\<close>

definition line_size :: "field_state \<Rightarrow> nat" where
  "line_size s = (case fs_line s of None \<Rightarrow> 0 | Some l \<Rightarrow> Suc (length l))"

lemma strsep_line: "strsep d (Some l) = Some (tok, l') \<Longrightarrow> (case l' of None \<Rightarrow> 0 | Some r \<Rightarrow> Suc (length r)) < Suc (length l)"
  by (auto simp: strsep_def Let_def split: if_splits)

lemma find_field_size:
  "line_size (find_field delim f s) \<le> line_size s \<and>
   (ndelim s < f \<and> fs_line s \<noteq> None \<longrightarrow> line_size (find_field delim f s) < line_size s) \<and>
   (\<not> ndelim s < f \<longrightarrow> find_field delim f s = s)"
proof (induction delim f s rule: find_field.induct)
  case (1 delim f s)
  note u = find_field.simps [of delim f s]
  show ?case
  proof (cases "fs_line s")
    case None
    then show ?thesis by (simp add: u strsep_def)
  next
    case (Some l)
    obtain tok l' where t: "strsep delim (Some l) = Some (tok, l')" by (auto simp: strsep_def Let_def)
    have t2: "strsep delim (fs_line s) = Some (tok, l')" using t Some by simp
    have "line_size (s\<lparr>fs_line := l', fs_field := Some tok, ndelim := ndelim s + 1\<rparr>) < line_size s"
      using strsep_line [OF t] Some by (simp add: line_size_def)
    with 1 [OF t2 refl] t Some show ?thesis by (auto simp: u)
  qed
qed

lemma print_field_line: "print_field delim f s = Some s' \<Longrightarrow> fs_line s' = fs_line s \<and> ndelim s' = ndelim s"
  by (auto simp: print_field_def split: option.splits if_splits Option.bind_splits)

function fields_loop :: "byte \<Rightarrow> int \<Rightarrow> int \<Rightarrow> field_state \<Rightarrow> field_state option" where
  "fields_loop delim e f s = do {
     s \<leftarrow> print_field delim f (find_field delim f s);
     if fs_line s \<noteq> None \<and> e \<noteq> NON_RANGE \<and> f + 1 \<le> e then fields_loop delim e (f + 1) s else Some s }"
  by pat_completeness auto
termination
proof (relation "measures [\<lambda>(_, _, _, s). line_size s, \<lambda>(_, _, f, s). nat (ndelim s + 1 - f)]")
  fix delim e f s s'
  assume p: "print_field delim f (find_field delim f s) = Some s'" and l: "fs_line s' \<noteq> None \<and> e \<noteq> NON_RANGE \<and> f + 1 \<le> e"
  have s': "fs_line s' = fs_line (find_field delim f s)" "ndelim s' = ndelim (find_field delim f s)"
    using print_field_line [OF p] by auto
  then have z: "line_size s' = line_size (find_field delim f s)" by (simp add: line_size_def)
  show "((delim, e, f + 1, s'), delim, e, f, s) \<in> measures [\<lambda>(_, _, _, s). line_size s, \<lambda>(_, _, f, s). nat (ndelim s + 1 - f)]"
  proof (cases "ndelim s < f")
    case True
    then show ?thesis
    proof (cases "fs_line s")
      case None
      then have "find_field delim f s = s" by (simp add: find_field.simps [of delim f s] strsep_def)
      with None l s' show ?thesis by simp
    next
      case (Some x)
      then show ?thesis using True find_field_size [of delim f s] z by simp
    qed
  next
    case False
    then show ?thesis using find_field_size [of delim f s] z s' by simp
  qed
qed simp

declare fields_loop.simps [simp del]

text \<open>\<open>strchr\<close> for the delimiter finds the end of the line when the delimiter is zero.\<close>

fun lists_loop :: "byte \<Rightarrow> cut_list list \<Rightarrow> field_state \<Rightarrow> field_state option" where
  "lists_loop delim [] s = Some s"
| "lists_loop delim (cl # cls) s =
     (if fs_line s = None then Some s
      else do { s \<leftarrow> fields_loop delim (endpos cl) (startpos cl) s; lists_loop delim cls s })"

definition cut_line_by_fields :: "cut_list list \<Rightarrow> byte \<Rightarrow> bool \<Rightarrow> bytes \<Rightarrow> bytes option" where
  "cut_line_by_fields cut_lists delim supress_non_delimited_lines line =
     (if delim \<noteq> 0 \<and> delim \<notin> set line then Some (if supress_non_delimited_lines then [] else line @ [10])
      else do {
        s \<leftarrow> lists_loop delim cut_lists \<lparr>fs_line = Some line, ndelim = - 1, nfields_printed = 0, fs_field = None,
          fs_printed = replicate (length line) False, fs_out = []\<rparr>;
        Some (fs_out s @ [10]) })"

section \<open>Lines of a file\<close>

text \<open>
  The static variables of \<open>cut_file_by_lines\<close> and its loop: the new values and whether the line is
  printed.
\<close>

record lines_state =
  ls_c :: nat
  ls_l :: int

function lines_loop :: "cut_list list \<Rightarrow> int \<Rightarrow> nat \<Rightarrow> int \<Rightarrow> nat \<times> int \<times> bool" where
  "lines_loop cut_lists linenum c l =
     (if c < length cut_lists \<and> l < linenum then
        if endpos (cut_lists ! c) = NON_RANGE \<or> endpos (cut_lists ! c) < l + 1 then
          if c + 1 \<ge> length cut_lists then (c + 1, l + 1, False)
          else
            let l = startpos (cut_lists ! (c + 1))
            in if linenum < l then (c + 1, l, False) else lines_loop cut_lists linenum (c + 1) l
        else lines_loop cut_lists linenum c (l + 1)
      else (c, l, True))"
  by pat_completeness auto
termination
  by (relation "measures [\<lambda>(cls, _, c, _). length cls - c, \<lambda>(_, n, _, l). nat (n - l)]") auto

declare lines_loop.simps [simp del]

definition cut_file_by_lines :: "cut_list list \<Rightarrow> int \<Rightarrow> lines_state \<Rightarrow> lines_state \<times> bool" where
  "cut_file_by_lines cut_lists linenum st =
     (let c = ls_c st; l = (if ls_l st = - 1 then startpos (cut_lists ! c) else ls_l st)
      in if c \<ge> length cut_lists \<or> linenum < l then (\<lparr>ls_c = c, ls_l = l\<rparr>, False)
         else case lines_loop cut_lists linenum c l of (c, l, p) \<Rightarrow> (\<lparr>ls_c = c, ls_l = l\<rparr>, p))"

section \<open>Files\<close>

definition OPT_BYTE_FLGS :: u32 where "OPT_BYTE_FLGS = 1"
definition OPT_CHAR_FLGS :: u32 where "OPT_CHAR_FLGS = 2"
definition OPT_FIELDS_FLGS :: u32 where "OPT_FIELDS_FLGS = 4"
definition OPT_DELIM_FLGS :: u32 where "OPT_DELIM_FLGS = 8"
definition OPT_SUPRESS_FLGS :: u32 where "OPT_SUPRESS_FLGS = 16"
definition BB_GETOPT_ERROR :: u32 where "BB_GETOPT_ERROR = 0x80000000"

lemmas cut_flag_defs = OPT_BYTE_FLGS_def OPT_CHAR_FLGS_def OPT_FIELDS_FLGS_def OPT_DELIM_FLGS_def OPT_SUPRESS_FLGS_def
  BB_GETOPT_ERROR_def

record cut_conf =
  cut_lists_of :: "cut_list list"
  cut_part :: u32
  cut_delim :: byte
  cut_supress :: bool

function cut_file :: "cut_conf \<Rightarrow> bytes \<Rightarrow> int \<Rightarrow> lines_state \<Rightarrow> (bytes \<times> lines_state) option" where
  "cut_file conf file linenum st =
     (case bb_get_chomped_line_from_file file of
        None \<Rightarrow> Some ([], st)
      | Some (line, rest) \<Rightarrow> do {
          (out, st) \<leftarrow>
            (if cut_part conf AND (OPT_CHAR_FLGS OR OPT_BYTE_FLGS) \<noteq> 0
             then do { out \<leftarrow> cut_line_by_chars (cut_lists_of conf) line; Some (out, st) }
             else if cut_delim conf = 10
             then (case cut_file_by_lines (cut_lists_of conf) linenum st of (st, p) \<Rightarrow> Some (if p then line @ [10] else [], st))
             else do { out \<leftarrow> cut_line_by_fields (cut_lists_of conf) (cut_delim conf) (cut_supress conf) line; Some (out, st) });
          (more, st) \<leftarrow> cut_file conf rest (linenum + 1) st;
          Some (out @ more, st) })"
  by pat_completeness auto
termination by (relation "measure (\<lambda>(_, file, _). length file)") (auto dest: chomped_line_shorter)

declare cut_file.simps [simp del]

definition cut_files :: "cut_conf \<Rightarrow> (string \<Rightarrow> bytes option) \<Rightarrow> string list \<Rightarrow> (bytes \<times> lines_state) option" where
  "cut_files conf wfopen names =
     foldM (\<lambda>(out, st) name.
       case wfopen name of
         None \<Rightarrow> Some (out, st)
       | Some text \<Rightarrow> do { (more, st) \<leftarrow> cut_file conf text 0 st; Some (out @ more, st) })
     ([], \<lparr>ls_c = 0, ls_l = - 1\<rparr>) names"

definition cut_main :: "(cut_list list \<Rightarrow> cut_list list) \<Rightarrow> u32 \<Rightarrow> string \<Rightarrow> bytes \<Rightarrow> string list \<Rightarrow> bytes \<Rightarrow> (string \<Rightarrow> bytes option)
    \<Rightarrow> cut_error + bytes" where
  "cut_main qsort opt sopt sdopt args stdin wfopen =
     (let part = opt AND (OPT_BYTE_FLGS OR OPT_CHAR_FLGS OR OPT_FIELDS_FLGS) in
      if part = 0 then Inl No_part
      else if opt AND BB_GETOPT_ERROR \<noteq> 0 then Inl Two_parts
      else bind_res (parse_lists qsort sopt) (\<lambda>cut_lists.
        if opt AND OPT_DELIM_FLGS \<noteq> 0 \<and> length sdopt > 1 then Inl Delim_length
        else
          let delim = (if opt AND OPT_DELIM_FLGS \<noteq> 0 then (if sdopt = [] then 0 else hd sdopt) else 9);
              supress = (opt AND OPT_SUPRESS_FLGS \<noteq> 0);
              conf = \<lparr>cut_lists_of = cut_lists, cut_part = part, cut_delim = delim, cut_supress = supress\<rparr>
          in if part \<noteq> OPT_FIELDS_FLGS \<and> supress then Inl Suppress_part
             else if part \<noteq> OPT_FIELDS_FLGS \<and> delim \<noteq> 9 then Inl Delim_part
             else
               case (if args = [] \<or> hd args = ''-'' then cut_file conf stdin 0 \<lparr>ls_c = 0, ls_l = - 1\<rparr>
                     else cut_files conf wfopen args) of
                 None \<Rightarrow> Inl Cut_undefined
               | Some (out, _) \<Rightarrow> Inr out))"

section \<open>What is selected\<close>

definition in_list :: "cut_list \<Rightarrow> nat \<Rightarrow> bool" where
  "in_list cl i \<longleftrightarrow> startpos cl \<le> int i \<and> (int i = startpos cl \<or> endpos cl \<noteq> NON_RANGE \<and> int i \<le> endpos cl)"

definition selected :: "cut_list list \<Rightarrow> nat set" where
  "selected cls = {i. \<exists>cl \<in> set cls. in_list cl i}"

definition lists_ok :: "cut_list list \<Rightarrow> bool" where
  "lists_ok cls \<longleftrightarrow> sorted (map startpos cls) \<and> (\<forall>cl \<in> set cls. 0 \<le> startpos cl)"

text \<open>Printing the characters of a set of positions from \<open>l\<close> on that were not printed before.\<close>

lemma nths_upt: "nths xs A = map ((!) xs) (filter (\<lambda>i. i \<in> A) [0..<length xs])"
proof (induction xs rule: rev_induct)
  case (snoc x xs)
  have "map ((!) (xs @ [x])) (filter (\<lambda>i. i \<in> A) [0..<length xs]) = map ((!) xs) (filter (\<lambda>i. i \<in> A) [0..<length xs])"
    by (rule map_cong) (auto simp: nth_append)
  then show ?case using snoc by (simp add: nths_append)
qed simp

definition marks :: "nat \<Rightarrow> nat set \<Rightarrow> bool list" where
  "marks n A = map (\<lambda>i. i \<in> A) [0..<n]"

lemma marks_simps: "length (marks n A) = n" "i < n \<Longrightarrow> marks n A ! i = (i \<in> A)" "i < n \<Longrightarrow> (marks n A)[i := True] = marks n (insert i A)"
  by (auto simp: marks_def nth_list_update intro!: nth_equalityI split: if_splits)

text \<open>
  The state after printing the positions of \<open>A\<close>. With sorted lists, what is not printed yet of the next
  list lies behind all printed positions.
\<close>

definition char_state :: "bytes \<Rightarrow> nat set \<Rightarrow> bool list \<times> bytes" where
  "char_state line A = (marks (length line) A, nths line A)"

lemma nths_insert_last:
  assumes "\<forall>a \<in> A. a < l" "l < length xs"
  shows "nths xs (insert l A) = nths xs A @ [xs ! l]"
proof -
  have "[0..<length xs] = [0..<l] @ l # [Suc l..<length xs]"
    using assms(2) upt_add_eq_append [of 0 l "length xs - l"] upt_conv_Cons [of l "length xs"] by simp
  moreover have "filter (\<lambda>i. i \<in> insert l A) [0..<l] = filter (\<lambda>i. i \<in> A) [0..<l]" by (rule filter_cong) auto
  moreover have "filter (\<lambda>i. i \<in> insert l A) [Suc l..<length xs] = []" "filter (\<lambda>i. i \<in> A) [Suc l..<length xs] = []"
    using assms(1) by (auto simp: filter_empty_conv)
  moreover have "l \<notin> A" using assms(1) by auto
  ultimately show ?thesis by (simp add: nths_upt)
qed

definition dense :: "nat \<Rightarrow> nat set \<Rightarrow> bool" where
  "dense l A \<longleftrightarrow> (\<forall>i \<in> A. \<forall>j. l \<le> j \<and> j \<le> i \<longrightarrow> j \<in> A)"

lemma char_state_cong: "(\<And>i. i < length line \<Longrightarrow> i \<in> A \<longleftrightarrow> i \<in> B) \<Longrightarrow> char_state line A = char_state line B"
proof -
  assume *: "\<And>i. i < length line \<Longrightarrow> i \<in> A \<longleftrightarrow> i \<in> B"
  have "filter (\<lambda>i. i \<in> A) [0..<length line] = filter (\<lambda>i. i \<in> B) [0..<length line]" by (rule filter_cong) (auto simp: *)
  then show ?thesis by (simp add: char_state_def nths_upt marks_def *)
qed

lemma char_step:
  assumes "l < length line" "dense l A"
  shows "(do { p \<leftarrow> rd (fst (char_state line A)) l;
      if p then Some (char_state line A)
      else do { printed \<leftarrow> wr (fst (char_state line A)) l True; Some (printed, snd (char_state line A) @ [line ! l]) } })
    = Some (char_state line (insert l A))"
proof (cases "l \<in> A")
  case True
  then show ?thesis using assms(1) by (simp add: char_state_def rd_def marks_simps insert_absorb)
next
  case False
  have "a < l" if "a \<in> A" for a
  proof (rule ccontr)
    assume "\<not> a < l"
    then show False using assms(2) that False by (auto simp: dense_def)
  qed
  with False assms(1) show ?thesis
    by (simp add: char_state_def rd_def wr_def marks_simps nths_insert_last)
qed

lemma char_loop_selects:
  assumes "dense l A"
  shows "char_loop line e l (char_state line A) =
    Some (char_state line (A \<union> {i. l \<le> i \<and> (i = l \<or> e \<noteq> NON_RANGE \<and> int i \<le> e)}))"
  using assms
proof (induction "length line - l" arbitrary: l A rule: less_induct)
  case less
  note u = char_loop.simps [of line e l "char_state line A"]
  show ?case
  proof (cases "l < length line")
    case False
    then have "char_state line (A \<union> {i. l \<le> i \<and> (i = l \<or> e \<noteq> NON_RANGE \<and> int i \<le> e)}) = char_state line A"
      by (intro char_state_cong) auto
    with False show ?thesis by (simp add: u)
  next
    case True
    have s: "char_loop line e l (char_state line A) = (if e = NON_RANGE \<or> e < int (l + 1) then Some (char_state line (insert l A))
        else char_loop line e (l + 1) (char_state line (insert l A)))"
      using char_step [OF True less.prems] True by (simp add: u) (auto split: Option.bind_splits)
    show ?thesis
    proof (cases "e = NON_RANGE \<or> e < int (l + 1)")
      case stop: True
      then have "insert l A = A \<union> {i. l \<le> i \<and> (i = l \<or> e \<noteq> NON_RANGE \<and> int i \<le> e)}" by auto
      with s stop show ?thesis by simp
    next
      case go: False
      have "dense (l + 1) (insert l A)" using less.prems by (auto simp: dense_def)
      with less.hyps [of "l + 1" "insert l A"] True
      have "char_loop line e (l + 1) (char_state line (insert l A)) = Some (char_state line
          (insert l A \<union> {i. l + 1 \<le> i \<and> (i = l + 1 \<or> e \<noteq> NON_RANGE \<and> int i \<le> e)}))" by simp
      moreover have "insert l A \<union> {i. l + 1 \<le> i \<and> (i = l + 1 \<or> e \<noteq> NON_RANGE \<and> int i \<le> e)}
          = A \<union> {i. l \<le> i \<and> (i = l \<or> e \<noteq> NON_RANGE \<and> int i \<le> e)}" using go by auto
      ultimately show ?thesis using s go by simp
    qed
  qed
qed

lemma chars_selects:
  assumes "lists_ok cls" "cls \<noteq> [] \<longrightarrow> dense (nat (startpos (hd cls))) A"
  shows "foldM (\<lambda>st cl. char_loop line (endpos cl) (nat (startpos cl)) st) (char_state line A) cls =
    Some (char_state line (A \<union> selected cls))"
  using assms
proof (induction cls arbitrary: A)
  case (Cons cl cls)
  let ?l = "nat (startpos cl)" and ?B = "A \<union> {i. in_list cl i}"
  have l: "0 \<le> startpos cl" using Cons.prems(1) by (simp add: lists_ok_def)
  then have in_l: "in_list cl i \<longleftrightarrow> ?l \<le> i \<and> (i = ?l \<or> endpos cl \<noteq> NON_RANGE \<and> int i \<le> endpos cl)" for i
    by (auto simp: in_list_def)
  have 1: "char_loop line (endpos cl) ?l (char_state line A) = Some (char_state line ?B)"
    using char_loop_selects [of ?l A line "endpos cl"] Cons.prems(2) in_l by simp
  have "lists_ok cls" using Cons.prems(1) by (simp add: lists_ok_def)
  moreover have "dense (nat (startpos (hd cls))) ?B" if "cls \<noteq> []"
  proof -
    have "startpos cl \<le> startpos (hd cls)" using that Cons.prems(1) by (simp add: lists_ok_def)
    then have "?l \<le> nat (startpos (hd cls))" by simp
    then show ?thesis using Cons.prems(2) in_l by (auto simp: dense_def)
  qed
  moreover have "?B \<union> selected cls = A \<union> selected (cl # cls)" by (auto simp: selected_def)
  ultimately show ?case using 1 Cons.IH [of ?B] by simp
qed (simp add: selected_def)

lemma cut_chars_selected: "lists_ok cls \<Longrightarrow> cut_line_by_chars cls line = Some (nths line (selected cls) @ [10])"
proof -
  assume "lists_ok cls"
  then have "foldM (\<lambda>st cl. char_loop line (endpos cl) (nat (startpos cl)) st) (char_state line {}) cls =
      Some (char_state line (selected cls))"
    using chars_selects [of cls "{}" line] by (simp add: dense_def)
  moreover have "char_state line {} = (replicate (length line) False, [])"
    by (simp add: char_state_def marks_def map_replicate_const)
  ultimately show ?thesis by (simp add: cut_line_by_chars_def char_state_def)
qed

section \<open>The fields that are selected\<close>

function split_fields :: "'a \<Rightarrow> 'a list \<Rightarrow> 'a list list" where
  "split_fields d s =
     (let tok = takeWhile (\<lambda>c. c \<noteq> d) s
      in if length tok < length s then tok # split_fields d (drop (length tok + 1) s) else [tok])"
  by pat_completeness auto
termination by (relation "measure (\<lambda>(_, s). length s)") auto

declare split_fields.simps [simp del]

fun join :: "'a \<Rightarrow> 'a list list \<Rightarrow> 'a list" where
  "join d [] = []"
| "join d [f] = f"
| "join d (f # fs) = f @ d # join d fs"

lemma join_snoc: "join d (fs @ [f]) = join d fs @ (if fs = [] then [] else [d]) @ f"
  by (induction d fs rule: join.induct) (simp_all split: list.split)

lemma takeWhile_shorter: "length (takeWhile (\<lambda>c. c \<noteq> d) s) < length s \<longleftrightarrow> d \<in> set s"
  by (induction s) auto

lemma split_fields_cases:
  "split_fields d s = (if d \<in> set s then takeWhile (\<lambda>c. c \<noteq> d) s # split_fields d (drop (length (takeWhile (\<lambda>c. c \<noteq> d) s) + 1) s) else [s])"
proof -
  have "d \<notin> set s \<Longrightarrow> takeWhile (\<lambda>c. c \<noteq> d) s = s" by (auto simp: takeWhile_eq_all_conv)
  then show ?thesis by (subst split_fields.simps) (simp add: Let_def takeWhile_shorter)
qed

lemma strsep_fields:
  obtains r' where "strsep d (Some r) = Some (hd (split_fields d r), r')"
    "case r' of None \<Rightarrow> tl (split_fields d r) = [] | Some r1 \<Rightarrow> split_fields d r1 = tl (split_fields d r)"
proof -
  note l = takeWhile_shorter [of d r]
  have n: "d \<notin> set r \<Longrightarrow> takeWhile (\<lambda>c. c \<noteq> d) r = r" by (auto simp: takeWhile_eq_all_conv)
  show thesis
  proof (cases "d \<in> set r")
    case True
    then show thesis using l
      by (intro that [of "Some (drop (length (takeWhile (\<lambda>c. c \<noteq> d) r) + 1) r)"])
        (simp_all add: strsep_def Let_def split_fields_cases [of d r])
  next
    case False
    then show thesis using n by (intro that [of None]) (simp_all add: strsep_def Let_def split_fields_cases [of d r] takeWhile_shorter)
  qed
qed

lemma length_fields: "length (split_fields d s) = length (filter (\<lambda>c. c = d) s) + 1"
proof (induction d s rule: split_fields.induct)
  case (1 d s)
  let ?t = "takeWhile (\<lambda>c. c \<noteq> d) s"
  have t: "filter (\<lambda>c. c = d) ?t = []" by (auto simp: filter_empty_conv dest: set_takeWhileD)
  show ?case
  proof (cases "d \<in> set s")
    case True
    then have l: "length ?t < length s" by (simp add: takeWhile_shorter)
    then have "s = ?t @ d # drop (length ?t + 1) s"
      by (metis (mono_tags, lifting) Cons_nth_drop_Suc Suc_eq_plus1 append_take_drop_id nth_length_takeWhile takeWhile_eq_take)
    then have "length (filter (\<lambda>c. c = d) s) = Suc (length (filter (\<lambda>c. c = d) (drop (length ?t + 1) s)))"
      using t by (metis (mono_tags, lifting) append_Nil filter.simps(2) filter_append length_Cons)
    then show ?thesis using True l 1 split_fields_cases [of d s] by simp
  next
    case False
    then have "filter (\<lambda>c. c = d) s = []" by (auto simp: filter_empty_conv)
    then show ?thesis using False by (simp add: split_fields_cases [of d s])
  qed
qed

text \<open>The state after \<open>k\<close> fields were separated and those of \<open>A\<close> printed.\<close>

definition fstate :: "byte \<Rightarrow> bytes \<Rightarrow> nat \<Rightarrow> nat set \<Rightarrow> field_state \<Rightarrow> bool" where
  "fstate d line k A s \<longleftrightarrow> ndelim s = int k - 1 \<and> k \<le> length (split_fields d line) \<and>
     (case fs_line s of None \<Rightarrow> k = length (split_fields d line) | Some r \<Rightarrow> split_fields d r = drop k (split_fields d line)) \<and>
     fs_field s = (if k = 0 then None else Some (split_fields d line ! (k - 1))) \<and>
     fs_printed s = marks (length line) A \<and> fs_out s = join d (nths (split_fields d line) A) \<and>
     nfields_printed s = length (nths (split_fields d line) A) \<and> A \<subseteq> {..<k}"

lemma fields_nonempty: "split_fields d s \<noteq> []" by (simp add: split_fields_cases [of d s])

lemma find_field_state:
  assumes "fstate d line k A s" "0 \<le> f"
  shows "fstate d line (if int k \<le> f then min (nat f + 1) (length (split_fields d line)) else k) A (find_field d f s)"
  using assms
proof (induction d f s arbitrary: k rule: find_field.induct)
  case (1 d f s)
  note u = find_field.simps [of d f s]
  let ?N = "length (split_fields d line)"
  show ?case
  proof (cases "fs_line s")
    case None
    then have "k = ?N" using 1(2) by (simp add: fstate_def)
    with None 1(2) show ?thesis by (auto simp: u strsep_def min_def)
  next
    case (Some r)
    then have r: "split_fields d r = drop k (split_fields d line)" using 1(2) by (simp add: fstate_def)
    then have k: "k < ?N" using fields_nonempty [of d r] by (metis drop_all not_le)
    obtain r' where sf: "strsep d (Some r) = Some (hd (split_fields d r), r')"
      "case r' of None \<Rightarrow> tl (split_fields d r) = [] | Some r1 \<Rightarrow> split_fields d r1 = tl (split_fields d r)"
      by (rule strsep_fields)
    have t: "strsep d (fs_line s) = Some (split_fields d line ! k, r')"
      using sf r k Some by (simp add: hd_drop_conv_nth)
    show ?thesis
    proof (cases "int k \<le> f")
      case False
      then show ?thesis using 1(2) t by (simp add: u fstate_def)
    next
      case True
      let ?s = "s\<lparr>fs_line := r', fs_field := Some (split_fields d line ! k), ndelim := ndelim s + 1\<rparr>"
      have "fstate d line (k + 1) A ?s"
        using 1(2) sf r k by (auto simp: fstate_def tl_drop drop_Suc split: option.split_asm intro!: order_antisym Suc_leI)
      with 1(1) [OF t refl _ this 1(3)] True 1(2) t k
      have "fstate d line (if int (k + 1) \<le> f then min (nat f + 1) ?N else k + 1) A (find_field d f ?s)" by (simp add: fstate_def)
      moreover have "find_field d f s = find_field d f ?s" using t True 1(2) by (simp add: u fstate_def)
      moreover have "(if int (k + 1) \<le> f then min (nat f + 1) ?N else k + 1) = min (nat f + 1) ?N" using True k by auto
      ultimately show ?thesis using True by simp
    qed
  qed
qed

lemma fstate_line: "fstate d line k A s \<Longrightarrow> fs_line s = None \<longleftrightarrow> k = length (split_fields d line)"
proof -
  assume s: "fstate d line k A s"
  have "k < length (split_fields d line)" if "fs_line s = Some r" for r
  proof (rule ccontr)
    assume "\<not> k < length (split_fields d line)"
    then have "split_fields d r = []" using s that by (simp add: fstate_def)
    then show False using fields_nonempty [of d r] by simp
  qed
  with s show ?thesis by (cases "fs_line s") (auto simp: fstate_def)
qed

lemma print_field_state:
  assumes s: "fstate d line k A s" and f: "0 \<le> f" "nat f < length (split_fields d line)"
    and n: "length (split_fields d line) \<le> length line" and k: "int k = f + 1"
  shows "\<exists>s'. print_field d f s = Some s' \<and> fs_line s' = fs_line s \<and> fstate d line k (insert (nat f) A) s'"
proof (cases "nat f \<in> A")
  case True
  then show ?thesis using s f n k by (auto simp: print_field_def fstate_def rd_def marks_simps insert_absorb)
next
  case False
  have kf: "k = nat f + 1" using k f by simp
  have "\<forall>a \<in> A. a < nat f" using s False kf by (auto simp: fstate_def less_Suc_eq)
  from nths_insert_last [OF this f(2)] have
    "nths (split_fields d line) (insert (nat f) A) = nths (split_fields d line) A @ [split_fields d line ! nat f]" .
  with False s f n kf k show ?thesis
    by (auto simp: print_field_def fstate_def rd_def wr_def marks_simps join_snoc split: option.split)
qed

text \<open>
  A state in front of a list that starts at \<open>l\<close>: what is selected from \<open>l\<close> on and already separated has
  been printed.
\<close>

definition before_list :: "byte \<Rightarrow> bytes \<Rightarrow> nat \<Rightarrow> nat \<Rightarrow> nat set \<Rightarrow> field_state \<Rightarrow> bool" where
  "before_list d line l k A s \<longleftrightarrow> fstate d line k A s \<and> dense l A \<and>
     (k = 0 \<or> k - 1 \<in> A \<or> length (split_fields d line) \<le> l \<and> fs_line s = None)"

definition list_part :: "int \<Rightarrow> nat \<Rightarrow> nat \<Rightarrow> nat set" where
  "list_part e f N = {i. f \<le> i \<and> i < N \<and> (i = f \<or> e \<noteq> NON_RANGE \<and> int i \<le> e)}"

lemma list_part_step: "f < N \<Longrightarrow> e \<noteq> NON_RANGE \<Longrightarrow> int f + 1 \<le> e \<Longrightarrow> list_part e f N = insert f (list_part e (f + 1) N)"
  by (auto simp: list_part_def)

lemma fields_loop_state:
  assumes "before_list d line f k A s" "fs_line s \<noteq> None" "length (split_fields d line) \<le> length line"
  shows "\<exists>s' k'. fields_loop d e (int f) s = Some s' \<and>
    before_list d line f k' (A \<union> list_part e f (length (split_fields d line))) s'"
  using assms
proof (induction d e "int f" s arbitrary: f k A rule: fields_loop.induct)
  case (1 d e s)
  let ?N = "length (split_fields d line)" and ?s = "find_field d (int f) s"
  let ?k = "if k \<le> f then min (f + 1) ?N else k"
  have s: "fstate d line ?k A ?s" using find_field_state [of d line k A s "int f", unfolded nat_int of_nat_le_iff] 1(2) by (simp add: before_list_def)
  have kN: "k < ?N" using 1(2,3) fstate_line [of d line k A s] by (auto simp: before_list_def fstate_def)
  have A: "dense f A" "A \<subseteq> {..<k}" "k = 0 \<or> k - 1 \<in> A" using 1(2,3) by (auto simp: before_list_def fstate_def)
  show ?case
  proof (cases "f < ?N")
    case False
    then have "?k = ?N" using kN by simp
    then have "fs_line ?s = None" using fstate_line [OF s] by simp
    moreover have "ndelim ?s \<noteq> int f" using \<open>?k = ?N\<close> s False by (simp add: fstate_def)
    ultimately have "fields_loop d e (int f) s = Some ?s"
      by (simp add: fields_loop.simps [of d e "int f" s] print_field_def split: option.split)
    moreover have "list_part e f ?N = {}" using False by (auto simp: list_part_def)
    ultimately show ?thesis using s A \<open>fs_line ?s = None\<close> False by (auto simp: before_list_def)
  next
    case True
    let ?A = "insert f A"
    obtain s1 where p: "print_field d (int f) ?s = Some s1" "fs_line s1 = fs_line ?s" "fstate d line ?k ?A s1"
    proof (cases "k \<le> f + 1")
      case le: True
      then have k: "?k = f + 1" using True by auto
      show ?thesis using print_field_state [of d line ?k A ?s "int f"] s 1(4) True k that by auto
    next
      case gt: False
      then have "f \<in> A" using A by (auto simp: dense_def)
      moreover have "print_field d (int f) ?s = Some ?s" using s gt by (simp add: print_field_def fstate_def split: option.split)
      ultimately show ?thesis using that s by (simp add: insert_absorb)
    qed
    have d: "dense f ?A" "dense (f + 1) ?A" using A by (auto simp: dense_def)
    have k1: "?k - 1 \<in> ?A \<and> ?k \<noteq> 0" using A True by auto
    show ?thesis
    proof (cases "fs_line s1 \<noteq> None \<and> e \<noteq> NON_RANGE \<and> int f + 1 \<le> e")
      case go: True
      have "before_list d line (f + 1) ?k ?A s1" using p d k1 by (simp add: before_list_def)
      with 1(1) [OF p(1), of "f + 1" ?k ?A] go 1(4) obtain s' k' where
        s': "fields_loop d e (int (f + 1)) s1 = Some s'" "before_list d line (f + 1) k' (?A \<union> list_part e (f + 1) ?N) s'" by auto
      have eq: "?A \<union> list_part e (f + 1) ?N = A \<union> list_part e f ?N" using list_part_step [of f ?N e] True go by auto
      have "dense f (A \<union> list_part e f ?N)" using A by (auto simp: dense_def list_part_def)
      then have "before_list d line f k' (A \<union> list_part e f ?N) s'"
        using s'(2) True fstate_line [of d line k' _ s'] unfolding eq before_list_def
        by (auto simp: list_part_def)
      moreover have "fields_loop d e (int f) s = Some s'"
        using p go s'(1) by (simp add: fields_loop.simps [of d e "int f" s] add.commute)
      ultimately show ?thesis by blast
    next
      case stop: False
      have "fields_loop d e (int f) s = Some s1" using p(1) stop by (auto simp: fields_loop.simps [of d e "int f" s])
      moreover have "insert f A = A \<union> list_part e f ?N"
      proof (cases "fs_line s1")
        case None
        then have "?k = ?N" using fstate_line [OF s] p(2) by simp
        have "i \<in> ?A" if "f \<le> i" "i < ?N" for i
        proof -
          have "i \<le> ?k - 1" unfolding \<open>?k = ?N\<close> using that by linarith
          then show ?thesis using d(1) k1 that(1) unfolding dense_def by blast
        qed
        then show ?thesis using True by (auto simp: list_part_def)
      next
        case (Some x)
        then show ?thesis using stop True by (auto simp: list_part_def)
      qed
      ultimately show ?thesis using p(3) d k1 by (auto simp: before_list_def)
    qed
  qed
qed

lemma lists_loop_state:
  assumes "lists_ok cls" "before_list d line l k A s" "cls \<noteq> [] \<longrightarrow> l \<le> nat (startpos (hd cls))"
    "length (split_fields d line) \<le> length line"
  shows "\<exists>s'. lists_loop d cls s = Some s' \<and>
    fs_out s' = join d (nths (split_fields d line) (A \<union> selected cls))"
  using assms(1-3)
proof (induction cls arbitrary: l k A s)
  case Nil
  then show ?case by (simp add: selected_def before_list_def fstate_def)
next
  case (Cons cl cls)
  let ?N = "length (split_fields d line)" and ?f = "nat (startpos cl)"
  have f: "0 \<le> startpos cl" and sorted: "\<forall>c \<in> set cls. startpos cl \<le> startpos c" and ok: "lists_ok cls"
    using Cons.prems(1) by (auto simp: lists_ok_def)
  have b: "before_list d line ?f k A s" using Cons.prems(2,3) by (auto simp: before_list_def dense_def)
  have nths_cong: "nths (split_fields d line) X = nths (split_fields d line) Y" if "\<And>i. i < ?N \<Longrightarrow> i \<in> X \<longleftrightarrow> i \<in> Y" for X Y
  proof -
    have "filter (\<lambda>i. i \<in> X) [0..<?N] = filter (\<lambda>i. i \<in> Y) [0..<?N]" by (rule filter_cong) (auto simp: that)
    then show ?thesis by (simp add: nths_upt)
  qed
  show ?case
  proof (cases "fs_line s")
    case None
    then have "k = ?N" using b fstate_line [of d line k A s] by (auto simp: before_list_def)
    then have "i \<in> A" if "?f \<le> i" "i < ?N" for i using b that by (auto simp: before_list_def dense_def)
    then have "i \<in> A \<longleftrightarrow> i \<in> A \<union> selected (cl # cls)" if "i < ?N" for i
      using that f sorted by (fastforce simp: selected_def in_list_def)
    from nths_cong [OF this] show ?thesis using None b by (simp add: before_list_def fstate_def)
  next
    case (Some r)
    obtain s1 k1 where s1: "fields_loop d (endpos cl) (int ?f) s = Some s1"
      "before_list d line ?f k1 (A \<union> list_part (endpos cl) ?f ?N) s1"
      using fields_loop_state [OF b _ assms(4), of "endpos cl"] Some by auto
    have hd: "cls \<noteq> [] \<longrightarrow> ?f \<le> nat (startpos (hd cls))" using sorted by (cases cls) (auto intro: nat_mono)
    from Cons.IH [OF ok s1(2) hd] obtain s' where "lists_loop d cls s1 = Some s'"
      "fs_out s' = join d (nths (split_fields d line) (A \<union> list_part (endpos cl) ?f ?N \<union> selected cls))" by blast
    moreover have "nths (split_fields d line) (A \<union> list_part (endpos cl) ?f ?N \<union> selected cls)
        = nths (split_fields d line) (A \<union> selected (cl # cls))"
      by (rule nths_cong) (use f in \<open>auto simp: selected_def in_list_def list_part_def\<close>)
    ultimately show ?thesis using Some s1(1) f by simp
  qed
qed

text \<open>The number of fields exceeds the length of a line only when the line consists of delimiters.\<close>

lemma fields_fit: "c \<in> set line \<Longrightarrow> c \<noteq> d \<Longrightarrow> length (split_fields d line) \<le> length line"
proof -
  assume "c \<in> set line" "c \<noteq> d"
  then have "length (filter (\<lambda>c. c = d) line) < length line" by (metis (mono_tags, lifting) length_filter_less)
  then show ?thesis by (simp add: length_fields)
qed

lemma cut_fields_selected:
  assumes "lists_ok cls" "d \<in> set line" "c \<in> set line" "c \<noteq> d"
  shows "cut_line_by_fields cls d quiet line = Some (join d (nths (split_fields d line) (selected cls)) @ [10])"
proof -
  let ?s = "\<lparr>fs_line = Some line, ndelim = - 1, nfields_printed = 0, fs_field = None,
    fs_printed = replicate (length line) False, fs_out = []\<rparr>"
  have "before_list d line 0 0 {} ?s"
    by (simp add: before_list_def fstate_def dense_def marks_def map_replicate_const)
  from lists_loop_state [OF assms(1) this _ fields_fit [OF assms(3,4)]] obtain s' where
    "lists_loop d cls ?s = Some s'" "fs_out s' = join d (nths (split_fields d line) (selected cls))" by auto
  then show ?thesis using assms(2) by (simp add: cut_line_by_fields_def)
qed

section \<open>The lines that are selected\<close>

definition lines_inv :: "cut_list list \<Rightarrow> nat \<Rightarrow> nat \<Rightarrow> int \<Rightarrow> bool" where
  "lines_inv cls n c l \<longleftrightarrow> (\<forall>j < length cls. j < c \<longrightarrow> (\<forall>i \<ge> n. \<not> in_list (cls ! j) i)) \<and> 0 \<le> l \<and>
     (c < length cls \<longrightarrow> in_list (cls ! c) (nat l) \<and> (l \<le> int n \<or> l = startpos (cls ! c)))"

lemma not_selected:
  assumes "lists_ok cls" "\<forall>j < length cls. j < c \<longrightarrow> (\<forall>i \<ge> n. \<not> in_list (cls ! j) i)"
    "c < length cls \<longrightarrow> int n < startpos (cls ! c)"
  shows "n \<notin> selected cls"
proof
  assume "n \<in> selected cls"
  then obtain j where j: "j < length cls" "in_list (cls ! j) n" by (auto simp: selected_def in_set_conv_nth)
  then have "c \<le> j" using assms(2) by (meson linorder_not_less order_refl)
  moreover from this have "startpos (cls ! c) \<le> startpos (cls ! j)"
    using assms(1) j(1) sorted_nth_mono [of "map startpos cls" c j] by (simp add: lists_ok_def)
  ultimately show False using assms(3) j by (auto simp: in_list_def)
qed

lemma lines_loop_selects:
  assumes "lists_ok cls" "lines_inv cls n c l" "c < length cls" "l \<le> int n"
  shows "case lines_loop cls (int n) c l of (c', l', p) \<Rightarrow> p = (n \<in> selected cls) \<and> lines_inv cls (n + 1) c' l'"
  using assms
proof (induction cls "int n" c l rule: lines_loop.induct)
  case (1 cls c l)
  note u = lines_loop.simps [of cls "int n" c l]
  have in_l: "0 \<le> l" "in_list (cls ! c) (nat l)" and done_lists: "\<forall>j < length cls. j < c \<longrightarrow> (\<forall>i \<ge> n. \<not> in_list (cls ! j) i)"
    using 1(4,5) by (auto simp: lines_inv_def)
  show ?case
  proof (cases "l < int n")
    case False
    then have "n \<in> selected cls" using in_l 1(5,6) by (auto simp: selected_def)
    moreover have "lines_loop cls (int n) c l = (c, l, True)" by (subst u) (use False in simp)
    ultimately show ?thesis using done_lists in_l 1(5,6) by (simp add: lines_inv_def)
  next
    case True
    show ?thesis
    proof (cases "endpos (cls ! c) = NON_RANGE \<or> endpos (cls ! c) < l + 1")
      case end_list: True
      then have "\<forall>i \<ge> n. \<not> in_list (cls ! c) i" using in_l True by (auto simp: in_list_def)
      then have d: "\<forall>j < length cls. j < c + 1 \<longrightarrow> (\<forall>i \<ge> n. \<not> in_list (cls ! j) i)" using done_lists by (auto simp: less_Suc_eq)
      show ?thesis
      proof (cases "c + 1 \<ge> length cls")
        case last: True
        have "n \<notin> selected cls" using not_selected [OF 1(3) d] last by simp
        with last d True end_list in_l 1(5) show ?thesis by (simp add: u lines_inv_def)
      next
        case more: False
        let ?l = "startpos (cls ! (c + 1))"
        have l: "0 \<le> ?l" "in_list (cls ! (c + 1)) (nat ?l)" using 1(3) more by (auto simp: lists_ok_def in_list_def)
        show ?thesis
        proof (cases "int n < ?l")
          case later: True
          have "n \<notin> selected cls" using not_selected [OF 1(3) d] later by simp
          with later more d l True end_list 1(5) show ?thesis by (simp add: u lines_inv_def)
        next
          case now: False
          have "lines_inv cls n (c + 1) ?l" using d l now by (simp add: lines_inv_def)
          with 1(1) [OF _ end_list more refl now 1(3) this] True now more end_list 1(5) show ?thesis by (simp add: u)
        qed
      qed
    next
      case more: False
      have "lines_inv cls n c (l + 1)" using more in_l True done_lists 1(5) by (auto simp: lines_inv_def in_list_def)
      with 1(2) [OF _ more 1(3) this 1(5)] True more 1(5) show ?thesis by (simp add: u)
    qed
  qed
qed

text \<open>Before the first line the static variable is still \<open>-1\<close>.\<close>

definition static_inv :: "cut_list list \<Rightarrow> nat \<Rightarrow> lines_state \<Rightarrow> bool" where
  "static_inv cls n st \<longleftrightarrow> ls_l st = - 1 \<and> ls_c st = 0 \<and> n = 0 \<or> lines_inv cls n (ls_c st) (ls_l st)"

lemma by_lines_selects:
  assumes "lists_ok cls" "cls \<noteq> []" "static_inv cls n st"
  shows "case cut_file_by_lines cls (int n) st of (st', p) \<Rightarrow> p = (n \<in> selected cls) \<and> static_inv cls (n + 1) st'"
proof -
  define l where "l = (if ls_l st = - 1 then startpos (cls ! ls_c st) else ls_l st)"
  have c0: "in_list (cls ! 0) (nat (startpos (cls ! 0)))" "0 \<le> startpos (cls ! 0)"
    using assms(1,2) by (auto simp: lists_ok_def in_list_def)
  have inv: "lines_inv cls n (ls_c st) l"
    using assms(3) c0 assms(2) by (auto simp: static_inv_def l_def lines_inv_def)
  show ?thesis
  proof (cases "ls_c st \<ge> length cls \<or> int n < l")
    case True
    have "ls_c st < length cls \<longrightarrow> int n < startpos (cls ! ls_c st)" using True inv by (auto simp: lines_inv_def)
    then have "n \<notin> selected cls" using not_selected [OF assms(1), of "ls_c st" n] inv by (auto simp: lines_inv_def)
    moreover have "lines_inv cls (n + 1) (ls_c st) l" using inv by (auto simp: lines_inv_def)
    ultimately show ?thesis using True by (simp add: cut_file_by_lines_def Let_def static_inv_def flip: l_def)
  next
    case False
    then show ?thesis
      using lines_loop_selects [OF assms(1) inv]
      by (auto simp: cut_file_by_lines_def Let_def static_inv_def simp flip: l_def split: prod.splits)
  qed
qed

section \<open>The program\<close>

function file_lines :: "bytes \<Rightarrow> bytes list" where
  "file_lines f = (case bb_get_chomped_line_from_file f of None \<Rightarrow> [] | Some (line, rest) \<Rightarrow> line # file_lines rest)"
  by pat_completeness auto
termination by (relation "measure length") (auto dest: chomped_line_shorter)

declare file_lines.simps [simp del]

definition line_numbers :: "nat \<Rightarrow> bytes list \<Rightarrow> (nat \<times> bytes) list" where
  "line_numbers n ls = zip [n..<n + length ls] ls"

lemma line_numbers_Cons: "line_numbers n (l # ls) = (n, l) # line_numbers (n + 1) ls"
  by (simp add: line_numbers_def upt_conv_Cons del: upt_Suc)

text \<open>A file is cut line by line, when each line has its result and the static variables keep an invariant.\<close>

lemma cut_file_lines:
  assumes "\<And>n line st. P n st \<Longrightarrow> line \<in> set (file_lines f) \<Longrightarrow> \<exists>st'. P (n + 1) st' \<and>
      (if cut_part conf AND (OPT_CHAR_FLGS OR OPT_BYTE_FLGS) \<noteq> 0
       then do { out \<leftarrow> cut_line_by_chars (cut_lists_of conf) line; Some (out, st) }
       else if cut_delim conf = 10
       then (case cut_file_by_lines (cut_lists_of conf) (int n) st of (st, p) \<Rightarrow> Some (if p then line @ [10] else [], st))
       else do { out \<leftarrow> cut_line_by_fields (cut_lists_of conf) (cut_delim conf) (cut_supress conf) line; Some (out, st) })
      = Some (g n line, st')" "P n st"
  shows "\<exists>st'. cut_file conf f (int n) st = Some (concat (map (\<lambda>(n, l). g n l) (line_numbers n (file_lines f))), st')"
  using assms
proof (induction f arbitrary: n st rule: file_lines.induct)
  case (1 f)
  note u = cut_file.simps [of conf f "int n" st] and v = file_lines.simps [of f]
  show ?case
  proof (cases "bb_get_chomped_line_from_file f")
    case None
    then show ?thesis by (simp add: u v line_numbers_def)
  next
    case (Some lr)
    obtain line rest where lr: "lr = (line, rest)" by (cases lr)
    have fl: "file_lines f = line # file_lines rest" using Some lr by (simp add: v)
    obtain st1 where "P (n + 1) st1" and s1: "(if cut_part conf AND (OPT_CHAR_FLGS OR OPT_BYTE_FLGS) \<noteq> 0
       then do { out \<leftarrow> cut_line_by_chars (cut_lists_of conf) line; Some (out, st) }
       else if cut_delim conf = 10
       then (case cut_file_by_lines (cut_lists_of conf) (int n) st of (st, p) \<Rightarrow> Some (if p then line @ [10] else [], st))
       else do { out \<leftarrow> cut_line_by_fields (cut_lists_of conf) (cut_delim conf) (cut_supress conf) line; Some (out, st) })
      = Some (g n line, st1)" using 1(2) [OF 1(3), of line] fl by auto
    from 1(1) [OF Some lr [symmetric] 1(2) \<open>P (n + 1) st1\<close>] fl obtain st' where
      "cut_file conf rest (int (n + 1)) st1 = Some (concat (map (\<lambda>(n, l). g n l) (line_numbers (n + 1) (file_lines rest))), st')"
      by auto
    then show ?thesis
      unfolding u Some lr option.case prod.case s1 Option.bind.simps by (simp add: fl line_numbers_Cons add.commute)
  qed
qed

text \<open>The text of a list of positions, counted from 1.\<close>

datatype cut_item = Pos nat | From nat | To nat | Span nat nat

fun item_string :: "cut_item \<Rightarrow> string" where
  "item_string (Pos n) = dstr n"
| "item_string (From n) = dstr n @ ''-''"
| "item_string (To n) = ''-'' @ dstr n"
| "item_string (Span n m) = dstr n @ ''-'' @ dstr m"

fun item_valid :: "cut_item \<Rightarrow> bool" where
  "item_valid (Pos n) \<longleftrightarrow> 1 \<le> n \<and> n < 2 ^ 31"
| "item_valid (From n) \<longleftrightarrow> 1 \<le> n \<and> n < 2 ^ 31"
| "item_valid (To n) \<longleftrightarrow> 1 \<le> n \<and> n < 2 ^ 31"
| "item_valid (Span n m) \<longleftrightarrow> 1 \<le> n \<and> n \<le> m \<and> m < 2 ^ 31"

fun covers :: "cut_item \<Rightarrow> nat \<Rightarrow> bool" where
  "covers (Pos n) i \<longleftrightarrow> i = n"
| "covers (From n) i \<longleftrightarrow> n \<le> i"
| "covers (To n) i \<longleftrightarrow> i \<le> n"
| "covers (Span n m) i \<longleftrightarrow> n \<le> i \<and> i \<le> m"

fun item_list :: "cut_item \<Rightarrow> cut_list" where
  "item_list (Pos n) = \<lparr>startpos = int n - 1, endpos = NON_RANGE\<rparr>"
| "item_list (From n) = \<lparr>startpos = int n - 1, endpos = EOL\<rparr>"
| "item_list (To n) = \<lparr>startpos = 0, endpos = (if n = 1 then NON_RANGE else int n - 1)\<rparr>"
| "item_list (Span n m) = \<lparr>startpos = int n - 1, endpos = (if n = m then NON_RANGE else int m - 1)\<rparr>"

lemma list_number_dstr: "n < 2 ^ 31 \<Longrightarrow> list_number (dstr n) = Inr (int n)"
proof -
  assume n: "n < 2 ^ 31"
  have "sint (word_of_nat n :: u32) = int n"
    using n by (simp add: sint_uint uint_nat unat_of_nat signed_take_bit_int_eq_self)
  then show ?thesis using scan_num_decimal [of "[]" n] n by (simp add: list_number_def strtoul_def)
qed

lemma dstr_no_char: "\<not> isdigit c \<Longrightarrow> c \<notin> set (dstr n)"
  using dstr_props [of n] by blast

lemma strsep_token: "d \<notin> set t \<Longrightarrow> strsep d (Some (t @ d # r)) = Some (t, Some r)" "d \<notin> set t \<Longrightarrow> strsep d (Some t) = Some (t, None)"
proof -
  assume "d \<notin> set t"
  then have "takeWhile (\<lambda>c. c \<noteq> d) (t @ d # r) = t" "takeWhile (\<lambda>c. c \<noteq> d) t = t" by (auto simp: takeWhile_append)
  then show "strsep d (Some (t @ d # r)) = Some (t, Some r)" "strsep d (Some t) = Some (t, None)"
    using \<open>d \<notin> set t\<close> by (simp_all add: strsep_def Let_def takeWhile_shorter)
qed

lemma parse_item: "item_valid it \<Longrightarrow> parse_list (item_string it) = Inr (item_list it)"
proof -
  assume v: "item_valid it"
  have m: "CHR ''-'' \<notin> set (dstr n)" for n by (rule dstr_no_char) (simp add: isdigit_def)
  note s = strsep_token [of "CHR ''-''", OF m] strsep_token [of "CHR ''-''" "[]", simplified] list_number_dstr dstr_start(1)
  show ?thesis using v
  proof (cases it)
    case (Span n k)
    then show ?thesis using v s(1) [of n "dstr k"] by (simp add: parse_list_def s NON_RANGE_def)
  next
    case (From n)
    then show ?thesis using v s(1) [of n "[]"] by (simp add: parse_list_def s)
  qed (auto simp: parse_list_def s BOL_def strsep_def [of _ None] NON_RANGE_def)
qed

lemma item_no_comma: "CHR '','' \<notin> set (item_string it)" "item_string it \<noteq> []"
proof -
  have "CHR '','' \<notin> set (dstr n)" for n by (rule dstr_no_char) (simp add: isdigit_def)
  then show "CHR '','' \<notin> set (item_string it)" "item_string it \<noteq> []" using dstr_start(1) by (cases it; simp)+
qed

lemma list_loop_items:
  assumes "\<forall>it \<in> set items. item_valid it" "items \<noteq> []"
  shows "list_loop (Some (join (CHR '','') (map item_string items))) acc = Inr (acc @ map item_list items)"
  using assms
proof (induction items arbitrary: acc)
  case (Cons it items)
  show ?case
  proof (cases items)
    case Nil
    then show ?thesis
      using Cons.prems strsep_token(2) [OF item_no_comma(1), of it] item_no_comma(2) [of it]
      by (simp add: list_loop.simps [of "Some _"] list_loop.simps [of None] strsep_def [of _ None] parse_item)
  next
    case c: (Cons it2 rest)
    have j: "join (CHR '','') (map item_string (it # items)) = item_string it @ CHR '','' # join (CHR '','') (map item_string items)"
      using c by simp
    have "list_loop (Some (join (CHR '','') (map item_string items))) (acc @ [item_list it])
        = Inr ((acc @ [item_list it]) @ map item_list items)"
      using Cons.prems c by (intro Cons.IH) auto
    then show ?thesis
      unfolding j using Cons.prems strsep_token(1) [OF item_no_comma(1), of it] item_no_comma(2) [of it]
      by (simp add: list_loop.simps [of "Some (item_string it @ _)"] parse_item)
  qed
qed simp

text \<open>What the C library promises of \<open>qsort\<close>: a sorted permutation.\<close>

definition qsort_ok :: "(cut_list list \<Rightarrow> cut_list list) \<Rightarrow> bool" where
  "qsort_ok qsort \<longleftrightarrow> (\<forall>cls. mset (qsort cls) = mset cls \<and> sorted (map startpos (qsort cls)))"

definition chosen :: "cut_item list \<Rightarrow> nat set" where
  "chosen items = {i. \<exists>it \<in> set items. covers it (i + 1)}"

lemma in_item: "item_valid it \<Longrightarrow> i < 2 ^ 31 - 1 \<Longrightarrow> in_list (item_list it) i \<longleftrightarrow> covers it (i + 1)"
  by (cases it) (auto simp: in_list_def NON_RANGE_def EOL_def)

lemma parse_items:
  assumes "qsort_ok qsort" "\<forall>it \<in> set items. item_valid it" "items \<noteq> []"
  obtains cls where "parse_lists qsort (join (CHR '','') (map item_string items)) = Inr cls" "lists_ok cls" "cls \<noteq> []"
    "\<And>i. i < 2 ^ 31 - 1 \<Longrightarrow> i \<in> selected cls \<longleftrightarrow> i \<in> chosen items"
proof -
  let ?cls = "qsort (map item_list items)"
  have m: "mset ?cls = mset (map item_list items)" and s: "sorted (map startpos ?cls)" using assms(1) by (auto simp: qsort_ok_def)
  from mset_eq_setD [OF m] have set: "set ?cls = item_list ` set items" by simp
  have start: "0 \<le> startpos (item_list it)" if "item_valid it" for it using that by (cases it) auto
  show thesis
  proof (rule that [of ?cls])
    show "parse_lists qsort (join (CHR '','') (map item_string items)) = Inr ?cls"
      using list_loop_items [OF assms(2,3), of "[]"] assms(3) by (simp add: parse_lists_def)
    show "lists_ok ?cls" using s set start assms(2) by (auto simp: lists_ok_def)
    show "?cls \<noteq> []" using m assms(3) by (metis Nil_is_map_conv mset_zero_iff)
    show "i \<in> selected ?cls \<longleftrightarrow> i \<in> chosen items" if "i < 2 ^ 31 - 1" for i
      using in_item [OF _ that] assms(2) by (auto simp: selected_def set chosen_def)
  qed
qed

lemma nths_agree: "(\<And>i. i < length xs \<Longrightarrow> i \<in> A \<longleftrightarrow> i \<in> B) \<Longrightarrow> nths xs A = nths xs B"
proof -
  assume *: "\<And>i. i < length xs \<Longrightarrow> i \<in> A \<longleftrightarrow> i \<in> B"
  have "filter (\<lambda>i. i \<in> A) [0..<length xs] = filter (\<lambda>i. i \<in> B) [0..<length xs]" by (rule filter_cong) (auto simp: *)
  then show ?thesis by (simp add: nths_upt)
qed

lemma concat_line_numbers: "concat (map (\<lambda>(n, l). g l) (line_numbers n ls)) = concat (map g ls)"
  by (induction ls arbitrary: n) (simp_all add: line_numbers_Cons, simp add: line_numbers_def)

text \<open>
  C26. With the option for characters or bytes, \<open>cut\<close> prints of every line the characters whose positions are in
  the list, each once and in the order of the line, whatever order and overlaps the list has.
\<close>

theorem cut_characters:
  assumes "qsort_ok qsort" "\<forall>it \<in> set items. item_valid it" "items \<noteq> []" "opt = OPT_CHAR_FLGS \<or> opt = OPT_BYTE_FLGS"
    "\<forall>l \<in> set (file_lines stdin). length l < 2 ^ 31"
  shows "cut_main qsort opt (join (CHR '','') (map item_string items)) sdopt [] stdin wfopen =
    Inr (concat (map (\<lambda>l. nths l (chosen items) @ [10]) (file_lines stdin)))"
proof -
  obtain cls where c: "parse_lists qsort (join (CHR '','') (map item_string items)) = Inr cls" "lists_ok cls"
    "\<And>i. i < 2 ^ 31 - 1 \<Longrightarrow> i \<in> selected cls \<longleftrightarrow> i \<in> chosen items"
    using parse_items [OF assms(1-3)] by metis
  let ?conf = "\<lparr>cut_lists_of = cls, cut_part = opt, cut_delim = 9, cut_supress = False\<rparr>"
  have "nths l (selected cls) = nths l (chosen items)" if "l \<in> set (file_lines stdin)" for l
    by (rule nths_agree) (use c(3) that assms(5) in force)
  moreover have "opt AND (OPT_CHAR_FLGS OR OPT_BYTE_FLGS) \<noteq> 0" using assms(4) by (auto simp: cut_flag_defs)
  ultimately have "\<exists>st'. cut_file ?conf stdin (int 0) \<lparr>ls_c = 0, ls_l = - 1\<rparr> =
      Some (concat (map (\<lambda>(n, l). nths l (chosen items) @ [10]) (line_numbers 0 (file_lines stdin))), st')"
    using cut_chars_selected [OF c(2)] by (intro cut_file_lines [where P = "\<lambda>_ _. True"]) auto
  then show ?thesis
    using c(1) assms(4) by (auto simp: cut_main_def cut_flag_defs concat_line_numbers)
qed

definition field_opts :: "bool \<Rightarrow> u32" where
  "field_opts quiet = OPT_FIELDS_FLGS OR OPT_DELIM_FLGS OR (if quiet then OPT_SUPRESS_FLGS else 0)"


lemma numbered_lines:
  "concat (map (\<lambda>(n, l). if n \<in> S then l @ [10] else []) (line_numbers n ls)) = concat (map (\<lambda>l. l @ [10]) (nths ls {i. i + n \<in> S}))"
proof (induction ls arbitrary: n)
  case (Cons l ls)
  have "{j. Suc j \<in> {i. i + n \<in> S}} = {i. i + (n + 1) \<in> S}" by auto
  with Cons show ?case by (auto simp: line_numbers_Cons nths_Cons)
qed (simp add: line_numbers_def)

text \<open>With a newline as the delimiter, whole lines of the input are selected.\<close>

lemma cut_lines:
  assumes "qsort_ok qsort" "\<forall>it \<in> set items. item_valid it" "items \<noteq> []" "length (file_lines stdin) < 2 ^ 31"
  shows "cut_main qsort (field_opts False) (join (CHR '','') (map item_string items)) [10] [] stdin wfopen =
    Inr (concat (map (\<lambda>l. l @ [10]) (nths (file_lines stdin) (chosen items))))"
proof -
  obtain cls where c: "parse_lists qsort (join (CHR '','') (map item_string items)) = Inr cls" "lists_ok cls" "cls \<noteq> []"
    "\<And>i. i < 2 ^ 31 - 1 \<Longrightarrow> i \<in> selected cls \<longleftrightarrow> i \<in> chosen items"
    using parse_items [OF assms(1-3)] by metis
  let ?conf = "\<lparr>cut_lists_of = cls, cut_part = OPT_FIELDS_FLGS, cut_delim = 10, cut_supress = False\<rparr>"
  have "OPT_FIELDS_FLGS AND (OPT_CHAR_FLGS OR OPT_BYTE_FLGS) = 0" by (simp add: cut_flag_defs)
  then have "\<exists>st'. cut_file ?conf stdin (int 0) \<lparr>ls_c = 0, ls_l = - 1\<rparr> =
      Some (concat (map (\<lambda>(n, l). if n \<in> selected cls then l @ [10] else []) (line_numbers 0 (file_lines stdin))), st')"
  proof (intro cut_file_lines [where P = "static_inv cls"], goal_cases)
    case (1 n line st)
    then show ?case using by_lines_selects [OF c(2,3), of n st] by (auto split: prod.splits)
  next
    case 2
    then show ?case by (simp add: static_inv_def)
  qed
  moreover have "nths (file_lines stdin) (selected cls) = nths (file_lines stdin) (chosen items)"
    using assms(4) by (intro nths_agree c(4)) simp
  moreover have "field_opts False AND (OPT_BYTE_FLGS OR OPT_CHAR_FLGS OR OPT_FIELDS_FLGS) = OPT_FIELDS_FLGS"
    "field_opts False AND BB_GETOPT_ERROR = 0" "field_opts False AND OPT_DELIM_FLGS \<noteq> 0"
    "field_opts False AND OPT_SUPRESS_FLGS = 0" "OPT_FIELDS_FLGS \<noteq> 0"
    by (simp_all add: field_opts_def cut_flag_defs)
  ultimately show ?thesis using c(1) numbered_lines [of "selected cls" 0] by (auto simp: cut_main_def)
qed

text \<open>
  C40. A line of delimiters only has one field more than characters: when its last field is selected, the
  array of the printed fields is accessed behind its end.
\<close>

theorem cut_delimiters_overrun:
  assumes "0 < n" "d \<noteq> 0"
  shows "cut_line_by_fields [\<lparr>startpos = int n, endpos = NON_RANGE\<rparr>] d quiet (replicate n d) = None"
proof -
  let ?line = "replicate n d"
  let ?s = "\<lparr>fs_line = Some ?line, ndelim = - 1, nfields_printed = 0, fs_field = None,
    fs_printed = replicate (length ?line) False, fs_out = []\<rparr>"
  have N: "length (split_fields d ?line) = n + 1" by (simp add: length_fields)
  have "fstate d ?line 0 {} ?s" by (simp add: fstate_def marks_def map_replicate_const)
  from find_field_state [OF this, of "int n"] N have "fstate d ?line (n + 1) {} (find_field d (int n) ?s)" by simp
  then have "print_field d (int n) (find_field d (int n) ?s) = None"
    by (simp add: print_field_def fstate_def marks_simps rd_def)
  then have "fields_loop d NON_RANGE (int n) ?s = None" by (simp add: fields_loop.simps [of d NON_RANGE "int n"])
  then show ?thesis using assms by (simp add: cut_line_by_fields_def)
qed

section \<open>Examples\<close>

lemma sort_key_ok: "qsort_ok (sort_key startpos)"
  by (simp add: qsort_ok_def)

lemma example_lines: "file_lines [97, 58, 99, 10] = [[97, 58, 99]]" by code_simp

theorem cut_characters_witness:
  "cut_main (sort_key startpos) OPT_CHAR_FLGS ''3,2-3'' [] [] [97, 58, 99, 10] (\<lambda>_. None) = Inr [58, 99, 10]"
proof -
  have "join (CHR '','') (map item_string [Pos 3, Span 2 3]) = ''3,2-3''" by code_simp
  then show ?thesis
    using cut_characters [OF sort_key_ok, of "[Pos 3, Span 2 3]" OPT_CHAR_FLGS "[97, 58, 99, 10]" "[]" "\<lambda>_. None"]
    by (simp add: example_lines chosen_def nths_Cons)
qed


theorem cut_delimiters_overrun_witness: "cut_line_by_fields [\<lparr>startpos = 1, endpos = NON_RANGE\<rparr>] 58 False [58] = None"
  using cut_delimiters_overrun [of 1 58 False] by simp

end
