(* ===== verification/Test_Cmd.thy ===== *)
theory Test_Cmd
  imports Xgetularg
begin

text \<open>
  The applets \<open>test\<close>, \<open>[\<close> and \<open>[[\<close> (\<open>coreutils/test.c\<close>), also built into the shells. The parser evaluates while
  it walks over the argument vector with the global pointers \<open>t_wp\<close>, here an index, and \<open>t_wp_op\<close>. An access behind
  the null pointer that ends the vector is the error \<open>Out_of_bounds\<close>; a call of \<open>syntax()\<close>, which jumps out
  of the evaluation, is the error \<open>Syntax\<close>. The answers of the kernel are a parameter. An \<open>arith_t\<close> is an
  \<open>int\<close> (the configuration without \<open>CONFIG_FEATURE_TEST_64\<close>), as wide as a \<open>long\<close>. Results are used as
  truth values only.
\<close>

section \<open>Tokens\<close>

datatype token = EOI | FILRD | FILWR | FILEX | FILEXIST | FILREG | FILDIR | FILCDEV | FILBDEV | FILFIFO | FILSOCK
  | FILSYM | FILGZ | FILTT | FILSUID | FILSGID | FILSTCK | FILNT | FILOT | FILEQ | FILUID | FILGID | STREZ | STRNZ
  | STREQ | STRNE | STRLT | STRGT | INTEQ | INTNE | INTGE | INTGT | INTLE | INTLT | UNOT | BAND | BOR | LPAREN
  | RPAREN | OPERAND

datatype token_types = UNOP | BINOP | BUNOP | BBINOP | PAREN

record t_op =
  op_text :: string
  op_num :: token
  op_type :: token_types

abbreviation opd :: "string \<Rightarrow> token \<Rightarrow> token_types \<Rightarrow> t_op" where
  "opd s n t \<equiv> \<lparr>op_text = s, op_num = n, op_type = t\<rparr>"

definition ops :: "t_op list" where
  "ops =
     [opd ''-r'' FILRD UNOP, opd ''-w'' FILWR UNOP, opd ''-x'' FILEX UNOP, opd ''-e'' FILEXIST UNOP,
      opd ''-f'' FILREG UNOP, opd ''-d'' FILDIR UNOP, opd ''-c'' FILCDEV UNOP, opd ''-b'' FILBDEV UNOP,
      opd ''-p'' FILFIFO UNOP, opd ''-u'' FILSUID UNOP, opd ''-g'' FILSGID UNOP, opd ''-k'' FILSTCK UNOP,
      opd ''-s'' FILGZ UNOP, opd ''-t'' FILTT UNOP, opd ''-z'' STREZ UNOP, opd ''-n'' STRNZ UNOP,
      opd ''-h'' FILSYM UNOP, opd ''-O'' FILUID UNOP, opd ''-G'' FILGID UNOP, opd ''-L'' FILSYM UNOP,
      opd ''-S'' FILSOCK UNOP, opd ''='' STREQ BINOP, opd ''=='' STREQ BINOP, opd ''!='' STRNE BINOP,
      opd ''<'' STRLT BINOP, opd ''>'' STRGT BINOP, opd ''-eq'' INTEQ BINOP, opd ''-ne'' INTNE BINOP,
      opd ''-ge'' INTGE BINOP, opd ''-gt'' INTGT BINOP, opd ''-le'' INTLE BINOP, opd ''-lt'' INTLT BINOP,
      opd ''-nt'' FILNT BINOP, opd ''-ot'' FILOT BINOP, opd ''-ef'' FILEQ BINOP, opd ''!'' UNOT BUNOP,
      opd ''-a'' BAND BBINOP, opd ''-o'' BOR BBINOP, opd ''('' LPAREN PAREN, opd '')'' RPAREN PAREN]"

text \<open>The token of a word and the entry of the table, the new value of \<open>t_wp_op\<close>; \<open>None\<close> is the null pointer.\<close>

definition t_lex :: "string option \<Rightarrow> token \<times> t_op option" where
  "t_lex s =
     (case s of
        None \<Rightarrow> (EOI, None)
      | Some s \<Rightarrow>
          (case find (\<lambda>op. op_text op = s) ops of
             Some op \<Rightarrow> (op_num op, Some op)
           | None \<Rightarrow> (OPERAND, None)))"

definition is_type :: "token_types \<Rightarrow> t_op option \<Rightarrow> bool" where
  "is_type ty op = (case op of None \<Rightarrow> False | Some op \<Rightarrow> op_type op = ty)"

section \<open>Files\<close>

type_synonym mode_t = u32

record stat_buf =
  st_dev :: nat
  st_ino :: nat
  st_mode :: mode_t
  st_uid :: u32
  st_gid :: u32
  st_size :: int
  st_mtime :: int

text \<open>The kernel; \<open>None\<close> is an error return.\<close>

record kernel =
  stat :: "string \<Rightarrow> stat_buf option"
  lstat :: "string \<Rightarrow> stat_buf option"
  isatty :: "int \<Rightarrow> bool"
  geteuid :: u32
  getgid :: u32
  getegid :: u32
  getgroups :: "u32 list option"

text \<open>The global variables.\<close>

record test_state =
  t_wp :: nat
  t_wp_op :: "t_op option"
  ngroups :: int
  group_array :: "u32 list"

definition S_IFMT :: mode_t where "S_IFMT = 0xF000"
definition S_IFSOCK :: mode_t where "S_IFSOCK = 0xC000"
definition S_IFLNK :: mode_t where "S_IFLNK = 0xA000"
definition S_IFREG :: mode_t where "S_IFREG = 0x8000"
definition S_IFBLK :: mode_t where "S_IFBLK = 0x6000"
definition S_IFDIR :: mode_t where "S_IFDIR = 0x4000"
definition S_IFCHR :: mode_t where "S_IFCHR = 0x2000"
definition S_IFIFO :: mode_t where "S_IFIFO = 0x1000"
definition S_ISUID :: mode_t where "S_ISUID = 0x800"
definition S_ISGID :: mode_t where "S_ISGID = 0x400"
definition S_ISVTX :: mode_t where "S_ISVTX = 0x200"
definition R_OK :: mode_t where "R_OK = 4"
definition W_OK :: mode_t where "W_OK = 2"
definition X_OK :: mode_t where "X_OK = 1"

definition newerf :: "kernel \<Rightarrow> string \<Rightarrow> string \<Rightarrow> bool" where
  "newerf K f1 f2 = (case (stat K f1, stat K f2) of (Some b1, Some b2) \<Rightarrow> st_mtime b2 < st_mtime b1 | _ \<Rightarrow> False)"

definition olderf :: "kernel \<Rightarrow> string \<Rightarrow> string \<Rightarrow> bool" where
  "olderf K f1 f2 = (case (stat K f1, stat K f2) of (Some b1, Some b2) \<Rightarrow> st_mtime b1 < st_mtime b2 | _ \<Rightarrow> False)"

definition equalf :: "kernel \<Rightarrow> string \<Rightarrow> string \<Rightarrow> bool" where
  "equalf K f1 f2 =
     (case (stat K f1, stat K f2) of
        (Some b1, Some b2) \<Rightarrow> st_dev b1 = st_dev b2 \<and> st_ino b1 = st_ino b2
      | _ \<Rightarrow> False)"

definition initialize_group_array :: "kernel \<Rightarrow> test_state \<Rightarrow> test_state" where
  "initialize_group_array K s =
     (case getgroups K of
        None \<Rightarrow> s\<lparr>ngroups := - 1\<rparr>
      | Some gs \<Rightarrow>
          let s = s\<lparr>ngroups := int (length gs)\<rparr>
          in if gs \<noteq> [] then s\<lparr>group_array := gs\<rparr> else s)"

definition is_a_group_member :: "kernel \<Rightarrow> u32 \<Rightarrow> test_state \<Rightarrow> bool \<times> test_state" where
  "is_a_group_member K gid s =
     (if gid = getgid K \<or> gid = getegid K then (True, s)
      else let s = (if ngroups s = 0 then initialize_group_array K s else s)
           in (gid \<in> set (take (nat (ngroups s)) (group_array s)), s))"

text \<open>The first component is true when the C function returns 0.\<close>

definition test_eaccess :: "kernel \<Rightarrow> string \<Rightarrow> mode_t \<Rightarrow> test_state \<Rightarrow> bool \<times> test_state" where
  "test_eaccess K path mode s =
     (case stat K path of
        None \<Rightarrow> (False, s)
      | Some st \<Rightarrow>
          if geteuid K = 0 \<and> (mode \<noteq> X_OK \<or> st_mode st AND 0x49 \<noteq> 0) then (True, s)
          else
            let (mode, s) =
              (if st_uid st = geteuid K then (push_bit 6 mode, s)
               else case is_a_group_member K (st_gid st) s of
                      (m, s) \<Rightarrow> (if m then push_bit 3 mode else mode, s))
            in (st_mode st AND mode \<noteq> 0, s))"

definition filetype :: "stat_buf \<Rightarrow> mode_t \<Rightarrow> bool" where
  "filetype st i \<longleftrightarrow> st_mode st AND S_IFMT = i"

definition filebit :: "stat_buf \<Rightarrow> mode_t \<Rightarrow> bool" where
  "filebit st i \<longleftrightarrow> st_mode st AND i \<noteq> 0"

definition filstat :: "kernel \<Rightarrow> string \<Rightarrow> token \<Rightarrow> test_state \<Rightarrow> bool \<times> test_state" where
  "filstat K nm mode s =
     (if mode = FILSYM then (case lstat K nm of Some st \<Rightarrow> filetype st S_IFLNK | None \<Rightarrow> False, s)
      else case stat K nm of
        None \<Rightarrow> (False, s)
      | Some st \<Rightarrow>
          (case mode of
             FILRD \<Rightarrow> test_eaccess K nm R_OK s
           | FILWR \<Rightarrow> test_eaccess K nm W_OK s
           | FILEX \<Rightarrow> test_eaccess K nm X_OK s
           | FILEXIST \<Rightarrow> (True, s)
           | FILREG \<Rightarrow> (filetype st S_IFREG, s)
           | FILDIR \<Rightarrow> (filetype st S_IFDIR, s)
           | FILCDEV \<Rightarrow> (filetype st S_IFCHR, s)
           | FILBDEV \<Rightarrow> (filetype st S_IFBLK, s)
           | FILFIFO \<Rightarrow> (filetype st S_IFIFO, s)
           | FILSOCK \<Rightarrow> (filetype st S_IFSOCK, s)
           | FILSUID \<Rightarrow> (filebit st S_ISUID, s)
           | FILSGID \<Rightarrow> (filebit st S_ISGID, s)
           | FILSTCK \<Rightarrow> (filebit st S_ISVTX, s)
           | FILGZ \<Rightarrow> (0 < st_size st, s)
           | FILUID \<Rightarrow> (st_uid st = geteuid K, s)
           | FILGID \<Rightarrow> (st_gid st = getegid K, s)
           | _ \<Rightarrow> (True, s)))"
section \<open>The parser\<close>

datatype test_error = Syntax string | Out_of_bounds

type_synonym 'a test_result = "test_error + 'a"

definition syntax_error :: "string option \<Rightarrow> string \<Rightarrow> 'a test_result" where
  "syntax_error op msg =
     Inl (Syntax (case op of None \<Rightarrow> msg | Some op \<Rightarrow> if op \<noteq> '''' then op @ '': '' @ msg else msg))"

text \<open>\<open>strtol\<close> sets \<open>errno\<close> when the number does not fit into a \<open>long\<close>.\<close>

definition strtol_erange :: "string \<Rightarrow> bool" where
  "strtol_erange s =
     (case scan_num 10 s of None \<Rightarrow> False | Some (neg, v, rest) \<Rightarrow> if neg then 2 ^ 31 < v else 2 ^ 31 \<le> v)"

definition skip_whitespace :: "string \<Rightarrow> string" where
  "skip_whitespace s = dropWhile isspace s"

definition getn :: "string \<Rightarrow> int test_result" where
  "getn s =
     (case strtol 10 s of (r, p) \<Rightarrow>
        if strtol_erange s then syntax_error (Some s) ''out of range''
        else if skip_whitespace p \<noteq> '''' then syntax_error (Some s) ''bad number''
        else Inr r)"

text \<open>The pointer at an index of the argument vector, and the string there, where a null pointer would fault.\<close>

definition word_at :: "string list \<Rightarrow> nat \<Rightarrow> string option test_result" where
  "word_at argv i =
     (if i < length argv then Inr (Some (argv ! i)) else if i = length argv then Inr None else Inl Out_of_bounds)"

definition string_at :: "string list \<Rightarrow> nat \<Rightarrow> string test_result" where
  "string_at argv i = (if i < length argv then Inr (argv ! i) else Inl Out_of_bounds)"

text \<open>\<open>t_lex(*++t_wp)\<close>\<close>

definition lex_next :: "string list \<Rightarrow> test_state \<Rightarrow> (token \<times> test_state) test_result" where
  "lex_next argv s =
     bind_res (word_at argv (t_wp s + 1)) (\<lambda>w.
       Inr (fst (t_lex w), s\<lparr>t_wp := t_wp s + 1, t_wp_op := snd (t_lex w)\<rparr>))"

text \<open>Both numbers are read, the left one first (C leaves the order open, which decides only about the message).\<close>

definition compare_ints :: "(int \<Rightarrow> int \<Rightarrow> bool) \<Rightarrow> string \<Rightarrow> string \<Rightarrow> bool test_result" where
  "compare_ints f opnd1 opnd2 = bind_res (getn opnd1) (\<lambda>i. bind_res (getn opnd2) (\<lambda>j. Inr (f i j)))"

definition binop_value :: "kernel \<Rightarrow> token \<Rightarrow> string \<Rightarrow> string \<Rightarrow> bool test_result" where
  "binop_value K op opnd1 opnd2 =
     (case op of
        STREQ \<Rightarrow> Inr (strcmp_sign opnd1 opnd2 = 0)
      | STRNE \<Rightarrow> Inr (strcmp_sign opnd1 opnd2 \<noteq> 0)
      | STRLT \<Rightarrow> Inr (strcmp_sign opnd1 opnd2 < 0)
      | STRGT \<Rightarrow> Inr (strcmp_sign opnd1 opnd2 > 0)
      | INTEQ \<Rightarrow> compare_ints (=) opnd1 opnd2
      | INTNE \<Rightarrow> compare_ints (\<noteq>) opnd1 opnd2
      | INTGE \<Rightarrow> compare_ints (\<ge>) opnd1 opnd2
      | INTGT \<Rightarrow> compare_ints (>) opnd1 opnd2
      | INTLE \<Rightarrow> compare_ints (\<le>) opnd1 opnd2
      | INTLT \<Rightarrow> compare_ints (<) opnd1 opnd2
      | FILNT \<Rightarrow> Inr (newerf K opnd1 opnd2)
      | FILOT \<Rightarrow> Inr (olderf K opnd1 opnd2)
      | FILEQ \<Rightarrow> Inr (equalf K opnd1 opnd2)
      | _ \<Rightarrow> Inr True)"

text \<open>The operator is a null pointer when the word is not in the table: \<open>op->op_text\<close> would fault.\<close>

definition binop :: "kernel \<Rightarrow> string list \<Rightarrow> test_state \<Rightarrow> (bool \<times> test_state) test_result" where
  "binop K argv s =
     bind_res (string_at argv (t_wp s)) (\<lambda>opnd1.
     bind_res (lex_next argv s) (\<lambda>(_, s).
     bind_res (word_at argv (t_wp s + 1)) (\<lambda>opnd2.
       (case t_wp_op s of
          None \<Rightarrow> Inl Out_of_bounds
        | Some op \<Rightarrow>
            (case opnd2 of
               None \<Rightarrow> syntax_error (Some (op_text op)) ''argument expected''
             | Some opnd2 \<Rightarrow>
                 bind_res (binop_value K (op_num op) opnd1 opnd2) (\<lambda>v. Inr (v, s\<lparr>t_wp := t_wp s + 1\<rparr>)))))))"

definition unop_value :: "kernel \<Rightarrow> token \<Rightarrow> string \<Rightarrow> test_state \<Rightarrow> (bool \<times> test_state) test_result" where
  "unop_value K n w s =
     (case n of
        STREZ \<Rightarrow> Inr (length w = 0, s)
      | STRNZ \<Rightarrow> Inr (length w \<noteq> 0, s)
      | FILTT \<Rightarrow> bind_res (getn w) (\<lambda>fd. Inr (isatty K fd, s))
      | _ \<Rightarrow> Inr (filstat K w n s))"

function (sequential) oexpr :: "kernel \<Rightarrow> string list \<Rightarrow> token \<Rightarrow> test_state \<Rightarrow> (bool \<times> test_state) test_result"
  and aexpr :: "kernel \<Rightarrow> string list \<Rightarrow> token \<Rightarrow> test_state \<Rightarrow> (bool \<times> test_state) test_result"
  and nexpr :: "kernel \<Rightarrow> string list \<Rightarrow> token \<Rightarrow> test_state \<Rightarrow> (bool \<times> test_state) test_result"
  and primary :: "kernel \<Rightarrow> string list \<Rightarrow> token \<Rightarrow> test_state \<Rightarrow> (bool \<times> test_state) test_result"
where
  "oexpr K argv n s =
     bind_res (aexpr K argv n s) (\<lambda>(res, s).
     bind_res (lex_next argv s) (\<lambda>(m, s).
       if m = BOR then
         bind_res (lex_next argv s) (\<lambda>(m, s).
         bind_res (oexpr K argv m s) (\<lambda>(r, s). Inr (r \<or> res, s)))
       else Inr (res, s\<lparr>t_wp := t_wp s - 1\<rparr>)))"
| "aexpr K argv n s =
     bind_res (nexpr K argv n s) (\<lambda>(res, s).
     bind_res (lex_next argv s) (\<lambda>(m, s).
       if m = BAND then
         bind_res (lex_next argv s) (\<lambda>(m, s).
         bind_res (aexpr K argv m s) (\<lambda>(r, s). Inr (r \<and> res, s)))
       else Inr (res, s\<lparr>t_wp := t_wp s - 1\<rparr>)))"
| "nexpr K argv n s =
     (if n = UNOT then
        bind_res (lex_next argv s) (\<lambda>(m, s).
        bind_res (nexpr K argv m s) (\<lambda>(r, s). Inr (\<not> r, s)))
      else primary K argv n s)"
| "primary K argv n s =
     (if n = EOI then syntax_error None ''argument expected''
      else if n = LPAREN then
        bind_res (lex_next argv s) (\<lambda>(m, s).
        bind_res (oexpr K argv m s) (\<lambda>(res, s).
        bind_res (lex_next argv s) (\<lambda>(m, s).
          if m \<noteq> RPAREN then syntax_error None ''closing paren expected'' else Inr (res, s))))
      else if is_type UNOP (t_wp_op s) then
        bind_res (word_at argv (t_wp s + 1)) (\<lambda>w.
          (case w of
             None \<Rightarrow> syntax_error (map_option op_text (t_wp_op s)) ''argument expected''
           | Some w \<Rightarrow> unop_value K n w (s\<lparr>t_wp := t_wp s + 1\<rparr>)))
      else
        bind_res (word_at argv (t_wp s + 1)) (\<lambda>w.
          let s = s\<lparr>t_wp_op := snd (t_lex w)\<rparr>
          in if is_type BINOP (t_wp_op s) then binop K argv s
             else bind_res (string_at argv (t_wp s)) (\<lambda>w. Inr (0 < length w, s))))"
  by pat_completeness auto

text \<open>The file tests keep the pointers; only the list of the groups may be filled.\<close>

lemma filstat_pointers [simp]: "t_wp (snd (filstat K nm mode s)) = t_wp s" "t_wp_op (snd (filstat K nm mode s)) = t_wp_op s"
  by (auto simp: filstat_def test_eaccess_def is_a_group_member_def initialize_group_array_def Let_def
    split: option.split prod.split token.split if_split)

lemma lex_next_Inr:
  "lex_next argv s = Inr (m, s') \<longleftrightarrow>
     t_wp s < length argv \<and>
     (\<exists>w. word_at argv (t_wp s + 1) = Inr w \<and> m = fst (t_lex w) \<and> s' = s\<lparr>t_wp := t_wp s + 1, t_wp_op := snd (t_lex w)\<rparr>)"
  by (auto simp: lex_next_def bind_res_eq_Inr word_at_def)

lemma lex_next_pointers: "lex_next argv s = Inr (m, s') \<Longrightarrow> t_wp s' = t_wp s + 1 \<and> t_wp s' \<le> length argv"
  by (auto simp: lex_next_Inr)

lemma unop_value_pointers: "unop_value K n w s = Inr (v, s') \<Longrightarrow> t_wp s' = t_wp s"
  by (auto simp: unop_value_def bind_res_eq_Inr syntax_error_def getn_def split: token.splits if_splits prod.splits
    dest!: arg_cong [where f = "\<lambda>x. t_wp (snd x)"])

lemma binop_eq:
  "binop K argv s =
     (if t_wp s + 1 < length argv then
        (case snd (t_lex (Some (argv ! (t_wp s + 1)))) of
           None \<Rightarrow> Inl Out_of_bounds
         | Some op \<Rightarrow>
             if t_wp s + 2 < length argv then
               bind_res (binop_value K (op_num op) (argv ! t_wp s) (argv ! (t_wp s + 2)))
                 (\<lambda>v. Inr (v, s\<lparr>t_wp_op := Some op, t_wp := t_wp s + 2\<rparr>))
             else syntax_error (Some (op_text op)) ''argument expected'')
      else Inl Out_of_bounds)"
  by (auto simp: binop_def lex_next_def string_at_def word_at_def numeral_2_eq_2 split: option.split)

lemma binop_pointers: "binop K argv s = Inr (v, s') \<Longrightarrow> t_wp s' = t_wp s + 2 \<and> t_wp s' < length argv"
  by (auto simp: binop_eq bind_res_eq_Inr syntax_error_def split: option.split_asm if_split_asm)

abbreviation oexpr_terminates where "oexpr_terminates \<equiv> oexpr_aexpr_nexpr_primary_dom"

lemmas oexpr_psimps = oexpr.psimps aexpr.psimps nexpr.psimps primary.psimps

text \<open>Every function moves the pointer forward, to a word of the vector when it starts at one or at its end.\<close>

lemma oexpr_moves_terminating:
  "oexpr_terminates (Inl (Inl (K, argv, n, s))) \<Longrightarrow> oexpr K argv n s = Inr (v, s') \<Longrightarrow> t_wp s \<le> t_wp s'"
  "oexpr_terminates (Inl (Inr (K, argv, n, s))) \<Longrightarrow> aexpr K argv n s = Inr (v, s') \<Longrightarrow> t_wp s \<le> t_wp s'"
  "oexpr_terminates (Inr (Inl (K, argv, n, s))) \<Longrightarrow> nexpr K argv n s = Inr (v, s') \<Longrightarrow> t_wp s \<le> t_wp s'"
  "oexpr_terminates (Inr (Inr (K, argv, n, s))) \<Longrightarrow> primary K argv n s = Inr (v, s') \<Longrightarrow> t_wp s \<le> t_wp s'"
proof (induction K argv n s and K argv n s and K argv n s and K argv n s
    arbitrary: v s' and v s' and v s' and v s' rule: oexpr_aexpr_nexpr_primary.pinduct)
  case (1 K argv n s)
  then show ?case by (fastforce simp: oexpr_psimps bind_res_eq_Inr split: if_splits dest: lex_next_pointers)
next
  case (2 K argv n s)
  then show ?case by (fastforce simp: oexpr_psimps bind_res_eq_Inr split: if_splits dest: lex_next_pointers)
next
  case (3 K argv n s)
  then show ?case by (fastforce simp: oexpr_psimps bind_res_eq_Inr split: if_splits dest: lex_next_pointers)
next
  case (4 K argv n s)
  then show ?case
    by (fastforce simp: oexpr_psimps bind_res_eq_Inr Let_def syntax_error_def split: if_splits option.splits
      dest: lex_next_pointers unop_value_pointers binop_pointers)
qed

definition oexpr_measure where
  "oexpr_measure =
     case_sum
       (case_sum (\<lambda>(_ :: kernel, argv :: string list, _ :: token, s :: test_state). 4 * (length argv + 1 - t_wp s) + 3)
         (\<lambda>(_ :: kernel, argv :: string list, _ :: token, s :: test_state). 4 * (length argv + 1 - t_wp s) + 2))
       (case_sum (\<lambda>(_ :: kernel, argv :: string list, _ :: token, s :: test_state). 4 * (length argv + 1 - t_wp s) + 1)
         (\<lambda>(_ :: kernel, argv :: string list, _ :: token, s :: test_state). 4 * (length argv + 1 - t_wp s)))"

lemma oexpr_all_terminate: "All oexpr_terminates"
  by (relation "measure oexpr_measure", simp_all add: oexpr_measure_def)
    (fastforce dest!: lex_next_pointers oexpr_moves_terminating)+

termination oexpr
  by (rule oexpr_all_terminate)

lemmas oexpr_simps = oexpr.simps aexpr.simps nexpr.simps primary.simps

declare oexpr_simps [simp del]

section \<open>The applet\<close>

text \<open>The exit status and the messages; \<open>None\<close> is an access outside of the argument vector.\<close>

definition leave :: "(int \<times> string list) test_result \<Rightarrow> (int \<times> string list) option" where
  "leave r = (case r of Inr x \<Rightarrow> Some x | Inl (Syntax msg) \<Rightarrow> Some (2, [msg]) | Inl Out_of_bounds \<Rightarrow> None)"

definition test_general :: "kernel \<Rightarrow> string list \<Rightarrow> test_state \<Rightarrow> (int \<times> string list) test_result" where
  "test_general K argv s =
     (let s = s\<lparr>t_wp := 1\<rparr> in
      bind_res (word_at argv 1) (\<lambda>w.
      bind_res (oexpr K argv (fst (t_lex w)) (s\<lparr>t_wp_op := snd (t_lex w)\<rparr>)) (\<lambda>(v, s).
      bind_res (word_at argv (t_wp s)) (\<lambda>w.
        if w = None then Inr (of_bool (\<not> v), [])
        else bind_res (word_at argv (t_wp s + 1)) (\<lambda>w.
          (case w of
             Some w \<Rightarrow> Inr (2, [w @ '': unknown operand''])
           | None \<Rightarrow> Inr (of_bool (\<not> v), [])))))))"

text \<open>The special cases for up to four arguments; the second component of \<open>t_lex\<close> is the new \<open>t_wp_op\<close>.\<close>

definition test_args :: "kernel \<Rightarrow> string list \<Rightarrow> test_state \<Rightarrow> (int \<times> string list) test_result" where
  "test_args K argv s =
     (let s = s\<lparr>ngroups := 0\<rparr>; argc = length argv in
      if argc = 1 then Inr (1, [])
      else if argc = 2 then Inr (of_bool (argv ! 1 = ''''), [])
      else if argc = 3 \<and> argv ! 1 = ''!'' then Inr (of_bool (argv ! 2 \<noteq> ''''), [])
      else if argc = 4 \<and> argv ! 1 \<noteq> ''!'' \<and> is_type BINOP (snd (t_lex (Some (argv ! 2)))) then
        bind_res (binop K argv (s\<lparr>t_wp := 1, t_wp_op := snd (t_lex (Some (argv ! 2)))\<rparr>)) (\<lambda>(v, s). Inr (of_bool (\<not> v), []))
      else if argc = 5 \<and> argv ! 1 = ''!'' \<and> is_type BINOP (snd (t_lex (Some (argv ! 3)))) then
        bind_res (binop K argv (s\<lparr>t_wp := 2, t_wp_op := snd (t_lex (Some (argv ! 3)))\<rparr>)) (\<lambda>(v, s). Inr (of_bool v, []))
      else
        let s = (if argc = 4 \<and> argv ! 1 \<noteq> ''!'' then s\<lparr>t_wp_op := snd (t_lex (Some (argv ! 2)))\<rparr>
                 else if argc = 5 \<and> argv ! 1 = ''!'' then s\<lparr>t_wp_op := snd (t_lex (Some (argv ! 3)))\<rparr>
                 else s)
        in test_general K argv s)"

definition bb_test :: "kernel \<Rightarrow> string list \<Rightarrow> test_state \<Rightarrow> (int \<times> string list) option" where
  "bb_test K argv s =
     (if argv = [] then None
      else if argv ! 0 = ''['' then
        if last argv \<noteq> '']'' then Some (2, [''missing ]'']) else leave (test_args K (butlast argv) s)
      else if argv ! 0 = ''[['' then
        if last argv \<noteq> '']]'' then Some (2, [''missing ]]'']) else leave (test_args K (butlast argv) s)
      else leave (test_args K argv s))"

section \<open>The specification\<close>

text \<open>
  Expressions as trees, with the operators of the table at the inner nodes of words. Both operands of a conjunction
  and of a disjunction are evaluated, so that an error in either of them ends the test.
\<close>

datatype test_tree = Str string | Unary t_op string | Binary string t_op string
  | Neg test_tree | Conj test_tree test_tree | Disj test_tree test_tree

text \<open>Comparisons: strings by content and order, numbers by value, files by time and identity.\<close>

definition int_holds :: "token \<Rightarrow> int \<Rightarrow> int \<Rightarrow> bool" where
  "int_holds op i j \<longleftrightarrow>
     (op = INTEQ \<longrightarrow> i = j) \<and> (op = INTNE \<longrightarrow> i \<noteq> j) \<and> (op = INTGE \<longrightarrow> j \<le> i) \<and> (op = INTGT \<longrightarrow> j < i) \<and>
     (op = INTLE \<longrightarrow> i \<le> j) \<and> (op = INTLT \<longrightarrow> i < j)"

definition bin_value :: "kernel \<Rightarrow> token \<Rightarrow> string \<Rightarrow> string \<Rightarrow> bool test_result" where
  "bin_value K op a b =
     (if op = STREQ then Inr (a = b)
      else if op = STRNE then Inr (a \<noteq> b)
      else if op = STRLT then Inr (string_less a b)
      else if op = STRGT then Inr (string_less b a)
      else if op \<in> {INTEQ, INTNE, INTGE, INTGT, INTLE, INTLT} then
        bind_res (getn a) (\<lambda>i. bind_res (getn b) (\<lambda>j. Inr (int_holds op i j)))
      else if op = FILNT then Inr (newerf K a b)
      else if op = FILOT then Inr (newerf K b a)
      else if op = FILEQ then Inr (equalf K a b)
      else Inr True)"

text \<open>Membership in a group and access to a file, without the memory of the list of the groups.\<close>

definition group_member :: "kernel \<Rightarrow> u32 \<Rightarrow> bool" where
  "group_member K gid \<longleftrightarrow>
     gid = getgid K \<or> gid = getegid K \<or> (case getgroups K of None \<Rightarrow> False | Some gs \<Rightarrow> gid \<in> set gs)"

definition access_class :: "kernel \<Rightarrow> stat_buf \<Rightarrow> nat" where
  "access_class K st =
     (if st_uid st = geteuid K then 6 else if group_member K (st_gid st) then 3 else 0)"

definition may_access :: "kernel \<Rightarrow> stat_buf \<Rightarrow> mode_t \<Rightarrow> bool" where
  "may_access K st m \<longleftrightarrow>
     geteuid K = 0 \<and> (m \<noteq> X_OK \<or> st_mode st AND 0x49 \<noteq> 0) \<or>
     st_mode st AND push_bit (access_class K st) m \<noteq> 0"

definition file_test :: "kernel \<Rightarrow> token \<Rightarrow> string \<Rightarrow> bool" where
  "file_test K n nm =
     (if n = FILSYM then (case lstat K nm of None \<Rightarrow> False | Some st \<Rightarrow> filetype st S_IFLNK)
      else case stat K nm of
        None \<Rightarrow> False
      | Some st \<Rightarrow>
          (case n of
             FILRD \<Rightarrow> may_access K st R_OK
           | FILWR \<Rightarrow> may_access K st W_OK
           | FILEX \<Rightarrow> may_access K st X_OK
           | FILREG \<Rightarrow> filetype st S_IFREG
           | FILDIR \<Rightarrow> filetype st S_IFDIR
           | FILCDEV \<Rightarrow> filetype st S_IFCHR
           | FILBDEV \<Rightarrow> filetype st S_IFBLK
           | FILFIFO \<Rightarrow> filetype st S_IFIFO
           | FILSOCK \<Rightarrow> filetype st S_IFSOCK
           | FILSUID \<Rightarrow> filebit st S_ISUID
           | FILSGID \<Rightarrow> filebit st S_ISGID
           | FILSTCK \<Rightarrow> filebit st S_ISVTX
           | FILGZ \<Rightarrow> 0 < st_size st
           | FILUID \<Rightarrow> st_uid st = geteuid K
           | FILGID \<Rightarrow> st_gid st = getegid K
           | _ \<Rightarrow> True))"

definition un_value :: "kernel \<Rightarrow> token \<Rightarrow> string \<Rightarrow> bool test_result" where
  "un_value K n w =
     (if n = STREZ then Inr (w = '''')
      else if n = STRNZ then Inr (w \<noteq> '''')
      else if n = FILTT then bind_res (getn w) (\<lambda>fd. Inr (isatty K fd))
      else Inr (file_test K n w))"

fun test_value :: "kernel \<Rightarrow> test_tree \<Rightarrow> bool test_result" where
  "test_value K (Str w) = Inr (w \<noteq> '''')"
| "test_value K (Unary op w) = un_value K (op_num op) w"
| "test_value K (Binary a op b) = bin_value K (op_num op) a b"
| "test_value K (Neg e) = bind_res (test_value K e) (\<lambda>v. Inr (\<not> v))"
| "test_value K (Conj l r) = bind_res (test_value K l) (\<lambda>v. bind_res (test_value K r) (\<lambda>w. Inr (v \<and> w)))"
| "test_value K (Disj l r) = bind_res (test_value K l) (\<lambda>v. bind_res (test_value K r) (\<lambda>w. Inr (v \<or> w)))"

text \<open>
  The words of a tree, with the parentheses that the precedences need: \<open>!\<close> binds tighter than \<open>-a\<close>, and \<open>-a\<close> tighter
  than \<open>-o\<close>.
\<close>

definition in_parens :: "bool \<Rightarrow> string list \<Rightarrow> string list" where
  "in_parens b ws = (if b then ''('' # ws @ ['')''] else ws)"

fun test_words :: "nat \<Rightarrow> test_tree \<Rightarrow> string list" where
  "test_words p (Str w) = [w]"
| "test_words p (Unary op w) = [op_text op, w]"
| "test_words p (Binary a op b) = [a, op_text op, b]"
| "test_words p (Neg e) = ''!'' # test_words 2 e"
| "test_words p (Conj l r) = in_parens (1 < p) (test_words 2 l @ ''-a'' # test_words 1 r)"
| "test_words p (Disj l r) = in_parens (0 < p) (test_words 1 l @ ''-o'' # test_words 0 r)"

text \<open>A word at the start of an operand must not look like the start of another expression; all other words are free.\<close>

definition operand_word :: "string \<Rightarrow> bool" where
  "operand_word w \<longleftrightarrow> \<not> is_type UNOP (snd (t_lex (Some w))) \<and> fst (t_lex (Some w)) \<notin> {UNOT, LPAREN}"

fun tree_ok :: "test_tree \<Rightarrow> bool" where
  "tree_ok (Str w) = operand_word w"
| "tree_ok (Unary op w) = (op \<in> set ops \<and> op_type op = UNOP)"
| "tree_ok (Binary a op b) = (operand_word a \<and> op \<in> set ops \<and> op_type op = BINOP)"
| "tree_ok (Neg e) = tree_ok e"
| "tree_ok (Conj l r) = (tree_ok l \<and> tree_ok r)"
| "tree_ok (Disj l r) = (tree_ok l \<and> tree_ok r)"

section \<open>The words have the value of the tree\<close>

lemma binop_value_eq: "binop_value K op a b = bin_value K op a b"
  by (cases op) (simp_all add: binop_value_def bin_value_def compare_ints_def int_holds_def strcmp_sign_less strcmp_sign_zero
    olderf_def newerf_def split: option.split)

definition cache_ok :: "kernel \<Rightarrow> test_state \<Rightarrow> bool" where
  "cache_ok K s \<longleftrightarrow>
     ngroups s = 0 \<or>
     (case getgroups K of None \<Rightarrow> ngroups s = - 1 | Some gs \<Rightarrow> ngroups s = int (length gs) \<and> group_array s = gs)"

lemma cache_ok_pointers [simp]: "cache_ok K (s\<lparr>t_wp := i\<rparr>) = cache_ok K s" "cache_ok K (s\<lparr>t_wp_op := op\<rparr>) = cache_ok K s"
  by (simp_all add: cache_ok_def split: option.split)

lemma is_a_group_member:
  "cache_ok K s \<Longrightarrow> is_a_group_member K gid s = (m, s') \<Longrightarrow> m = group_member K gid \<and> cache_ok K s'"
  by (auto simp: cache_ok_def is_a_group_member_def group_member_def initialize_group_array_def Let_def
    split: option.splits if_splits)

lemma test_eaccess_may_access:
  assumes "cache_ok K s" "stat K nm = Some st"
  shows "fst (test_eaccess K nm m s) = may_access K st m" "cache_ok K (snd (test_eaccess K nm m s))"
  using assms
  by (auto simp: test_eaccess_def may_access_def access_class_def split: prod.split dest: is_a_group_member)

lemma filstat_file_test:
  assumes "cache_ok K s"
  shows "fst (filstat K nm n s) = file_test K n nm" "cache_ok K (snd (filstat K nm n s))"
proof -
  have "fst (filstat K nm n s) = file_test K n nm \<and> cache_ok K (snd (filstat K nm n s))"
  proof (cases "stat K nm")
    case None
    then show ?thesis using assms by (simp add: filstat_def file_test_def)
  next
    case (Some st)
    note acc = test_eaccess_may_access [OF assms Some]
    show ?thesis by (cases n) (simp_all add: filstat_def file_test_def acc assms Some)
  qed
  then show "fst (filstat K nm n s) = file_test K n nm" "cache_ok K (snd (filstat K nm n s))" by simp_all
qed

lemma t_lex_table: "list_all (\<lambda>op. t_lex (Some (op_text op)) = (op_num op, Some op)) ops"
  by code_simp

lemma t_lex_ops: "op \<in> set ops \<Longrightarrow> t_lex (Some (op_text op)) = (op_num op, Some op)"
  using t_lex_table by (simp add: list_all_iff)

lemma t_lex_special [simp]:
  "t_lex (Some ''!'') = (UNOT, Some (opd ''!'' UNOT BUNOP))" "t_lex (Some ''-a'') = (BAND, Some (opd ''-a'' BAND BBINOP))"
  "t_lex (Some ''-o'') = (BOR, Some (opd ''-o'' BOR BBINOP))" "t_lex (Some ''('') = (LPAREN, Some (opd ''('' LPAREN PAREN))"
  "t_lex (Some '')'') = (RPAREN, Some (opd '')'' RPAREN PAREN))" "t_lex None = (EOI, None)"
  by (simp_all add: t_lex_def ops_def)

text \<open>
  A function of the parser, started at words \<open>ws\<close> of the vector, gives the value \<open>x\<close> and leaves the pointer at the last of
  the words, when the words are not followed by a binary operator of words or by a token of \<open>T\<close>.
\<close>

definition result_ok :: "kernel \<Rightarrow> (bool \<times> test_state) test_result \<Rightarrow> bool test_result \<Rightarrow> nat \<Rightarrow> bool" where
  "result_ok K r x i \<longleftrightarrow>
     (case x of Inl e \<Rightarrow> r = Inl e | Inr v \<Rightarrow> \<exists>s. r = Inr (v, s) \<and> t_wp s = i \<and> cache_ok K s)"

definition first_word :: "string list \<Rightarrow> string option" where
  "first_word ws = (case ws of [] \<Rightarrow> None | w # _ \<Rightarrow> Some w)"

definition stops :: "token set \<Rightarrow> string list \<Rightarrow> bool" where
  "stops T post \<longleftrightarrow> \<not> is_type BINOP (snd (t_lex (first_word post))) \<and> fst (t_lex (first_word post)) \<notin> T"

definition parsed ::
  "(kernel \<Rightarrow> string list \<Rightarrow> token \<Rightarrow> test_state \<Rightarrow> (bool \<times> test_state) test_result) \<Rightarrow> token set \<Rightarrow>
   kernel \<Rightarrow> string list \<Rightarrow> bool test_result \<Rightarrow> bool" where
  "parsed f T K ws x \<longleftrightarrow>
     ws \<noteq> [] \<and>
     (\<forall>pre post s. t_wp s = length pre \<longrightarrow> t_wp_op s = snd (t_lex (first_word ws)) \<longrightarrow> cache_ok K s \<longrightarrow> stops T post \<longrightarrow>
        result_ok K (f K (pre @ ws @ post) (fst (t_lex (first_word ws))) s) x (length pre + length ws - 1))"

lemma first_word_append [simp]: "ws \<noteq> [] \<Longrightarrow> first_word (ws @ vs) = first_word ws" "first_word (w # ws) = Some w" "first_word [] = None"
  by (cases ws; simp add: first_word_def)+

lemma lex_next_first:
  assumes "t_wp s + 1 = length pre"
  shows "lex_next (pre @ ws) s = Inr (fst (t_lex (first_word ws)), s\<lparr>t_wp := length pre, t_wp_op := snd (t_lex (first_word ws))\<rparr>)"
  using assms by (cases ws) (simp_all add: lex_next_def word_at_def nth_append first_word_def)

lemma lex_next_after:
  assumes "t_wp s = length pre + length ws - 1" "ws \<noteq> []"
  shows "lex_next (pre @ ws @ post) s =
     Inr (fst (t_lex (first_word post)), s\<lparr>t_wp := length pre + length ws, t_wp_op := snd (t_lex (first_word post))\<rparr>)"
  using lex_next_first [of s "pre @ ws" post] assms by (cases ws) simp_all

lemma result_okE:
  assumes "result_ok K r x i"
  obtains e where "x = Inl e" "r = Inl e" | v s where "x = Inr v" "r = Inr (v, s)" "t_wp s = i" "cache_ok K s"
  using assms by (cases x) (auto simp: result_ok_def)

lemma result_ok_simps [simp]:
  "result_ok K (Inl e) (Inl e') i \<longleftrightarrow> e = e'"
  "result_ok K (Inr (v, s)) (Inr v') i \<longleftrightarrow> v = v' \<and> t_wp s = i \<and> cache_ok K s"
  by (auto simp: result_ok_def)

lemma parsedD:
  assumes "parsed f T K ws x" "t_wp s = length pre" "t_wp_op s = snd (t_lex (first_word ws))" "cache_ok K s" "stops T post"
    "argv = pre @ ws @ post" "n = fst (t_lex (first_word ws))"
  shows "result_ok K (f K argv n s) x (length pre + length ws - 1)"
  using assms by (simp add: parsed_def)

lemma parsed_nonempty: "parsed f T K ws x \<Longrightarrow> ws \<noteq> []"
  by (simp add: parsed_def)

lemma aexpr_of_nexpr:
  assumes "parsed nexpr {} K ws x"
  shows "parsed aexpr {BAND} K ws x"
  unfolding parsed_def
proof (intro conjI allI impI)
  show ne: "ws \<noteq> []" by (rule parsed_nonempty [OF assms])
  fix pre post :: "string list" and s
  assume a: "t_wp s = length pre" "t_wp_op s = snd (t_lex (first_word ws))" "cache_ok K s" "stops {BAND} post"
  have "result_ok K (nexpr K (pre @ ws @ post) (fst (t_lex (first_word ws))) s) x (length pre + length ws - 1)"
    by (rule parsedD [OF assms]) (use a in \<open>simp_all add: stops_def\<close>)
  then show "result_ok K (aexpr K (pre @ ws @ post) (fst (t_lex (first_word ws))) s) x (length pre + length ws - 1)"
    by (rule result_okE) (use a ne in \<open>simp_all add: aexpr.simps lex_next_after stops_def\<close>)
qed

lemma oexpr_of_aexpr:
  assumes "parsed aexpr {BAND} K ws x"
  shows "parsed oexpr {BAND, BOR} K ws x"
  unfolding parsed_def
proof (intro conjI allI impI)
  show ne: "ws \<noteq> []" by (rule parsed_nonempty [OF assms])
  fix pre post :: "string list" and s
  assume a: "t_wp s = length pre" "t_wp_op s = snd (t_lex (first_word ws))" "cache_ok K s" "stops {BAND, BOR} post"
  have "result_ok K (aexpr K (pre @ ws @ post) (fst (t_lex (first_word ws))) s) x (length pre + length ws - 1)"
    by (rule parsedD [OF assms]) (use a in \<open>simp_all add: stops_def\<close>)
  then show "result_ok K (oexpr K (pre @ ws @ post) (fst (t_lex (first_word ws))) s) x (length pre + length ws - 1)"
    by (rule result_okE) (use a ne in \<open>simp_all add: oexpr.simps lex_next_after stops_def\<close>)
qed

lemma nexpr_parens:
  assumes "parsed oexpr {BAND, BOR} K ws x"
  shows "parsed nexpr {} K (''('' # ws @ ['')'']) x"
  unfolding parsed_def
proof (intro conjI allI impI)
  note ne = parsed_nonempty [OF assms]
  fix pre post :: "string list" and s
  assume a: "t_wp s = length pre" "t_wp_op s = snd (t_lex (first_word (''('' # ws @ ['')''])))" "cache_ok K s"
  let ?argv = "pre @ (''('' # ws @ ['')'']) @ post"
  let ?s = "s\<lparr>t_wp := length pre + 1, t_wp_op := snd (t_lex (first_word ws))\<rparr>"
  have lex: "lex_next ?argv s = Inr (fst (t_lex (first_word ws)), ?s)"
    using lex_next_first [of s "pre @ [''('']" "ws @ '')'' # post"] a ne by simp
  have "result_ok K (oexpr K ?argv (fst (t_lex (first_word ws))) ?s) x (length (pre @ [''('']) + length ws - 1)"
    by (rule parsedD [OF assms, where post = "'')'' # post"]) (use a in \<open>simp_all add: stops_def is_type_def\<close>)
  then show "result_ok K (nexpr K ?argv (fst (t_lex (first_word (''('' # ws @ ['')''])))) s) x
    (length pre + length (''('' # ws @ ['')'']) - 1)"
    using lex_next_after [of _ "pre @ [''('']" ws "'')'' # post"] lex ne
    by - (erule result_okE, simp_all add: nexpr.simps primary.simps)
qed simp

lemma nexpr_not:
  assumes "parsed nexpr {} K ws x"
  shows "parsed nexpr {} K (''!'' # ws) (bind_res x (\<lambda>v. Inr (\<not> v)))"
  unfolding parsed_def
proof (intro conjI allI impI)
  note ne = parsed_nonempty [OF assms]
  fix pre post :: "string list" and s
  assume a: "t_wp s = length pre" "t_wp_op s = snd (t_lex (first_word (''!'' # ws)))" "cache_ok K s" "stops {} post"
  let ?argv = "pre @ (''!'' # ws) @ post"
  let ?s = "s\<lparr>t_wp := length pre + 1, t_wp_op := snd (t_lex (first_word ws))\<rparr>"
  have lex: "lex_next ?argv s = Inr (fst (t_lex (first_word ws)), ?s)"
    using lex_next_first [of s "pre @ [''!'']" "ws @ post"] a ne by simp
  have "result_ok K (nexpr K ?argv (fst (t_lex (first_word ws))) ?s) x (length (pre @ [''!'']) + length ws - 1)"
    by (rule parsedD [OF assms, where post = post]) (use a in simp_all)
  then show "result_ok K (nexpr K ?argv (fst (t_lex (first_word (''!'' # ws)))) s) (bind_res x (\<lambda>v. Inr (\<not> v)))
    (length pre + length (''!'' # ws) - 1)"
    using lex by - (erule result_okE, simp_all add: nexpr.simps [where n = UNOT])
qed simp

lemma aexpr_and:
  assumes l: "parsed nexpr {} K ws x" and r: "parsed aexpr {BAND} K vs y"
  shows "parsed aexpr {BAND} K (ws @ ''-a'' # vs) (bind_res x (\<lambda>v. bind_res y (\<lambda>w. Inr (v \<and> w))))"
  unfolding parsed_def
proof (intro conjI allI impI)
  note ne = parsed_nonempty [OF l] parsed_nonempty [OF r]
  fix pre post :: "string list" and s
  assume a: "t_wp s = length pre" "t_wp_op s = snd (t_lex (first_word (ws @ ''-a'' # vs)))" "cache_ok K s" "stops {BAND} post"
  let ?argv = "pre @ (ws @ ''-a'' # vs) @ post"
  have "result_ok K (nexpr K ?argv (fst (t_lex (first_word ws))) s) x (length pre + length ws - 1)"
    by (rule parsedD [OF l, where post = "''-a'' # vs @ post"]) (use a ne in \<open>simp_all add: stops_def is_type_def\<close>)
  then show "result_ok K (aexpr K ?argv (fst (t_lex (first_word (ws @ ''-a'' # vs)))) s)
    (bind_res x (\<lambda>v. bind_res y (\<lambda>w. Inr (v \<and> w)))) (length pre + length (ws @ ''-a'' # vs) - 1)"
  proof (cases rule: result_okE)
    case (1 e)
    then show ?thesis using ne by (simp add: aexpr.simps)
  next
    case (2 v t)
    let ?t = "t\<lparr>t_wp := length pre + length ws + 1, t_wp_op := snd (t_lex (first_word vs))\<rparr>"
    have lex1: "lex_next ?argv t = Inr (BAND, t\<lparr>t_wp := length pre + length ws, t_wp_op := snd (t_lex (Some ''-a''))\<rparr>)"
      using lex_next_after [of t pre ws "''-a'' # vs @ post"] 2 ne by simp
    have lex2: "lex_next ?argv (t\<lparr>t_wp := length pre + length ws, t_wp_op := snd (t_lex (Some ''-a''))\<rparr>)
        = Inr (fst (t_lex (first_word vs)), ?t)"
      using lex_next_first [of "t\<lparr>t_wp := length pre + length ws, t_wp_op := snd (t_lex (Some ''-a''))\<rparr>" "pre @ ws @ [''-a'']" "vs @ post"] ne
      by simp
    have "result_ok K (aexpr K ?argv (fst (t_lex (first_word vs))) ?t) y (length (pre @ ws @ [''-a'']) + length vs - 1)"
      by (rule parsedD [OF r, where post = post]) (use a 2 in simp_all)
    then show ?thesis
      by (cases rule: result_okE)
        (use 2 lex1 lex2 ne in \<open>simp_all add: aexpr.simps [where s = s] conj_commute\<close>)
  qed
qed simp

lemma oexpr_or:
  assumes l: "parsed aexpr {BAND} K ws x" and r: "parsed oexpr {BAND, BOR} K vs y"
  shows "parsed oexpr {BAND, BOR} K (ws @ ''-o'' # vs) (bind_res x (\<lambda>v. bind_res y (\<lambda>w. Inr (v \<or> w))))"
  unfolding parsed_def
proof (intro conjI allI impI)
  note ne = parsed_nonempty [OF l] parsed_nonempty [OF r]
  fix pre post :: "string list" and s
  assume a: "t_wp s = length pre" "t_wp_op s = snd (t_lex (first_word (ws @ ''-o'' # vs)))" "cache_ok K s" "stops {BAND, BOR} post"
  let ?argv = "pre @ (ws @ ''-o'' # vs) @ post"
  have "result_ok K (aexpr K ?argv (fst (t_lex (first_word ws))) s) x (length pre + length ws - 1)"
    by (rule parsedD [OF l, where post = "''-o'' # vs @ post"]) (use a ne in \<open>simp_all add: stops_def is_type_def\<close>)
  then show "result_ok K (oexpr K ?argv (fst (t_lex (first_word (ws @ ''-o'' # vs)))) s)
    (bind_res x (\<lambda>v. bind_res y (\<lambda>w. Inr (v \<or> w)))) (length pre + length (ws @ ''-o'' # vs) - 1)"
  proof (cases rule: result_okE)
    case (1 e)
    then show ?thesis using ne by (simp add: oexpr.simps)
  next
    case (2 v t)
    let ?t = "t\<lparr>t_wp := length pre + length ws + 1, t_wp_op := snd (t_lex (first_word vs))\<rparr>"
    have lex1: "lex_next ?argv t = Inr (BOR, t\<lparr>t_wp := length pre + length ws, t_wp_op := snd (t_lex (Some ''-o''))\<rparr>)"
      using lex_next_after [of t pre ws "''-o'' # vs @ post"] 2 ne by simp
    have lex2: "lex_next ?argv (t\<lparr>t_wp := length pre + length ws, t_wp_op := snd (t_lex (Some ''-o''))\<rparr>)
        = Inr (fst (t_lex (first_word vs)), ?t)"
      using lex_next_first [of "t\<lparr>t_wp := length pre + length ws, t_wp_op := snd (t_lex (Some ''-o''))\<rparr>" "pre @ ws @ [''-o'']" "vs @ post"] ne
      by simp
    have "result_ok K (oexpr K ?argv (fst (t_lex (first_word vs))) ?t) y (length (pre @ ws @ [''-o'']) + length vs - 1)"
      by (rule parsedD [OF r, where post = post]) (use a 2 in simp_all)
    then show ?thesis
      by (cases rule: result_okE)
        (use 2 lex1 lex2 ne in \<open>simp_all add: oexpr.simps [where s = s] disj_commute\<close>)
  qed
qed simp

lemma word_at_first: "word_at (pre @ ws) (length pre) = Inr (first_word ws)"
  by (cases ws) (simp_all add: word_at_def first_word_def)

lemma findSomeD: "find P xs = Some x \<Longrightarrow> x \<in> set xs"
  by (auto simp: find_Some_iff)

lemma operand_word_token: "operand_word w \<Longrightarrow> fst (t_lex (Some w)) \<notin> {EOI, UNOT, LPAREN}"
proof -
  have ops: "list_all (\<lambda>op. op_num op \<noteq> EOI) ops" by code_simp
  assume "operand_word w"
  then show ?thesis
    using ops by (auto simp: operand_word_def t_lex_def list_all_iff split: option.splits dest!: findSomeD)
qed

lemma nexpr_str:
  assumes "operand_word w"
  shows "parsed nexpr {} K [w] (Inr (w \<noteq> ''''))"
  using operand_word_token [OF assms] assms word_at_first [of "_ @ [w]"]
  by (simp add: parsed_def nexpr.simps primary.simps operand_word_def stops_def string_at_def)

lemma un_value_filstat:
  assumes "cache_ok K s" "t_wp s = i"
  shows "result_ok K (unop_value K n w s) (un_value K n w) i"
proof -
  have "result_ok K (Inr (filstat K w n s)) (Inr (file_test K n w)) i"
    using filstat_file_test [OF assms(1), of w n] filstat_pointers(1) [of K w n s] assms(2)
    by (cases "filstat K w n s") (simp del: filstat_pointers)
  then show ?thesis using assms by (cases n; cases "getn w") (simp_all add: unop_value_def un_value_def)
qed

lemma nexpr_unary:
  assumes "op \<in> set ops" "op_type op = UNOP"
  shows "parsed nexpr {} K [op_text op, w] (un_value K (op_num op) w)"
proof -
  have "list_all (\<lambda>op. op_type op = UNOP \<longrightarrow> op_num op \<notin> {EOI, UNOT, LPAREN}) ops" by code_simp
  with assms have "op_num op \<noteq> EOI" "op_num op \<noteq> UNOT" "op_num op \<noteq> LPAREN" by (auto simp: list_all_iff)
  with assms show ?thesis using word_at_first [of "_ @ [op_text op]" "w # _"]
    by (simp add: parsed_def nexpr.simps primary.simps t_lex_ops is_type_def un_value_filstat)
qed

lemma nexpr_binary:
  assumes "operand_word a" "op \<in> set ops" "op_type op = BINOP"
  shows "parsed nexpr {} K [a, op_text op, b] (bin_value K (op_num op) a b)"
  using operand_word_token [OF assms(1)] assms word_at_first [of "_ @ [a]" "op_text op # b # _"]
  by (auto simp: parsed_def nexpr.simps primary.simps operand_word_def t_lex_ops is_type_def binop_eq nth_append binop_value_eq
    result_ok_def bind_res_eq_Inr split: sum.split)

lemma in_parens_simps [simp]: "in_parens True ws = ''('' # ws @ ['')'']" "in_parens False ws = ws"
  by (simp_all add: in_parens_def)

text \<open>The induction over the tree.\<close>

lemma test_words_parsed:
  assumes "tree_ok e"
  shows "parsed nexpr {} K (test_words 2 e) (test_value K e) \<and>
    parsed aexpr {BAND} K (test_words 1 e) (test_value K e) \<and>
    parsed oexpr {BAND, BOR} K (test_words 0 e) (test_value K e)"
  using assms
proof (induction e)
  case (Conj l r)
  then have "parsed aexpr {BAND} K (test_words 1 (Conj l r)) (test_value K (Conj l r))" using aexpr_and by simp
  from this oexpr_of_aexpr [OF this] nexpr_parens [OF oexpr_of_aexpr [OF this]] show ?case by simp
next
  case (Disj l r)
  then have "parsed oexpr {BAND, BOR} K (test_words 0 (Disj l r)) (test_value K (Disj l r))" using oexpr_or by simp
  from this aexpr_of_nexpr [OF nexpr_parens [OF this]] nexpr_parens [OF this] show ?case by simp
qed (auto simp: nexpr_str nexpr_unary nexpr_binary nexpr_not intro!: oexpr_of_aexpr aexpr_of_nexpr)

lemma test_general_tree:
  assumes "tree_ok e" "cache_ok K s"
  shows "test_general K (name # test_words 0 e) s = bind_res (test_value K e) (\<lambda>v. Inr (of_bool (\<not> v), []))"
proof -
  let ?ws = "test_words 0 e"
  have p: "parsed oexpr {BAND, BOR} K ?ws (test_value K e)" using test_words_parsed assms(1) by blast
  have w: "word_at (name # ?ws) 1 = Inr (first_word ?ws)" using word_at_first [of "[name]" ?ws] by simp
  have "result_ok K (oexpr K (name # ?ws) (fst (t_lex (first_word ?ws))) (s\<lparr>t_wp := 1, t_wp_op := snd (t_lex (first_word ?ws))\<rparr>))
    (test_value K e) (length [name] + length ?ws - 1)"
    by (rule parsedD [OF p, where post = "[]"]) (use assms in \<open>simp_all add: stops_def is_type_def\<close>)
  then show ?thesis
    by (cases rule: result_okE) (use w parsed_nonempty [OF p] in \<open>simp_all add: test_general_def word_at_def\<close>)
qed

lemma test_words_nonempty [simp]: "test_words p e \<noteq> []"
  by (cases e) (simp_all add: in_parens_def)

lemma length_test_words: "\<exists>n. length (test_words p e) = Suc n"
  using gr0_implies_Suc [of "length (test_words p e)"] by simp

lemma test_words_1: "length (test_words p e) = Suc 0 \<longleftrightarrow> (\<exists>w. e = Str w)"
proof (cases e)
  case (Conj l r)
  then show ?thesis using length_test_words [of 2 l] by (auto simp: in_parens_def)
next
  case (Disj l r)
  then show ?thesis using length_test_words [of 1 l] by (auto simp: in_parens_def)
qed auto

lemma test_words_2: "length (test_words p e) = 2 \<longleftrightarrow> (\<exists>op w. e = Unary op w) \<or> (\<exists>w. e = Neg (Str w))"
proof (cases e)
  case (Conj l r)
  then show ?thesis using length_test_words [of 2 l] length_test_words [of 1 r] by (auto simp: in_parens_def)
next
  case (Disj l r)
  then show ?thesis using length_test_words [of 1 l] length_test_words [of 0 r] by (auto simp: in_parens_def)
qed (auto simp: numeral_2_eq_2 test_words_1)

lemma between_3: "length (ws @ c # vs) = 3 \<Longrightarrow> ws \<noteq> [] \<Longrightarrow> vs \<noteq> [] \<Longrightarrow> (ws @ c # vs) ! 1 = c"
  by (cases ws; cases vs) auto

lemma between_4: "length (ws @ c # vs) = 4 \<Longrightarrow> ws \<noteq> [] \<Longrightarrow> vs \<noteq> [] \<Longrightarrow> length ws = Suc 0 \<or> (ws @ c # vs) ! 2 = c"
  by (cases ws; cases "tl ws"; cases vs) (auto simp: numeral_2_eq_2)

text \<open>The special cases are those of trees.\<close>

lemma special_case_4:
  assumes "length (test_words 0 e) = 3" "test_words 0 e ! 0 \<noteq> ''!''" "is_type BINOP (snd (t_lex (Some (test_words 0 e ! 1))))"
  obtains a op b where "e = Binary a op b"
proof (cases e)
  case (Conj l r)
  with assms show ?thesis using between_3 [of "test_words 2 l" "''-a''" "test_words 1 r"] by (simp add: is_type_def)
next
  case (Disj l r)
  with assms show ?thesis using between_3 [of "test_words 1 l" "''-o''" "test_words 0 r"] by (simp add: is_type_def)
qed (use assms that in auto)

lemma not_bang: "\<not> operand_word ''!''" "op \<in> set ops \<Longrightarrow> op_type op = UNOP \<Longrightarrow> op_text op \<noteq> ''!''"
proof -
  show "\<not> operand_word ''!''" by (simp add: operand_word_def)
  have "list_all (\<lambda>op. op_type op = UNOP \<longrightarrow> op_text op \<noteq> ''!'') ops" by code_simp
  then show "op \<in> set ops \<Longrightarrow> op_type op = UNOP \<Longrightarrow> op_text op \<noteq> ''!''" by (simp add: list_all_iff)
qed

lemma special_case_5:
  assumes "tree_ok e" "length (test_words 0 e) = 4" "test_words 0 e ! 0 = ''!''" "is_type BINOP (snd (t_lex (Some (test_words 0 e ! 2))))"
  obtains a op b where "e = Neg (Binary a op b)"
proof (cases e)
  case (Neg d)
  then have d: "length (test_words 2 d) = 3" "is_type BINOP (snd (t_lex (Some (test_words 2 d ! 1))))" "tree_ok d"
    using assms by simp_all
  show ?thesis
  proof (cases d)
    case Neg': (Neg c)
    then have "length (test_words 2 c) = 2" using d by simp
    then show ?thesis using d Neg' by (auto simp: test_words_2 t_lex_ops is_type_def)
  next
    case (Binary a op b)
    then show ?thesis using Neg that by simp
  next
    case (Conj l r)
    then show ?thesis using d length_test_words [of 2 l] length_test_words [of 1 r] by auto
  next
    case (Disj l r)
    then show ?thesis using d length_test_words [of 1 l] length_test_words [of 0 r] by auto
  qed (use d in simp_all)
next
  case (Conj l r)
  then have "length (test_words 2 l) = Suc 0"
    using assms between_4 [of "test_words 2 l" "''-a''" "test_words 1 r"] by (auto simp: is_type_def)
  then show ?thesis using Conj assms by (auto simp: test_words_1 not_bang)
next
  case (Disj l r)
  then have "length (test_words 1 l) = Suc 0"
    using assms between_4 [of "test_words 1 l" "''-o''" "test_words 0 r"] by (auto simp: is_type_def)
  then show ?thesis using Disj assms by (auto simp: test_words_1 not_bang)
qed (use assms in auto)

lemma binop_tree:
  assumes "op \<in> set ops" "t_wp s = length pre"
  shows "binop K (pre @ [a, op_text op, b]) s =
    bind_res (bin_value K (op_num op) a b) (\<lambda>v. Inr (v, s\<lparr>t_wp_op := Some op, t_wp := t_wp s + 2\<rparr>))"
  using assms by (simp add: binop_eq nth_append t_lex_ops binop_value_eq)

lemma test_args_tree:
  assumes "tree_ok e"
  shows "test_args K (name # test_words 0 e) s = bind_res (test_value K e) (\<lambda>v. Inr (of_bool (\<not> v), []))"
proof -
  let ?ws = "test_words 0 e" and ?r = "bind_res (test_value K e) (\<lambda>v. Inr (of_bool (\<not> v), []))"
  let ?b1 = "is_type BINOP (snd (t_lex (Some (?ws ! 1))))" and ?b2 = "is_type BINOP (snd (t_lex (Some (?ws ! 2))))"
  have cache: "cache_ok K (s\<lparr>ngroups := 0, t_wp_op := op\<rparr>)" "cache_ok K (s\<lparr>ngroups := 0\<rparr>)" for op by (simp_all add: cache_ok_def)
  note general = cache [THEN test_general_tree [OF assms]]
  consider "length ?ws = Suc 0" | "length ?ws = 2" "?ws ! 0 = ''!''" | "length ?ws = 3" "?ws ! 0 \<noteq> ''!''" "?b1"
    | "length ?ws = 4" "?ws ! 0 = ''!''" "?b2"
    | (general) "length ?ws \<noteq> Suc 0" "\<not> (length ?ws = 2 \<and> ?ws ! 0 = ''!'')" "\<not> (length ?ws = 3 \<and> ?ws ! 0 \<noteq> ''!'' \<and> ?b1)"
      "\<not> (length ?ws = 4 \<and> ?ws ! 0 = ''!'' \<and> ?b2)"
    by blast
  then show ?thesis
  proof cases
    case 1
    then show ?thesis by (auto simp: test_words_1 test_args_def)
  next
    case 2
    then show ?thesis using assms by (auto simp: test_words_2 test_args_def not_bang)
  next
    case 3
    then obtain a op b where "e = Binary a op b" by (rule special_case_4)
    then show ?thesis using 3 assms binop_tree [of op _ "[name]" K a b] by (simp add: test_args_def bind_res_assoc)
  next
    case 4
    with assms obtain a op b where "e = Neg (Binary a op b)" by (rule special_case_5)
    then show ?thesis using 4 assms binop_tree [of op _ "[name, ''!'']" K a b] by (simp add: test_args_def bind_res_assoc)
  next
    case general
    then show ?thesis using general cache by (auto simp: test_args_def Let_def test_general_tree [OF assms])
  qed
qed

section \<open>No access outside of the vector\<close>

definition at_token :: "string list \<Rightarrow> token \<Rightarrow> test_state \<Rightarrow> bool" where
  "at_token argv n s \<longleftrightarrow>
     (\<exists>w. word_at argv (t_wp s) = Inr w \<and> n = fst (t_lex w) \<and> t_wp_op s = snd (t_lex w))"

definition in_bounds :: "string list \<Rightarrow> (bool \<times> test_state) test_result \<Rightarrow> bool" where
  "in_bounds argv r \<longleftrightarrow> (case r of Inl e \<Rightarrow> e \<noteq> Out_of_bounds | Inr (v, s) \<Rightarrow> t_wp s < length argv)"

lemma in_bounds_simps [simp]:
  "in_bounds argv (Inr (v, s)) \<longleftrightarrow> t_wp s < length argv" "in_bounds argv (Inl e) \<longleftrightarrow> e \<noteq> Out_of_bounds"
  "in_bounds argv (syntax_error op msg)"
  by (simp_all add: in_bounds_def syntax_error_def)

lemma in_bounds_bind:
  assumes "in_bounds argv r" "\<And>v s. r = Inr (v, s) \<Longrightarrow> t_wp s < length argv \<Longrightarrow> in_bounds argv (f (v, s))"
  shows "in_bounds argv (bind_res r f)"
  using assms by (cases r) (auto simp: in_bounds_def)

lemma lex_next_bind:
  assumes "t_wp s < length argv" "\<And>m s'. lex_next argv s = Inr (m, s') \<Longrightarrow> at_token argv m s' \<Longrightarrow> t_wp s' = t_wp s + 1 \<Longrightarrow> in_bounds argv (f (m, s'))"
  shows "in_bounds argv (bind_res (lex_next argv s) f)"
proof -
  have "\<exists>m s'. lex_next argv s = Inr (m, s') \<and> at_token argv m s' \<and> t_wp s' = t_wp s + 1"
    using assms(1) by (simp add: lex_next_def word_at_def at_token_def)
  then show ?thesis using assms(2) by fastforce
qed

lemma at_token_word: "at_token argv n s \<Longrightarrow> n \<noteq> EOI \<Longrightarrow> t_wp s < length argv"
  by (auto simp: at_token_def word_at_def split: if_split_asm)

lemmas at_operator = at_token_word [where n = BAND, simplified] at_token_word [where n = BOR, simplified]

lemma getn_in_bounds: "getn w \<noteq> Inl Out_of_bounds"
  by (simp add: getn_def syntax_error_def split: prod.split)

lemma binop_value_in_bounds: "binop_value K op a b \<noteq> Inl Out_of_bounds"
  using getn_in_bounds [of a] getn_in_bounds [of b]
  by (cases op; cases "getn a"; cases "getn b") (simp_all add: binop_value_def compare_ints_def)

lemma binop_in_bounds:
  assumes "t_wp s + 1 < length argv" "is_type BINOP (snd (t_lex (Some (argv ! (t_wp s + 1)))))"
  shows "in_bounds argv (binop K argv s)"
proof (cases "snd (t_lex (Some (argv ! (t_wp s + 1))))")
  case (Some op)
  then show ?thesis using assms binop_value_in_bounds [of K "op_num op" "argv ! t_wp s" "argv ! (t_wp s + 2)"]
    by (cases "binop_value K (op_num op) (argv ! t_wp s) (argv ! (t_wp s + 2))") (simp_all add: binop_eq)
qed (use assms in \<open>simp add: is_type_def\<close>)

lemma unop_in_bounds: "t_wp s < length argv \<Longrightarrow> in_bounds argv (unop_value K n w s)"
proof -
  assume s: "t_wp s < length argv"
  then have "in_bounds argv (Inr (filstat K w n s))" using filstat_pointers(1) [of K w n s]
    by (cases "filstat K w n s") (simp del: filstat_pointers)
  then show ?thesis using s getn_in_bounds [of w] by (cases n; cases "getn w") (simp_all add: unop_value_def)
qed

lemma oexpr_moves:
  "aexpr K argv n s = Inr (v, s') \<Longrightarrow> t_wp s \<le> t_wp s'" "nexpr K argv n s = Inr (v, s') \<Longrightarrow> t_wp s \<le> t_wp s'"
  using oexpr_moves_terminating(2,3) oexpr_all_terminate by blast+

lemma oexpr_in_bounds:
  assumes "at_token argv n s"
  shows "in_bounds argv (oexpr K argv n s) \<and> in_bounds argv (aexpr K argv n s) \<and> in_bounds argv (nexpr K argv n s) \<and>
    in_bounds argv (primary K argv n s)"
  using assms
proof (induction "length argv - t_wp s" arbitrary: n s rule: less_induct)
  case less
  have IH: "in_bounds argv (oexpr K argv m t)" "in_bounds argv (aexpr K argv m t)" "in_bounds argv (nexpr K argv m t)"
    if "at_token argv m t" "t_wp s < t_wp t" "t_wp s < length argv" for m t
    using less.hyps [OF _ that(1)] that by simp_all
  have p: "in_bounds argv (primary K argv n s)"
  proof (cases "n = EOI")
    case False
    then have s: "t_wp s < length argv" using at_token_word less.prems by blast
    show ?thesis
    proof (cases "n = LPAREN")
      case True
      then show ?thesis using s False
        by (subst primary.simps) (auto intro!: lex_next_bind in_bounds_bind IH dest: at_token_word)
    next
      case lp: False
      then show ?thesis using s False unop_in_bounds binop_in_bounds [of "s\<lparr>t_wp_op := _\<rparr>"]
        by (subst primary.simps) (auto simp: word_at_def string_at_def Let_def is_type_def)
    qed
  qed (simp add: primary.simps)
  have n: "in_bounds argv (nexpr K argv n s)"
    using p at_token_word [OF less.prems] by (subst nexpr.simps) (auto intro!: lex_next_bind in_bounds_bind IH)
  have a: "in_bounds argv (aexpr K argv n s)"
    using n by (subst aexpr.simps) (auto intro!: lex_next_bind in_bounds_bind IH dest!: oexpr_moves at_operator)
  have "in_bounds argv (oexpr K argv n s)"
    using a by (subst oexpr.simps) (auto intro!: lex_next_bind in_bounds_bind IH dest!: oexpr_moves at_operator)
  with p n a show ?case by simp
qed

definition status_ok :: "(int \<times> string list) test_result \<Rightarrow> bool" where
  "status_ok r \<longleftrightarrow>
     (case r of Inl e \<Rightarrow> e \<noteq> Out_of_bounds | Inr (st, ms) \<Rightarrow> st \<in> {0, 1} \<and> ms = [] \<or> st = 2 \<and> ms \<noteq> [])"

lemma status_ok_bind: "in_bounds argv x \<Longrightarrow> status_ok (bind_res x (\<lambda>(v, s). Inr (of_bool (f v), [])))"
  by (cases x) (auto simp: status_ok_def)

lemma status_ok_Inr [simp]: "status_ok (Inr (of_bool b, []))" "status_ok (Inr (1, []))" "status_ok (Inr (2, [m]))"
  by (auto simp: status_ok_def)

lemma test_general_status:
  assumes "1 < length argv"
  shows "status_ok (test_general K argv s)"
proof -
  let ?w = "Some (argv ! 1)" and ?n = "fst (t_lex (Some (argv ! 1)))"
  let ?s = "s\<lparr>t_wp := 1, t_wp_op := snd (t_lex ?w)\<rparr>"
  have "at_token argv ?n ?s" using assms by (simp add: at_token_def word_at_def)
  then have o: "in_bounds argv (oexpr K argv ?n ?s)" using oexpr_in_bounds by blast
  show ?thesis
  proof (cases "oexpr K argv ?n ?s")
    case (Inl e)
    then show ?thesis using o assms by (simp add: test_general_def word_at_def status_ok_def)
  next
    case (Inr p)
    obtain v t where p: "p = (v, t)" by (cases p)
    then have "t_wp t < length argv" using o Inr by simp
    then show ?thesis using Inr p assms by (cases "Suc (t_wp t) = length argv") (simp_all add: test_general_def word_at_def)
  qed
qed

lemma test_args_status:
  assumes "argv \<noteq> []"
  shows "status_ok (test_args K argv s)"
proof -
  have b: "in_bounds argv (binop K argv (t\<lparr>t_wp := i, t_wp_op := op\<rparr>))"
    if "is_type BINOP (snd (t_lex (Some (argv ! (i + 1)))))" "i + 1 < length argv" for t i op
    using binop_in_bounds [of "t\<lparr>t_wp := i, t_wp_op := op\<rparr>" argv K] that by simp
  have "status_ok (test_general K argv t)" if "length argv \<noteq> 1" for t
    using test_general_status that assms by (cases argv; cases "tl argv") auto
  then show ?thesis
    using status_ok_bind [OF b [of 1]] status_ok_bind [OF b [of 2]] by (simp add: test_args_def Let_def numeral_2_eq_2 numeral_3_eq_3)
qed

text \<open>
  C21. The words of every well-formed tree have the value of the tree: \<open>test\<close>, \<open>[\<close> and \<open>[[\<close> return 0 when it is true, 1 when it is false, and
  2 with the message of the first error in it; the special cases for few arguments agree with the grammar. A tree
  is well-formed when its operators are those of the table and no operand in front of an operator is itself \<open>!\<close>,
  \<open>(\<close> or a unary operator.
\<close>

theorem test_computes_tree:
  assumes "tree_ok e" "(name, tail) \<in> {(''test'', []), (''['', ['']'']), (''[['', ['']]''])}"
  shows "bb_test K (name # test_words 0 e @ tail) s =
    (case test_value K e of
       Inr v \<Rightarrow> Some (if v then 0 else 1, [])
     | Inl (Syntax msg) \<Rightarrow> Some (2, [msg])
     | Inl Out_of_bounds \<Rightarrow> None)"
proof -
  have "bb_test K (name # test_words 0 e @ tail) s = leave (test_args K (name # test_words 0 e) s)"
    using assms(2) by (auto simp: bb_test_def butlast_append)
  also have "\<dots> = (case test_value K e of
       Inr v \<Rightarrow> Some (if v then 0 else 1, [])
     | Inl (Syntax msg) \<Rightarrow> Some (2, [msg])
     | Inl Out_of_bounds \<Rightarrow> None)"
    by (simp add: test_args_tree [OF assms(1)] leave_def split: sum.split test_error.split)
  finally show ?thesis .
qed

text \<open>
  C27. Whatever the arguments are, the evaluation ends without an access outside of the argument vector, and the status is 0 or 1
  without a message, or 2 with one.
\<close>

theorem test_in_bounds:
  assumes "argv \<noteq> []"
  shows "\<exists>st ms. bb_test K argv s = Some (st, ms) \<and> (st \<in> {0, 1} \<and> ms = [] \<or> st = 2 \<and> ms \<noteq> [])"
proof -
  have l: "\<exists>st ms. leave r = Some (st, ms) \<and> (st \<in> {0, 1} \<and> ms = [] \<or> st = 2 \<and> ms \<noteq> [])" if "status_ok r" for r
    using that by (auto simp: leave_def status_ok_def split: sum.splits test_error.split)
  have "butlast argv \<noteq> []" if "argv ! 0 = ''[''" "last argv = '']''" using that assms by (cases argv) auto
  moreover have "butlast argv \<noteq> []" if "argv ! 0 = ''[[''" "last argv = '']]''" using that assms by (cases argv) auto
  ultimately show ?thesis
    using l [OF test_args_status [of argv K s]] l [OF test_args_status [of "butlast argv" K s]] assms
    by (simp add: bb_test_def)
qed

text \<open>Numbers: the text of a number is read as this number, and a word of blanks only as 0.\<close>

lemma getn_decimal: "n < 2 ^ 31 \<Longrightarrow> getn (dstr n) = Inr (int n)"
  using strtol_decimal [of n "[]"] scan_num_decimal [of "[]" n] by (simp add: getn_def strtol_erange_def skip_whitespace_def)

lemma test_blank_number: "\<forall>c \<in> set w. isspace c \<Longrightarrow> getn w = Inr 0"
proof -
  assume "\<forall>c \<in> set w. isspace c"
  then have d: "dropWhile isspace w = []" by simp
  show ?thesis by (simp add: d del: dropWhile_eq_Nil_conv add: getn_def strtol_def strtol_erange_def scan_num_def strip_sign_def strip_base_def skip_whitespace_def)
qed

section \<open>Examples\<close>

definition example_kernel :: kernel where
  "example_kernel = \<lparr>stat = (\<lambda>_. None), lstat = (\<lambda>_. None), isatty = (\<lambda>_. False), geteuid = 0, getgid = 0, getegid = 0, getgroups = None\<rparr>"

definition example_state :: test_state where
  "example_state = \<lparr>t_wp = 0, t_wp_op = None, ngroups = 0, group_array = []\<rparr>"

definition example_tree :: test_tree where
  "example_tree =
     Conj (Neg (Unary (opd ''-z'' STREZ UNOP) ''x'')) (Disj (Str '''') (Binary ''7'' (opd ''-lt'' INTLT BINOP) ''12''))"

lemma example_numbers: "getn ''7'' = Inr 7" "getn ''12'' = Inr 12"
proof -
  have "dstr 7 = ''7''" "dstr 12 = ''12''" by code_simp+
  then show "getn ''7'' = Inr 7" "getn ''12'' = Inr 12" using getn_decimal [of 7] getn_decimal [of 12] by simp_all
qed

lemma example_tree:
  "tree_ok example_tree" "test_value example_kernel example_tree = Inr True"
  "test_words 0 example_tree = [''!'', ''-z'', ''x'', ''-a'', ''('', '''', ''-o'', ''7'', ''-lt'', ''12'', '')'']"
proof -
  show "tree_ok example_tree" by code_simp
  show "test_words 0 example_tree = [''!'', ''-z'', ''x'', ''-a'', ''('', '''', ''-o'', ''7'', ''-lt'', ''12'', '')'']" by code_simp
  show "test_value example_kernel example_tree = Inr True"
    by (simp add: example_tree_def un_value_def bin_value_def int_holds_def example_numbers)
qed

theorem test_computes_tree_witness:
  "bb_test example_kernel [''['', ''!'', ''-z'', ''x'', ''-a'', ''('', '''', ''-o'', ''7'', ''-lt'', ''12'', '')'', '']''] example_state = Some (0, [])"
  using test_computes_tree [OF example_tree(1), of "''[''" "['']'']" example_kernel example_state] by (simp add: example_tree)

theorem test_in_bounds_witness:
  "\<exists>st ms. bb_test example_kernel [''test'', ''('', ''a'', ''=''] example_state = Some (st, ms) \<and> (st \<in> {0, 1} \<and> ms = [] \<or> st = 2 \<and> ms \<noteq> [])"
  using test_in_bounds [of "[''test'', ''('', ''a'', ''='']" example_kernel example_state] by simp

end
