(* ===== verification/Parse_Mode.thy ===== *)
theory Parse_Mode
  imports Xgetularg
begin

text \<open>
  File modes on the command line (\<open>libbb/parse_mode.c\<close>), as \<open>chmod\<close>, \<open>mkdir\<close> and \<open>install\<close> read them. A \<open>mode_t\<close> has 32
  bits; \<open>None\<close> is the return value 0. The calls of \<open>umask\<close> read the mask of the process and restore it: the mask is an argument.

  The specification is a list of clauses with a meaning of their own; the theorems say that the parser applies the
  clauses of every way to write them down, that it never changes the type of the file nor classes that are not
  named, and that octal numbers up to 07777 are taken as they are.
\<close>

unbundle bit_operations_syntax

section \<open>The parser\<close>

definition FILEMODEBITS :: u32 where "FILEMODEBITS = 0xFFF"

text \<open>The masks for the characters \<open>augo\<close> and \<open>rwxXst\<close>.\<close>

definition who_mask :: "char \<Rightarrow> u32 option" where
  "who_mask c =
     (if c = CHR ''a'' then Some 0xFFF
      else if c = CHR ''u'' then Some 0x9C0
      else if c = CHR ''g'' then Some 0x438
      else if c = CHR ''o'' then Some 0x7
      else None)"

definition perm_mask :: "char \<Rightarrow> u32 option" where
  "perm_mask c =
     (if c = CHR ''r'' then Some 0x124
      else if c = CHR ''w'' then Some 0x92
      else if c = CHR ''x'' then Some 0x49
      else if c = CHR ''X'' then Some 0x49
      else if c = CHR ''s'' then Some 0xC00
      else if c = CHR ''t'' then Some 0x200
      else None)"

text \<open>The jumps to \<open>WHO_LIST\<close>: the end of the string behind a class is an error.\<close>

fun who_list :: "u32 \<Rightarrow> string \<Rightarrow> (u32 \<times> string) option" where
  "who_list wholist [] = Some (wholist, [])"
| "who_list wholist (c # s) =
     (case who_mask c of
        Some m \<Rightarrow> if s = [] then None else who_list (wholist OR m) s
      | None \<Rightarrow> Some (wholist, c # s))"

text \<open>The bits of a class, spread over all classes.\<close>

definition perm_copy :: "u32 \<Rightarrow> u32 \<Rightarrow> u32" where
  "perm_copy who new_mode =
     fold (\<lambda>m permlist. if permlist AND m \<noteq> 0 then permlist OR m else permlist) [0x124, 0x92, 0x49]
       (who AND 0x1FF AND new_mode)"

text \<open>The jumps to \<open>PERM_LIST\<close>.\<close>

fun perm_list :: "u32 \<Rightarrow> u32 \<Rightarrow> string \<Rightarrow> u32 \<times> string" where
  "perm_list new_mode permlist [] = (permlist, [])"
| "perm_list new_mode permlist (c # s) =
     (case perm_mask c of
        Some m \<Rightarrow>
          perm_list new_mode
            (if c \<noteq> CHR ''X'' \<or> new_mode AND (0x4000 OR 0x49) \<noteq> 0 then permlist OR m else permlist) s
      | None \<Rightarrow> (permlist, c # s))"

definition get_perms :: "u32 \<Rightarrow> string \<Rightarrow> u32 \<times> string" where
  "get_perms new_mode s =
     (if s \<noteq> [] \<and> hd s \<in> {CHR ''u'', CHR ''g'', CHR ''o''}
      then (perm_copy (the (who_mask (hd s))) new_mode, tl s)
      else perm_list new_mode 0 s)"

lemma perm_list_shorter: "length (snd (perm_list m p s)) \<le> length s"
  by (induction m p s rule: perm_list.induct) (auto simp: le_Suc_eq split: option.split)

lemma get_perms_shorter: "get_perms m s = (p, r) \<Longrightarrow> length r \<le> length s"
  using perm_list_shorter [of m 0 s] by (auto simp: get_perms_def split: if_split_asm)

text \<open>One round of the loop over the actions: the new mode and the rest of the string.\<close>

definition action :: "u32 \<Rightarrow> u32 \<Rightarrow> string \<Rightarrow> u32 \<Rightarrow> (u32 \<times> string) option" where
  "action um wholist s new_mode =
     (case s of
        [] \<Rightarrow> None
      | op # s \<Rightarrow>
          if op \<notin> {CHR ''+'', CHR ''-'', CHR ''=''} then None
          else
            let new_mode =
                  (if op = CHR ''='' then new_mode AND (if wholist \<noteq> 0 then NOT wholist else NOT FILEMODEBITS) else new_mode);
                (permlist, s) = get_perms new_mode s;
                permlist2 = permlist AND (if wholist \<noteq> 0 then wholist else NOT um)
            in Some (if permlist = 0 then new_mode
                     else if op = CHR ''-'' then new_mode AND NOT permlist2
                     else new_mode OR permlist2, s))"

lemma action_shorter: "action um w s m = Some (m', r) \<Longrightarrow> length r < length s"
  by (cases s) (auto simp: action_def less_Suc_eq_le Let_def split: if_split_asm prod.split_asm dest: get_perms_shorter)

function actions :: "u32 \<Rightarrow> u32 \<Rightarrow> string \<Rightarrow> u32 \<Rightarrow> (u32 \<times> string) option" where
  "actions um wholist s new_mode =
     (case action um wholist s new_mode of
        None \<Rightarrow> None
      | Some (new_mode, s) \<Rightarrow>
          if s \<noteq> [] \<and> hd s \<noteq> CHR '','' then actions um wholist s new_mode else Some (new_mode, s))"
  by pat_completeness auto
termination
  by (relation "measure (\<lambda>(_, _, s, _). length s)") (auto dest: action_shorter)

declare actions.simps [simp del]

lemma actions_shorter: "actions um w s m = Some (m', r) \<Longrightarrow> length r < length s"
proof (induction um w s m arbitrary: m' r rule: actions.induct)
  case (1 um w s m)
  from 1(2) obtain m1 r1 where a: "action um w s m = Some (m1, r1)"
    and r: "(if r1 \<noteq> [] \<and> hd r1 \<noteq> CHR '','' then actions um w r1 m1 else Some (m1, r1)) = Some (m', r)"
    by (subst (asm) actions.simps) (auto split: option.splits)
  show ?case using r 1(1) [OF a refl] action_shorter [OF a] by (fastforce split: if_split_asm)
qed

lemma who_list_shorter: "who_list w s = Some (w', r) \<Longrightarrow> length r \<le> length s"
  by (induction w s arbitrary: w' r rule: who_list.induct) (auto split: option.splits if_splits, fastforce)

function clauses :: "u32 \<Rightarrow> string \<Rightarrow> u32 \<Rightarrow> u32 option" where
  "clauses um s new_mode =
     (case s of
        [] \<Rightarrow> Some new_mode
      | c # s' \<Rightarrow>
          if c = CHR '','' then clauses um s' new_mode
          else (case who_list 0 s of
                  None \<Rightarrow> None
                | Some (wholist, r) \<Rightarrow>
                    (case actions um wholist r new_mode of
                       None \<Rightarrow> None
                     | Some (new_mode, r) \<Rightarrow> clauses um r new_mode)))"
  by pat_completeness auto
termination
  by (relation "measure (\<lambda>(_, s, _). length s)")
    (auto simp del: who_list.simps dest!: who_list_shorter actions_shorter)

declare clauses.simps [simp del]

definition octal_digit :: "char \<Rightarrow> bool" where
  "octal_digit c \<longleftrightarrow> digit_val c < 8"

definition bb_parse_mode :: "u32 \<Rightarrow> string \<Rightarrow> u32 \<Rightarrow> u32 option" where
  "bb_parse_mode um s current_mode =
     (if s \<noteq> [] \<and> octal_digit (hd s) then
        (case strtol 8 s of (tmp, e) \<Rightarrow> if e \<noteq> [] \<or> 0xFFF < tmp then None else Some (of_int tmp))
      else clauses um s current_mode)"
section \<open>The frame\<close>

abbreviation outside :: "u32 \<Rightarrow> u32 \<Rightarrow> u32" where
  "outside b m \<equiv> m AND NOT b"

lemma perm_mask_file: "perm_mask c = Some m \<Longrightarrow> outside FILEMODEBITS m = 0"
  by (auto simp: perm_mask_def FILEMODEBITS_def split: if_splits)

lemma who_mask_file: "who_mask c = Some m \<Longrightarrow> outside FILEMODEBITS m = 0"
  by (auto simp: who_mask_def FILEMODEBITS_def split: if_splits)

lemma outside_OR: "outside b (m OR n) = outside b m OR outside b n"
  by (simp add: bit.conj_disj_distrib2)

lemma outside_AND: "outside b (m AND n) = outside b m AND n"
  by (simp add: and.assoc and.commute and.left_commute)

lemma perm_list_file: "outside FILEMODEBITS p = 0 \<Longrightarrow> outside FILEMODEBITS (fst (perm_list m p s)) = 0"
proof (induction m p s rule: perm_list.induct)
  case (2 m p c s)
  then show ?case using perm_mask_file [of c] by (cases "perm_mask c") (simp_all add: outside_OR)
qed simp

text \<open>The bits of \<open>p\<close>, in all classes.\<close>

definition spread :: "u32 \<Rightarrow> u32" where
  "spread p =
     (if p AND 0x124 \<noteq> 0 then 0x124 else 0) OR (if p AND 0x92 \<noteq> 0 then 0x92 else 0) OR (if p AND 0x49 \<noteq> 0 then 0x49 else 0)"

lemma disjoint_masks: "(p OR 0x124) AND 0x92 = (p :: u32) AND 0x92" "(p OR 0x124) AND 0x49 = p AND 0x49" "(p OR 0x92) AND 0x49 = p AND 0x49"
  by (simp_all add: bit.conj_disj_distrib2)

lemma split_masks: "(p :: u32) AND 0x1FF = (p AND 0x124) OR (p AND 0x92) OR (p AND 0x49)"
  by (simp add: bit.conj_disj_distrib [symmetric])

lemma absorb_mask: "(p AND b) OR (b :: u32) = b"
  by simp

lemma perm_copy_spread: "perm_copy who m = spread (who AND 0x1FF AND m)"
proof -
  let ?p = "who AND 0x1FF AND m"
  have "?p AND 0x1FF = ?p" by (simp add: bit_eq_iff bit_simps) auto
  then have p: "?p = (?p AND 0x124) OR (?p AND 0x92) OR (?p AND 0x49)" using split_masks by metis
  have "fold (\<lambda>m p. if p AND m \<noteq> 0 then p OR m else p) [0x124, 0x92, 0x49] q = spread q"
    if "q = (q AND 0x124) OR (q AND 0x92) OR (q AND 0x49)" for q :: u32
  proof -
    let ?k = "\<lambda>k. if q AND k \<noteq> 0 then k else (0 :: u32)"
    have "fold (\<lambda>m p. if p AND m \<noteq> 0 then p OR m else p) [0x124, 0x92, 0x49] q = q OR ?k 0x124 OR ?k 0x92 OR ?k 0x49"
      by (simp add: disjoint_masks or.assoc)
    also have "\<dots> = (q AND 0x124 OR ?k 0x124) OR (q AND 0x92 OR ?k 0x92) OR (q AND 0x49 OR ?k 0x49)"
      by (subst that) (simp only: or.assoc or.commute or.left_commute)
    also have "\<dots> = spread q" by (simp add: spread_def absorb_mask)
    finally show ?thesis .
  qed
  then show ?thesis using p by (simp add: perm_copy_def)
qed

lemma get_perms_file: "get_perms m s = (p, r) \<Longrightarrow> outside FILEMODEBITS p = 0"
proof -
  have "outside FILEMODEBITS (spread q) = 0" for q by (simp add: spread_def FILEMODEBITS_def outside_OR)
  then show "get_perms m s = (p, r) \<Longrightarrow> ?thesis"
    using perm_list_file [of 0 m s] by (auto simp: get_perms_def perm_copy_spread split: if_split_asm)
qed

text \<open>The bits that a clause may change.\<close>

definition scope :: "u32 \<Rightarrow> u32" where
  "scope wholist = (if wholist \<noteq> 0 then wholist else FILEMODEBITS)"

lemma action_frame: "action um w s m = Some (m', r) \<Longrightarrow> outside (scope w) m' = outside (scope w) m"
proof (cases s)
  case (Cons op t)
  assume a: "action um w s m = Some (m', r)"
  define n where "n = (if op = CHR ''='' then m AND NOT (scope w) else m)"
  obtain p u where g: "get_perms n t = (p, u)" by fastforce
  define q where "q = p AND (if w \<noteq> 0 then w else NOT um)"
  have "outside FILEMODEBITS q = 0" using get_perms_file [OF g] by (simp only: q_def outside_AND) simp
  then have q: "outside (scope w) q = 0" by (cases "w = 0") (simp_all add: scope_def q_def and.assoc)
  have n: "outside (scope w) n = outside (scope w) m" by (simp add: n_def and.assoc)
  have "m' = n \<or> m' = n AND NOT q \<or> m' = n OR q"
    using a Cons g by (auto simp: action_def n_def q_def scope_def Let_def split: if_split_asm)
  moreover have "outside (scope w) (n AND NOT q) = outside (scope w) n"
  proof -
    have "outside (scope w) (n AND NOT q) = outside (scope w) n AND NOT (outside (scope w) q)"
      by (simp add: bit_eq_iff bit_simps) auto
    then show ?thesis using q by simp
  qed
  ultimately show ?thesis using q n by (auto simp: outside_OR)
qed (simp add: action_def)

lemma actions_frame: "actions um w s m = Some (m', r) \<Longrightarrow> outside (scope w) m' = outside (scope w) m"
proof (induction um w s m arbitrary: m' r rule: actions.induct)
  case (1 um w s m)
  from 1(2) obtain m1 r1 where a: "action um w s m = Some (m1, r1)"
    and r: "(if r1 \<noteq> [] \<and> hd r1 \<noteq> CHR '','' then actions um w r1 m1 else Some (m1, r1)) = Some (m', r)"
    by (subst (asm) actions.simps) (auto split: option.splits)
  show ?case using r 1(1) [OF a refl] action_frame [OF a] by (fastforce split: if_split_asm)
qed

lemma who_list_file: "who_list w s = Some (w', r) \<Longrightarrow> outside FILEMODEBITS w = 0 \<Longrightarrow> outside FILEMODEBITS w' = 0"
  by (induction w s arbitrary: w' r rule: who_list.induct)
    (auto simp: outside_OR dest: who_mask_file split: option.split_asm if_split_asm)

lemma outside_mono: "outside FILEMODEBITS w = 0 \<Longrightarrow> outside w m' = outside w m \<Longrightarrow> outside FILEMODEBITS m' = outside FILEMODEBITS m"
proof -
  assume w: "outside FILEMODEBITS w = 0" and m: "outside w m' = outside w m"
  have "outside FILEMODEBITS n = outside FILEMODEBITS (outside w n)" for n
  proof -
    have "outside FILEMODEBITS n = outside FILEMODEBITS (outside w n) OR (n AND outside FILEMODEBITS w)"
      by (simp add: bit_eq_iff bit_simps) auto
    then show ?thesis using w by simp
  qed
  then show ?thesis using m by metis
qed

lemma clauses_frame: "clauses um s m = Some m' \<Longrightarrow> outside FILEMODEBITS m' = outside FILEMODEBITS m"
proof (induction um s m arbitrary: m' rule: clauses.induct)
  case (1 um s m)
  show ?case
  proof (cases s)
    case Nil
    then show ?thesis using 1(3) by (simp add: clauses.simps)
  next
    case (Cons c t)
    show ?thesis
    proof (cases "c = CHR '',''")
      case True
      then show ?thesis using 1(1) [OF Cons True] 1(3) Cons by (simp add: clauses.simps [of um "CHR '','' # t"])
    next
      case False
      then obtain w r n r' where w: "who_list 0 s = Some (w, r)" and n: "actions um w r m = Some (n, r')"
        and c: "clauses um r' n = Some m'"
        using 1(3) Cons by (subst (asm) clauses.simps) (auto simp del: who_list.simps split: option.split_asm)
      have "outside FILEMODEBITS (scope w) = 0" using who_list_file [OF w] by (simp add: scope_def)
      then have "outside FILEMODEBITS n = outside FILEMODEBITS m" using outside_mono actions_frame [OF n] by blast
      then show ?thesis using 1(2) [OF Cons False w refl n refl c] by simp
    qed
  qed
qed

section \<open>The clauses\<close>

text \<open>
  An action is an operator with a class to copy from or with a list of permissions; a clause is a list of classes
  with actions. Permissions and classes stand for themselves as characters.
\<close>

datatype perms = Copy char | Perms string

type_synonym mode_clause = "string \<times> (char \<times> perms) list"

definition is_class :: "char \<Rightarrow> bool" where "is_class c \<longleftrightarrow> c \<in> {CHR ''u'', CHR ''g'', CHR ''o''}"

definition action_ok :: "char \<times> perms \<Rightarrow> bool" where
  "action_ok a \<longleftrightarrow>
     fst a \<in> {CHR ''+'', CHR ''-'', CHR ''=''} \<and>
     (case snd a of Copy c \<Rightarrow> is_class c | Perms ps \<Rightarrow> list_all (\<lambda>p. perm_mask p \<noteq> None) ps)"

definition clause_ok :: "mode_clause \<Rightarrow> bool" where
  "clause_ok c \<longleftrightarrow> list_all (\<lambda>w. who_mask w \<noteq> None) (fst c) \<and> snd c \<noteq> [] \<and> list_all action_ok (snd c)"

definition action_string :: "char \<times> perms \<Rightarrow> string" where
  "action_string a = fst a # (case snd a of Copy c \<Rightarrow> [c] | Perms ps \<Rightarrow> ps)"

definition clause_string :: "mode_clause \<Rightarrow> string" where
  "clause_string c = fst c @ concat (map action_string (snd c))"

fun mode_string :: "mode_clause list \<Rightarrow> string" where
  "mode_string [] = []"
| "mode_string [c] = clause_string c"
| "mode_string (c # cs) = clause_string c @ CHR '','' # mode_string cs"

text \<open>
  The meaning. The operator \<open>=\<close> first removes all permissions of the named classes; the permissions of an action are then
  taken from what is left. Without classes the mask of the process limits the permissions.
\<close>

definition classes :: "string \<Rightarrow> u32" where
  "classes ws = fold (\<lambda>w m. m OR the (who_mask w)) ws 0"

definition perms_of :: "u32 \<Rightarrow> perms \<Rightarrow> u32" where
  "perms_of m k =
     (case k of
        Copy c \<Rightarrow> spread (the (who_mask c) AND 0x1FF AND m)
      | Perms ps \<Rightarrow> fold (\<lambda>p a. a OR (if p = CHR ''X'' \<and> m AND 0x4049 = 0 then 0 else the (perm_mask p))) ps 0)"

definition apply_action :: "u32 \<Rightarrow> u32 \<Rightarrow> u32 \<Rightarrow> char \<times> perms \<Rightarrow> u32" where
  "apply_action um w m a =
     (let m1 = (if fst a = CHR ''='' then m AND NOT (scope w) else m);
          p = perms_of m1 (snd a) AND (if w \<noteq> 0 then w else NOT um)
      in if fst a = CHR ''-'' then m1 AND NOT p else m1 OR p)"

definition apply_clause :: "u32 \<Rightarrow> u32 \<Rightarrow> mode_clause \<Rightarrow> u32" where
  "apply_clause um m c = foldl (apply_action um (classes (fst c))) m (snd c)"

section \<open>Parsing\<close>

definition ends :: "string \<Rightarrow> bool" where
  "ends r \<longleftrightarrow> r = [] \<or> hd r \<in> {CHR ''+'', CHR ''-'', CHR ''='', CHR '',''}"

lemma ends_perm: "ends (c # r) \<Longrightarrow> perm_mask c = None"
  by (auto simp: ends_def perm_mask_def)

lemma perm_list_string:
  assumes "list_all (\<lambda>p. perm_mask p \<noteq> None) ps" "ends r"
  shows "perm_list m a (ps @ r) =
    (fold (\<lambda>p a. a OR (if p = CHR ''X'' \<and> m AND 0x4049 = 0 then 0 else the (perm_mask p))) ps a, r)"
  using assms(1)
proof (induction ps arbitrary: a)
  case Nil
  then show ?case using assms(2) ends_perm by (cases r) auto
qed auto

lemma get_perms_string:
  assumes "action_ok (op, k)" "ends r"
  shows "get_perms m (tl (action_string (op, k)) @ r) = (perms_of m k, r)"
proof (cases k)
  case (Copy c)
  then show ?thesis using assms by (simp add: action_ok_def is_class_def action_string_def get_perms_def perms_of_def perm_copy_spread)
next
  case (Perms ps)
  have "\<not> (ps @ r \<noteq> [] \<and> hd (ps @ r) \<in> {CHR ''u'', CHR ''g'', CHR ''o''})"
    using assms Perms by (cases ps) (auto simp: action_ok_def ends_def perm_mask_def)
  then have "get_perms m (ps @ r) = perm_list m 0 (ps @ r)" by (auto simp: get_perms_def)
  then show ?thesis
    using assms Perms perm_list_string [of ps r m 0] by (simp add: action_ok_def action_string_def perms_of_def)
qed

lemma action_step:
  assumes "action_ok a" "ends r"
  shows "action um w (action_string a @ r) m = Some (apply_action um w m a, r)"
proof -
  obtain op k where a: "a = (op, k)" by (cases a)
  have s: "action_string a @ r = op # tl (action_string (op, k)) @ r" by (simp add: a action_string_def)
  show ?thesis
    unfolding s action_def using get_perms_string [of op k r] assms a
    by (auto simp: action_ok_def apply_action_def scope_def Let_def)
qed

lemma actions_string:
  assumes "list_all action_ok as" "as \<noteq> []" "r = [] \<or> hd r = CHR '',''"
  shows "actions um w (concat (map action_string as) @ r) m = Some (foldl (apply_action um w) m as, r)"
  using assms(1,2)
proof (induction as arbitrary: m)
  case (Cons a as)
  let ?r = "concat (map action_string as) @ r"
  have "ends ?r" using Cons.prems assms(3) by (cases as) (auto simp: ends_def action_ok_def action_string_def)
  then have "action um w (action_string a @ ?r) m = Some (apply_action um w m a, ?r)" using Cons.prems by (simp add: action_step)
  moreover have "as \<noteq> [] \<Longrightarrow> ?r \<noteq> [] \<and> hd ?r \<noteq> CHR '',''"
    using Cons.prems by (cases as) (auto simp: action_ok_def action_string_def)
  ultimately show ?case using Cons assms(3) by (cases "as = []") (auto simp: actions.simps [of um w "_ @ _"])
qed simp

lemma who_list_string:
  assumes "list_all (\<lambda>w. who_mask w \<noteq> None) ws" "r \<noteq> []" "who_mask (hd r) = None"
  shows "who_list a (ws @ r) = Some (fold (\<lambda>w m. m OR the (who_mask w)) ws a, r)"
  using assms(1)
proof (induction ws arbitrary: a)
  case Nil
  then show ?case using assms(2,3) by (cases r) auto
qed (use assms(2) in auto)

lemma clause_first: "clause_ok c \<Longrightarrow> clause_string c \<noteq> [] \<and> hd (clause_string c) \<in> set ''augo+-=''"
  by (cases "fst c"; cases "snd c")
    (auto simp: clause_ok_def clause_string_def action_string_def action_ok_def who_mask_def split: if_split_asm)

lemma clauses_step:
  assumes "clause_ok c" "r = [] \<or> hd r = CHR '',''"
  shows "clauses um (clause_string c @ r) m = clauses um r (apply_clause um m c)"
proof -
  obtain ws as where c: "c = (ws, as)" by (cases c)
  let ?t = "concat (map action_string as) @ r"
  have t: "?t \<noteq> []" "who_mask (hd ?t) = None" using assms(1) c
    by (cases as; auto simp: clause_ok_def action_ok_def action_string_def who_mask_def)+
  have "who_list 0 (clause_string c @ r) = Some (classes ws, ?t)"
    using who_list_string [OF _ t, of ws 0] assms(1) c by (simp add: clause_ok_def clause_string_def classes_def)
  moreover have "actions um (classes ws) ?t m = Some (apply_clause um m c, r)"
    using actions_string [OF _ _ assms(2)] assms(1) c by (simp add: clause_ok_def apply_clause_def)
  moreover obtain x s where "clause_string c @ r = x # s" "x \<noteq> CHR '',''"
    using clause_first [OF assms(1)] by (cases "clause_string c") auto
  ultimately show ?thesis by (simp add: clauses.simps [of um "x # s"] del: who_list.simps)
qed

lemma clauses_string: "list_all clause_ok cs \<Longrightarrow> clauses um (mode_string cs) m = Some (foldl (apply_clause um) m cs)"
proof (induction cs arbitrary: m rule: mode_string.induct)
  case 1
  then show ?case by (simp add: clauses.simps)
next
  case (2 c)
  then show ?case using clauses_step [of c "[]"] by (simp add: clauses.simps [of um "[]"])
next
  case (3 c d cs)
  then show ?case using clauses_step [of c "CHR '','' # mode_string (d # cs)"] by (simp add: clauses.simps [of um "CHR '','' # _"])
qed

lemma mode_string_first: "list_all clause_ok cs \<Longrightarrow> mode_string cs \<noteq> [] \<Longrightarrow> \<not> octal_digit (hd (mode_string cs))"
proof (cases cs rule: mode_string.cases)
  have d: "\<forall>x \<in> set ''augo+-=''. \<not> octal_digit x" by (simp add: octal_digit_def digit_val_def)
  assume "list_all clause_ok cs" "mode_string cs \<noteq> []"
  then show "\<not> octal_digit (hd (mode_string cs))" if "cs = [c]" for c using that clause_first [of c] d by auto
  show "\<not> octal_digit (hd (mode_string cs))" if "cs = c # e # es" for c e es
    using that clause_first [of c] d \<open>list_all clause_ok cs\<close> by auto
qed simp

text \<open>
  C20. The text of a list of clauses is accepted, and the clauses are applied to the mode one after the other.
\<close>

theorem parse_mode_clauses:
  assumes "list_all clause_ok cs"
  shows "bb_parse_mode um (mode_string cs) m = Some (foldl (apply_clause um) m cs)"
  using clauses_string [OF assms] mode_string_first [OF assms] by (auto simp: bb_parse_mode_def)

lemma small_mode:
  assumes "0 \<le> t" "t \<le> 0xFFF"
  shows "word_of_int t AND NOT FILEMODEBITS = (0 :: u32)"
proof -
  have "take_bit 12 t = t" using assms by (simp add: take_bit_int_eq_self_iff)
  then have "bit t n \<Longrightarrow> n < 12" for n by (metis bit_take_bit_iff)
  moreover have "FILEMODEBITS = mask 12" by (simp add: FILEMODEBITS_def mask_eq_exp_minus_1)
  ultimately show ?thesis by (auto simp: bit_eq_iff bit_simps)
qed

text \<open>
  C31. Whatever the text is: when it does not start with an octal digit, the bits of the mode above the permissions, which are the
  type of the file, stay as they are; a text that starts with an octal digit gives permissions only.
\<close>

theorem parse_mode_keeps_type:
  assumes "bb_parse_mode um s m = Some m'"
  shows "m' AND NOT FILEMODEBITS = (if s \<noteq> [] \<and> octal_digit (hd s) then 0 else m AND NOT FILEMODEBITS)"
proof (cases "s \<noteq> [] \<and> octal_digit (hd s)")
  case True
  obtain tmp e where t: "strtol 8 s = (tmp, e)" by fastforce
  have "0 \<le> tmp"
  proof -
    obtain c r where s: "s = c # r" using True by (cases s) auto
    then have "\<not> isspace c" "c \<noteq> CHR ''-''" using True by (auto simp: octal_digit_def digit_val_def isspace_def)
    then have "strip_sign (dropWhile isspace s) = (False, dropWhile isspace s) \<or> c = CHR ''+''" using s by (auto simp: strip_sign_def)
    moreover have "c \<noteq> CHR ''+''" using True s by (auto simp: octal_digit_def digit_val_def)
    ultimately show ?thesis using t by (auto simp: strtol_def scan_num_def Let_def split: if_split_asm prod.split_asm)
  qed
  moreover have "tmp \<le> 0xFFF" "m' = of_int tmp" using assms True t by (auto simp: bb_parse_mode_def split: if_split_asm)
  ultimately show ?thesis using True small_mode by simp
next
  case False
  then have "clauses um s m = Some m'" using assms by (auto simp: bb_parse_mode_def)
  then show ?thesis using clauses_frame False by auto
qed

text \<open>Octal numbers.\<close>

lemma parse_mode_octal:
  assumes "s \<noteq> []" "list_all octal_digit s"
  shows "bb_parse_mode um s m = (if digits_val 8 s \<le> 0xFFF then Some (of_nat (digits_val 8 s)) else None)"
proof -
  obtain c r where s: "s = c # r" using assms by (cases s) auto
  have "\<not> isspace c" "c \<noteq> CHR ''-''" "c \<noteq> CHR ''+''" using assms s by (auto simp: octal_digit_def digit_val_def isspace_def)
  then have "scan_num 8 s = Some (False, digits_val 8 s, [])"
    using assms s by (simp add: scan_num_def strip_sign_def strip_base_def octal_digit_def list_all_iff takeWhile_eq_all_conv [THEN iffD2])
  then show ?thesis using assms s by (auto simp: bb_parse_mode_def strtol_def)
qed

text \<open>
  The operator \<open>=\<close> looks at the mode after it removed the permissions: a class that is copied to itself loses all of them, and \<open>X\<close> does
  not see that a file was executable. The test for a directory looks at one bit, which sockets and block devices have too.
\<close>

lemma bb_parse_mode_string:
  assumes "list_all clause_ok cs" "s = mode_string cs"
  shows "bb_parse_mode um s m = Some (foldl (apply_clause um) m cs)"
  using clauses_string [OF assms(1)] mode_string_first [OF assms(1)] assms(2) by (auto simp: bb_parse_mode_def)

lemma copy_to_itself:
  assumes "is_class c"
  shows "bb_parse_mode um [c, CHR ''='', c] m = Some (m AND NOT (the (who_mask c)))"
proof -
  have c: "clause_ok ([c], [(CHR ''='', Copy c)])" using assms by (auto simp: clause_ok_def action_ok_def is_class_def who_mask_def)
  have "scope (the (who_mask c)) = the (who_mask c)" using assms by (auto simp: is_class_def who_mask_def scope_def)
  moreover have "the (who_mask c) AND 0x1FF AND (m AND NOT (the (who_mask c))) = 0" by (auto simp: bit_eq_iff bit_simps)
  ultimately show ?thesis
    using bb_parse_mode_string [of "[([c], [(CHR ''='', Copy c)])]", simplified, OF c refl] assms
    by (auto simp: clause_string_def action_string_def apply_clause_def apply_action_def classes_def perms_of_def spread_def Let_def)
qed

lemma executable_lost: "bb_parse_mode 0 ''a=rX'' 0x81ED = Some 0x8124"
  using bb_parse_mode_string [of "[(''a'', [(CHR ''='', Perms ''rX'')])]" "''a=rX''" 0 "0x81ED"]
  by (simp add: clause_ok_def action_ok_def clause_string_def action_string_def apply_clause_def apply_action_def
    classes_def perms_of_def who_mask_def perm_mask_def scope_def)

lemma socket_executable: "bb_parse_mode 0 ''a+X'' 0xC1A4 = Some 0xC1ED"
  using bb_parse_mode_string [of "[(''a'', [(CHR ''+'', Perms ''X'')])]" "''a+X''" 0 "0xC1A4"]
  by (simp add: clause_ok_def action_ok_def clause_string_def action_string_def apply_clause_def apply_action_def
    classes_def perms_of_def who_mask_def perm_mask_def scope_def)

section \<open>Examples\<close>

definition example_clauses :: "mode_clause list" where
  "example_clauses = [(''u'', [(CHR ''='', Perms ''rwx'')]), (''go'', [(CHR ''='', Copy (CHR ''u'')), (CHR ''-'', Perms ''w'')])]"

lemma example_clauses:
  "list_all clause_ok example_clauses" "mode_string example_clauses = ''u=rwx,go=u-w''"
  "foldl (apply_clause 0x12) 0x81A4 example_clauses = 0x81ED"
  by (simp_all add: example_clauses_def clause_ok_def action_ok_def is_class_def clause_string_def action_string_def apply_clause_def
    apply_action_def classes_def perms_of_def who_mask_def perm_mask_def scope_def spread_def)

theorem parse_mode_clauses_witness: "bb_parse_mode 0x12 ''u=rwx,go=u-w'' 0x81A4 = Some 0x81ED"
  using parse_mode_clauses [OF example_clauses(1), of "0x12" "0x81A4"] by (simp add: example_clauses)

theorem parse_mode_keeps_type_witness:
  "bb_parse_mode 0 ''a=rX'' 0x81ED = Some 0x8124 \<and> (0x8124 :: u32) AND NOT FILEMODEBITS = 0x81ED AND NOT FILEMODEBITS"
  using parse_mode_keeps_type [OF executable_lost] executable_lost by (simp add: octal_digit_def digit_val_def)

end
