(* ===== verification/Comm.thy ===== *)
theory Comm
  imports C_Lib
begin

text \<open>
  The applet \<open>comm\<close> (\<open>coreutils/comm.c\<close>). Streams are the rest of a file with the flag that \<open>feof\<close> reads; stream 0 is the standard
  input, which both names may mean. A line is read into a buffer of \<open>LINE_LEN\<close> bytes that keeps its content when
  nothing can be read, and is uninitialised before: \<open>None\<close> is a read of an uninitialised buffer.
\<close>

definition LINE_LEN :: nat where "LINE_LEN = 100"

record comm_conf =
  only_file_1 :: bool
  only_file_2 :: bool
  both :: bool

record stream =
  s_rest :: string
  s_eof :: bool

record comm_state =
  thisline :: "nat \<Rightarrow> string option"
  streams :: "nat \<Rightarrow> stream"
  comm_out :: string

definition tab_char :: string where "tab_char = [CHR 0x09]"

definition writeline :: "comm_conf \<Rightarrow> string \<Rightarrow> nat \<Rightarrow> string" where
  "writeline cf line class =
     (if class = 0 then (if only_file_1 cf then line else [])
      else if class = 1 then
        (if only_file_2 cf then (if only_file_1 cf then tab_char else []) @ line else [])
      else
        (if both cf then (if only_file_1 cf then tab_char else []) @ (if only_file_2 cf then tab_char else []) @ line else []))"

text \<open>\<open>fgets\<close> meets the end of the file when it neither fills the buffer nor finds a newline.\<close>

definition stream_gets :: "stream \<Rightarrow> string option \<times> stream" where
  "stream_gets st =
     (case fgets LINE_LEN (s_rest st) of
        None \<Rightarrow> (None, st\<lparr>s_eof := True\<rparr>)
      | Some (l, r) \<Rightarrow>
          (Some l, \<lparr>s_rest = r, s_eof = (s_eof st \<or> length l < LINE_LEN - 1 \<and> last l \<noteq> CHR 0x0A)\<rparr>))"

text \<open>\<open>fgets(thisline[i], LINE_LEN, streams[i])\<close>, where \<open>sid i\<close> is the stream of file \<open>i\<close>.\<close>

definition read_line :: "(nat \<Rightarrow> nat) \<Rightarrow> nat \<Rightarrow> comm_state \<Rightarrow> comm_state" where
  "read_line sid i s =
     (case stream_gets (streams s (sid i)) of
        (None, st) \<Rightarrow> s\<lparr>streams := (streams s)(sid i := st)\<rparr>
      | (Some l, st) \<Rightarrow> s\<lparr>thisline := (thisline s)(i \<mapsto> cstring l), streams := (streams s)(sid i := st)\<rparr>)"

definition feof :: "(nat \<Rightarrow> nat) \<Rightarrow> nat \<Rightarrow> comm_state \<Rightarrow> bool" where
  "feof sid i s = s_eof (streams s (sid i))"

text \<open>The order of two lines; an empty string means that there is no line.\<close>

definition line_order :: "string \<Rightarrow> string \<Rightarrow> int" where
  "line_order a b =
     (if a = [] then 1
      else if b = [] then - 1
      else
        let k = min (length a) (length b);
            order = strcmp_sign (take k a) (take k b)
        in if order \<noteq> 0 then order
           else if length a < length b then - 1 else of_bool (length a \<noteq> length b))"

definition put_line :: "comm_conf \<Rightarrow> string \<Rightarrow> nat \<Rightarrow> comm_state \<Rightarrow> comm_state" where
  "put_line cf line class s = s\<lparr>comm_out := comm_out s @ writeline cf line class\<rparr>"

text \<open>What is left of one file when the other one has ended.\<close>

definition stream_size :: "stream \<Rightarrow> nat" where
  "stream_size st = length (s_rest st) + (if s_eof st then 0 else 1)"

lemma stream_gets_size: "\<not> s_eof st \<Longrightarrow> stream_size (snd (stream_gets st)) < stream_size st"
  by (auto simp: stream_gets_def stream_size_def LINE_LEN_def split: option.split dest!: fgets_shorter)

lemma read_line_streams: "streams (read_line sid i s) = (streams s)(sid i := snd (stream_gets (streams s (sid i))))"
  by (auto simp: read_line_def split: prod.split option.split)

function comm_tail :: "comm_conf \<Rightarrow> (nat \<Rightarrow> nat) \<Rightarrow> int \<Rightarrow> nat \<Rightarrow> comm_state \<Rightarrow> comm_state option" where
  "comm_tail cf sid order i s =
     (if feof sid i s then Some s
      else if order < 0 \<and> i \<noteq> 0 \<or> order > 0 \<and> i = 0 then
        (case thisline s i of
           None \<Rightarrow> None
         | Some line \<Rightarrow> comm_tail cf sid order i (read_line sid i (put_line cf line i s)))
      else comm_tail cf sid order i (read_line sid i s))"
  by pat_completeness auto
termination
  by (relation "measure (\<lambda>(_, sid, _, i, s). stream_size (streams s (sid i)))")
    (auto simp: read_line_streams put_line_def feof_def stream_gets_size)

declare comm_tail.simps [simp del]

definition comm_write :: "comm_conf \<Rightarrow> bool \<Rightarrow> bool \<Rightarrow> int \<Rightarrow> string \<Rightarrow> string \<Rightarrow> comm_state \<Rightarrow> comm_state" where
  "comm_write cf eof0 eof1 order a b s =
     (if order = 0 \<and> \<not> eof0 \<and> \<not> eof1 then put_line cf b 2 s
      else if order > 0 \<and> \<not> eof1 then put_line cf b 1 s
      else if order < 0 \<and> \<not> eof0 then put_line cf a 0 s
      else s)"

definition comm_read :: "(nat \<Rightarrow> nat) \<Rightarrow> int \<Rightarrow> comm_state \<Rightarrow> comm_state" where
  "comm_read sid order s =
     (let s = (if order \<ge> 0 then read_line sid 1 s else s)
      in if order \<le> 0 then read_line sid 0 s else s)"

text \<open>
  The main loop. The test \<open>i & BB_EOF_0 & BB_EOF_1\<close> for the end of both files is never true, since the two bits are different; the
  loop over the rest of the other file then ends at once.
\<close>

definition comm_measure :: "(nat \<Rightarrow> nat) \<Rightarrow> comm_state \<Rightarrow> nat" where
  "comm_measure sid s = stream_size (streams s (sid 0)) + stream_size (streams s (sid 1))"

lemma read_line_measure:
  assumes "\<not> feof sid i s" "i = 0 \<or> i = 1"
  shows "comm_measure sid (read_line sid i s) < comm_measure sid s"
  using assms stream_gets_size [of "streams s (sid i)"]
  by (auto simp: comm_measure_def read_line_streams feof_def)

lemma stream_gets_size_le: "stream_size (snd (stream_gets st)) \<le> stream_size st"
  by (auto simp: stream_gets_def stream_size_def LINE_LEN_def split: option.split dest!: fgets_shorter)

lemma read_line_measure_le: "i = 0 \<or> i = 1 \<Longrightarrow> comm_measure sid (read_line sid i s) \<le> comm_measure sid s"
  using stream_gets_size_le [of "streams s (sid i)"] by (auto simp: comm_measure_def read_line_streams)

lemma comm_read_measure:
  assumes "\<not> feof sid 0 s" "\<not> feof sid 1 s"
  shows "comm_measure sid (comm_read sid order s) < comm_measure sid s"
  using assms read_line_measure [of sid 1 s] read_line_measure [of sid 0 s] read_line_measure_le [of 0 sid "read_line sid 1 s"]
  by (cases order "0 :: int" rule: linorder_cases) (auto simp: comm_read_def)

lemma comm_write_streams [simp]:
  "streams (comm_write cf e0 e1 order a b s) = streams s" "thisline (comm_write cf e0 e1 order a b s) = thisline s"
  by (simp_all add: comm_write_def put_line_def)

function comm_loop :: "comm_conf \<Rightarrow> (nat \<Rightarrow> nat) \<Rightarrow> comm_state \<Rightarrow> comm_state option" where
  "comm_loop cf sid s =
     (case (thisline s 0, thisline s 1) of
        (Some a, Some b) \<Rightarrow>
          if a = [] \<and> b = [] then Some s
          else
            let order = line_order a b;
                eof0 = feof sid 0 s;
                eof1 = feof sid 1 s;
                s' = comm_write cf eof0 eof1 order a b s
            in if eof0 \<or> eof1 then comm_tail cf sid order (if eof0 then 1 else 0) s'
               else comm_loop cf sid (comm_read sid order s')
      | _ \<Rightarrow> None)"
  by pat_completeness auto
termination
proof (relation "measure (\<lambda>(_, sid, s). comm_measure sid s)", goal_cases)
  case (2 cf sid s)
  then show ?case
    using comm_read_measure [of sid "comm_write cf False False _ _ _ s"]
    by (simp add: feof_def comm_measure_def)
qed simp

declare comm_loop.simps [simp del]

text \<open>The source of the files: the name that means the standard input starts with \<open>=\<close>.\<close>

definition is_stdin :: "string \<Rightarrow> bool" where
  "is_stdin name \<longleftrightarrow> (case name of c # d # _ \<Rightarrow> c = CHR ''='' | _ \<Rightarrow> False)"

definition open_stream :: "(string \<Rightarrow> string option) \<Rightarrow> string \<Rightarrow> nat \<Rightarrow> comm_state \<Rightarrow> (comm_state \<times> nat) option" where
  "open_stream files name i s =
     (if is_stdin name then Some (s, 0)
      else case files name of
        None \<Rightarrow> None
      | Some text \<Rightarrow> Some (s\<lparr>streams := (streams s)(i + 1 := \<lparr>s_rest = text, s_eof = False\<rparr>)\<rparr>, i + 1))"

datatype comm_result = Comm_exit string | Comm_usage | Comm_open_failed | Comm_uninitialised

definition cmp_files :: "comm_conf \<Rightarrow> (string \<Rightarrow> string option) \<Rightarrow> string \<Rightarrow> string \<Rightarrow> string \<Rightarrow> comm_result" where
  "cmp_files cf files stdin name0 name1 =
     (let s = \<lparr>thisline = (\<lambda>_. None), streams = (\<lambda>_. \<lparr>s_rest = stdin, s_eof = False\<rparr>), comm_out = []\<rparr> in
      case open_stream files name0 0 s of
        None \<Rightarrow> Comm_open_failed
      | Some (s, i0) \<Rightarrow>
          let s = read_line (\<lambda>_. i0) 0 s in
          (case open_stream files name1 1 s of
             None \<Rightarrow> Comm_open_failed
           | Some (s, i1) \<Rightarrow>
               let sid = (\<lambda>i. if i = 0 then i0 else i1)
               in (case comm_loop cf sid (read_line sid 1 s) of
                     None \<Rightarrow> Comm_uninitialised
                   | Some s \<Rightarrow> Comm_exit (comm_out s))))"

definition comm_main :: "bool \<Rightarrow> bool \<Rightarrow> bool \<Rightarrow> (string \<Rightarrow> string option) \<Rightarrow> string \<Rightarrow> string list \<Rightarrow> comm_result" where
  "comm_main opt1 opt2 opt3 files stdin names =
     (case names of
        [name0, name1] \<Rightarrow>
          cmp_files \<lparr>only_file_1 = \<not> opt1, only_file_2 = \<not> opt2, both = \<not> opt3\<rparr> files stdin name0 name1
      | _ \<Rightarrow> Comm_usage)"

section \<open>The order of the lines\<close>

lemma line_order_less:
  assumes "a \<noteq> []" "b \<noteq> []"
  shows "line_order a b = strcmp_sign a b"
proof -
  have "strcmp_sign a b = (let k = min (length a) (length b); order = strcmp_sign (take k a) (take k b)
        in if order \<noteq> 0 then order else if length a < length b then - 1 else of_bool (length a \<noteq> length b))"
    by (induction a b rule: strcmp_sign.induct) (simp_all add: Let_def)
  then show ?thesis using assms by (simp add: line_order_def)
qed

lemma string_less_irrefl: "\<not> string_less a a"
  unfolding string_less_def by (rule lexord_irreflexive) simp

lemma string_less_trans: "string_less a b \<Longrightarrow> string_less b c \<Longrightarrow> string_less a c"
  unfolding string_less_def by (erule lexord_trans) (auto simp: trans_def)

lemma string_less_asym: "string_less a b \<Longrightarrow> \<not> string_less b a"
  using string_less_trans string_less_irrefl by blast

lemma string_less_linear: "a \<noteq> b \<Longrightarrow> \<not> string_less a b \<Longrightarrow> string_less b a"
  using strcmp_sign_less strcmp_sign_zero by (metis linorder_neqE_linordered_idom)

section \<open>The specification\<close>

text \<open>The lines of both files in order, each with its column.\<close>

fun comm_merge :: "string list \<Rightarrow> string list \<Rightarrow> (nat \<times> string) list" where
  "comm_merge [] ys = map (Pair 1) ys"
| "comm_merge (x # xs) [] = map (Pair 0) (x # xs)"
| "comm_merge (x # xs) (y # ys) =
     (if x = y then (2, x) # comm_merge xs ys
      else if string_less x y then (0, x) # comm_merge xs (y # ys)
      else (1, y) # comm_merge (x # xs) ys)"

definition column :: "nat \<Rightarrow> (nat \<times> string) list \<Rightarrow> string list" where
  "column c ps = map snd (filter (\<lambda>p. fst p = c) ps)"

abbreviation increasing :: "string list \<Rightarrow> bool" where
  "increasing \<equiv> sorted_wrt string_less"

lemma column_simps [simp]:
  "column c [] = []" "column c ((d, l) # ps) = (if d = c then l # column c ps else column c ps)"
  "column c (map (Pair d) ls) = (if d = c then ls else [])"
  by (simp_all add: column_def filter_map comp_def)

text \<open>In increasing files the columns are the differences and the intersection.\<close>

lemma comm_merge_columns:
  assumes "increasing xs" "increasing ys"
  shows "column 0 (comm_merge xs ys) = filter (\<lambda>l. l \<notin> set ys) xs"
    "column 1 (comm_merge xs ys) = filter (\<lambda>l. l \<notin> set xs) ys"
    "column 2 (comm_merge xs ys) = filter (\<lambda>l. l \<in> set ys) xs"
proof -
  have "column 0 (comm_merge xs ys) = filter (\<lambda>l. l \<notin> set ys) xs \<and>
    column 1 (comm_merge xs ys) = filter (\<lambda>l. l \<notin> set xs) ys \<and>
    column 2 (comm_merge xs ys) = filter (\<lambda>l. l \<in> set ys) xs"
    using assms
  proof (induction xs ys rule: comm_merge.induct)
    case (3 x xs y ys)
    have f: "filter (\<lambda>l. l \<noteq> z \<and> P l) ls = filter P ls" "filter (\<lambda>l. l = z \<or> P l) ls = filter P ls"
      if "\<forall>l \<in> set ls. string_less z l" for z P and ls :: "string list"
      using that string_less_irrefl by (auto intro!: filter_cong)
    consider "x = y" | "string_less x y" "x \<noteq> y" | "string_less y x" "x \<noteq> y" "\<not> string_less x y"
      using string_less_linear string_less_irrefl by blast
    then show ?case
    proof cases
      case 1
      then show ?thesis using 3 f by auto
    next
      case 2
      then have l: "\<forall>l \<in> set (y # ys). string_less x l" using 3(5) string_less_trans by (metis set_ConsD sorted_wrt.simps(2))
      then have "x \<notin> set ys" using string_less_irrefl by auto
      then show ?thesis using 2 l 3(2,4,5) f [of ys x] by auto
    next
      case less: 3
      then have l: "\<forall>l \<in> set (x # xs). string_less y l" using 3(4) string_less_trans by (metis set_ConsD sorted_wrt.simps(2))
      then have "y \<notin> set xs" using string_less_irrefl by auto
      then show ?thesis using less l 3(3,4,5) f [of xs y] by auto
    qed
  qed auto
  then show "column 0 (comm_merge xs ys) = filter (\<lambda>l. l \<notin> set ys) xs"
    "column 1 (comm_merge xs ys) = filter (\<lambda>l. l \<notin> set xs) ys"
    "column 2 (comm_merge xs ys) = filter (\<lambda>l. l \<in> set ys) xs" by blast+
qed

text \<open>Lines that fit into the buffer, with the newline.\<close>

definition line_ok :: "string \<Rightarrow> bool" where
  "line_ok l \<longleftrightarrow> l \<noteq> [] \<and> last l = CHR 0x0A \<and> CHR 0x0A \<notin> set (butlast l) \<and> CHR 0x00 \<notin> set l \<and> length l < LINE_LEN"

lemma fgets_line:
  assumes "line_ok l"
  shows "fgets LINE_LEN (l @ r) = Some (l, r)"
proof -
  have l: "l = butlast l @ [CHR 0x0A]" using assms by (metis append_butlast_last_id line_ok_def)
  have "takeWhile (\<lambda>c. c \<noteq> CHR 0x0A) (l @ r) = butlast l"
    using assms by (subst l) (auto simp: line_ok_def takeWhile_append)
  moreover have "length (butlast l) + 1 = length l" "length l \<le> LINE_LEN - 1" using assms by (auto simp: line_ok_def)
  ultimately show ?thesis using assms by (auto simp: fgets_def line_ok_def Let_def)
qed

lemma cstring_line: "line_ok l \<Longrightarrow> cstring l = l"
  by (auto simp: cstring_def line_ok_def takeWhile_eq_all_conv)

lemma read_line_simps:
  "streams s (sid i) = \<lparr>s_rest = concat (l # ls), s_eof = False\<rparr> \<Longrightarrow> line_ok l \<Longrightarrow>
     read_line sid i s =
       s\<lparr>thisline := (thisline s)(i \<mapsto> l), streams := (streams s)(sid i := \<lparr>s_rest = concat ls, s_eof = False\<rparr>)\<rparr>"
  "streams s (sid i) = \<lparr>s_rest = [], s_eof = False\<rparr> \<Longrightarrow>
     read_line sid i s = s\<lparr>streams := (streams s)(sid i := \<lparr>s_rest = [], s_eof = True\<rparr>)\<rparr>"
  using fgets_line [of l] by (auto simp: read_line_def stream_gets_def cstring_line fgets_def [of _ "[]"] line_ok_def)

section \<open>The loop merges the files\<close>

lemma comm_tail_lines:
  assumes "list_all line_ok ls" "thisline s i = Some l" "streams s (sid i) = \<lparr>s_rest = concat ls, s_eof = False\<rparr>"
    "order < 0 \<and> i \<noteq> 0 \<or> order > 0 \<and> i = 0"
  shows "\<exists>s'. comm_tail cf sid order i s = Some s' \<and> comm_out s' = comm_out s @ concat (map (\<lambda>l. writeline cf l i) (l # ls))"
  using assms
proof (induction ls arbitrary: l s)
  case Nil
  then show ?case
    by (subst comm_tail.simps)
      (simp add: feof_def put_line_def read_line_simps, subst comm_tail.simps, simp add: feof_def)
next
  case (Cons k ls)
  let ?s = "read_line sid i (put_line cf l i s)"
  have s: "?s = s\<lparr>comm_out := comm_out s @ writeline cf l i, thisline := (thisline s)(i \<mapsto> k),
      streams := (streams s)(sid i := \<lparr>s_rest = concat ls, s_eof = False\<rparr>)\<rparr>"
    using Cons.prems by (simp add: put_line_def read_line_simps)
  have "\<exists>s'. comm_tail cf sid order i ?s = Some s' \<and> comm_out s' = comm_out ?s @ concat (map (\<lambda>l. writeline cf l i) (k # ls))"
    by (rule Cons.IH) (use Cons.prems s in auto)
  then show ?case using Cons.prems by (subst comm_tail.simps) (auto simp: feof_def s)
qed

lemma comm_loop_step:
  assumes "thisline s 0 = Some a" "thisline s 1 = Some b" "a \<noteq> []" "b \<noteq> []"
  shows "comm_loop cf sid s =
    (let s' = comm_write cf (feof sid 0 s) (feof sid 1 s) (strcmp_sign a b) a b s
     in if feof sid 0 s \<or> feof sid 1 s then comm_tail cf sid (strcmp_sign a b) (if feof sid 0 s then 1 else 0) s'
        else comm_loop cf sid (comm_read sid (strcmp_sign a b) s'))"
  using assms by (subst comm_loop.simps) (simp add: line_order_less Let_def)

text \<open>One file has ended, and its last line is smaller than the line of the other one.\<close>

lemma comm_loop_eof0:
  assumes "list_all line_ok ys" "thisline s 0 = Some x" "thisline s 1 = Some y" "x \<noteq> []" "y \<noteq> []" "string_less x y"
    "feof sid 0 s" "streams s (sid 1) = \<lparr>s_rest = concat ys, s_eof = False\<rparr>"
  shows "\<exists>s'. comm_loop cf sid s = Some s' \<and> comm_out s' = comm_out s @ concat (map (\<lambda>l. writeline cf l 1) (y # ys))"
proof -
  have o: "strcmp_sign x y < 0" using assms(6) strcmp_sign_less by blast
  then have "comm_write cf True False (strcmp_sign x y) x y s = s" by (simp add: comm_write_def)
  then have "comm_loop cf sid s = comm_tail cf sid (strcmp_sign x y) 1 s"
    using comm_loop_step [OF assms(2-5), of cf sid] assms(7,8) by (simp add: feof_def)
  then show ?thesis using comm_tail_lines [where i = 1 and sid = sid, OF assms(1,3,8), of "strcmp_sign x y" cf] o by simp
qed

lemma comm_loop_eof1:
  assumes "list_all line_ok xs" "thisline s 0 = Some x" "thisline s 1 = Some y" "x \<noteq> []" "y \<noteq> []" "string_less y x"
    "feof sid 1 s" "streams s (sid 0) = \<lparr>s_rest = concat xs, s_eof = False\<rparr>"
  shows "\<exists>s'. comm_loop cf sid s = Some s' \<and> comm_out s' = comm_out s @ concat (map (\<lambda>l. writeline cf l 0) (x # xs))"
proof -
  have o: "0 < strcmp_sign x y" using assms(6) strcmp_sign_less by blast
  then have "comm_write cf False True (strcmp_sign x y) x y s = s" by (simp add: comm_write_def)
  then have "comm_loop cf sid s = comm_tail cf sid (strcmp_sign x y) 0 s"
    using comm_loop_step [OF assms(2-5), of cf sid] assms(7,8) by (simp add: feof_def)
  then show ?thesis using comm_tail_lines [where i = 0 and sid = sid, OF assms(1,2,8), of "strcmp_sign x y" cf] o by simp
qed

lemma comm_loop_eof:
  assumes "thisline s 0 = Some x" "thisline s 1 = Some x" "x \<noteq> []" "feof sid 0 s" "feof sid 1 s"
  shows "comm_loop cf sid s = Some s"
proof -
  have "comm_write cf True True (strcmp_sign x x) x x s = s" by (simp add: comm_write_def strcmp_sign_zero)
  then show ?thesis
    using comm_loop_step [OF assms(1,2,3,3), of cf sid] assms(4,5) by (simp add: comm_tail.simps)
qed

definition at_lines :: "(nat \<Rightarrow> nat) \<Rightarrow> comm_state \<Rightarrow> nat \<Rightarrow> string \<Rightarrow> string list \<Rightarrow> bool" where
  "at_lines sid s i x xs \<longleftrightarrow>
     thisline s i = Some x \<and> streams s (sid i) = \<lparr>s_rest = concat xs, s_eof = False\<rparr> \<and> list_all line_ok (x # xs) \<and> increasing (x # xs)"

abbreviation write_all :: "comm_conf \<Rightarrow> (nat \<times> string) list \<Rightarrow> string" where
  "write_all cf ps \<equiv> concat (map (\<lambda>(c, l). writeline cf l c) ps)"

lemma at_lines_read:
  assumes "at_lines sid s i x (k # ks)"
  shows "at_lines sid (read_line sid i s) i k ks" "comm_out (read_line sid i s) = comm_out s" "string_less x k"
  using assms by (auto simp: at_lines_def read_line_simps)

lemma at_lines_other:
  assumes "j \<noteq> i" "sid j \<noteq> sid i"
  shows "at_lines sid (read_line sid i s) j y ys \<longleftrightarrow> at_lines sid s j y ys"
    "feof sid j (read_line sid i s) \<longleftrightarrow> feof sid j s" "thisline (read_line sid i s) j = thisline s j"
  using assms by (auto simp: at_lines_def feof_def read_line_streams) (auto simp: read_line_def split: prod.splits option.splits)

lemma at_lines_end:
  assumes "at_lines sid s i x []"
  shows "feof sid i (read_line sid i s)" "thisline (read_line sid i s) i = Some x" "comm_out (read_line sid i s) = comm_out s"
  using assms by (auto simp: at_lines_def read_line_simps feof_def)

lemma at_lines_put [simp]:
  "at_lines sid (put_line cf l c s) i x xs \<longleftrightarrow> at_lines sid s i x xs" "comm_out (put_line cf l c s) = comm_out s @ writeline cf l c"
  by (simp_all add: at_lines_def put_line_def)

lemma at_lines_ok: "at_lines sid s i x xs \<Longrightarrow> list_all line_ok xs" "at_lines sid s i x xs \<Longrightarrow> x \<noteq> []"
  "at_lines sid s i x xs \<Longrightarrow> thisline s i = Some x" "at_lines sid s i x xs \<Longrightarrow> \<not> feof sid i s"
  "at_lines sid s i x xs \<Longrightarrow> streams s (sid i) = \<lparr>s_rest = concat xs, s_eof = False\<rparr>"
  by (auto simp: at_lines_def line_ok_def feof_def)

definition merges :: "comm_conf \<Rightarrow> (nat \<Rightarrow> nat) \<Rightarrow> comm_state \<Rightarrow> (nat \<times> string) list \<Rightarrow> bool" where
  "merges cf sid s ps \<longleftrightarrow> (\<exists>s'. comm_loop cf sid s = Some s' \<and> comm_out s' = comm_out s @ write_all cf ps)"

text \<open>The three cases of one round, when the loop merges what is left.\<close>

lemma round_less:
  assumes "at_lines sid s 0 x xs" "at_lines sid s 1 y ys" "string_less x y"
    "merges cf sid (read_line sid 0 (put_line cf x 0 s)) ps" "comm_out (read_line sid 0 (put_line cf x 0 s)) = comm_out s @ writeline cf x 0"
  shows "merges cf sid s ((0, x) # ps)"
proof -
  have "strcmp_sign x y < 0" using assms(3) strcmp_sign_less by blast
  then have "comm_loop cf sid s = comm_loop cf sid (read_line sid 0 (put_line cf x 0 s))"
    using comm_loop_step [OF at_lines_ok(3) [OF assms(1)] at_lines_ok(3) [OF assms(2)] at_lines_ok(2) [OF assms(1)] at_lines_ok(2) [OF assms(2)], of cf sid]
      at_lines_ok(4) [OF assms(1)] at_lines_ok(4) [OF assms(2)]
    by (simp add: comm_write_def comm_read_def)
  then show ?thesis using assms(4,5) by (simp add: merges_def)
qed

lemma round_greater:
  assumes "at_lines sid s 0 x xs" "at_lines sid s 1 y ys" "string_less y x"
    "merges cf sid (read_line sid 1 (put_line cf y 1 s)) ps" "comm_out (read_line sid 1 (put_line cf y 1 s)) = comm_out s @ writeline cf y 1"
  shows "merges cf sid s ((1, y) # ps)"
proof -
  have "0 < strcmp_sign x y" using assms(3) strcmp_sign_less by blast
  then have "comm_loop cf sid s = comm_loop cf sid (read_line sid 1 (put_line cf y 1 s))"
    using comm_loop_step [OF at_lines_ok(3) [OF assms(1)] at_lines_ok(3) [OF assms(2)] at_lines_ok(2) [OF assms(1)] at_lines_ok(2) [OF assms(2)], of cf sid]
      at_lines_ok(4) [OF assms(1)] at_lines_ok(4) [OF assms(2)]
    by (simp add: comm_write_def comm_read_def)
  then show ?thesis using assms(4,5) by (simp add: merges_def)
qed

lemma round_equal:
  assumes "at_lines sid s 0 x xs" "at_lines sid s 1 x ys"
    "merges cf sid (read_line sid 0 (read_line sid 1 (put_line cf x 2 s))) ps"
    "comm_out (read_line sid 0 (read_line sid 1 (put_line cf x 2 s))) = comm_out s @ writeline cf x 2"
  shows "merges cf sid s ((2, x) # ps)"
proof -
  have "strcmp_sign x x = 0" using strcmp_sign_zero by blast
  then have "comm_loop cf sid s = comm_loop cf sid (read_line sid 0 (read_line sid 1 (put_line cf x 2 s)))"
    using comm_loop_step [OF at_lines_ok(3) [OF assms(1)] at_lines_ok(3) [OF assms(2)] at_lines_ok(2) [OF assms(1)] at_lines_ok(2) [OF assms(2)], of cf sid]
      at_lines_ok(4) [OF assms(1)] at_lines_ok(4) [OF assms(2)]
    by (simp add: comm_write_def comm_read_def)
  then show ?thesis using assms(3,4) by (simp add: merges_def)
qed

lemma comm_loop_merge:
  assumes "sid 0 \<noteq> sid 1" "at_lines sid s 0 x xs" "at_lines sid s 1 y ys"
  shows "merges cf sid s (comm_merge (x # xs) (y # ys))"
  using assms(2,3)
proof (induction "length xs + length ys" arbitrary: x xs y ys s rule: less_induct)
  case less
  note d = assms(1) assms(1) [symmetric]
  have ends0: "merges cf sid t (map (Pair 1) (z # zs))"
    if "feof sid 0 t" "thisline t 0 = Some w" "w \<noteq> []" "at_lines sid t 1 z zs" "string_less w z" for t w z zs
    using comm_loop_eof0 [where x = w and y = z and s = t and sid = sid] that at_lines_ok [OF that(4)] by (simp add: merges_def comp_def)
  have ends1: "merges cf sid t (map (Pair 0) (z # zs))"
    if "feof sid 1 t" "thisline t 1 = Some w" "w \<noteq> []" "at_lines sid t 0 z zs" "string_less w z" for t w z zs
    using comm_loop_eof1 [where x = z and y = w and s = t and sid = sid] that at_lines_ok [OF that(4)] by (simp add: merges_def comp_def)
  consider "x = y" | "string_less x y" "x \<noteq> y" | "string_less y x" "x \<noteq> y" "\<not> string_less x y"
    using string_less_linear string_less_irrefl by blast
  then show ?case
  proof cases
    case 2
    let ?s = "put_line cf x 0 s"
    have m: "merges cf sid (read_line sid 0 ?s) (comm_merge xs (y # ys)) \<and> comm_out (read_line sid 0 ?s) = comm_out s @ writeline cf x 0"
    proof (cases xs)
      case Nil
      then show ?thesis
        using ends0 [of "read_line sid 0 ?s" x y ys] at_lines_end [of sid ?s 0 x] at_lines_other [of 1 0 sid ?s] less.prems 2 d at_lines_ok by simp
    next
      case (Cons k ks)
      then show ?thesis
        using less.hyps [of ks ys "read_line sid 0 ?s" k y] at_lines_read [of sid ?s 0 x k ks] at_lines_other [of 1 0 sid ?s] less.prems d by simp
    qed
    then show ?thesis using round_less [OF less.prems 2(1)] 2 by simp
  next
    case 3
    let ?s = "put_line cf y 1 s"
    have m: "merges cf sid (read_line sid 1 ?s) (comm_merge (x # xs) ys) \<and> comm_out (read_line sid 1 ?s) = comm_out s @ writeline cf y 1"
    proof (cases ys)
      case Nil
      then show ?thesis
        using ends1 [of "read_line sid 1 ?s" y x xs] at_lines_end [of sid ?s 1 y] at_lines_other [of 0 1 sid ?s] less.prems 3 d at_lines_ok by simp
    next
      case (Cons k ks)
      then show ?thesis
        using less.hyps [of xs ks "read_line sid 1 ?s" x k] at_lines_read [of sid ?s 1 y k ks] at_lines_other [of 0 1 sid ?s] less.prems d by simp
    qed
    then show ?thesis using round_greater [OF less.prems 3(1)] 3 by simp
  next
    case 1
    let ?s = "put_line cf x 2 s"
    let ?u = "read_line sid 1 ?s"
    have at: "at_lines sid ?s 0 x xs" "at_lines sid ?s 1 x ys" "at_lines sid ?u 0 x xs"
      using less.prems 1 at_lines_other [of 0 1 sid ?s] d by simp_all
    note other = at_lines_other [of 1 0 sid ?u, OF _ d(2)]
    have m: "merges cf sid (read_line sid 0 ?u) (comm_merge xs ys) \<and> comm_out (read_line sid 0 ?u) = comm_out s @ writeline cf x 2"
    proof (cases xs)
      case Nil
      note e = at_lines_end [OF at(3) [unfolded Nil]]
      show ?thesis
      proof (cases ys)
        case N: Nil
        then show ?thesis
          using comm_loop_eof [of "read_line sid 0 ?u" x sid cf] e at_lines_end [OF at(2) [unfolded N]] other at_lines_ok(2) [OF at(1)] Nil
          by (simp add: merges_def)
      next
        case (Cons k ks)
        then show ?thesis
          using ends0 [of "read_line sid 0 ?u" x k ks] e at_lines_read [OF at(2) [unfolded Cons]] other at_lines_ok(2) [OF at(1)] Nil by simp
      qed
    next
      case (Cons k ks)
      note r = at_lines_read [OF at(3) [unfolded Cons]]
      show ?thesis
      proof (cases ys)
        case Nil
        then show ?thesis
          using ends1 [of "read_line sid 0 ?u" x k ks] r at_lines_end [OF at(2) [unfolded Nil]] other at_lines_ok(2) [OF at(1)] Cons by simp
      next
        case C: (Cons j js)
        then show ?thesis
          using less.hyps [of ks js "read_line sid 0 ?u" k j] r at_lines_read [OF at(2) [unfolded C]] other Cons by simp
      qed
    qed
    then show ?thesis using round_equal [OF less.prems(1)] less.prems(2) 1 by simp
  qed
qed

text \<open>
  C19. For two files with strictly increasing lines, each file with at least one line and each line of
  fewer than 100 characters with its newline and no zero, and names that do not begin with \<open>=\<close>, \<open>comm\<close>
  ends and prints the lines of both files merged: the lines of the first file only, of the second file
  only and of both, each once, in the columns that are not suppressed. (Other files are treated
  differently by the code, as \<open>comm_duplicate_lost\<close> and \<open>comm_empty_file\<close> below show.)
\<close>

theorem comm_merges:
  assumes "increasing xs" "increasing ys" "xs \<noteq> []" "ys \<noteq> []" "list_all line_ok xs" "list_all line_ok ys"
    "files name0 = Some (concat xs)" "files name1 = Some (concat ys)"
    "take 1 name0 \<noteq> ''=''" "take 1 name1 \<noteq> ''=''"
  shows "comm_main opt1 opt2 opt3 files stdin [name0, name1] =
      Comm_exit (write_all \<lparr>only_file_1 = \<not> opt1, only_file_2 = \<not> opt2, both = \<not> opt3\<rparr> (comm_merge xs ys)) \<and>
    column 0 (comm_merge xs ys) = filter (\<lambda>l. l \<notin> set ys) xs \<and>
    column 1 (comm_merge xs ys) = filter (\<lambda>l. l \<notin> set xs) ys \<and>
    column 2 (comm_merge xs ys) = filter (\<lambda>l. l \<in> set ys) xs"
proof -
  let ?cf = "\<lparr>only_file_1 = \<not> opt1, only_file_2 = \<not> opt2, both = \<not> opt3\<rparr>"
  obtain x xs' y ys' where xs: "xs = x # xs'" and ys: "ys = y # ys'" using assms(3,4) by (metis list.exhaust)
  let ?sid = "\<lambda>i. if i = 0 then Suc 0 else Suc (Suc 0)"
  let ?st = "\<lparr>s_rest = stdin, s_eof = False\<rparr>"
  define s where "s = \<lparr>thisline = [0 \<mapsto> x, 1 \<mapsto> y],
    streams = (\<lambda>_. ?st)(Suc 0 := \<lparr>s_rest = concat xs', s_eof = False\<rparr>, Suc (Suc 0) := \<lparr>s_rest = concat ys', s_eof = False\<rparr>), comm_out = []\<rparr>"
  have names: "\<not> is_stdin name0" "\<not> is_stdin name1" using assms(9,10) by (auto simp: is_stdin_def split: list.split)
  have "at_lines ?sid s 0 x xs'" "at_lines ?sid s 1 y ys'" using assms xs ys by (simp_all add: s_def at_lines_def)
  then have "merges ?cf ?sid s (comm_merge xs ys)" using comm_loop_merge [of ?sid s x xs' y ys' ?cf] xs ys by simp
  then obtain s' where "comm_loop ?cf ?sid s = Some s'" "comm_out s' = write_all ?cf (comm_merge xs ys)"
    by (auto simp: merges_def s_def)
  moreover have "comm_main opt1 opt2 opt3 files stdin [name0, name1] =
      (case comm_loop ?cf ?sid s of None \<Rightarrow> Comm_uninitialised | Some s \<Rightarrow> Comm_exit (comm_out s))"
    using assms(5-8) names xs ys by (simp add: comm_main_def cmp_files_def open_stream_def read_line_simps s_def)
  ultimately show ?thesis using comm_merge_columns [OF assms(1,2)] by simp
qed

text \<open>
  Lines that occur more often in one file than in the other are lost at the end, because the loop over the rest of a file prints nothing
  when its line is the last one of the other file.
\<close>

lemma comm_duplicate_lost:
  assumes "line_ok l" "files name0 = Some (l @ l)" "files name1 = Some l" "\<not> is_stdin name0" "\<not> is_stdin name1"
  shows "comm_main opt1 opt2 opt3 files stdin [name0, name1] =
    Comm_exit (writeline \<lparr>only_file_1 = \<not> opt1, only_file_2 = \<not> opt2, both = \<not> opt3\<rparr> l 2)"
proof -
  let ?cf = "\<lparr>only_file_1 = \<not> opt1, only_file_2 = \<not> opt2, both = \<not> opt3\<rparr>"
  let ?sid = "\<lambda>i. if i = 0 then Suc 0 else Suc (Suc 0)"
  have l: "l \<noteq> []" "strcmp_sign l l = 0" using assms(1) strcmp_sign_zero by (auto simp: line_ok_def)
  define s where "s a c e out = \<lparr>thisline = [0 \<mapsto> l, Suc 0 \<mapsto> l], streams = (\<lambda>_. \<lparr>s_rest = stdin, s_eof = False\<rparr>)
      (Suc 0 := \<lparr>s_rest = a, s_eof = c\<rparr>, Suc (Suc 0) := \<lparr>s_rest = [], s_eof = e\<rparr>), comm_out = out\<rparr>" for a c e out
  have line: "thisline (s a c e out) 0 = Some l" "thisline (s a c e out) 1 = Some l" "feof ?sid 0 (s a c e out) = c" "feof ?sid 1 (s a c e out) = e" for a c e out
    by (simp_all add: s_def feof_def)
  have r1: "read_line ?sid (Suc 0) (s l False False out) = s l False True out" for out by (simp add: s_def read_line_simps)
  have r0: "read_line ?sid 0 (s l False True out) = s [] False True out" "read_line ?sid 0 (s [] False True out) = s [] True True out" for out
    using assms(1) read_line_simps(1) [of "s l False True out" ?sid 0 l "[]"] read_line_simps(2) [of "s [] False True out" ?sid 0]
    by (auto simp: s_def fun_eq_iff)
  have p: "put_line ?cf l 2 (s a c e out) = s a c e (out @ writeline ?cf l 2)" for a c e out by (simp add: s_def put_line_def)
  have step: "comm_loop ?cf ?sid (s a c e out) =
      (if c \<or> e then comm_tail ?cf ?sid 0 (if c then 1 else 0) (s a c e out)
       else comm_loop ?cf ?sid (read_line ?sid 0 (read_line ?sid (Suc 0) (s a c e (out @ writeline ?cf l 2)))))" for a c e out
    using comm_loop_step [OF line(1,2) [of a c e out] l(1,1), of ?cf ?sid] l(2)
    by (simp add: line [unfolded One_nat_def] comm_write_def comm_read_def p)
  have tail: "comm_tail ?cf ?sid 0 0 (s [] False True out) = Some (s [] True True out)" for out
    using r0(2) by (simp add: comm_tail.simps [of ?cf ?sid 0 0] line)
  have "comm_loop ?cf ?sid (s l False False []) = Some (s [] True True (writeline ?cf l 2))"
    by (subst step, simp only: if_False simp_thms r1 r0 append_Nil, subst step, simp add: tail)
  then show ?thesis
    using assms by (simp add: comm_main_def cmp_files_def open_stream_def read_line_simps(1) [where ls = "[l]", simplified]
      read_line_simps(1) [where ls = "[]", simplified]) (simp add: s_def)
qed

text \<open>A file without a line leaves the buffer uninitialised.\<close>

lemma comm_empty_file:
  assumes "files name0 = Some []" "\<not> is_stdin name0" "files name1 = Some t" "\<not> is_stdin name1"
  shows "comm_main opt1 opt2 opt3 files stdin [name0, name1] = Comm_uninitialised"
proof -
  have "thisline (read_line sid 1 s) 0 = thisline s 0" for sid s by (simp add: read_line_def split: prod.split option.split)
  then show ?thesis
    using assms by (simp add: comm_main_def cmp_files_def open_stream_def read_line_simps(2) comm_loop.simps)
qed

section \<open>An example\<close>

definition example_files :: "string \<Rightarrow> string option" where
  "example_files = [''f'' \<mapsto> [CHR ''b'', CHR 0x0A, CHR ''d'', CHR 0x0A], ''g'' \<mapsto> [CHR ''c'', CHR 0x0A, CHR ''d'', CHR 0x0A]]"

theorem comm_merges_witness:
  "comm_main False False True example_files [] [''f'', ''g''] = Comm_exit [CHR ''b'', CHR 0x0A, CHR 0x09, CHR ''c'', CHR 0x0A]"
proof -
  let ?xs = "[[CHR ''b'', CHR 0x0A], [CHR ''d'', CHR 0x0A]]" and ?ys = "[[CHR ''c'', CHR 0x0A], [CHR ''d'', CHR 0x0A]]"
  have "increasing ?xs" "increasing ?ys" "comm_merge ?xs ?ys = [(0, ?xs ! 0), (1, ?ys ! 0), (2, ?xs ! 1)]"
    by (simp_all add: string_less_def)
  moreover have "list_all line_ok ?xs" "list_all line_ok ?ys" by (simp_all add: line_ok_def LINE_LEN_def)
  ultimately show ?thesis
    using comm_merges [of ?xs ?ys example_files "''f''" "''g''" False False True "[]"]
    by (simp add: example_files_def is_stdin_def writeline_def tab_char_def)
qed

end
