(* ===== verification/Spec2Isabelle.thy ===== *)
theory Spec2Isabelle
  imports Udhcp_Server Udhcp_Client Udhcp_Arp Expr Uucode Tr Ash_Arith Hash_Sum Cksum Crond Cal Cut Test_Cmd Parse_Mode Comm
begin

text \<open>
  \<^bold>\<open>BusyBox: DHCP server and client, text applets, checksums, cron and the shell, in Isabelle/HOL.\<close>

  The repository is a multi-call binary of Unix tools. This development covers the parts with the
  most logic of their own: the DHCP programs \<open>udhcpd\<close> and \<open>udhcpc\<close> (\<open>networking/udhcp\<close>), the applets
  \<open>expr\<close>, \<open>test\<close>, \<open>uuencode\<close>, \<open>uudecode\<close>, \<open>tr\<close>, \<open>cut\<close>, \<open>comm\<close>, \<open>cal\<close>, \<open>cksum\<close>, \<open>sum\<close>, \<open>md5sum\<close> and \<open>sha1sum\<close> (\<open>coreutils\<close>, with their
  parts of \<open>libbb\<close>), the daemon \<open>crond\<close> (\<open>miscutils\<close>), and the variables and the arithmetic of the shell \<open>ash\<close> (\<open>shell\<close>).

  \<^bold>\<open>Data model.\<close> A 32-bit little-endian target with unsigned characters, as the makefile asks for
  (\<open>-funsigned-char\<close>). Words keep their width, so \<open>+\<close> and \<open>-\<close> wrap around. C arrays are lists; an
  access outside of an array (\<open>rd\<close>, \<open>wr\<close>, \<open>rd_range\<close> in \<open>Prelude\<close>) is \<open>None\<close>, which is the value of
  every operation that leaves the defined behaviour of C. C strings (\<open>C_Lib\<close>) are the characters in
  front of the terminating zero. Structures are records with the source's fields, errors are values
  of a sum or option type. Clock, random numbers, the results of system calls, the resolver, and
  the regular expressions of the C library are arguments of the definitions.

  \<^bold>\<open>The DHCP programs.\<close> Server and client share the message, its options and the way to the wire.

  \<^item> \<open>Udhcp_Options\<close> is \<open>options.c\<close> with the message of \<open>packet.h\<close>: \<open>get_option\<close>, \<open>end_option\<close>,
    \<open>add_option_string\<close>, \<open>add_simple_option\<close> and the table \<open>dhcp_options\<close>. The locale \<open>option_field\<close>
    states the abstract contract, a list of codes with their data in a field of 308 bytes; its
    interpretation \<open>optf\<close> is on the model of the code.
  \<^item> \<open>Udhcp_Packet\<close> is \<open>packet.c\<close> with \<open>get_raw_packet\<close> of \<open>clientpacket.c\<close>: memory layout, checksum,
    header, sending and both ways to receive.
  \<^item> \<open>Udhcp_Leases\<close> is \<open>leases.c\<close> and \<open>static_leases.c\<close>: the array of leases, searched by either
    address. The locale \<open>keyed_table\<close> is a table with unique keys, interpreted for both of them
    (\<open>yi\<close>, \<open>ch\<close>). The search loop \<open>find_address_loop\<close> is a \<open>partial_function\<close>; that it returns is
    proved (\<open>find_address_correct\<close>).
  \<^item> \<open>Udhcp_Files\<close> is \<open>files.c\<close>: the configuration file with its readers, and the lease file.
  \<^item> \<open>Udhcp_Server\<close> is \<open>serverpacket.c\<close> and \<open>dhcpd.c\<close>. The state is \<open>dhcpd_state\<close>; \<open>handle_packet\<close> is
    the switch over the message types and \<open>srv_reach\<close> the states the main loop reaches. Every handler
    keeps the invariant of the lease table (locale \<open>lease_handler\<close>), and, with a pool of dynamic
    leases only, the leases of other clients (locale \<open>live_handler\<close>, an extension of the first).
  \<^item> \<open>Udhcp_Script\<close> is \<open>script.c\<close>: the environment of the client's script, with the sizes of its
    buffers.
  \<^item> \<open>Udhcp_Client\<close> is \<open>clientpacket.c\<close> and \<open>dhcpc.c\<close>: command line, messages, and the state machine,
    one definition per branch of the main loop. \<open>cli_reach\<close> are the reachable states; the locale
    \<open>client_handler\<close> is the contract of a branch and \<open>udhcpc_step\<close> the whole turn.
  \<^item> \<open>Udhcp_Arp\<close> is \<open>arpping.c\<close>: the probe of an address, over a list of what the socket delivers.

  The programs meet in \<open>server_ack_binds_client\<close> below: the frame of the server makes a waiting
  client bound to what the server entered in its table.

  \<^bold>\<open>The applets.\<close>

  \<^item> \<open>Expr\<close> is \<open>expr.c\<close>: the recursive descent \<open>eval\<close> to \<open>eval7\<close> over the argument vector, one function
    per level of precedence, with the coercions and the operator \<open>:\<close>. The mutual recursion ends
    because every level consumes arguments (\<open>eval_ends\<close>). The specification is the type \<open>expr_tree\<close>
    with a compositional semantics and a printer.
  \<^item> \<open>Test_Cmd\<close> is \<open>test.c\<close>, the command \<open>[\<close> of the shells: the lexer and the evaluator \<open>oexpr\<close> to \<open>primary\<close> with their
    global pointer into the argument vector, the special cases for few arguments, and the file tests with the
    memory of the groups of the process. The specification is the type \<open>test_tree\<close> with a semantics and the words of a tree.
  \<^item> \<open>Parse_Mode\<close> is \<open>libbb/parse_mode.c\<close>, the file modes of \<open>chmod\<close>, against lists of clauses with a meaning of their own.
  \<^item> \<open>Comm\<close> is \<open>comm.c\<close>: the merge of two files through line buffers and end-of-file flags, against the differences and the
    intersection of sorted lists.
  \<^item> \<open>Uucode\<close> is \<open>uuencode.c\<close> and \<open>uudecode.c\<close>. The locale \<open>sextet_code\<close> is a table of 64 digits with
    the decoding it needs, interpreted for both codes (\<open>std\<close>, \<open>b64\<close>).
  \<^item> \<open>Tr\<close> is \<open>tr.c\<close> with \<open>process_escape_sequence.c\<close>: options, the expansion of the arguments, the translation
    vector, and the conversion loop over the chunks that \<open>read\<close> returns, against a specification
    on the whole input.
  \<^item> \<open>Cut\<close> is \<open>cut.c\<close>: the parser of the lists of positions and the loops over characters, fields and lines,
    against the set of positions that the list denotes. \<open>qsort\<close> is a parameter with its contract.
  \<^item> \<open>Cal\<close> is \<open>cal.c\<close>: the arithmetic of the days, and the text in its buffers. The specification counts
    the days of the calendar one year after the other; \<open>Xgetularg\<close> is \<open>libbb/xgetularg.c\<close>, the numbers on
    the command line.
  \<^item> \<open>Cksum\<close> is \<open>cksum.c\<close> and \<open>sum.c\<close> with the table of \<open>libbb/crc32.c\<close>. The specification of the CRC is
    the long division of polynomials over the field with two elements; the shift register between
    the table and the division is \<open>crc_bit\<close>.
  \<^item> \<open>Block_Hash\<close> is what MD5 and SHA-1 share: blocks, padding, and the locale \<open>stream_hash\<close>, the contract
    of the functions \<open>begin\<close>, \<open>hash\<close> and \<open>end\<close>. \<open>Md5\<close> is \<open>libbb/md5.c\<close> with its four configurable bodies
    and \<open>Sha1\<close> is \<open>libbb/sha1.c\<close>; each interprets the locale (\<open>md5\<close>, \<open>sha1\<close>) with the algorithm of its
    standard as the compression. \<open>Hash_Sum\<close> is \<open>md5_sha1_sum.c\<close>, the applets over any sequence of reads.

  \<^bold>\<open>The daemon \<open>crond\<close>.\<close>

  \<^item> \<open>Crond_Field\<close> is \<open>ParseField\<close> of \<open>crond.c\<close>, against the set of indices that a list of values, ranges and
    steps denotes. The counter of the code against endless loops is the fuel of \<open>fill\<close>.
  \<^item> \<open>Crond\<close> is the rest of \<open>crond.c\<close>: the lines of a crontab, the database of files with \<open>SynchronizeFile\<close>,
    \<open>SynchronizeDir\<close>, \<open>DeleteFile\<close> and \<open>CheckUpdates\<close>, the search for due jobs (\<open>TestJobs\<close>), and their start and end
    (\<open>RunJobs\<close>, \<open>CheckJobs\<close>). \<open>crond_turn\<close> is a turn of the main loop and \<open>crond_reach\<close> are the states at its
    start; the locale \<open>base_op\<close> is the contract of the operations on the database.

  \<^bold>\<open>The shell \<open>ash\<close>.\<close>

  \<^item> \<open>Ash_Vars\<close> is the variable table of \<open>shell/ash.c\<close>: the hash buckets with \<open>setvareq\<close>, \<open>setvar\<close>,
    \<open>unsetvar\<close>, \<open>lookupvar\<close> and \<open>listvars\<close>, local variables (\<open>mklocal\<close>, \<open>poplocalvars\<close>) and the call of a
    function (\<open>evalfun\<close>). The abstract view of a table is the map \<open>env\<close> from names to values; scripts of
    assignments, \<open>local\<close> and calls have a semantics with a stack of scopes.
  \<^item> \<open>Ash_Arith\<close> is the evaluator of \<open>$((...))\<close> and \<open>let\<close> (\<open>arith\<close>): the scanner, the two stacks for numbers
    and operators, precedences, assignment to variables through \<open>Ash_Vars\<close>, and variables whose value
    is an expression. The specification is a type of trees with a semantics and the texts of a tree.

  \<^bold>\<open>Loops and fuel.\<close> Loops are recursive functions with termination proofs; nested recursion of the
  parsers is justified by the arguments they consume. Loops over what the outside delivers (reads,
  frames, signals) recurse over the list of deliveries or are steps of a reachability relation.
  The evaluation of a variable whose value is an expression has no bound in the code; \<open>arith\<close> takes a
  bound on the depth, running over it is an error value of its own (\<open>Too_deep\<close>), and the theorems on it
  hold for every bound. The files that digests are computed of are the lists of what \<open>read\<close> returns.

  \<^bold>\<open>What the theorems show.\<close> For each component: well-formedness invariants that all operations keep
  (\<open>server_leases_unique\<close>, \<open>client_reach_inv\<close>, \<open>read_config_options\<close>, \<open>crond_invariant\<close>); absence of faults together
  with the functional result (\<open>sendACK_reply\<close>, \<open>fill_envp_in_bounds\<close>, \<open>get_option_in_bounds\<close>,
  \<open>tr_main_correct\<close>, \<open>ParseField_marks\<close>, \<open>cut_fields\<close>, \<open>comm_merges\<close>, \<open>test_in_bounds\<close>, \<open>parse_mode_keeps_type\<close>); what the main loop of a daemon does (\<open>crond_turn_runs\<close>); refinement of an abstract specification (\<open>option_field_refines\<close>,
  \<open>expr_computes_semantics\<close>, \<open>test_computes_tree\<close>, \<open>dynamic_scoping\<close>, \<open>arith_computes_tree\<close>); equality with the published
  algorithm (\<open>hash_file_digest\<close>, \<open>md5_bodies_rfc\<close>, \<open>cksum_posix\<close>) or with the calendar (\<open>cal_month\<close>); round trips of every format (\<open>raw_packet_received\<close>, \<open>parse_mode_clauses\<close>,
  \<open>lease_file_round_trip\<close>, \<open>uuencode_round_trip\<close>, \<open>checksums_round_trip\<close>); progress (\<open>silent_server_lease_lost\<close>,
  \<open>find_address_correct\<close>, \<open>eval_ends\<close>). Theorems on error behaviour state exactly what happens
  where the code leaves what its comments promise, on a concrete input or for a whole class.

  \<^bold>\<open>Not modelled.\<close> Opening of sockets and files, pid files, logging and the daemon call are sequences
  of system calls without decisions; the modelled loops take their results as inputs. Debug output
  (\<open>printStaticLeases\<close>) and memory management (\<open>freev\<close>) have no counterpart; the callbacks of shell
  variables are recorded and not run. The constants of MD5 are those of the table of RFC 1321; that
  they are the values of a sine is not shown. The other applets are left
  out: most are calls of the file system, of devices or of processes; the interpreters (\<open>awk\<close>, \<open>vi\<close>,
  \<open>hush\<close>, the parsers and the job control of the shells) and the decompressors are candidates for extensions.
\<close>

section \<open>From the server to the client\<close>

text \<open>The configured options have lengths that the script of the client can print.\<close>

definition config_sized :: "server_config_t \<Rightarrow> bool" where
  "config_sized cfg \<longleftrightarrow> (\<forall>d \<in> set (sc_options cfg). \<forall>opt \<in> set dhcp_options.
     ocode opt = d ! 0 \<longrightarrow> ocode opt = DHCP_VENDOROPTS \<or> sized opt (length d - 2))"

lemma foldl_tlv_add_map_of:
  "map_of (foldl (tlv_add cap) ts l) c = Some d \<Longrightarrow> map_of ts c = Some d \<or> (c, d) \<in> set l"
proof (induction l arbitrary: ts)
  case (Cons t l)
  from Cons.IH [of "tlv_add cap ts t"] Cons.prems have
    "map_of (tlv_add cap ts t) c = Some d \<or> (c, d) \<in> set l" by simp
  then show ?case
    by (cases t) (auto simp: tlv_add_def map_add_def split: if_splits option.splits)
qed simp

lemma sized_fixed:
  assumes "opt \<in> set dhcp_options"
  shows "ocode opt = DHCP_MESSAGE_TYPE \<Longrightarrow> sized opt 1"
    "ocode opt = DHCP_SERVER_ID \<or> ocode opt = DHCP_LEASE_TIME \<Longrightarrow> sized opt 4"
  using assms
  by (auto simp: dhcp_options_def sized_def option_type_defs option_lengths_def dhcp_code_defs)

lemma reply_sized:
  assumes "reply_ok cfg old type yi t p" "config_sized cfg"
  shows "options_sized p"
proof (rule options_sized_holds)
  show "holds p (reply_tlvs cfg type t)" using assms(1) by (simp add: reply_ok_def)
  fix opt d
  assume opt: "opt \<in> set dhcp_options" and m: "map_of (reply_tlvs cfg type t) (ocode opt) = Some d"
  from foldl_tlv_add_map_of [OF m [unfolded reply_tlvs_def]]
  consider "ocode opt = DHCP_MESSAGE_TYPE" "d = [type]"
    | "ocode opt = DHCP_SERVER_ID \<or> ocode opt = DHCP_LEASE_TIME" "length d = 4"
    | "(ocode opt, d) \<in> set (config_tlvs cfg)" by (auto split: if_splits)
  then show "ocode opt = DHCP_VENDOROPTS \<or> sized opt (length d)"
  proof cases
    case 3
    then obtain s where "s \<in> set (sc_options cfg)" "ocode opt = s ! 0" "length d = length s - 2"
      by (auto simp: config_tlvs_def)
    with assms(2) opt show ?thesis by (auto simp: config_sized_def)
  qed (use sized_fixed [OF opt] in auto)
qed

text \<open>A requesting client that listens on the raw socket and wants any server.\<close>

definition awaiting :: "client_state \<Rightarrow> dhcpMessage \<Rightarrow> bool" where
  "awaiting s old \<longleftrightarrow> cs_state s = REQUESTING \<and> listen_mode s = LISTEN_RAW \<and> cs_xid s = xid old \<and>
     take 6 (cc_arp (cs_config s)) = take 6 (chaddr old) \<and> rd (servername (cs_config s)) 0 = Some 0 \<and>
     msg_wf (cs_packet s) \<and> foreground (cs_config s) \<and> \<not> quit_after_lease (cs_config s)"

lemma reply_binds:
  assumes "awaiting s old" "reply_ok cfg old DHCPACK yi t p" "config_sized cfg"
    and "get_raw_packet (cs_packet s) (Some frame) = Some (548, p)"
  shows "\<exists>s' outs. on_packet i s (Some frame) eintr = Some (CliContinue s' outs) \<and>
    cs_state s' = BOUND \<and> requested_ip s' = yi \<and> lease s' = t \<and> timeout s' = t div 2 + ci_now i"
proof -
  let ?s = "s\<lparr>cs_packet := p\<rparr>"
  from assms(2) have h: "holds p (reply_tlvs cfg DHCPACK t)" and p: "msg_wf p" "xid p = xid old"
    "chaddr p = chaddr old" "yiaddr p = yi" by (simp_all add: reply_ok_def reply_header_def)
  obtain mptr where m: "get_option p DHCP_MESSAGE_TYPE = Some (Some mptr)" "ptr_rd p mptr 0 = Some DHCPACK"
    using get_option_byte [OF h, of DHCP_MESSAGE_TYPE DHCPACK] by auto
  obtain lptr where "get_option p DHCP_LEASE_TIME = Some (Some lptr)" "ptr_u32 p lptr = Some (htonl t)"
    using get_option_u32 [OF h, of DHCP_LEASE_TIME "htonl t"] by auto
  then have l: "ack_lease p = Some t" by (simp add: ack_lease_def)
  have "run_script e scr (Some (cs_packet ?s)) name \<noteq> None" for e scr name
    using fill_envp_Some [OF p(1) reply_sized [OF assms(2,3)], of e]
    by (auto simp: run_script_def split: option.splits)
  from on_ack_Some [OF _ this, of t i] assms(1) l
  have "\<exists>s' outs. on_ack i ?s = Some (CliContinue s' outs)" by (simp add: awaiting_def)
  then obtain s' outs where a: "on_ack i ?s = Some (CliContinue s' outs)" by blast
  have "on_packet i s (Some frame) eintr = on_ack i ?s"
    using assms(1,4) m p by (simp add: on_packet_def on_message_def awaiting_def our_server_def)
  with a on_ack_bound [OF a] l p show ?thesis by auto
qed

text \<open>
  C3. An acknowledgement of the server binds the client: for a request that was not relayed and
  with a working raw socket, \<open>sendACK\<close> puts a frame on the wire such that a client that waits
  in the requesting state for this transaction becomes bound on reading it, whatever the
  link layer appends, to the address that the server granted and for the time that the
  server entered in its lease table; building the environment of its script stays in bounds.
\<close>

theorem server_ack_binds_client:
  assumes "msg_wf old" "opts_ok (sc_options cfg)" "config_sized cfg" "ack_lease_time cfg old = Some t"
    and "giaddr old = 0" "sock_ok (net e)" "bind_ok (net e)" "0 \<le> sent (net e)"
    and "awaiting s old"
  shows "\<exists>hw frame. sendACK e cfg ls old yi =
      Some (0, fst (add_lease (now e) ls (chaddr old) yi t), Some (RawFrame (sc_ifindex cfg) hw frame)) \<and>
    (\<forall>i eintr garbage. \<exists>s' outs. on_packet i s (Some (frame @ garbage)) eintr = Some (CliContinue s' outs) \<and>
      cs_state s' = BOUND \<and> requested_ip s' = yi \<and> lease s' = t \<and> timeout s' = t div 2 + ci_now i)"
proof -
  obtain packet p where packet: "server_init_packet cfg old DHCPACK = Some packet"
    and p: "finish_reply cfg (packet\<lparr>yiaddr := yi\<rparr>) t = Some p" and ok: "reply_ok cfg old DHCPACK yi t p"
    using finish_reply_ok [OF assms(1,2)] by blast
  from ok have wf: "msg_wf p" and f: "cookie p = htonl DHCP_MAGIC" "giaddr p = 0" "chaddr p = chaddr old"
    "yiaddr p = yi" using assms(5) by (simp_all add: reply_ok_def reply_header_def)
  define dst where "dst =
      (if ciaddr p \<noteq> 0 then (ciaddr p, chaddr p)
       else if ntohs (flags p) AND BROADCAST_FLAG \<noteq> 0 then (INADDR_BROADCAST, MAC_BCAST_ADDR)
       else (yiaddr p, chaddr p))"
  obtain q where q: "raw_packet p (sc_server cfg) SERVER_PORT (fst dst) CLIENT_PORT = Some q"
    using raw_packet_Some [OF wf] by blast
  have "rd_range (snd dst) 0 6 = Some (take 6 (snd dst))"
    using wf by (simp add: dst_def rd_range_def msg_wf_def MAC_BCAST_ADDR_def)
  then have "send_packet (net e) cfg p False =
      Some (sent (net e), Some (RawFrame (sc_ifindex cfg) (take 6 (snd dst)) (packet_bytes q)))"
    using q assms(6,7) f(2)
    by (simp add: send_packet_def send_packet_to_client_def udhcp_raw_packet_def dst_def [symmetric] split_beta)
  then have "sendACK e cfg ls old yi =
      Some (0, fst (add_lease (now e) ls (chaddr old) yi t),
        Some (RawFrame (sc_ifindex cfg) (take 6 (snd dst)) (packet_bytes q)))"
    using assms(8) by (simp add: sendACK_def packet assms(4) p f)
  moreover have "get_raw_packet (cs_packet s) (Some (packet_bytes q @ garbage)) = Some (548, p)" for garbage
    using raw_packet_recv [OF wf _ f(1) q] assms(9) by (simp add: awaiting_def)
  ultimately show ?thesis using reply_binds [OF assms(9) ok assms(3)] by blast
qed

section \<open>Witnesses\<close>

definition sample_requesting :: client_state where
  "sample_requesting = sample_bound\<lparr>cs_state := REQUESTING, listen_mode := LISTEN_RAW\<rparr>"

theorem server_ack_binds_client_witness:
  "\<exists>ls' hw frame s' outs. sendACK sample_env sample_pool sample_other sample_msg 0x0100000A =
      Some (0, ls', Some (RawFrame 0 hw frame)) \<and>
    on_packet sample_input sample_requesting (Some (frame @ [])) False = Some (CliContinue s' outs) \<and>
    cs_state s' = BOUND \<and> requested_ip s' = 0x0100000A \<and> lease s' = 3600"
proof -
  have "opts_ok (sc_options sample_pool)" "config_sized sample_pool"
    by (simp_all add: opts_ok_def config_sized_def sample_pool_def server_config_init_def)
  moreover have "giaddr sample_msg = 0" "sock_ok (net sample_env)" "bind_ok (net sample_env)" "0 \<le> sent (net sample_env)"
    by (simp_all add: sample_msg_def sample_env_def sample_send_def)
  moreover have "awaiting sample_requesting sample_msg"
    by (simp add: awaiting_def sample_requesting_def sample_bound_def sample_client_def client_config_init_def
        sample_msg_def msg_wf_def zero_msg_def rd_def)
  moreover have "sc_ifindex sample_pool = 0" by (simp add: sample_pool_def server_config_init_def)
  ultimately show ?thesis
    using server_ack_binds_client [OF sample_msg_wf _ _ sample_ack_time, of sample_env sample_requesting
        sample_other "0x0100000A"] by (metis (no_types, lifting))
qed

end
